(* ===== verification/Naome_Prelude.thy ===== *)
theory Naome_Prelude
  imports Main "HOL-Library.Word"
begin

unbundle bit_operations_syntax

text \<open>
  Shared vocabulary of the NAOME development: machine integers, the result type of fallible Rust
  code, checked arithmetic, big-endian integers and the byte cursor that every decoder of the
  repository uses.

  \<^item> A Rust \<open>u8\<close>, \<open>u32\<close> or \<open>u64\<close> is a word of that width; a \<open>usize\<close> that only counts bytes, nodes or
    steps held in memory is a \<open>nat\<close>.
  \<^item> \<open>Result<T, E>\<close> is \<open>('e, 'a) outcome\<close> with the third constructor \<open>Panic\<close> for a failed \<open>expect\<close>,
    \<open>unwrap\<close>, \<open>assert!\<close> or index. A function that returns no \<open>Result\<close> but may panic returns an
    \<open>option\<close>, where \<open>None\<close> is the panic. The operator \<open>?\<close> is \<open>and_then\<close>.
  \<^item> A \<open>BTreeSet\<close> is the strictly ascending list of its elements (insertion is \<open>insort_insert\<close>), so
    that iteration order is part of the model; a \<open>BTreeMap\<close> used for lookups is a map.
\<close>

type_synonym u8 = "8 word"
type_synonym u32 = "32 word"
type_synonym u64 = "64 word"
type_synonym bytes = "u8 list"

text \<open>Equations that evaluate the model on closed terms, and facts about every run of a fallible step.\<close>

named_theorems outcome_simps
named_theorems codec_simps

section \<open>Fallible and panicking code\<close>

datatype ('e, 'a) outcome = Ok 'a | Err 'e | Panic

primrec and_then :: "('e, 'a) outcome \<Rightarrow> ('a \<Rightarrow> ('e, 'b) outcome) \<Rightarrow> ('e, 'b) outcome" where
  "and_then (Ok x) f = f x"
| "and_then (Err e) f = Err e"
| "and_then Panic f = Panic"

primrec map_err :: "('e \<Rightarrow> 'f) \<Rightarrow> ('e, 'a) outcome \<Rightarrow> ('f, 'a) outcome" where
  "map_err g (Ok x) = Ok x"
| "map_err g (Err e) = Err (g e)"
| "map_err g Panic = Panic"

primrec map_ok :: "('a \<Rightarrow> 'b) \<Rightarrow> ('e, 'a) outcome \<Rightarrow> ('e, 'b) outcome" where
  "map_ok g (Ok x) = Ok (g x)"
| "map_ok g (Err e) = Err e"
| "map_ok g Panic = Panic"

text \<open>\<open>Option::expect\<close> inside a function that returns a \<open>Result\<close>, and \<open>Option::ok_or\<close>.\<close>

primrec expect :: "'a option \<Rightarrow> ('e, 'a) outcome" where
  "expect (Some x) = Ok x"
| "expect None = Panic"

primrec ok_or :: "'e \<Rightarrow> 'a option \<Rightarrow> ('e, 'a) outcome" where
  "ok_or e (Some x) = Ok x"
| "ok_or e None = Err e"

text \<open>Calling a function that returns a \<open>Result\<close> and unwrapping it where an error is a panic.\<close>

primrec unwrap :: "('e, 'a) outcome \<Rightarrow> 'a option" where
  "unwrap (Ok x) = Some x"
| "unwrap (Err e) = None"
| "unwrap Panic = None"

text \<open>Indexing a slice: out of range is a panic, or \<open>None\<close> of \<open>slice::get\<close>.\<close>

definition element_at :: "'a list \<Rightarrow> nat \<Rightarrow> 'a option" where
  "element_at xs i = (if i < length xs then Some (xs ! i) else None)"

section \<open>Checked arithmetic\<close>

definition checked_add :: "'w::len word \<Rightarrow> 'w word \<Rightarrow> 'w word option" where
  "checked_add a b = (if a \<le> a + b then Some (a + b) else None)"

definition checked_sub :: "'w::len word \<Rightarrow> 'w word \<Rightarrow> 'w word option" where
  "checked_sub a b = (if b \<le> a then Some (a - b) else None)"

definition u32_try_from :: "nat \<Rightarrow> u32 option" where
  "u32_try_from n = (if unat (of_nat n :: u32) = n then Some (of_nat n) else None)"

section \<open>Big-endian integers\<close>

definition u32_to_be_bytes :: "u32 \<Rightarrow> bytes" where
  "u32_to_be_bytes w = [ucast (drop_bit 24 w), ucast (drop_bit 16 w), ucast (drop_bit 8 w), ucast w]"

definition u32_from_be_bytes :: "u8 \<Rightarrow> u8 \<Rightarrow> u8 \<Rightarrow> u8 \<Rightarrow> u32" where
  "u32_from_be_bytes a b c d =
     push_bit 24 (ucast a) OR (push_bit 16 (ucast b) OR (push_bit 8 (ucast c) OR ucast d))"

section \<open>The byte cursor\<close>

text \<open>
  Four modules of the repository declare the same private \<open>Cursor\<close>: a borrowed slice and a
  position. Every failing read reports that module's \<open>UnexpectedEnd\<close>, so the shared operations
  return an \<open>option\<close>.
\<close>

record cursor =
  cursor_bytes :: bytes
  cursor_position :: nat

definition cursor_new :: "bytes \<Rightarrow> cursor" where
  "cursor_new bs = \<lparr>cursor_bytes = bs, cursor_position = 0\<rparr>"

definition cursor_read_u8 :: "cursor \<Rightarrow> (u8 \<times> cursor) option" where
  "cursor_read_u8 c =
     (if cursor_position c < length (cursor_bytes c)
      then Some (cursor_bytes c ! cursor_position c, c\<lparr>cursor_position := cursor_position c + 1\<rparr>)
      else None)"

definition cursor_take :: "nat \<Rightarrow> cursor \<Rightarrow> (bytes \<times> cursor) option" where
  "cursor_take n c =
     (let stop = cursor_position c + n
      in if stop \<le> length (cursor_bytes c)
         then Some (take n (drop (cursor_position c) (cursor_bytes c)), c\<lparr>cursor_position := stop\<rparr>)
         else None)"

definition cursor_read_u32 :: "cursor \<Rightarrow> (u32 \<times> cursor) option" where
  "cursor_read_u32 c =
     (case cursor_take 4 c of
        Some ([a, b, d, e], c') \<Rightarrow> Some (u32_from_be_bytes a b d e, c')
      | _ \<Rightarrow> None)"

definition cursor_remaining :: "cursor \<Rightarrow> nat" where
  "cursor_remaining c = length (cursor_bytes c) - cursor_position c"

text \<open>What a decoder may still read, and the relation between a cursor and an advanced one.\<close>

definition cursor_rest :: "cursor \<Rightarrow> bytes" where
  "cursor_rest c = drop (cursor_position c) (cursor_bytes c)"

definition cursor_ok :: "cursor \<Rightarrow> bool" where
  "cursor_ok c \<longleftrightarrow> cursor_position c \<le> length (cursor_bytes c)"

definition advance :: "nat \<Rightarrow> cursor \<Rightarrow> cursor" where
  "advance n c = c\<lparr>cursor_position := cursor_position c + n\<rparr>"

definition consumes :: "cursor \<Rightarrow> bytes \<Rightarrow> cursor \<Rightarrow> bool" where
  "consumes c bs c' \<longleftrightarrow>
     c' = advance (length bs) c \<and> cursor_ok c' \<and> take (length bs) (cursor_rest c) = bs"

section \<open>Lemmas on results\<close>

lemma and_then_Ok [simp]: "and_then m f = Ok y \<longleftrightarrow> (\<exists>x. m = Ok x \<and> f x = Ok y)"
  by (cases m) auto

lemma and_then_Panic [simp]: "and_then m f = Panic \<longleftrightarrow> m = Panic \<or> (\<exists>x. m = Ok x \<and> f x = Panic)"
  by (cases m) auto

lemma and_then_Err [simp]: "and_then m f = Err e \<longleftrightarrow> m = Err e \<or> (\<exists>x. m = Ok x \<and> f x = Err e)"
  by (cases m) auto

lemma map_err_Ok [simp]: "map_err g m = Ok y \<longleftrightarrow> m = Ok y"
  by (cases m) auto

lemma map_err_Panic [simp]: "map_err g m = Panic \<longleftrightarrow> m = Panic"
  by (cases m) auto

lemma map_err_Err [simp]: "map_err g m = Err e \<longleftrightarrow> (\<exists>e'. m = Err e' \<and> e = g e')"
  by (cases m) auto

lemma map_ok_Ok [simp]: "map_ok g m = Ok y \<longleftrightarrow> (\<exists>x. m = Ok x \<and> y = g x)"
  by (cases m) auto

lemma map_ok_Panic [simp]: "map_ok g m = Panic \<longleftrightarrow> m = Panic"
  by (cases m) auto

lemma map_ok_Err [simp]: "map_ok g m = Err e \<longleftrightarrow> m = Err e"
  by (cases m) auto

lemma expect_Ok [simp]: "expect m = Ok y \<longleftrightarrow> m = Some y"
  by (cases m) auto

lemma expect_Panic [simp]: "expect m = Panic \<longleftrightarrow> m = None"
  by (cases m) auto

lemma expect_Err [simp]: "expect m \<noteq> Err e"
  by (cases m) auto

lemma ok_or_Ok [simp]: "ok_or e m = Ok y \<longleftrightarrow> m = Some y"
  by (cases m) auto

lemma ok_or_Err [simp]: "ok_or e m = Err e' \<longleftrightarrow> m = None \<and> e' = e"
  by (cases m) auto

lemma ok_or_Panic [simp]: "ok_or e m \<noteq> Panic"
  by (cases m) auto

lemma unwrap_Some [simp]: "unwrap m = Some x \<longleftrightarrow> m = Ok x"
  by (cases m) auto

lemma unwrap_None [simp]: "unwrap m = None \<longleftrightarrow> (\<forall>x. m \<noteq> Ok x)"
  by (cases m) auto

lemma and_then_cong [fundef_cong]:
  "m = m' \<Longrightarrow> (\<And>x. m' = Ok x \<Longrightarrow> f x = g x) \<Longrightarrow> and_then m f = and_then m' g"
  by (cases m') auto

lemma and_then_assoc: "and_then (and_then m f) g = and_then m (\<lambda>x. and_then (f x) g)"
  by (cases m) auto

lemma element_at_Some [simp]: "element_at xs i = Some x \<longleftrightarrow> i < length xs \<and> x = xs ! i"
  by (auto simp: element_at_def)

lemma element_at_None [simp]: "element_at xs i = None \<longleftrightarrow> length xs \<le> i"
  by (simp add: element_at_def)

section \<open>Lemmas on checked arithmetic\<close>

lemma checked_add_Some:
  "checked_add a b = Some c \<longleftrightarrow> c = a + b \<and> unat a + unat b < 2 ^ LENGTH('w)"
  for a b c :: "'w::len word"
  by (auto simp: checked_add_def no_olen_add_nat)

lemma checked_add_unat:
  assumes "checked_add a b = Some c"
  shows "unat c = unat a + unat b"
proof -
  from assms have "c = a + b" and "unat a + unat b < 2 ^ LENGTH('a)"
    by (simp_all add: checked_add_Some)
  then show ?thesis by (simp add: unat_add_lem [symmetric])
qed

lemma checked_add_None: "checked_add a b = None \<longleftrightarrow> 2 ^ LENGTH('w) \<le> unat a + unat b"
  for a b :: "'w::len word"
  by (auto simp: checked_add_def no_olen_add_nat)

lemma unat_u32_less: "unat (w :: u32) < 2 ^ 32"
  using unsigned_less [of w, where 'a = nat] by simp

lemma all_length_Suc: "(\<forall>ds. length ds = Suc n \<longrightarrow> P ds) \<longleftrightarrow> (\<forall>d ds. length ds = n \<longrightarrow> P (d # ds))"
  by (auto simp: length_Suc_conv)

lemma unat_u32_of_nat: "n < 2 ^ 32 \<Longrightarrow> unat (of_nat n :: u32) = n"
  by (simp add: unat_of_nat)

lemma u32_try_from_Some: "u32_try_from n = Some w \<longleftrightarrow> n < 2 ^ 32 \<and> w = of_nat n"
  using unat_u32_less [of "of_nat n"] by (auto simp: u32_try_from_def unat_u32_of_nat)

lemma u32_try_from_unat: "u32_try_from n = Some w \<Longrightarrow> unat w = n"
  by (auto simp: u32_try_from_Some unat_u32_of_nat)

section \<open>Lemmas on big-endian integers\<close>

lemma length_u32_to_be_bytes [simp]: "length (u32_to_be_bytes w) = 4"
  by (simp add: u32_to_be_bytes_def)

lemma u32_from_to_be_bytes:
  "u32_from_be_bytes (ucast (drop_bit 24 w)) (ucast (drop_bit 16 w)) (ucast (drop_bit 8 w)) (ucast w) = w"
proof (rule bit_word_eqI)
  fix n :: nat
  assume "n < LENGTH(32)"
  then consider "n < 8" | "8 \<le> n" "n < 16" | "16 \<le> n" "n < 24" | "24 \<le> n" "n < 32"
    by fastforce
  then show "bit (u32_from_be_bytes (ucast (drop_bit 24 w)) (ucast (drop_bit 16 w))
      (ucast (drop_bit 8 w)) (ucast w)) n = bit w n"
    by cases (auto simp: u32_from_be_bytes_def bit_simps)
qed

lemma u8_bit_high [simp]: "8 \<le> n \<Longrightarrow> \<not> bit (w :: u8) n"
  by (auto dest: bit_imp_le_length)

lemma u32_to_from_be_bytes: "u32_to_be_bytes (u32_from_be_bytes a b c d) = [a, b, c, d]"
  unfolding u32_to_be_bytes_def u32_from_be_bytes_def
  by (auto intro!: bit_word_eqI simp: bit_simps)

section \<open>Lemmas on the cursor\<close>

lemma cursor_rest_new [simp]: "cursor_rest (cursor_new bs) = bs"
  by (simp add: cursor_rest_def cursor_new_def)

lemma cursor_ok_new [simp]: "cursor_ok (cursor_new bs)"
  by (simp add: cursor_ok_def cursor_new_def)

lemma cursor_remaining_rest: "cursor_remaining c = length (cursor_rest c)"
  by (simp add: cursor_remaining_def cursor_rest_def)

lemma advance_0 [simp]: "advance 0 c = c"
  by (simp add: advance_def)

lemma advance_add [simp]: "advance m (advance n c) = advance (n + m) c"
  by (simp add: advance_def)

lemma cursor_rest_advance [simp]: "cursor_rest (advance n c) = drop n (cursor_rest c)"
  by (simp add: cursor_rest_def advance_def add.commute)

lemma cursor_ok_advance [simp]: "cursor_ok c \<Longrightarrow> n \<le> length (cursor_rest c) \<Longrightarrow> cursor_ok (advance n c)"
  by (auto simp: cursor_ok_def advance_def cursor_rest_def)

lemma consumes_refl: "cursor_ok c \<Longrightarrow> consumes c [] c"
  by (simp add: consumes_def)

lemma consumes_trans:
  "consumes c xs d \<Longrightarrow> consumes d ys e \<Longrightarrow> consumes c (xs @ ys) e"
  by (auto simp: consumes_def take_add)

lemma consumes_Cons: "consumes c [x] d \<Longrightarrow> consumes d ys e \<Longrightarrow> consumes c (x # ys) e"
  using consumes_trans [of c "[x]" d ys e] by simp

lemma consumes_ok: "consumes c bs c' \<Longrightarrow> cursor_ok c'"
  unfolding consumes_def by blast

lemma consumes_rest: "consumes c bs c' \<Longrightarrow> cursor_rest c = bs @ cursor_rest c'"
  unfolding consumes_def by (metis append_take_drop_id cursor_rest_advance)

lemma cursor_take_Some:
  assumes "cursor_take n c = Some (bs, c')"
  shows "consumes c bs c'" and "length bs = n"
  using assms
  by (auto simp: cursor_take_def consumes_def advance_def cursor_ok_def cursor_rest_def Let_def
      split: if_splits)

lemma cursor_read_u8_Some: "cursor_read_u8 c = Some (b, c') \<Longrightarrow> consumes c [b] c'"
  by (auto simp: cursor_read_u8_def consumes_def advance_def cursor_ok_def cursor_rest_def
      take_Suc_conv_app_nth split: if_splits)

lemma length_4_cases: "length xs = 4 \<Longrightarrow> (\<And>a b c d. xs = [a, b, c, d] \<Longrightarrow> P) \<Longrightarrow> P"
  by (auto simp: numeral_eq_Suc length_Suc_conv)

lemma cursor_read_u32_Some: "cursor_read_u32 c = Some (w, c') \<Longrightarrow> consumes c (u32_to_be_bytes w) c'"
  by (auto simp: cursor_read_u32_def u32_to_from_be_bytes dest: cursor_take_Some
      split: option.splits prod.splits list.splits)

lemma cursor_take_rest [codec_simps]:
  "cursor_rest c = bs @ r \<Longrightarrow> length bs = n \<Longrightarrow> cursor_ok c \<Longrightarrow> cursor_take n c = Some (bs, advance n c)"
proof -
  assume a: "cursor_rest c = bs @ r" "length bs = n" "cursor_ok c"
  then have "length (cursor_rest c) = n + length r" by simp
  with a(3) have "cursor_position c + n \<le> length (cursor_bytes c)"
    by (simp add: cursor_rest_def cursor_ok_def)
  with a show ?thesis
    by (auto simp: cursor_take_def cursor_rest_def advance_def Let_def)
qed

lemma cursor_read_u8_rest [codec_simps]:
  "cursor_rest c = b # r \<Longrightarrow> cursor_read_u8 c = Some (b, advance 1 c)"
  by (auto simp: cursor_read_u8_def cursor_rest_def advance_def nth_via_drop)
    (metis drop_all list.distinct(1) not_le)

lemma cursor_read_u32_rest [codec_simps]:
  "cursor_rest c = u32_to_be_bytes w @ r \<Longrightarrow> cursor_ok c \<Longrightarrow> cursor_read_u32 c = Some (w, advance 4 c)"
  by (simp add: cursor_read_u32_def cursor_take_rest [where bs = "u32_to_be_bytes w"])
    (simp add: u32_to_be_bytes_def u32_from_to_be_bytes)

end
