(* ===== verification/Formula.thy ===== *)
theory Formula
  imports Naome_Prelude
begin

text \<open>
  Primitive formulas of first-order set theory, \<open>naome-foundation/src/formula.rs\<close>.

  \<open>Formula\<close> is a private newtype over \<open>Node\<close>, so both are the type \<open>node\<close> here and the invariant
  that the privacy protects is \<open>well_formed\<close>: no De Bruijn index points outside its enclosing
  binders. A \<open>FreeVariable\<close> is its identifier, a \<open>u32\<close>. The two arithmetic operations that bind a
  variable use \<open>checked_add\<close> with \<open>expect\<close>; the functions that reach them return an \<open>option\<close> whose
  \<open>None\<close> is the panic. \<open>binders\<close> bounds the nesting that makes the panic unreachable.
\<close>

type_synonym free_variable = u32

datatype variable = Bound u32 | Free free_variable

datatype node =
    FEqual variable variable
  | FMember variable variable
  | FNot node
  | FImplies node node
  | FForAll node

section \<open>Constructors\<close>

definition equal :: "free_variable \<Rightarrow> free_variable \<Rightarrow> node" where
  "equal left right = FEqual (Free left) (Free right)"

definition member :: "free_variable \<Rightarrow> free_variable \<Rightarrow> node" where
  "member element container = FMember (Free element) (Free container)"

definition negate :: "node \<Rightarrow> node" where
  "negate formula = FNot formula"

definition implies :: "node \<Rightarrow> node \<Rightarrow> node" where
  "implies antecedent consequent = FImplies antecedent consequent"

definition conjunction :: "node \<Rightarrow> node \<Rightarrow> node" where
  "conjunction left right = negate (implies left (negate right))"

definition disjunction :: "node \<Rightarrow> node \<Rightarrow> node" where
  "disjunction left right = implies (negate left) right"

definition biconditional :: "node \<Rightarrow> node \<Rightarrow> node" where
  "biconditional left right = conjunction (implies left right) (implies right left)"

section \<open>Binding\<close>

definition bind_variable :: "(free_variable \<Rightarrow> u32 option) \<Rightarrow> u32 \<Rightarrow> variable \<Rightarrow> variable option" where
  "bind_variable binding_index depth value =
     (case value of
        Free v \<Rightarrow> (case binding_index v of
            Some index \<Rightarrow> map_option Bound (checked_add index depth)
          | None \<Rightarrow> Some value)
      | Bound _ \<Rightarrow> Some value)"

primrec bind_free :: "(free_variable \<Rightarrow> u32 option) \<Rightarrow> u32 \<Rightarrow> node \<Rightarrow> node option" where
  "bind_free f depth (FEqual left right) =
     Option.bind (bind_variable f depth left) (\<lambda>l.
       map_option (FEqual l) (bind_variable f depth right))"
| "bind_free f depth (FMember left right) =
     Option.bind (bind_variable f depth left) (\<lambda>l.
       map_option (FMember l) (bind_variable f depth right))"
| "bind_free f depth (FNot formula) = map_option FNot (bind_free f depth formula)"
| "bind_free f depth (FImplies antecedent consequent) =
     Option.bind (bind_free f depth antecedent) (\<lambda>a.
       map_option (FImplies a) (bind_free f depth consequent))"
| "bind_free f depth (FForAll body) =
     Option.bind (checked_add depth 1) (\<lambda>nested_depth.
       map_option FForAll (bind_free f nested_depth body))"

definition for_all :: "free_variable \<Rightarrow> node \<Rightarrow> node option" where
  "for_all variable body =
     map_option FForAll (bind_free (\<lambda>candidate. if candidate = variable then Some 0 else None) 0 body)"

primrec insert_binders :: "u32 \<Rightarrow> u32 \<Rightarrow> free_variable list \<Rightarrow> (free_variable \<rightharpoonup> u32) \<Rightarrow> (free_variable \<rightharpoonup> u32)" where
  "insert_binders binder_count position [] binders = binders"
| "insert_binders binder_count position (v # vs) binders =
     insert_binders binder_count (position + 1) vs (binders(v \<mapsto> binder_count - position - 1))"

definition for_all_many :: "free_variable list \<Rightarrow> node \<Rightarrow> node option" where
  "for_all_many variables body =
     (if variables = [] then Some body
      else Option.bind (u32_try_from (length variables)) (\<lambda>binder_count.
        map_option (\<lambda>bound. (FForAll ^^ length variables) bound)
          (bind_free (insert_binders binder_count 0 variables Map.empty) 0 body)))"

definition exists_formula :: "free_variable \<Rightarrow> node \<Rightarrow> node option" where
  "exists_formula variable body = map_option negate (for_all variable (negate body))"

definition vacuous_for_all :: "node \<Rightarrow> node" where
  "vacuous_for_all body = FForAll body"

primrec open_variable :: "u32 \<Rightarrow> free_variable \<Rightarrow> variable \<Rightarrow> variable" where
  "open_variable depth replacement (Bound index) =
     (if index = depth then Free replacement
      else if index > depth then Bound (index - 1)
      else Bound index)"
| "open_variable depth replacement (Free v) = Free v"

primrec open_binder :: "u32 \<Rightarrow> free_variable \<Rightarrow> node \<Rightarrow> node" where
  "open_binder depth replacement (FEqual left right) =
     FEqual (open_variable depth replacement left) (open_variable depth replacement right)"
| "open_binder depth replacement (FMember left right) =
     FMember (open_variable depth replacement left) (open_variable depth replacement right)"
| "open_binder depth replacement (FNot body) = FNot (open_binder depth replacement body)"
| "open_binder depth replacement (FImplies left right) =
     FImplies (open_binder depth replacement left) (open_binder depth replacement right)"
| "open_binder depth replacement (FForAll body) = FForAll (open_binder (depth + 1) replacement body)"

section \<open>Free variables\<close>

primrec map_free_variable :: "(free_variable \<Rightarrow> free_variable) \<Rightarrow> variable \<Rightarrow> variable" where
  "map_free_variable f (Free v) = Free (f v)"
| "map_free_variable f (Bound i) = Bound i"

primrec map_free_variables :: "(free_variable \<Rightarrow> free_variable) \<Rightarrow> node \<Rightarrow> node" where
  "map_free_variables f (FEqual left right) =
     FEqual (map_free_variable f left) (map_free_variable f right)"
| "map_free_variables f (FMember left right) =
     FMember (map_free_variable f left) (map_free_variable f right)"
| "map_free_variables f (FNot formula) = FNot (map_free_variables f formula)"
| "map_free_variables f (FImplies antecedent consequent) =
     FImplies (map_free_variables f antecedent) (map_free_variables f consequent)"
| "map_free_variables f (FForAll formula) = FForAll (map_free_variables f formula)"

text \<open>The same traversal with a closure that owns state and may panic, in canonical order.\<close>

primrec map_free_variable_mut ::
  "(free_variable \<Rightarrow> 's \<Rightarrow> (free_variable \<times> 's) option) \<Rightarrow> variable \<Rightarrow> 's \<Rightarrow> (variable \<times> 's) option" where
  "map_free_variable_mut f (Free v) s = map_option (\<lambda>(w, s'). (Free w, s')) (f v s)"
| "map_free_variable_mut f (Bound i) s = Some (Bound i, s)"

primrec map_free_variables_mut ::
  "(free_variable \<Rightarrow> 's \<Rightarrow> (free_variable \<times> 's) option) \<Rightarrow> node \<Rightarrow> 's \<Rightarrow> (node \<times> 's) option" where
  "map_free_variables_mut f (FEqual left right) s =
     Option.bind (map_free_variable_mut f left s) (\<lambda>(l, s1).
       map_option (\<lambda>(r, s2). (FEqual l r, s2)) (map_free_variable_mut f right s1))"
| "map_free_variables_mut f (FMember left right) s =
     Option.bind (map_free_variable_mut f left s) (\<lambda>(l, s1).
       map_option (\<lambda>(r, s2). (FMember l r, s2)) (map_free_variable_mut f right s1))"
| "map_free_variables_mut f (FNot formula) s =
     map_option (\<lambda>(g, s1). (FNot g, s1)) (map_free_variables_mut f formula s)"
| "map_free_variables_mut f (FImplies antecedent consequent) s =
     Option.bind (map_free_variables_mut f antecedent s) (\<lambda>(a, s1).
       map_option (\<lambda>(c, s2). (FImplies a c, s2)) (map_free_variables_mut f consequent s1))"
| "map_free_variables_mut f (FForAll formula) s =
     map_option (\<lambda>(g, s1). (FForAll g, s1)) (map_free_variables_mut f formula s)"

definition substitute_free :: "free_variable \<Rightarrow> free_variable \<Rightarrow> node \<Rightarrow> node" where
  "substitute_free from to formula =
     (if from = to then formula
      else map_free_variables (\<lambda>v. if v = from then to else v) formula)"

primrec collect_free_variable :: "variable \<Rightarrow> free_variable list \<Rightarrow> free_variable list" where
  "collect_free_variable (Free v) variables = insort_insert v variables"
| "collect_free_variable (Bound i) variables = variables"

primrec collect_free_variables :: "node \<Rightarrow> free_variable list \<Rightarrow> free_variable list" where
  "collect_free_variables (FEqual left right) variables =
     collect_free_variable right (collect_free_variable left variables)"
| "collect_free_variables (FMember left right) variables =
     collect_free_variable right (collect_free_variable left variables)"
| "collect_free_variables (FNot formula) variables = collect_free_variables formula variables"
| "collect_free_variables (FImplies antecedent consequent) variables =
     collect_free_variables consequent (collect_free_variables antecedent variables)"
| "collect_free_variables (FForAll formula) variables = collect_free_variables formula variables"

definition free_variables :: "node \<Rightarrow> free_variable list" where
  "free_variables formula = collect_free_variables formula []"

primrec matches_free :: "(free_variable \<Rightarrow> bool) \<Rightarrow> variable \<Rightarrow> bool" where
  "matches_free matches (Free v) = matches v"
| "matches_free matches (Bound i) = False"

primrec has_matching_free_variable :: "(free_variable \<Rightarrow> bool) \<Rightarrow> node \<Rightarrow> bool" where
  "has_matching_free_variable m (FEqual left right) = (matches_free m left \<or> matches_free m right)"
| "has_matching_free_variable m (FMember left right) = (matches_free m left \<or> matches_free m right)"
| "has_matching_free_variable m (FNot formula) = has_matching_free_variable m formula"
| "has_matching_free_variable m (FImplies antecedent consequent) =
     (has_matching_free_variable m antecedent \<or> has_matching_free_variable m consequent)"
| "has_matching_free_variable m (FForAll formula) = has_matching_free_variable m formula"

definition is_closed :: "node \<Rightarrow> bool" where
  "is_closed formula \<longleftrightarrow> \<not> has_matching_free_variable (\<lambda>_. True) formula"

section \<open>Projections\<close>

definition open_outer_universal :: "node \<Rightarrow> free_variable \<Rightarrow> node option" where
  "open_outer_universal formula variable =
     (if variable \<in> set (free_variables formula) then None
      else case formula of
        FForAll body \<Rightarrow> Some (open_binder 0 variable body)
      | _ \<Rightarrow> None)"

definition implication_parts :: "node \<Rightarrow> (node \<times> node) option" where
  "implication_parts formula =
     (case formula of FImplies antecedent consequent \<Rightarrow> Some (antecedent, consequent) | _ \<Rightarrow> None)"

definition negated :: "node \<Rightarrow> node option" where
  "negated formula = (case formula of FNot body \<Rightarrow> Some body | _ \<Rightarrow> None)"

definition equality_variables :: "node \<Rightarrow> (free_variable \<times> free_variable) option" where
  "equality_variables formula =
     (case formula of FEqual (Free left) (Free right) \<Rightarrow> Some (left, right) | _ \<Rightarrow> None)"

primrec node_count_and_depth :: "node \<Rightarrow> nat \<times> nat" where
  "node_count_and_depth (FEqual l r) = (1, 1)"
| "node_count_and_depth (FMember l r) = (1, 1)"
| "node_count_and_depth (FNot body) =
     (let (nodes, depth) = node_count_and_depth body in (nodes + 1, depth + 1))"
| "node_count_and_depth (FForAll body) =
     (let (nodes, depth) = node_count_and_depth body in (nodes + 1, depth + 1))"
| "node_count_and_depth (FImplies left right) =
     (let (ln, ld) = node_count_and_depth left; (rn, rd) = node_count_and_depth right
      in (ln + rn + 1, max ld rd + 1))"

abbreviation node_count :: "node \<Rightarrow> nat" where "node_count a \<equiv> fst (node_count_and_depth a)"
abbreviation node_depth :: "node \<Rightarrow> nat" where "node_depth a \<equiv> snd (node_count_and_depth a)"

lemma node_count_simps [simp]:
  "node_count (FNot a) = node_count a + 1" "node_count (FForAll a) = node_count a + 1"
  "node_count (FImplies a b) = node_count a + node_count b + 1"
  "node_depth (FNot a) = node_depth a + 1" "node_depth (FForAll a) = node_depth a + 1"
  "node_depth (FImplies a b) = max (node_depth a) (node_depth b) + 1"
  by (simp_all add: case_prod_beta Let_def)

declare node_count_and_depth.simps(3-5) [simp del]

lemma node_count_pos [simp]: "0 < node_count a" and node_depth_pos [simp]: "0 < node_depth a"
  by (cases a; simp)+

section \<open>The invariant of the private constructor\<close>

primrec var_below :: "nat \<Rightarrow> variable \<Rightarrow> bool" where
  "var_below n (Bound i) = (unat i < n)"
| "var_below n (Free v) = True"

primrec closed_at :: "nat \<Rightarrow> node \<Rightarrow> bool" where
  "closed_at n (FEqual l r) = (var_below n l \<and> var_below n r)"
| "closed_at n (FMember l r) = (var_below n l \<and> var_below n r)"
| "closed_at n (FNot a) = closed_at n a"
| "closed_at n (FImplies a b) = (closed_at n a \<and> closed_at n b)"
| "closed_at n (FForAll a) = closed_at (Suc n) a"

definition well_formed :: "node \<Rightarrow> bool" where
  "well_formed formula \<longleftrightarrow> closed_at 0 formula"

text \<open>Deepest nesting of quantifiers.\<close>

primrec binders :: "node \<Rightarrow> nat" where
  "binders (FEqual l r) = 0"
| "binders (FMember l r) = 0"
| "binders (FNot a) = binders a"
| "binders (FImplies a b) = max (binders a) (binders b)"
| "binders (FForAll a) = Suc (binders a)"

primrec frees_of :: "variable \<Rightarrow> free_variable set" where
  "frees_of (Free v) = {v}"
| "frees_of (Bound i) = {}"

text \<open>The abstract set behind \<open>free_variables\<close>.\<close>

primrec frees :: "node \<Rightarrow> free_variable set" where
  "frees (FEqual l r) = frees_of l \<union> frees_of r"
| "frees (FMember l r) = frees_of l \<union> frees_of r"
| "frees (FNot a) = frees a"
| "frees (FImplies a b) = frees a \<union> frees b"
| "frees (FForAll a) = frees a"

lemmas formula_defs =
  equal_def member_def negate_def implies_def conjunction_def disjunction_def biconditional_def
  vacuous_for_all_def

section \<open>Free variables: the ascending set is the abstract one\<close>

lemma set_collect_free_variable [simp]:
  "set (collect_free_variable v xs) = frees_of v \<union> set xs"
  by (cases v) (auto simp: set_insort_insert)

lemma set_collect_free_variables [simp]: "set (collect_free_variables a xs) = frees a \<union> set xs"
  by (induction a arbitrary: xs) auto

lemma set_free_variables [simp]: "set (free_variables a) = frees a"
  by (simp add: free_variables_def)

lemma collect_free_variable_sorted:
  "sorted xs \<and> distinct xs \<Longrightarrow> sorted (collect_free_variable v xs) \<and> distinct (collect_free_variable v xs)"
  by (cases v) (auto simp: sorted_insort_insert distinct_insort_insert)

lemma collect_free_variables_sorted:
  "sorted xs \<and> distinct xs \<Longrightarrow> sorted (collect_free_variables a xs) \<and> distinct (collect_free_variables a xs)"
  by (induction a arbitrary: xs) (auto simp: collect_free_variable_sorted)

lemma free_variables_sorted: "sorted (free_variables a)" and free_variables_distinct: "distinct (free_variables a)"
  using collect_free_variables_sorted [of "[]" a] by (simp_all add: free_variables_def)

lemma matches_free_iff: "matches_free m v \<longleftrightarrow> (\<exists>x\<in>frees_of v. m x)"
  by (cases v) auto

lemma has_matching_free_variable_iff: "has_matching_free_variable m a \<longleftrightarrow> (\<exists>v\<in>frees a. m v)"
  by (induction a) (auto simp: matches_free_iff)

lemma is_closed_iff: "is_closed a \<longleftrightarrow> frees a = {}"
  by (auto simp: is_closed_def has_matching_free_variable_iff)

lemma finite_frees [simp]: "finite (frees a)"
  by (metis set_free_variables finite_set)

section \<open>Well-formedness and nesting are preserved\<close>

lemma var_below_mono: "var_below n v \<Longrightarrow> n \<le> m \<Longrightarrow> var_below m v"
  by (cases v) auto

lemma closed_at_mono: "closed_at n a \<Longrightarrow> n \<le> m \<Longrightarrow> closed_at m a"
  by (induction a arbitrary: n m) (auto intro: var_below_mono)

lemma map_free_variable_below [simp]: "var_below n (map_free_variable f v) = var_below n v"
  by (cases v) auto

lemma map_free_variables_closed_at [simp]: "closed_at n (map_free_variables f a) = closed_at n a"
  by (induction a arbitrary: n) auto

lemma binders_map_free_variables [simp]: "binders (map_free_variables f a) = binders a"
  by (induction a) auto

lemma frees_of_map [simp]: "frees_of (map_free_variable f v) = f ` frees_of v"
  by (cases v) auto

lemma frees_map_free_variables [simp]: "frees (map_free_variables f a) = f ` frees a"
  by (induction a) auto

lemma substitute_free_closed_at [simp]: "closed_at n (substitute_free x y a) = closed_at n a"
  by (simp add: substitute_free_def)

lemma binders_substitute_free [simp]: "binders (substitute_free x y a) = binders a"
  by (simp add: substitute_free_def)

lemma frees_substitute_free:
  "frees (substitute_free x y a) = (if x \<in> frees a then insert y (frees a - {x}) else frees a)"
  by (auto simp: substitute_free_def image_iff split: if_splits)

text \<open>\<open>bind_free\<close> at a depth panics only when an index would leave \<open>u32\<close>.\<close>

lemma bind_variable_Some:
  assumes "\<And>v i. f v = Some i \<Longrightarrow> unat i + unat d < 2 ^ 32"
  shows "\<exists>w. bind_variable f d v = Some w"
  using assms by (cases v) (auto simp: bind_variable_def checked_add_def no_olen_add_nat split: option.splits)

lemma checked_add_one: "unat (d :: u32) + 1 < 2 ^ 32 \<Longrightarrow> checked_add d 1 = Some (d + 1) \<and> unat (d + 1) = unat d + 1"
  using checked_add_unat [of d 1 "d + 1"] by (simp add: checked_add_Some)

lemma bind_free_Some:
  assumes "\<And>v i. f v = Some i \<Longrightarrow> unat i + unat d + binders a < 2 ^ 32" and "unat d + binders a < 2 ^ 32"
  shows "\<exists>b. bind_free f d a = Some b"
  using assms
proof (induction a arbitrary: d)
  case (FEqual l r)
  then show ?case using bind_variable_Some [of f d l] bind_variable_Some [of f d r] by auto
next
  case (FMember l r)
  then show ?case using bind_variable_Some [of f d l] bind_variable_Some [of f d r] by auto
next
  case (FNot a)
  then show ?case by fastforce
next
  case (FImplies a b)
  have "\<exists>x. bind_free f d a = Some x"
    using FImplies.prems by (intro FImplies.IH(1)) (fastforce simp: max_def split: if_splits)+
  moreover have "\<exists>x. bind_free f d b = Some x"
    using FImplies.prems by (intro FImplies.IH(2)) (fastforce simp: max_def split: if_splits)+
  ultimately show ?case by auto
next
  case (FForAll a)
  then have d: "checked_add d 1 = Some (d + 1)" "unat (d + 1) = unat d + 1"
    using checked_add_one [of d] by auto
  have "\<exists>x. bind_free f (d + 1) a = Some x"
    using FForAll.prems by (intro FForAll.IH) (fastforce simp: d)+
  with d show ?case by auto
qed

lemma for_all_Some: "binders a < 2 ^ 32 \<Longrightarrow> \<exists>b. for_all x a = Some b"
  using bind_free_Some [of "\<lambda>c. if c = x then Some 0 else None" 0 a]
  by (fastforce simp: for_all_def split: if_splits)

lemma bind_variable_below:
  assumes "bind_variable f d v = Some w" "var_below (unat d) v" "\<And>v i. f v = Some i \<Longrightarrow> unat i < k"
  shows "var_below (unat d + k) w"
  using assms
  by (cases v) (fastforce simp: bind_variable_def dest: checked_add_unat split: option.splits)+

lemma bind_free_closed_at:
  assumes "bind_free f d a = Some b" "closed_at (unat d) a" "\<And>v i. f v = Some i \<Longrightarrow> unat i < k"
  shows "closed_at (unat d + k) b"
  using assms
proof (induction a arbitrary: b d)
  case (FForAll a)
  then obtain d' c where d': "checked_add d 1 = Some d'" and c: "bind_free f d' a = Some c" "b = FForAll c"
    by (auto simp: bind_eq_Some_conv)
  have u: "unat d' = Suc (unat d)" using checked_add_unat [OF d'] by simp
  with FForAll.IH [OF c(1)] FForAll.prems c show ?case by simp
qed (fastforce simp: bind_eq_Some_conv intro: bind_variable_below)+

lemma binders_bind_free: "bind_free f d a = Some b \<Longrightarrow> binders b = binders a"
  by (induction a arbitrary: b d) (auto simp: bind_eq_Some_conv)

lemma for_all_well_formed: "for_all x a = Some b \<Longrightarrow> well_formed a \<Longrightarrow> well_formed b"
  using bind_free_closed_at [where k = 1 and d = 0]
  by (fastforce simp: for_all_def well_formed_def split: if_splits)

lemma binders_for_all: "for_all x a = Some b \<Longrightarrow> binders b = Suc (binders a)"
  by (auto simp: for_all_def dest: binders_bind_free)

lemma frees_bind_variable:
  "bind_variable f d v = Some w \<Longrightarrow> frees_of w = frees_of v - dom f"
  by (cases v) (auto simp: bind_variable_def split: option.splits)

lemma frees_bind_free: "bind_free f d a = Some b \<Longrightarrow> frees b = frees a - dom f"
  by (induction a arbitrary: b d) (auto simp: bind_eq_Some_conv dest!: frees_bind_variable)

lemma frees_for_all: "for_all x a = Some b \<Longrightarrow> frees b = frees a - {x}"
  by (auto simp: for_all_def dest!: frees_bind_free split: if_splits)

end
