(* ===== verification/Semantics.thy ===== *)
theory Semantics
  imports Formula
begin

text \<open>
  The meaning of a primitive formula in a set-theoretic structure, the specification against which
  the constructors, the logical axioms and the checker are verified. A structure is a membership
  relation on an arbitrary (nonempty) type; equality is identity. A formula is read under an
  assignment of the free variables and a stack of values for the enclosing binders.
\<close>

type_synonym 'd universe = "'d \<Rightarrow> 'd \<Rightarrow> bool"
type_synonym 'd assignment = "free_variable \<Rightarrow> 'd"

primrec value_of :: "'d assignment \<Rightarrow> 'd list \<Rightarrow> variable \<Rightarrow> 'd" where
  "value_of r bs (Bound i) = bs ! unat i"
| "value_of r bs (Free v) = r v"

primrec sem :: "'d universe \<Rightarrow> 'd assignment \<Rightarrow> 'd list \<Rightarrow> node \<Rightarrow> bool" where
  "sem E r bs (FEqual l s) = (value_of r bs l = value_of r bs s)"
| "sem E r bs (FMember l s) = E (value_of r bs l) (value_of r bs s)"
| "sem E r bs (FNot a) = (\<not> sem E r bs a)"
| "sem E r bs (FImplies a b) = (sem E r bs a \<longrightarrow> sem E r bs b)"
| "sem E r bs (FForAll a) = (\<forall>d. sem E r (d # bs) a)"

text \<open>Truth of a formula in a structure: under every assignment.\<close>

definition valid_in :: "'d universe \<Rightarrow> node \<Rightarrow> bool" where
  "valid_in E a \<longleftrightarrow> (\<forall>r. sem E r [] a)"

text \<open>Assigning several variables from left to right.\<close>

fun assign :: "'d assignment \<Rightarrow> free_variable list \<Rightarrow> 'd list \<Rightarrow> 'd assignment" where
  "assign r (v # vs) (d # ds) = assign (r(v := d)) vs ds"
| "assign r _ _ = r"

named_theorems sem_simps

section \<open>The derived connectives mean what they should\<close>

lemma sem_equal [simp, sem_simps]: "sem E r bs (equal x y) = (r x = r y)"
  by (simp add: equal_def)

lemma sem_member [simp, sem_simps]: "sem E r bs (member x y) = E (r x) (r y)"
  by (simp add: member_def)

lemma sem_negate [simp, sem_simps]: "sem E r bs (negate a) = (\<not> sem E r bs a)"
  by (simp add: negate_def)

lemma sem_implies [simp, sem_simps]: "sem E r bs (implies a b) = (sem E r bs a \<longrightarrow> sem E r bs b)"
  by (simp add: implies_def)

lemma sem_conjunction [simp, sem_simps]: "sem E r bs (conjunction a b) = (sem E r bs a \<and> sem E r bs b)"
  by (simp add: conjunction_def)

lemma sem_disjunction [simp, sem_simps]: "sem E r bs (disjunction a b) = (sem E r bs a \<or> sem E r bs b)"
  by (auto simp: disjunction_def)

lemma sem_biconditional [simp, sem_simps]:
  "sem E r bs (biconditional a b) = (sem E r bs a \<longleftrightarrow> sem E r bs b)"
  by (auto simp: biconditional_def)

section \<open>Substitution and weakening\<close>

lemma value_of_map [simp]: "value_of r bs (map_free_variable f v) = value_of (r \<circ> f) bs v"
  by (cases v) auto

lemma sem_map_free_variables: "sem E r bs (map_free_variables f a) = sem E (r \<circ> f) bs a"
  by (induction a arbitrary: bs) auto

lemma comp_substitution: "r \<circ> (\<lambda>v. if v = x then y else v) = r(x := r y)"
  by (auto simp: fun_eq_iff)

lemma sem_substitute_free: "sem E r bs (substitute_free x y a) = sem E (r(x := r y)) bs a"
  by (auto simp: substitute_free_def sem_map_free_variables comp_substitution)

lemma value_of_cong:
  assumes "\<And>v. v \<in> frees_of x \<Longrightarrow> r v = r' v"
  shows "value_of r bs x = value_of r' bs x"
  using assms by (cases x) auto

lemma sem_cong:
  assumes "\<And>v. v \<in> frees a \<Longrightarrow> r v = r' v"
  shows "sem E r bs a = sem E r' bs a"
  using assms
proof (induction a arbitrary: bs)
  case (FEqual l s)
  then show ?case using value_of_cong [of l r r' bs] value_of_cong [of s r r' bs] by simp
next
  case (FMember l s)
  then show ?case using value_of_cong [of l r r' bs] value_of_cong [of s r r' bs] by simp
qed auto

lemma value_of_weaken: "var_below (length bs) v \<Longrightarrow> value_of r (bs @ cs) v = value_of r bs v"
  by (cases v) (auto simp: nth_append)

lemma sem_weaken: "closed_at (length bs) a \<Longrightarrow> sem E r (bs @ cs) a = sem E r bs a"
proof (induction a arbitrary: bs)
  case (FForAll a)
  have "sem E r ((d # bs) @ cs) a = sem E r (d # bs) a" for d
    using FForAll.prems by (intro FForAll.IH) simp
  then show ?case by simp
qed (auto simp: value_of_weaken)

section \<open>Binding\<close>

lemma value_of_bind_variable:
  assumes "bind_variable f d v = Some w" "var_below (length bs) v" "length bs = unat d"
  shows "value_of r (bs @ cs) w = value_of (\<lambda>x. case f x of Some i \<Rightarrow> cs ! unat i | None \<Rightarrow> r x) bs v"
  using assms
  by (cases v) (auto simp: bind_variable_def nth_append dest: checked_add_unat split: option.splits)

lemma sem_bind_free:
  assumes "bind_free f d a = Some b" "closed_at (length bs) a" "length bs = unat d"
  shows "sem E r (bs @ cs) b = sem E (\<lambda>x. case f x of Some i \<Rightarrow> cs ! unat i | None \<Rightarrow> r x) bs a"
  using assms
proof (induction a arbitrary: b d bs)
  case (FEqual l s)
  then obtain l' s' where 1: "bind_variable f d l = Some l'" "bind_variable f d s = Some s'" "b = FEqual l' s'"
    by (auto simp: bind_eq_Some_conv)
  with FEqual show ?case by (simp add: value_of_bind_variable [OF 1(1)] value_of_bind_variable [OF 1(2)])
next
  case (FMember l s)
  then obtain l' s' where 1: "bind_variable f d l = Some l'" "bind_variable f d s = Some s'" "b = FMember l' s'"
    by (auto simp: bind_eq_Some_conv)
  with FMember show ?case by (simp add: value_of_bind_variable [OF 1(1)] value_of_bind_variable [OF 1(2)])
next
  case (FNot a)
  then show ?case by fastforce
next
  case (FImplies a1 a2)
  then obtain b1 b2 where 1: "bind_free f d a1 = Some b1" "bind_free f d a2 = Some b2" "b = FImplies b1 b2"
    by (auto simp: bind_eq_Some_conv)
  with FImplies show ?case by (simp add: FImplies.IH(1) [OF 1(1)] FImplies.IH(2) [OF 1(2)])
next
  case (FForAll a)
  then obtain d' c where d': "checked_add d 1 = Some d'" and c: "bind_free f d' a = Some c" "b = FForAll c"
    by (auto simp: bind_eq_Some_conv)
  have u: "unat d' = Suc (unat d)" using checked_add_unat [OF d'] by simp
  have "sem E r ((e # bs) @ cs) c = sem E (\<lambda>x. case f x of Some i \<Rightarrow> cs ! unat i | None \<Rightarrow> r x) (e # bs) a" for e
    using FForAll.prems u by (intro FForAll.IH [OF c(1)]) auto
  with c(2) show ?case by simp
qed

lemma sem_for_all [sem_simps]:
  assumes "for_all x a = Some b" "well_formed a"
  shows "sem E r bs b \<longleftrightarrow> (\<forall>d. sem E (r(x := d)) [] a)"
proof -
  from assms(1) obtain c where
    c: "bind_free (\<lambda>y. if y = x then Some 0 else None) 0 a = Some c" "b = FForAll c"
    by (auto simp: for_all_def)
  have "sem E r (d # bs) c = sem E (r(x := d)) [] a" for d
  proof -
    have "sem E r ([] @ (d # bs)) c =
        sem E (\<lambda>y. case if y = x then Some (0::u32) else None of Some i \<Rightarrow> (d # bs) ! unat i | None \<Rightarrow> r y) [] a"
      using assms(2) by (intro sem_bind_free [OF c(1)]) (auto simp: well_formed_def)
    also have "(\<lambda>y. case if y = x then Some (0::u32) else None of Some i \<Rightarrow> (d # bs) ! unat i | None \<Rightarrow> r y) = r(x := d)"
      by (auto simp: fun_eq_iff)
    finally show ?thesis by (simp only: append_Nil)
  qed
  with c(2) show ?thesis by simp
qed

lemma well_formed_negate [simp]: "well_formed (negate a) = well_formed a"
  by (simp add: well_formed_def negate_def)

lemma well_formed_implies [simp]: "well_formed (implies a b) \<longleftrightarrow> well_formed a \<and> well_formed b"
  by (simp add: well_formed_def implies_def)

lemma well_formed_conjunction [simp]: "well_formed (conjunction a b) \<longleftrightarrow> well_formed a \<and> well_formed b"
  by (simp add: conjunction_def)

lemma well_formed_disjunction [simp]: "well_formed (disjunction a b) \<longleftrightarrow> well_formed a \<and> well_formed b"
  by (simp add: disjunction_def)

lemma well_formed_biconditional [simp]: "well_formed (biconditional a b) \<longleftrightarrow> well_formed a \<and> well_formed b"
  by (auto simp: biconditional_def)

lemma well_formed_atoms [simp]: "well_formed (equal x y)" "well_formed (member x y)"
  by (simp_all add: well_formed_def equal_def member_def)

lemma well_formed_substitute_free [simp]: "well_formed (substitute_free x y a) = well_formed a"
  by (simp add: well_formed_def)

lemma exists_well_formed: "exists_formula x a = Some b \<Longrightarrow> well_formed a \<Longrightarrow> well_formed b"
  by (auto simp: exists_formula_def dest: for_all_well_formed)

lemma sem_exists [sem_simps]:
  assumes "exists_formula x a = Some b" "well_formed a"
  shows "sem E r bs b \<longleftrightarrow> (\<exists>d. sem E (r(x := d)) [] a)"
proof -
  from assms(1) obtain c where c: "for_all x (negate a) = Some c" "b = negate c"
    by (auto simp: exists_formula_def)
  then show ?thesis using sem_for_all [OF c(1), of E r bs] assms(2) by simp
qed

lemma vacuous_well_formed: "well_formed a \<Longrightarrow> well_formed (vacuous_for_all a)"
  by (auto simp: well_formed_def vacuous_for_all_def intro: closed_at_mono)

lemma sem_vacuous [sem_simps]: "well_formed a \<Longrightarrow> sem E r bs (vacuous_for_all a) = sem E r [] a"
proof -
  assume "well_formed a"
  then have "sem E r (d # bs) a = sem E r [] a" for d
    using sem_weaken [of "[]" a E r "d # bs"] by (simp add: well_formed_def)
  then show ?thesis by (simp add: vacuous_for_all_def)
qed

lemma sem_well_formed: "well_formed a \<Longrightarrow> sem E r bs a = sem E r [] a"
  using sem_weaken [of "[]" a E r bs] by (simp add: well_formed_def)

section \<open>Many binders at once\<close>

text \<open>
  \<open>insert_binders\<close> gives the variable at a position the index counted from the innermost binder; a
  repeated variable keeps its last position, as reassigning it from left to right does.
\<close>

lemma unat_binder_index:
  fixes n p :: u32
  assumes "Suc (unat p) \<le> unat n"
  shows "unat (n - p - 1) = unat n - unat p - 1" and "unat (p + 1) = Suc (unat p)"
proof -
  have p: "unat (p + 1) = Suc (unat p)"
    using assms unat_u32_less [of n] checked_add_one [of p] by simp
  then have "p + 1 \<le> n" using assms by (simp add: word_le_nat_alt)
  then have "unat (n - (p + 1)) = unat n - unat (p + 1)" by (rule unat_sub)
  then show "unat (n - p - 1) = unat n - unat p - 1" using p by (simp add: diff_diff_eq)
  show "unat (p + 1) = Suc (unat p)" by (rule p)
qed

lemma assign_insert_binders:
  fixes cs :: "'d list"
  assumes "length cs = unat n" "unat p + length vs = unat n"
  shows "(\<lambda>x. case insert_binders n p vs m x of Some i \<Rightarrow> cs ! unat i | None \<Rightarrow> r x)
    = assign (\<lambda>x. case m x of Some i \<Rightarrow> cs ! unat i | None \<Rightarrow> r x) vs (drop (unat p) (rev cs))"
  using assms
proof (induction vs arbitrary: p m)
  case Nil
  then show ?case by simp
next
  case (Cons v vs)
  then have le: "Suc (unat p) \<le> unat n" by simp
  note u = unat_binder_index [OF le]
  have "drop (unat p) (rev cs) = rev cs ! unat p # drop (Suc (unat p)) (rev cs)"
    using le Cons.prems by (simp add: Cons_nth_drop_Suc)
  moreover have "rev cs ! unat p = cs ! unat (n - p - 1)"
    using le Cons.prems u by (simp add: rev_nth)
  moreover have "(\<lambda>x. case (m(v \<mapsto> n - p - 1)) x of Some i \<Rightarrow> cs ! unat i | None \<Rightarrow> r x)
      = (\<lambda>x. case m x of Some i \<Rightarrow> cs ! unat i | None \<Rightarrow> r x)(v := cs ! unat (n - p - 1))"
    by (auto simp: fun_eq_iff)
  ultimately show ?case
    using Cons.IH [of "p + 1" "m(v \<mapsto> n - p - 1)"] Cons.prems u by (simp del: fun_upd_apply)
qed

lemma sem_FForAll_pow: "sem E r bs ((FForAll ^^ n) a) \<longleftrightarrow> (\<forall>ds. length ds = n \<longrightarrow> sem E r (rev ds @ bs) a)"
proof (induction n arbitrary: bs)
  case 0
  then show ?case by simp
next
  case (Suc n)
  then show ?case by (simp add: all_length_Suc)
qed

lemma sem_for_all_many [sem_simps]:
  assumes "for_all_many vs a = Some b" "well_formed a"
  shows "sem E r [] b \<longleftrightarrow> (\<forall>ds. length ds = length vs \<longrightarrow> sem E (assign r vs ds) [] a)"
proof (cases "vs = []")
  case True
  with assms(1) show ?thesis by (simp add: for_all_many_def)
next
  case False
  with assms(1) obtain n c where n: "u32_try_from (length vs) = Some n"
    and c: "bind_free (insert_binders n 0 vs Map.empty) 0 a = Some c" "b = (FForAll ^^ length vs) c"
    by (auto simp: for_all_many_def bind_eq_Some_conv)
  have un: "unat n = length vs" by (rule u32_try_from_unat [OF n])
  have "sem E r (rev ds) c = sem E (assign r vs ds) [] a" if ds: "length ds = length vs" for ds
  proof -
    have "sem E r ([] @ rev ds) c =
        sem E (\<lambda>x. case insert_binders n 0 vs Map.empty x of Some i \<Rightarrow> rev ds ! unat i | None \<Rightarrow> r x) [] a"
      using assms(2) by (intro sem_bind_free [OF c(1)]) (auto simp: well_formed_def)
    also have "\<dots> = sem E (assign r vs ds) [] a"
      using assign_insert_binders [of "rev ds" n 0 vs r Map.empty] un ds by simp
    finally show ?thesis by simp
  qed
  then show ?thesis using c(2) by (simp add: sem_FForAll_pow)
qed

lemma closed_at_FForAll_pow: "closed_at n ((FForAll ^^ k) a) = closed_at (n + k) a"
  by (induction k arbitrary: n) auto

lemma binders_FForAll_pow: "binders ((FForAll ^^ k) a) = binders a + k"
  by (induction k) auto

lemma frees_FForAll_pow: "frees ((FForAll ^^ k) a) = frees a"
  by (induction k) auto

lemma frees_connectives [simp]:
  "frees (equal x y) = {x, y}" "frees (member x y) = {x, y}" "frees (negate a) = frees a"
  "frees (implies a b) = frees a \<union> frees b" "frees (conjunction a b) = frees a \<union> frees b"
  "frees (disjunction a b) = frees a \<union> frees b" "frees (biconditional a b) = frees a \<union> frees b"
  by (auto simp: formula_defs)

lemma frees_exists: "exists_formula x a = Some b \<Longrightarrow> frees b = frees a - {x}"
  by (auto simp: exists_formula_def dest: frees_for_all)

section \<open>Binding many variables at once is binding them one by one\<close>

lemma insert_binders_shift: "insert_binders n (p + 1) vs m = insert_binders (n - 1) p vs m"
proof (induction vs arbitrary: p m)
  case (Cons v vs)
  have "n - (p + 1) - 1 = n - 1 - p - 1" by simp
  then show ?case using Cons.IH [of "p + 1"] by (simp del: fun_upd_apply)
qed simp

lemma insert_binders_default:
  "insert_binders n p vs m x = (case insert_binders n p vs Map.empty x of Some i \<Rightarrow> Some i | None \<Rightarrow> m x)"
proof (induction vs arbitrary: p m)
  case (Cons v vs)
  show ?case
    unfolding insert_binders.simps(2) Cons.IH [of "p + 1" "m(v \<mapsto> n - p - 1)"]
      Cons.IH [of "p + 1" "[v \<mapsto> n - p - 1]"]
    by (simp split: option.split)
qed simp

lemma insert_binders_range:
  assumes "insert_binders n p vs Map.empty x = Some i" "unat p + length vs = unat n"
  shows "unat i < length vs"
  using assms
proof (induction vs arbitrary: p)
  case (Cons v vs)
  then have le: "Suc (unat p) \<le> unat n" by simp
  note u = unat_binder_index [OF le]
  show ?case
  proof (cases "insert_binders n (p + 1) vs Map.empty x")
    case None
    with Cons.prems(1) have "x = v" "i = n - p - 1"
      by (auto simp: insert_binders_default [of n "p + 1" vs "[v \<mapsto> _]"] split: if_splits)
    with u Cons.prems(2) show ?thesis by simp
  next
    case (Some j)
    with Cons.prems(1) have "i = j"
      by (auto simp: insert_binders_default [of n "p + 1" vs "[v \<mapsto> _]"])
    with Cons.IH [of "p + 1"] Some Cons.prems(2) u show ?thesis by simp
  qed
qed simp

lemma bind_variable_compose:
  assumes "bind_variable g d v = Some w" "unat k + unat d < 2 ^ 32"
  shows "bind_variable (\<lambda>y. if y = x then Some 0 else None) (d + k) w =
    bind_variable (\<lambda>y. case g y of Some i \<Rightarrow> Some i | None \<Rightarrow> if y = x then Some k else None) d v"
proof (cases v)
  case (Bound i)
  with assms(1) show ?thesis by (auto simp: bind_variable_def)
next
  case (Free y)
  have "checked_add 0 (d + k) = Some (d + k)"
    unfolding checked_add_Some using unat_u32_less [of "d + k"] by simp
  moreover have "checked_add k d = Some (d + k)"
    unfolding checked_add_Some using assms(2) by (simp add: add.commute [of d k])
  ultimately show ?thesis using Free assms(1) by (cases "g y") (auto simp: bind_variable_def)
qed

lemma bind_free_compose:
  assumes "bind_free g d a = Some b" "unat k + unat d + binders a < 2 ^ 32"
  shows "bind_free (\<lambda>y. if y = x then Some 0 else None) (d + k) b =
    bind_free (\<lambda>y. case g y of Some i \<Rightarrow> Some i | None \<Rightarrow> if y = x then Some k else None) d a"
  using assms
proof (induction a arbitrary: b d)
  case (FForAll a)
  then obtain c where d': "checked_add d 1 = Some (d + 1)" and c: "bind_free g (d + 1) a = Some c" "b = FForAll c"
    by (auto simp: bind_eq_Some_conv checked_add_Some)
  have u: "unat (d + 1) = Suc (unat d)" using checked_add_unat [OF d'] by simp
  have dk: "unat (d + k) = unat d + unat k"
    using FForAll.prems(2) by (simp add: unat_add_lem [symmetric])
  then have "checked_add (d + k) 1 = Some (d + 1 + k)"
    using FForAll.prems(2) by (simp add: checked_add_Some)
  with FForAll.IH [OF c(1)] FForAll.prems(2) u d' c(2) show ?case by simp
qed (auto simp: bind_eq_Some_conv bind_variable_compose max_def split: if_splits)

lemma bind_free_FForAll_pow:
  assumes "unat d + k < 2 ^ 32"
  shows "bind_free f d ((FForAll ^^ k) a) = map_option (\<lambda>c. (FForAll ^^ k) c) (bind_free f (d + of_nat k) a)"
  using assms
proof (induction k arbitrary: d)
  case 0
  then show ?case by (simp add: option.map_ident)
next
  case (Suc k)
  then have d: "checked_add d 1 = Some (d + 1)" "unat (d + 1) = unat d + 1"
    using checked_add_one [of d] by auto
  with Suc.IH [of "d + 1"] Suc.prems show ?case
    by (simp add: option.map_comp comp_def ac_simps)
qed

lemma for_all_many_Cons:
  assumes "Suc (length vs) + binders a < 2 ^ 32"
  shows "for_all_many (v # vs) a = Option.bind (for_all_many vs a) (for_all v)"
proof (cases "vs = []")
  case True
  have "(\<lambda>candidate. if candidate = v then Some (0::u32) else None) = [v \<mapsto> 0]"
    by (auto simp: fun_eq_iff)
  with True show ?thesis by (simp add: for_all_many_def for_all_def u32_try_from_def option.map_comp comp_def)
next
  case False
  define k :: u32 where "k = of_nat (length vs)"
  have uk: "unat k = length vs" and usk: "unat (k + 1) = Suc (length vs)"
    using assms checked_add_one [of k] by (auto simp: k_def unat_u32_of_nat)
  define g where "g = insert_binders k 0 vs Map.empty"
  have n1: "u32_try_from (length vs) = Some k" "u32_try_from (length (v # vs)) = Some (k + 1)"
    using assms by (auto simp: u32_try_from_Some k_def)
  have tbl: "insert_binders (k + 1) 0 (v # vs) Map.empty =
      (\<lambda>y. case g y of Some i \<Rightarrow> Some i | None \<Rightarrow> if y = v then Some k else None)"
    using insert_binders_shift [of "k + 1" 0 vs] insert_binders_default [of "k + 1" 1 vs "[v \<mapsto> k]"]
    by (auto simp: g_def fun_eq_iff split: option.splits)
  have "\<exists>b. bind_free g 0 a = Some b"
    using assms uk insert_binders_range [of k 0 vs] by (intro bind_free_Some) (fastforce simp: g_def)+
  then obtain b where b: "bind_free g 0 a = Some b" ..
  have many: "for_all_many vs a = Some ((FForAll ^^ length vs) b)"
    using False b n1 by (simp add: for_all_many_def g_def)
  have "for_all v ((FForAll ^^ length vs) b) = map_option FForAll (map_option (\<lambda>c. (FForAll ^^ length vs) c)
      (bind_free (\<lambda>candidate. if candidate = v then Some 0 else None) (0 + k) b))"
    using assms bind_free_FForAll_pow [of 0 "length vs" _ b] by (simp add: for_all_def k_def)
  also have "\<dots> = for_all_many (v # vs) a"
    using bind_free_compose [OF b, of k v] assms uk n1 tbl
    by (simp add: for_all_many_def option.map_comp comp_def)
  finally show ?thesis using many by simp
qed

lemma dom_insert_binders: "dom (insert_binders n p vs m) = set vs \<union> dom m"
  by (induction vs arbitrary: p m) auto

lemma for_all_many_nonempty:
  assumes "for_all_many vs a = Some b" "vs \<noteq> []"
  obtains c n where "unat n = length vs" "bind_free (insert_binders n 0 vs Map.empty) 0 a = Some c"
    "b = (FForAll ^^ length vs) c"
  using assms by (auto simp: for_all_many_def bind_eq_Some_conv dest: u32_try_from_unat)

lemma for_all_many_well_formed:
  assumes "for_all_many vs a = Some b" "well_formed a"
  shows "well_formed b"
proof (cases "vs = []")
  case False
  with assms(1) obtain c n where c: "unat n = length vs"
    "bind_free (insert_binders n 0 vs Map.empty) 0 a = Some c" "b = (FForAll ^^ length vs) c"
    by (rule for_all_many_nonempty)
  then have "closed_at (unat (0::u32) + length vs) c"
    using assms(2) insert_binders_range [of n 0 vs]
    by (intro bind_free_closed_at [OF c(2)]) (auto simp: well_formed_def)
  with c(3) show ?thesis by (simp add: well_formed_def closed_at_FForAll_pow)
qed (use assms in \<open>simp add: for_all_many_def\<close>)

lemma frees_for_all_many: "for_all_many vs a = Some b \<Longrightarrow> frees b = frees a - set vs"
  by (cases "vs = []")
    (auto simp: for_all_many_def dom_insert_binders frees_FForAll_pow bind_eq_Some_conv dest!: frees_bind_free)

lemma binders_for_all_many: "for_all_many vs a = Some b \<Longrightarrow> binders b = binders a + length vs"
  by (cases "vs = []") (auto simp: for_all_many_def binders_FForAll_pow bind_eq_Some_conv dest!: binders_bind_free)

lemma for_all_many_Some: "length vs + binders a < 2 ^ 32 \<Longrightarrow> \<exists>b. for_all_many vs a = Some b"
proof (induction vs)
  case (Cons v vs)
  then obtain b where b: "for_all_many vs a = Some b" by auto
  with Cons.prems have "binders b < 2 ^ 32" by (auto dest: binders_for_all_many)
  with b Cons.prems show ?case using for_all_Some [of b v] by (simp add: for_all_many_Cons)
qed (simp add: for_all_many_def)

end
