(* ===== verification/Logic.thy ===== *)
theory Logic
  imports Semantics
begin

text \<open>
  Representation-independent recipes for the logical axioms and schemas,
  \<open>naome-foundation/src/construction.rs\<close>, and the primitive calculus built on them,
  \<open>naome-foundation/src/logic.rs\<close>. A recipe is an \<open>expression\<close> over inputs of any type; \<open>evaluate\<close>
  builds the primitive formula. \<open>expr_sem\<close> is the meaning of a recipe, and \<open>sem_evaluate\<close> shows once
  and for all that evaluation respects it, so that the validity of each axiom is propositional.
\<close>

section \<open>Recipes\<close>

datatype 'f expression =
    Input 'f
  | EEqual free_variable free_variable
  | EMember free_variable free_variable
  | ENot "'f expression"
  | EImplies "'f expression" "'f expression"
  | EForAll free_variable "'f expression"
  | EVacuous "'f expression"
  | ESubstitute free_variable free_variable "'f expression"

definition expr_negate :: "'f expression \<Rightarrow> 'f expression" where
  "expr_negate e = ENot e"

definition expr_implies :: "'f expression \<Rightarrow> 'f expression \<Rightarrow> 'f expression" where
  "expr_implies e right = EImplies e right"

definition expr_for_all :: "'f expression \<Rightarrow> free_variable \<Rightarrow> 'f expression" where
  "expr_for_all e variable = EForAll variable e"

definition expr_exists :: "'f expression \<Rightarrow> free_variable \<Rightarrow> 'f expression" where
  "expr_exists e variable = expr_negate (expr_for_all (expr_negate e) variable)"

definition expr_conjunction :: "'f expression \<Rightarrow> 'f expression \<Rightarrow> 'f expression" where
  "expr_conjunction e right = expr_negate (expr_implies e (expr_negate right))"

definition expr_substitute :: "'f expression \<Rightarrow> free_variable \<Rightarrow> free_variable \<Rightarrow> 'f expression" where
  "expr_substitute e from to = ESubstitute from to e"

definition expr_biconditional :: "'f expression \<Rightarrow> 'f expression \<Rightarrow> 'f expression" where
  "expr_biconditional e right = expr_conjunction (expr_implies e right) (expr_implies right e)"

primrec evaluate :: "node expression \<Rightarrow> node option" where
  "evaluate (Input a) = Some a"
| "evaluate (EEqual a b) = Some (equal a b)"
| "evaluate (EMember a b) = Some (member a b)"
| "evaluate (ENot a) = map_option negate (evaluate a)"
| "evaluate (EImplies a b) =
     Option.bind (evaluate a) (\<lambda>x. map_option (implies x) (evaluate b))"
| "evaluate (EForAll v a) = Option.bind (evaluate a) (for_all v)"
| "evaluate (EVacuous a) = map_option vacuous_for_all (evaluate a)"
| "evaluate (ESubstitute a b e) = map_option (substitute_free a b) (evaluate e)"

definition expr_simplification :: "'f \<Rightarrow> 'f \<Rightarrow> 'f expression" where
  "expr_simplification a b = expr_implies (Input a) (expr_implies (Input b) (Input a))"

definition expr_frege :: "'f \<Rightarrow> 'f \<Rightarrow> 'f \<Rightarrow> 'f expression" where
  "expr_frege a b c =
     expr_implies (expr_implies (Input a) (expr_implies (Input b) (Input c)))
       (expr_implies (expr_implies (Input a) (Input b)) (expr_implies (Input a) (Input c)))"

definition expr_contraposition :: "'f \<Rightarrow> 'f \<Rightarrow> 'f expression" where
  "expr_contraposition a b =
     expr_implies (expr_implies (expr_negate (Input b)) (expr_negate (Input a)))
       (expr_implies (Input a) (Input b))"

definition expr_distribution :: "free_variable \<Rightarrow> 'f \<Rightarrow> 'f \<Rightarrow> 'f expression" where
  "expr_distribution v a b =
     expr_implies (expr_for_all (expr_implies (Input a) (Input b)) v)
       (expr_implies (expr_for_all (Input a) v) (expr_for_all (Input b) v))"

definition expr_vacuous :: "'f \<Rightarrow> 'f expression" where
  "expr_vacuous a = expr_implies (Input a) (EVacuous (Input a))"

definition expr_instantiation :: "free_variable \<Rightarrow> free_variable \<Rightarrow> 'f \<Rightarrow> 'f expression" where
  "expr_instantiation v replacement a =
     expr_implies (expr_for_all (Input a) v) (expr_substitute (Input a) v replacement)"

definition expr_substitution :: "free_variable \<Rightarrow> free_variable \<Rightarrow> 'f \<Rightarrow> 'f expression" where
  "expr_substitution from to body =
     expr_implies (EEqual from to) (expr_implies (Input body) (expr_substitute (Input body) from to))"

definition expr_separation :: "'f \<Rightarrow> free_variable \<Rightarrow> free_variable \<Rightarrow> free_variable \<Rightarrow> 'f expression" where
  "expr_separation predicate element source result =
     expr_for_all
       (expr_exists
         (expr_for_all
           (expr_biconditional (EMember element result)
             (expr_conjunction (EMember element source) (Input predicate)))
           element)
         result)
       source"

definition expr_replacement ::
  "'f \<Rightarrow> free_variable \<Rightarrow> free_variable \<Rightarrow> free_variable \<Rightarrow> free_variable \<Rightarrow> free_variable \<Rightarrow> 'f expression" where
  "expr_replacement predicate input output witness source result =
     (let uniqueness = expr_for_all
            (expr_implies (expr_substitute (Input predicate) output witness) (EEqual witness output)) witness;
          unique = expr_exists (expr_conjunction (Input predicate) uniqueness) output;
          total = expr_for_all (expr_implies (EMember input source) unique) input;
          preimage = expr_exists (expr_conjunction (EMember input source) (Input predicate)) input;
          image = expr_for_all (expr_biconditional (EMember output result) preimage) output
      in expr_for_all (expr_implies total (expr_exists image result)) source)"

section \<open>The calculus\<close>

datatype logic_error = ExpectedImplication | AntecedentMismatch

definition simplification :: "node \<Rightarrow> node \<Rightarrow> node option" where
  "simplification antecedent consequent = evaluate (expr_simplification antecedent consequent)"

definition frege :: "node \<Rightarrow> node \<Rightarrow> node \<Rightarrow> node option" where
  "frege first second third = evaluate (expr_frege first second third)"

definition classical_contraposition :: "node \<Rightarrow> node \<Rightarrow> node option" where
  "classical_contraposition antecedent consequent = evaluate (expr_contraposition antecedent consequent)"

definition universal_distribution :: "free_variable \<Rightarrow> node \<Rightarrow> node \<Rightarrow> node option" where
  "universal_distribution variable antecedent consequent =
     evaluate (expr_distribution variable antecedent consequent)"

definition vacuous_universal :: "node \<Rightarrow> node option" where
  "vacuous_universal formula = evaluate (expr_vacuous formula)"

definition universal_instantiation :: "free_variable \<Rightarrow> free_variable \<Rightarrow> node \<Rightarrow> node option" where
  "universal_instantiation variable replacement body =
     evaluate (expr_instantiation variable replacement body)"

definition equality_reflexivity :: "free_variable \<Rightarrow> node" where
  "equality_reflexivity variable = equal variable variable"

definition equality_substitution :: "free_variable \<Rightarrow> free_variable \<Rightarrow> node \<Rightarrow> node option" where
  "equality_substitution from to body = evaluate (expr_substitution from to body)"

definition modus_ponens :: "node \<Rightarrow> node \<Rightarrow> (logic_error, node) outcome" where
  "modus_ponens premise implication =
     and_then (ok_or ExpectedImplication (implication_parts implication)) (\<lambda>(antecedent, consequent).
       if antecedent \<noteq> premise then Err AntecedentMismatch else Ok consequent)"

definition generalization :: "free_variable \<Rightarrow> node \<Rightarrow> node option" where
  "generalization variable premise = for_all variable premise"

section \<open>The meaning of a recipe\<close>

primrec expr_sem :: "'d universe \<Rightarrow> 'd assignment \<Rightarrow> node expression \<Rightarrow> bool" where
  "expr_sem E r (Input a) = sem E r [] a"
| "expr_sem E r (EEqual x y) = (r x = r y)"
| "expr_sem E r (EMember x y) = E (r x) (r y)"
| "expr_sem E r (ENot e) = (\<not> expr_sem E r e)"
| "expr_sem E r (EImplies e f) = (expr_sem E r e \<longrightarrow> expr_sem E r f)"
| "expr_sem E r (EForAll v e) = (\<forall>d. expr_sem E (r(v := d)) e)"
| "expr_sem E r (EVacuous e) = expr_sem E r e"
| "expr_sem E r (ESubstitute x y e) = expr_sem E (r(x := r y)) e"

primrec expr_well_formed :: "node expression \<Rightarrow> bool" where
  "expr_well_formed (Input a) = well_formed a"
| "expr_well_formed (EEqual x y) = True"
| "expr_well_formed (EMember x y) = True"
| "expr_well_formed (ENot e) = expr_well_formed e"
| "expr_well_formed (EImplies e f) = (expr_well_formed e \<and> expr_well_formed f)"
| "expr_well_formed (EForAll v e) = expr_well_formed e"
| "expr_well_formed (EVacuous e) = expr_well_formed e"
| "expr_well_formed (ESubstitute x y e) = expr_well_formed e"

primrec expr_binders :: "node expression \<Rightarrow> nat" where
  "expr_binders (Input a) = binders a"
| "expr_binders (EEqual x y) = 0"
| "expr_binders (EMember x y) = 0"
| "expr_binders (ENot e) = expr_binders e"
| "expr_binders (EImplies e f) = max (expr_binders e) (expr_binders f)"
| "expr_binders (EForAll v e) = Suc (expr_binders e)"
| "expr_binders (EVacuous e) = Suc (expr_binders e)"
| "expr_binders (ESubstitute x y e) = expr_binders e"

primrec expr_frees :: "node expression \<Rightarrow> free_variable set" where
  "expr_frees (Input a) = frees a"
| "expr_frees (EEqual x y) = {x, y}"
| "expr_frees (EMember x y) = {x, y}"
| "expr_frees (ENot e) = expr_frees e"
| "expr_frees (EImplies e f) = expr_frees e \<union> expr_frees f"
| "expr_frees (EForAll v e) = expr_frees e - {v}"
| "expr_frees (EVacuous e) = expr_frees e"
| "expr_frees (ESubstitute x y e) =
     (if x \<in> expr_frees e then insert y (expr_frees e - {x}) else expr_frees e)"

lemmas expr_combinators =
  expr_negate_def expr_implies_def expr_for_all_def expr_exists_def expr_conjunction_def
  expr_substitute_def expr_biconditional_def

lemmas expr_recipes =
  expr_simplification_def expr_frege_def expr_contraposition_def expr_distribution_def
  expr_vacuous_def expr_instantiation_def expr_substitution_def

lemmas logic_axiom_defs =
  simplification_def frege_def classical_contraposition_def universal_distribution_def
  vacuous_universal_def universal_instantiation_def equality_substitution_def

lemma expr_sem_combinators [simp]:
  "expr_sem E r (expr_negate e) = (\<not> expr_sem E r e)"
  "expr_sem E r (expr_implies e f) = (expr_sem E r e \<longrightarrow> expr_sem E r f)"
  "expr_sem E r (expr_for_all e v) = (\<forall>d. expr_sem E (r(v := d)) e)"
  "expr_sem E r (expr_exists e v) = (\<exists>d. expr_sem E (r(v := d)) e)"
  "expr_sem E r (expr_conjunction e f) = (expr_sem E r e \<and> expr_sem E r f)"
  "expr_sem E r (expr_biconditional e f) = (expr_sem E r e = expr_sem E r f)"
  "expr_sem E r (expr_substitute e x y) = expr_sem E (r(x := r y)) e"
  by (auto simp: expr_combinators)

lemma evaluate_well_formed: "evaluate e = Some a \<Longrightarrow> expr_well_formed e \<Longrightarrow> well_formed a"
  by (induction e arbitrary: a)
    (auto simp: bind_eq_Some_conv intro: for_all_well_formed vacuous_well_formed)

lemma sem_evaluate: "evaluate e = Some a \<Longrightarrow> expr_well_formed e \<Longrightarrow> sem E r [] a = expr_sem E r e"
proof (induction e arbitrary: a r)
  case (EForAll v e)
  then obtain b where b: "evaluate e = Some b" "for_all v b = Some a" by (auto simp: bind_eq_Some_conv)
  with EForAll show ?case by (simp add: sem_for_all evaluate_well_formed)
next
  case (EVacuous e)
  then show ?case by (auto simp: sem_vacuous evaluate_well_formed)
next
  case (ESubstitute x y e)
  then show ?case by (auto simp: sem_substitute_free)
qed (auto simp: bind_eq_Some_conv)

lemma binders_evaluate: "evaluate e = Some a \<Longrightarrow> binders a = expr_binders e"
  by (induction e arbitrary: a)
    (auto simp: bind_eq_Some_conv formula_defs dest: binders_for_all)

lemma frees_evaluate: "evaluate e = Some a \<Longrightarrow> frees a = expr_frees e"
  by (induction e arbitrary: a)
    (auto simp: bind_eq_Some_conv frees_substitute_free vacuous_for_all_def dest!: frees_for_all split: if_splits)

lemma evaluate_Some: "expr_binders e < 2 ^ 32 \<Longrightarrow> \<exists>a. evaluate e = Some a"
proof (induction e)
  case (EForAll v e)
  then obtain b where b: "evaluate e = Some b" by auto
  with EForAll.prems have "binders b < 2 ^ 32" by (auto dest: binders_evaluate)
  with b show ?case using for_all_Some [of b v] by auto
qed fastforce+

section \<open>Every axiom is valid and every rule preserves validity\<close>

lemma logic_axioms_valid:
  "simplification a b = Some c \<Longrightarrow> well_formed a \<Longrightarrow> well_formed b \<Longrightarrow> sem E r [] c"
  "frege a b d = Some c \<Longrightarrow> well_formed a \<Longrightarrow> well_formed b \<Longrightarrow> well_formed d \<Longrightarrow> sem E r [] c"
  "classical_contraposition a b = Some c \<Longrightarrow> well_formed a \<Longrightarrow> well_formed b \<Longrightarrow> sem E r [] c"
  "universal_distribution x a b = Some c \<Longrightarrow> well_formed a \<Longrightarrow> well_formed b \<Longrightarrow> sem E r [] c"
  "vacuous_universal a = Some c \<Longrightarrow> well_formed a \<Longrightarrow> sem E r [] c"
  "universal_instantiation x y a = Some c \<Longrightarrow> well_formed a \<Longrightarrow> sem E r [] c"
  "equality_substitution x y a = Some c \<Longrightarrow> well_formed a \<Longrightarrow> sem E r [] c"
  unfolding logic_axiom_defs
  by (drule sem_evaluate [where E = E and r = r]; auto simp: expr_recipes expr_combinators fun_upd_idem)+

lemma logic_axioms_well_formed:
  "simplification a b = Some c \<Longrightarrow> well_formed a \<Longrightarrow> well_formed b \<Longrightarrow> well_formed c"
  "frege a b d = Some c \<Longrightarrow> well_formed a \<Longrightarrow> well_formed b \<Longrightarrow> well_formed d \<Longrightarrow> well_formed c"
  "classical_contraposition a b = Some c \<Longrightarrow> well_formed a \<Longrightarrow> well_formed b \<Longrightarrow> well_formed c"
  "universal_distribution x a b = Some c \<Longrightarrow> well_formed a \<Longrightarrow> well_formed b \<Longrightarrow> well_formed c"
  "vacuous_universal a = Some c \<Longrightarrow> well_formed a \<Longrightarrow> well_formed c"
  "universal_instantiation x y a = Some c \<Longrightarrow> well_formed a \<Longrightarrow> well_formed c"
  "equality_substitution x y a = Some c \<Longrightarrow> well_formed a \<Longrightarrow> well_formed c"
  unfolding logic_axiom_defs
  by (erule evaluate_well_formed; simp add: expr_recipes expr_combinators)+

lemma logic_axioms_Some:
  "binders a < 2 ^ 32 \<Longrightarrow> binders b < 2 ^ 32 \<Longrightarrow> \<exists>c. simplification a b = Some c"
  "binders a < 2 ^ 32 \<Longrightarrow> binders b < 2 ^ 32 \<Longrightarrow> binders d < 2 ^ 32 \<Longrightarrow> \<exists>c. frege a b d = Some c"
  "binders a < 2 ^ 32 \<Longrightarrow> binders b < 2 ^ 32 \<Longrightarrow> \<exists>c. classical_contraposition a b = Some c"
  "Suc (binders a) < 2 ^ 32 \<Longrightarrow> Suc (binders b) < 2 ^ 32 \<Longrightarrow> \<exists>c. universal_distribution x a b = Some c"
  "Suc (binders a) < 2 ^ 32 \<Longrightarrow> \<exists>c. vacuous_universal a = Some c"
  "Suc (binders a) < 2 ^ 32 \<Longrightarrow> \<exists>c. universal_instantiation x y a = Some c"
  "binders a < 2 ^ 32 \<Longrightarrow> \<exists>c. equality_substitution x y a = Some c"
  unfolding logic_axiom_defs
  by (rule evaluate_Some; simp add: expr_recipes expr_combinators)+

lemma modus_ponens_Ok: "modus_ponens p i = Ok c \<longleftrightarrow> i = FImplies p c"
  by (cases i) (auto simp: modus_ponens_def implication_parts_def)

lemma modus_ponens_not_Panic [simp]: "modus_ponens p i \<noteq> Panic"
  by (cases i) (auto simp: modus_ponens_def implication_parts_def)

end
