(* ===== verification/Zfc.thy ===== *)
theory Zfc
  imports Logic "HOL-Library.Monad_Syntax"
begin

text \<open>
  The seven fixed ZFC axioms and the Separation and Replacement schemas,
  \<open>naome-foundation/src/zfc.rs\<close>. Each axiom is built with the formula constructors, exactly as the
  source builds it; \<open>zfc_meaning\<close> is its textbook statement over a structure, and the main lemmas show
  that the constructed formulas, and every schema instance that passes the side conditions, mean
  that statement.
\<close>

datatype zfc_axiom =
  Extensionality | Pairing | Union | PowerSet | Infinity | Foundation | Choice

record separation =
  sep_predicate :: node
  sep_element :: free_variable
  sep_source :: free_variable
  sep_result :: free_variable
  sep_parameters :: "free_variable list"

record replacement =
  rep_predicate :: node
  rep_input :: free_variable
  rep_output :: free_variable
  rep_uniqueness_witness :: free_variable
  rep_source :: free_variable
  rep_result :: free_variable
  rep_parameters :: "free_variable list"

datatype schema_error =
    RoleVariableCollision free_variable
  | ParameterCollidesWithRole free_variable
  | DuplicateParameter free_variable
  | ForbiddenPredicateVariable free_variable
  | UndeclaredPredicateVariable free_variable

section \<open>The fixed axioms\<close>

definition extensionality :: "node option" where
  "extensionality =
     (let x = 0; y = 1; z = 2 in do {
        same_members \<leftarrow> for_all z (biconditional (member z x) (member z y));
        for_all_many [x, y] (implies same_members (equal x y))
      })"

definition pairing :: "node option" where
  "pairing =
     (let x = 0; y = 1; pair = 2; z = 3;
          pair_member = disjunction (equal z x) (equal z y) in do {
        body \<leftarrow> for_all z (biconditional (member z pair) pair_member);
        some_pair \<leftarrow> exists_formula pair body;
        for_all_many [x, y] some_pair
      })"

definition union :: "node option" where
  "union =
     (let source = 0; union_set = 1; element = 2; member_set = 3 in do {
        appears_in_member \<leftarrow> exists_formula member_set
          (conjunction (member element member_set) (member member_set source));
        body \<leftarrow> for_all element (biconditional (member element union_set) appears_in_member);
        some_union \<leftarrow> exists_formula union_set body;
        for_all source some_union
      })"

definition power_set :: "node option" where
  "power_set =
     (let source = 0; power = 1; subset = 2; element = 3 in do {
        is_subset \<leftarrow> for_all element (implies (member element subset) (member element source));
        body \<leftarrow> for_all subset (biconditional (member subset power) is_subset);
        some_power \<leftarrow> exists_formula power body;
        for_all source some_power
      })"

definition infinity :: "node option" where
  "infinity =
     (let inductive_set = 0; empty = 1; element = 2; successor = 3; candidate = 4 in do {
        is_empty \<leftarrow> for_all candidate (negate (member candidate empty));
        contains_empty \<leftarrow> exists_formula empty (conjunction is_empty (member empty inductive_set));
        is_successor \<leftarrow> for_all candidate
          (biconditional (member candidate successor)
            (disjunction (member candidate element) (equal candidate element)));
        contains_successor \<leftarrow> exists_formula successor
          (conjunction is_successor (member successor inductive_set));
        successor_closed \<leftarrow> for_all element (implies (member element inductive_set) contains_successor);
        exists_formula inductive_set (conjunction contains_empty successor_closed)
      })"

definition foundation :: "node option" where
  "foundation =
     (let container = 0; element = 1; nested = 2 in do {
        is_non_empty \<leftarrow> exists_formula element (member element container);
        is_disjoint \<leftarrow> for_all nested
          (implies (member nested element) (negate (member nested container)));
        has_minimal_element \<leftarrow> exists_formula element
          (conjunction (member element container) is_disjoint);
        for_all container (implies is_non_empty has_minimal_element)
      })"

definition choice :: "node option" where
  "choice =
     (let family = 0; first_set = 1; second_set = 2; element = 3; choice_set = 4; other_element = 5 in do {
        has_element \<leftarrow> exists_formula element (member element first_set);
        non_empty_family \<leftarrow> for_all first_set (implies (member first_set family) has_element);
        shared_element \<leftarrow> exists_formula element
          (conjunction (member element first_set) (member element second_set));
        pairwise_disjoint \<leftarrow> for_all_many [first_set, second_set]
          (implies
            (conjunction
              (conjunction (member first_set family) (member second_set family))
              (negate (equal first_set second_set)))
            (negate shared_element));
        unique \<leftarrow> for_all other_element
          (implies
            (conjunction (member other_element first_set) (member other_element choice_set))
            (equal other_element element));
        exactly_one \<leftarrow> exists_formula element
          (conjunction (conjunction (member element first_set) (member element choice_set)) unique);
        meets_every_member \<leftarrow> for_all first_set (implies (member first_set family) exactly_one);
        has_choice_set \<leftarrow> exists_formula choice_set meets_every_member;
        for_all family (implies (conjunction non_empty_family pairwise_disjoint) has_choice_set)
      })"

primrec zfc_formula :: "zfc_axiom \<Rightarrow> node option" where
  "zfc_formula Extensionality = extensionality"
| "zfc_formula Pairing = pairing"
| "zfc_formula Union = union"
| "zfc_formula PowerSet = power_set"
| "zfc_formula Infinity = infinity"
| "zfc_formula Foundation = foundation"
| "zfc_formula Choice = choice"

section \<open>Schemas\<close>

fun check_roles :: "free_variable list \<Rightarrow> free_variable list \<Rightarrow> (schema_error, unit) outcome" where
  "check_roles earlier [] = Ok ()"
| "check_roles earlier (v # vs) =
     (if v \<in> set earlier then Err (RoleVariableCollision v) else check_roles (earlier @ [v]) vs)"

fun check_parameters ::
  "free_variable list \<Rightarrow> free_variable list \<Rightarrow> free_variable list \<Rightarrow> (schema_error, free_variable list) outcome" where
  "check_parameters roles declared [] = Ok declared"
| "check_parameters roles declared (p # ps) =
     (if p \<in> set roles then Err (ParameterCollidesWithRole p)
      else if p \<in> set declared then Err (DuplicateParameter p)
      else check_parameters roles (insort_insert p declared) ps)"

fun check_predicate_variables ::
  "free_variable list \<Rightarrow> free_variable list \<Rightarrow> free_variable list \<Rightarrow> free_variable list \<Rightarrow> (schema_error, unit) outcome" where
  "check_predicate_variables allowed forbidden declared [] = Ok ()"
| "check_predicate_variables allowed forbidden declared (v # vs) =
     (if v \<in> set forbidden then Err (ForbiddenPredicateVariable v)
      else if v \<notin> set allowed \<and> v \<notin> set declared then Err (UndeclaredPredicateVariable v)
      else check_predicate_variables allowed forbidden declared vs)"

definition validate_schema ::
  "node \<Rightarrow> free_variable list \<Rightarrow> free_variable list \<Rightarrow> free_variable list \<Rightarrow> free_variable list \<Rightarrow> (schema_error, unit) outcome" where
  "validate_schema predicate role_variables allowed_roles forbidden_roles parameters =
     and_then (check_roles [] role_variables) (\<lambda>_.
       and_then (check_parameters role_variables [] parameters) (\<lambda>declared_parameters.
         check_predicate_variables allowed_roles forbidden_roles declared_parameters
           (free_variables predicate)))"

definition close_parameters :: "free_variable list \<Rightarrow> node \<Rightarrow> node option" where
  "close_parameters parameters body = for_all_many parameters body"

definition separation_formula :: "separation \<Rightarrow> (schema_error, node) outcome" where
  "separation_formula s =
     and_then (validate_schema (sep_predicate s)
         [sep_element s, sep_source s, sep_result s]
         [sep_element s, sep_source s]
         [sep_result s]
         (sep_parameters s)) (\<lambda>_.
       expect (do {
         body \<leftarrow> evaluate (expr_separation (sep_predicate s) (sep_element s) (sep_source s) (sep_result s));
         close_parameters (sep_parameters s) body
       }))"

definition replacement_formula :: "replacement \<Rightarrow> (schema_error, node) outcome" where
  "replacement_formula s =
     and_then (validate_schema (rep_predicate s)
         [rep_input s, rep_output s, rep_uniqueness_witness s, rep_source s, rep_result s]
         [rep_input s, rep_output s, rep_source s]
         [rep_uniqueness_witness s, rep_result s]
         (rep_parameters s)) (\<lambda>_.
       expect (do {
         body \<leftarrow> evaluate (expr_replacement (rep_predicate s) (rep_input s) (rep_output s)
           (rep_uniqueness_witness s) (rep_source s) (rep_result s));
         close_parameters (rep_parameters s) body
       }))"

section \<open>The textbook statements\<close>

primrec zfc_meaning :: "'d universe \<Rightarrow> zfc_axiom \<Rightarrow> bool" where
  "zfc_meaning E Extensionality = (\<forall>x y. (\<forall>z. E z x \<longleftrightarrow> E z y) \<longrightarrow> x = y)"
| "zfc_meaning E Pairing = (\<forall>x y. \<exists>p. \<forall>z. E z p \<longleftrightarrow> z = x \<or> z = y)"
| "zfc_meaning E Union = (\<forall>s. \<exists>u. \<forall>e. E e u \<longleftrightarrow> (\<exists>m. E e m \<and> E m s))"
| "zfc_meaning E PowerSet = (\<forall>s. \<exists>p. \<forall>b. E b p \<longleftrightarrow> (\<forall>e. E e b \<longrightarrow> E e s))"
| "zfc_meaning E Infinity =
     (\<exists>i. (\<exists>e. (\<forall>c. \<not> E c e) \<and> E e i)
        \<and> (\<forall>x. E x i \<longrightarrow> (\<exists>s. (\<forall>c. E c s \<longleftrightarrow> E c x \<or> c = x) \<and> E s i)))"
| "zfc_meaning E Foundation =
     (\<forall>s. (\<exists>x. E x s) \<longrightarrow> (\<exists>x. E x s \<and> (\<forall>n. E n x \<longrightarrow> \<not> E n s)))"
| "zfc_meaning E Choice =
     (\<forall>f. (\<forall>a. E a f \<longrightarrow> (\<exists>x. E x a))
        \<and> (\<forall>a b. E a f \<and> E b f \<and> a \<noteq> b \<longrightarrow> \<not> (\<exists>x. E x a \<and> E x b))
        \<longrightarrow> (\<exists>c. \<forall>a. E a f \<longrightarrow> (\<exists>!x. E x a \<and> E x c)))"

definition separation_meaning :: "'d universe \<Rightarrow> 'd assignment \<Rightarrow> separation \<Rightarrow> bool" where
  "separation_meaning E r s \<longleftrightarrow>
     (\<forall>a. \<exists>b. \<forall>x. E x b \<longleftrightarrow> E x a \<and> sem E (r(sep_source s := a, sep_element s := x)) [] (sep_predicate s))"

definition replacement_meaning :: "'d universe \<Rightarrow> 'd assignment \<Rightarrow> replacement \<Rightarrow> bool" where
  "replacement_meaning E r s \<longleftrightarrow>
     (let p = (\<lambda>a x y. sem E (r(rep_source s := a, rep_input s := x, rep_output s := y)) [] (rep_predicate s))
      in \<forall>a. (\<forall>x. E x a \<longrightarrow> (\<exists>!y. p a x y)) \<longrightarrow> (\<exists>b. \<forall>y. E y b \<longleftrightarrow> (\<exists>x. E x a \<and> p a x y)))"

text \<open>The primitive formulas that the seven constructions produce.\<close>

primrec zfc_tree :: "zfc_axiom \<Rightarrow> node" where
  "zfc_tree Extensionality =
     (FForAll (FForAll (implies (FForAll (biconditional (FMember (Bound 0) (Bound 2))
       (FMember (Bound 0) (Bound 1)))) (FEqual (Bound 1) (Bound 0)))))"
| "zfc_tree Pairing =
     (FForAll (FForAll (negate (FForAll (negate (FForAll (biconditional (FMember (Bound 0)
       (Bound 1)) (disjunction (FEqual (Bound 0) (Bound 3)) (FEqual (Bound 0) (Bound
       2))))))))))"
| "zfc_tree Union =
     (FForAll (negate (FForAll (negate (FForAll (biconditional (FMember (Bound 0) (Bound 1))
       (negate (FForAll (negate (conjunction (FMember (Bound 1) (Bound 0)) (FMember (Bound
       0) (Bound 3))))))))))))"
| "zfc_tree PowerSet =
     (FForAll (negate (FForAll (negate (FForAll (biconditional (FMember (Bound 0) (Bound 1))
       (FForAll (implies (FMember (Bound 0) (Bound 1)) (FMember (Bound 0) (Bound 3))))))))))"
| "zfc_tree Infinity =
     (negate (FForAll (negate (conjunction (negate (FForAll (negate (conjunction (FForAll
       (negate (FMember (Bound 0) (Bound 1)))) (FMember (Bound 0) (Bound 1)))))) (FForAll
       (implies (FMember (Bound 0) (Bound 1)) (negate (FForAll (negate (conjunction (FForAll
       (biconditional (FMember (Bound 0) (Bound 1)) (disjunction (FMember (Bound 0) (Bound
       2)) (FEqual (Bound 0) (Bound 2))))) (FMember (Bound 0) (Bound 2))))))))))))"
| "zfc_tree Foundation =
     (FForAll (implies (negate (FForAll (negate (FMember (Bound 0) (Bound 1))))) (negate
       (FForAll (negate (conjunction (FMember (Bound 0) (Bound 1)) (FForAll (implies
       (FMember (Bound 0) (Bound 1)) (negate (FMember (Bound 0) (Bound 2)))))))))))"
| "zfc_tree Choice =
     (FForAll (implies (conjunction (FForAll (implies (FMember (Bound 0) (Bound 1)) (negate
       (FForAll (negate (FMember (Bound 0) (Bound 1))))))) (FForAll (FForAll (implies
       (conjunction (conjunction (FMember (Bound 1) (Bound 2)) (FMember (Bound 0) (Bound
       2))) (negate (FEqual (Bound 1) (Bound 0)))) (negate (negate (FForAll (negate
       (conjunction (FMember (Bound 0) (Bound 2)) (FMember (Bound 0) (Bound 1)))))))))))
       (negate (FForAll (negate (FForAll (implies (FMember (Bound 0) (Bound 2)) (negate
       (FForAll (negate (conjunction (conjunction (FMember (Bound 0) (Bound 1)) (FMember
       (Bound 0) (Bound 2))) (FForAll (implies (conjunction (FMember (Bound 0) (Bound 2))
       (FMember (Bound 0) (Bound 3))) (FEqual (Bound 0) (Bound 1)))))))))))))))"

section \<open>The fixed axioms mean their textbook statements\<close>

lemmas zfc_defs =
  extensionality_def pairing_def union_def power_set_def infinity_def foundation_def choice_def

lemma bind_free_connectives:
  "bind_free f d (negate a) = map_option negate (bind_free f d a)"
  "bind_free f d (implies a b) = Option.bind (bind_free f d a) (\<lambda>x. map_option (implies x) (bind_free f d b))"
  "bind_free f d (conjunction a b) =
     Option.bind (bind_free f d a) (\<lambda>x. map_option (conjunction x) (bind_free f d b))"
  "bind_free f d (disjunction a b) =
     Option.bind (bind_free f d a) (\<lambda>x. map_option (disjunction x) (bind_free f d b))"
  "bind_free f d (biconditional a b) =
     Option.bind (bind_free f d a) (\<lambda>x. map_option (biconditional x) (bind_free f d b))"
  by (cases "bind_free f d a"; cases "bind_free f d b"; simp add: formula_defs)+

lemmas formula_eval =
  for_all_def exists_formula_def for_all_many_def equal_def member_def bind_variable_def
  checked_add_def u32_try_from_def Let_def bind_free_connectives


lemma zfc_formula_tree: "zfc_formula ax = Some (zfc_tree ax)"
  by (cases ax) (simp_all add: zfc_defs formula_eval)

lemma zfc_tree_well_formed: "well_formed (zfc_tree ax)" and zfc_tree_closed: "is_closed (zfc_tree ax)"
  by (cases ax; simp add: formula_defs well_formed_def is_closed_iff)+

lemma sem_zfc_tree: "sem E r [] (zfc_tree ax) \<longleftrightarrow> zfc_meaning E ax"
  by (cases ax) (simp_all add: Ex1_def conj_assoc imp_conjL cong del: imp_cong)

section \<open>Schema instances mean the schemas\<close>

lemma check_roles_Ok: "check_roles xs ys = Ok () \<longleftrightarrow> distinct ys \<and> set xs \<inter> set ys = {}"
  by (induction xs ys rule: check_roles.induct) auto

lemma check_parameters_Ok:
  "check_parameters roles declared ps = Ok d \<Longrightarrow>
     distinct ps \<and> set ps \<inter> set roles = {} \<and> set ps \<inter> set declared = {} \<and> set d = set declared \<union> set ps"
  by (induction roles declared ps arbitrary: d rule: check_parameters.induct)
    (auto simp: set_insort_insert split: if_splits)

lemma check_predicate_variables_Ok:
  "check_predicate_variables allowed forbidden declared vs = Ok () \<longleftrightarrow>
     set vs \<inter> set forbidden = {} \<and> set vs \<subseteq> set allowed \<union> set declared"
  by (induction vs) auto

lemma check_roles_not_Panic [simp]: "check_roles xs ys \<noteq> Panic"
  by (induction xs ys rule: check_roles.induct) auto

lemma check_parameters_not_Panic [simp]: "check_parameters roles declared ps \<noteq> Panic"
  by (induction roles declared ps rule: check_parameters.induct) auto

lemma check_predicate_variables_not_Panic [simp]: "check_predicate_variables a f d vs \<noteq> Panic"
  by (induction vs) auto

lemma validate_schema_not_Panic [simp]: "validate_schema p roles allowed forbidden ps \<noteq> Panic"
  by (auto simp: validate_schema_def)

lemma validate_schema_Ok:
  assumes "validate_schema p roles allowed forbidden ps = Ok u"
  shows "distinct roles" "distinct ps" "set ps \<inter> set roles = {}"
    "frees p \<inter> set forbidden = {}" "frees p \<subseteq> set allowed \<union> set ps"
  using assms
  by (auto simp: validate_schema_def check_roles_Ok check_predicate_variables_Ok dest!: check_parameters_Ok)

lemma separation_formula_Ok:
  assumes "separation_formula s = Ok a" "well_formed (sep_predicate s)"
  shows "well_formed a" "is_closed a"
    "sem E r [] a \<longleftrightarrow> (\<forall>ds. length ds = length (sep_parameters s) \<longrightarrow>
       separation_meaning E (assign r (sep_parameters s) ds) s)"
proof -
  let ?e = "expr_separation (sep_predicate s) (sep_element s) (sep_source s) (sep_result s)"
  from assms(1) obtain b where b: "evaluate ?e = Some b" "for_all_many (sep_parameters s) b = Some a"
    and v: "validate_schema (sep_predicate s) [sep_element s, sep_source s, sep_result s]
      [sep_element s, sep_source s] [sep_result s] (sep_parameters s) = Ok ()"
    by (auto simp: separation_formula_def close_parameters_def bind_eq_Some_conv)
  note v' = validate_schema_Ok [OF v]
  have wfe: "expr_well_formed ?e"
    using assms(2) by (simp add: expr_separation_def expr_combinators)
  have wfb: "well_formed b" by (rule evaluate_well_formed [OF b(1) wfe])
  show "well_formed a" by (rule for_all_many_well_formed [OF b(2) wfb])
  have fb: "frees b \<subseteq> frees (sep_predicate s) - {sep_element s, sep_source s}"
    using v' by (auto simp: frees_evaluate [OF b(1)] expr_separation_def expr_combinators)
  show "is_closed a"
    using frees_for_all_many [OF b(2)] fb v' by (auto simp: is_closed_iff)
  have ne: "sep_source s \<noteq> sep_element s" "sep_result s \<noteq> sep_element s" "sep_source s \<noteq> sep_result s"
    using v'(1) by auto
  have irrelevant: "sem E (q(sep_source s := x, sep_result s := y, sep_element s := z)) [] (sep_predicate s)
      = sem E (q(sep_source s := x, sep_element s := z)) [] (sep_predicate s)" for q x y z
    using v' by (intro sem_cong) auto
  have "sem E q [] b \<longleftrightarrow> separation_meaning E q s" for q
    unfolding sem_evaluate [OF b(1) wfe]
    by (simp add: expr_separation_def separation_meaning_def irrelevant ne)
  then show "sem E r [] a \<longleftrightarrow> (\<forall>ds. length ds = length (sep_parameters s) \<longrightarrow>
       separation_meaning E (assign r (sep_parameters s) ds) s)"
    by (simp add: sem_for_all_many [OF b(2) wfb])
qed

lemma replacement_formula_Ok:
  assumes "replacement_formula s = Ok a" "well_formed (rep_predicate s)"
  shows "well_formed a" "is_closed a"
    "sem E r [] a \<longleftrightarrow> (\<forall>ds. length ds = length (rep_parameters s) \<longrightarrow>
       replacement_meaning E (assign r (rep_parameters s) ds) s)"
proof -
  let ?e = "expr_replacement (rep_predicate s) (rep_input s) (rep_output s) (rep_uniqueness_witness s)
    (rep_source s) (rep_result s)"
  from assms(1) obtain b where b: "evaluate ?e = Some b" "for_all_many (rep_parameters s) b = Some a"
    and v: "validate_schema (rep_predicate s)
      [rep_input s, rep_output s, rep_uniqueness_witness s, rep_source s, rep_result s]
      [rep_input s, rep_output s, rep_source s] [rep_uniqueness_witness s, rep_result s] (rep_parameters s) = Ok ()"
    by (auto simp: replacement_formula_def close_parameters_def bind_eq_Some_conv)
  note v' = validate_schema_Ok [OF v]
  have wfe: "expr_well_formed ?e"
    using assms(2) by (simp add: expr_replacement_def expr_combinators Let_def)
  have wfb: "well_formed b" by (rule evaluate_well_formed [OF b(1) wfe])
  show "well_formed a" by (rule for_all_many_well_formed [OF b(2) wfb])
  have fb: "frees b \<subseteq> frees (rep_predicate s) - {rep_input s, rep_output s, rep_source s}"
    using v' by (auto simp: frees_evaluate [OF b(1)] expr_replacement_def expr_combinators Let_def split: if_splits)
  show "is_closed a"
    using frees_for_all_many [OF b(2)] fb v' by (auto simp: is_closed_iff)
  let ?p = "\<lambda>q a x y. sem E (q(rep_source s := a, rep_input s := x, rep_output s := y)) [] (rep_predicate s)"
  have ne: "rep_source s \<noteq> rep_input s" "rep_input s \<noteq> rep_output s" "rep_source s \<noteq> rep_output s"
    "rep_result s \<noteq> rep_output s" "rep_result s \<noteq> rep_input s" "rep_uniqueness_witness s \<noteq> rep_output s"
    "rep_source s \<noteq> rep_result s" "rep_output s \<noteq> rep_input s" "rep_output s \<noteq> rep_uniqueness_witness s"
    using v'(1) by auto
  have sub: "sem E (q(rep_source s := u, rep_input s := x, rep_uniqueness_witness s := y,
      rep_output s := y)) [] (rep_predicate s) = ?p q u x y" for q u x y
    using v' by (intro sem_cong) auto
  have image: "sem E (q(rep_source s := u, rep_result s := w, rep_output s := y, rep_input s := x))
      [] (rep_predicate s) = ?p q u x y" for q u x y w
    using v' by (intro sem_cong) auto
  have "sem E q [] b \<longleftrightarrow> replacement_meaning E q s" for q
    unfolding sem_evaluate [OF b(1) wfe]
    by (simp add: expr_replacement_def replacement_meaning_def Let_def sub image Ex1_def ne)
  then show "sem E r [] a \<longleftrightarrow> (\<forall>ds. length ds = length (rep_parameters s) \<longrightarrow>
       replacement_meaning E (assign r (rep_parameters s) ds) s)"
    by (simp add: sem_for_all_many [OF b(2) wfb])
qed

section \<open>Schema instances do not panic\<close>

lemma close_evaluated_Some:
  assumes "length ps + expr_binders e < 2 ^ 32"
  shows "\<exists>a. Option.bind (evaluate e) (close_parameters ps) = Some a"
proof -
  obtain b where b: "evaluate e = Some b" using evaluate_Some [of e] assms by auto
  with assms show ?thesis
    using for_all_many_Some [of ps b] binders_evaluate [OF b] by (simp add: close_parameters_def)
qed

lemma separation_formula_not_Panic:
  assumes "length (sep_parameters s) + binders (sep_predicate s) + 3 < 2 ^ 32"
  shows "separation_formula s \<noteq> Panic"
  using close_evaluated_Some [of "sep_parameters s"
      "expr_separation (sep_predicate s) (sep_element s) (sep_source s) (sep_result s)"] assms
  by (auto simp: separation_formula_def expr_separation_def expr_combinators)

lemma replacement_formula_not_Panic:
  assumes "length (rep_parameters s) + binders (rep_predicate s) + 4 < 2 ^ 32"
  shows "replacement_formula s \<noteq> Panic"
  using close_evaluated_Some [of "rep_parameters s"
      "expr_replacement (rep_predicate s) (rep_input s) (rep_output s) (rep_uniqueness_witness s)
        (rep_source s) (rep_result s)"] assms
  by (auto simp: replacement_formula_def expr_replacement_def expr_combinators Let_def)

section \<open>What the axioms and schemas state\<close>

text \<open>C19. Each of the seven axioms is built without a panic as a well-formed sentence that is true in a
  structure exactly when the textbook statement of the axiom holds there.\<close>

theorem zfc_axiom_means_textbook_axiom:
  "\<exists>a. zfc_formula ax = Some a \<and> well_formed a \<and> is_closed a \<and>
     (\<forall>(E :: 'd universe) r. sem E r [] a \<longleftrightarrow> zfc_meaning E ax)"
  by (simp add: zfc_formula_tree zfc_tree_well_formed zfc_tree_closed sem_zfc_tree)

text \<open>C20. A Separation instance that passes the side conditions is a sentence that states, for all values
  of its parameters, that every set has the subset of the elements satisfying the predicate.\<close>

theorem separation_states_the_schema:
  assumes "separation_formula s = Ok a" "well_formed (sep_predicate s)"
  shows "well_formed a \<and> is_closed a \<and>
    (\<forall>(E :: 'd universe) r. sem E r [] a \<longleftrightarrow>
      (\<forall>ds. length ds = length (sep_parameters s) \<longrightarrow>
        separation_meaning E (assign r (sep_parameters s) ds) s))"
  using separation_formula_Ok [OF assms] by blast

text \<open>C21. A Replacement instance that passes the side conditions is a sentence that states, for all values
  of its parameters, that the image of a set under a total functional relation is a set.\<close>

theorem replacement_states_the_schema:
  assumes "replacement_formula s = Ok a" "well_formed (rep_predicate s)"
  shows "well_formed a \<and> is_closed a \<and>
    (\<forall>(E :: 'd universe) r. sem E r [] a \<longleftrightarrow>
      (\<forall>ds. length ds = length (rep_parameters s) \<longrightarrow>
        replacement_meaning E (assign r (rep_parameters s) ds) s))"
  using replacement_formula_Ok [OF assms] by blast

text \<open>Instances of the two schemas with a parameter, evaluated.\<close>

definition sample_separation :: separation where
  "sample_separation = \<lparr>sep_predicate = FMember (Free 0) (Free 3), sep_element = 0, sep_source = 1,
     sep_result = 2, sep_parameters = [3]\<rparr>"

definition sample_replacement :: replacement where
  "sample_replacement = \<lparr>rep_predicate = FEqual (Free 1) (Free 5), rep_input = 0, rep_output = 1,
     rep_uniqueness_witness = 2, rep_source = 3, rep_result = 4, rep_parameters = [5]\<rparr>"

lemma sample_separation_Ok: "\<exists>a. separation_formula sample_separation = Ok a"
  using separation_formula_not_Panic [of sample_separation]
  by (cases "separation_formula sample_separation")
    (auto simp: sample_separation_def separation_formula_def validate_schema_def free_variables_def
      insort_insert_key_def)

lemma sample_replacement_Ok: "\<exists>a. replacement_formula sample_replacement = Ok a"
  using replacement_formula_not_Panic [of sample_replacement]
  by (cases "replacement_formula sample_replacement")
    (auto simp: sample_replacement_def replacement_formula_def validate_schema_def free_variables_def
      insort_insert_key_def split: if_splits)

theorem separation_states_the_schema_witness:
  "\<exists>a. separation_formula sample_separation = Ok a \<and> is_closed a \<and>
     (sem (\<lambda>x y :: nat. x < y) (\<lambda>_. 0) [] a \<longleftrightarrow>
       (\<forall>d. separation_meaning (\<lambda>x y :: nat. x < y) ((\<lambda>_. 0)(3 := d)) sample_separation))"
proof -
  obtain a where a: "separation_formula sample_separation = Ok a" using sample_separation_Ok by blast
  have "well_formed (sep_predicate sample_separation)" by (simp add: sample_separation_def well_formed_def)
  from separation_states_the_schema [OF a this, where 'd = nat] a show ?thesis
    by (auto simp: sample_separation_def all_length_Suc)
qed

theorem replacement_states_the_schema_witness:
  "\<exists>a. replacement_formula sample_replacement = Ok a \<and> is_closed a \<and>
     (sem (\<lambda>x y :: nat. x < y) (\<lambda>_. 0) [] a \<longleftrightarrow>
       (\<forall>d. replacement_meaning (\<lambda>x y :: nat. x < y) ((\<lambda>_. 0)(5 := d)) sample_replacement))"
proof -
  obtain a where a: "replacement_formula sample_replacement = Ok a" using sample_replacement_Ok by blast
  have "well_formed (rep_predicate sample_replacement)" by (simp add: sample_replacement_def well_formed_def)
  from replacement_states_the_schema [OF a this, where 'd = nat] a show ?thesis
    by (auto simp: sample_replacement_def all_length_Suc)
qed

end
