(* ===== verification/Calculus.thy ===== *)
theory Calculus
  imports Zfc
begin

text \<open>
  Provability in the calculus of \<open>naome-foundation/src/logic.rs\<close> from a set of premises, as an inductive
  relation whose rules are the axioms and inference rules of that module, and its soundness for
  truth in every structure. The checker of \<open>naome-checker\<close> is compared with this relation. The set
  \<open>zfc_axioms\<close> holds what \<open>naome-foundation/src/zfc.rs\<close> can produce.
\<close>

inductive provable :: "node set \<Rightarrow> node \<Rightarrow> bool" for A :: "node set" where
  provable_premise: "a \<in> A \<Longrightarrow> well_formed a \<Longrightarrow> provable A a"
| provable_simplification:
    "well_formed a \<Longrightarrow> well_formed b \<Longrightarrow> simplification a b = Some c \<Longrightarrow> provable A c"
| provable_frege:
    "well_formed a \<Longrightarrow> well_formed b \<Longrightarrow> well_formed d \<Longrightarrow> frege a b d = Some c \<Longrightarrow> provable A c"
| provable_contraposition:
    "well_formed a \<Longrightarrow> well_formed b \<Longrightarrow> classical_contraposition a b = Some c \<Longrightarrow> provable A c"
| provable_distribution:
    "well_formed a \<Longrightarrow> well_formed b \<Longrightarrow> universal_distribution x a b = Some c \<Longrightarrow> provable A c"
| provable_vacuous: "well_formed a \<Longrightarrow> vacuous_universal a = Some c \<Longrightarrow> provable A c"
| provable_instantiation: "well_formed a \<Longrightarrow> universal_instantiation x y a = Some c \<Longrightarrow> provable A c"
| provable_reflexivity: "provable A (equality_reflexivity x)"
| provable_substitution: "well_formed a \<Longrightarrow> equality_substitution x y a = Some c \<Longrightarrow> provable A c"
| provable_modus_ponens: "provable A a \<Longrightarrow> provable A i \<Longrightarrow> modus_ponens a i = Ok c \<Longrightarrow> provable A c"
| provable_generalization: "provable A a \<Longrightarrow> generalization x a = Some c \<Longrightarrow> provable A c"

inductive_set zfc_axioms :: "node set" where
  zfc_fixed: "zfc_formula ax = Some a \<Longrightarrow> a \<in> zfc_axioms"
| zfc_separation: "well_formed (sep_predicate s) \<Longrightarrow> separation_formula s = Ok a \<Longrightarrow> a \<in> zfc_axioms"
| zfc_replacement: "well_formed (rep_predicate s) \<Longrightarrow> replacement_formula s = Ok a \<Longrightarrow> a \<in> zfc_axioms"

lemma zfc_axioms_well_formed: "a \<in> zfc_axioms \<Longrightarrow> well_formed a"
  by (auto elim!: zfc_axioms.cases simp: zfc_formula_tree zfc_tree_well_formed
      dest: separation_formula_Ok(1) replacement_formula_Ok(1))

lemma zfc_axioms_closed: "a \<in> zfc_axioms \<Longrightarrow> is_closed a"
  by (auto elim!: zfc_axioms.cases simp: zfc_formula_tree zfc_tree_closed
      dest: separation_formula_Ok(2) replacement_formula_Ok(2))

lemma provable_well_formed: "provable A a \<Longrightarrow> well_formed a"
proof (induction rule: provable.induct)
  case (provable_modus_ponens a i c)
  then show ?case by (simp add: modus_ponens_Ok well_formed_def)
next
  case (provable_generalization a x c)
  then show ?case by (simp add: generalization_def for_all_well_formed)
qed (auto simp: equality_reflexivity_def dest: logic_axioms_well_formed)

text \<open>The deduction step that the questions and the network use: premises may be replaced by proofs.\<close>

lemma provable_mono: "provable A a \<Longrightarrow> A \<subseteq> B \<Longrightarrow> provable B a"
  by (induction rule: provable.induct) (auto intro: provable.intros)

lemma provable_cut:
  assumes "provable B a" "\<And>b. b \<in> B \<Longrightarrow> provable A b"
  shows "provable A a"
  using assms by (induction rule: provable.induct) (auto intro: provable.intros)

lemma provable_sound:
  assumes "provable A a" "\<And>b. b \<in> A \<Longrightarrow> valid_in E b"
  shows "valid_in E a"
  using assms(1)
proof (induction rule: provable.induct)
  case (provable_modus_ponens a i c)
  then show ?case by (simp add: modus_ponens_Ok valid_in_def)
next
  case (provable_generalization a x c)
  then show ?case
    by (auto simp: generalization_def valid_in_def sem_for_all provable_well_formed)
qed (auto simp: valid_in_def equality_reflexivity_def dest: logic_axioms_valid assms(2) [unfolded valid_in_def])

section \<open>Soundness\<close>

text \<open>C25. Every formula that the calculus derives from a set of premises is true in every structure in
  which all of the premises are true, for structures of any cardinality.\<close>

theorem calculus_is_sound:
  assumes "provable A a" "\<forall>b\<in>A. valid_in (E :: 'd universe) b"
  shows "valid_in E a"
  using provable_sound [OF assms(1)] assms(2) by blast

lemma sample_derivation: "provable {zfc_tree Extensionality} (FForAll (zfc_tree Extensionality))"
proof -
  have ext: "provable {zfc_tree Extensionality} (zfc_tree Extensionality)"
    by (rule provable_premise) (simp_all only: zfc_tree_well_formed singletonI)
  have "vacuous_universal (zfc_tree Extensionality) =
      Some (FImplies (zfc_tree Extensionality) (FForAll (zfc_tree Extensionality)))"
    by (simp add: vacuous_universal_def expr_vacuous_def expr_implies_def vacuous_for_all_def implies_def
        del: zfc_tree.simps)
  from provable_modus_ponens [OF ext provable_vacuous [OF zfc_tree_well_formed this]] show ?thesis
    by (simp add: modus_ponens_Ok del: zfc_tree.simps)
qed

theorem calculus_is_sound_witness:
  "valid_in (\<lambda>(x :: unit) y. False) (FForAll (zfc_tree Extensionality))"
  using calculus_is_sound [OF sample_derivation, of "\<lambda>(x :: unit) y. False"]
  by (simp add: valid_in_def sem_zfc_tree del: zfc_tree.simps)

end
