(* ===== verification/Formula_Codec.thy ===== *)
theory Formula_Codec
  imports Formula
begin

text \<open>
  The canonical bytes of a primitive formula, \<open>naome-foundation/src/formula/canonical.rs\<close>: the
  encoder with its two treatments of free variables (kept, or renumbered by first occurrence), the
  decoder with its depth limit and node budget, and the borrowed ranges of an implication spine.
  The counters \<open>depth\<close> and \<open>binder_depth\<close> are below 257 on every path, so they are natural numbers.
\<close>

section \<open>Limits and errors\<close>

definition FORMULA_MAX_BYTES :: nat where "FORMULA_MAX_BYTES = 393216"
definition FORMULA_MAX_DEPTH :: nat where "FORMULA_MAX_DEPTH = 256"
definition FORMULA_MAX_NODES :: nat where "FORMULA_MAX_NODES = 65536"

abbreviation EQUAL :: u8 where "EQUAL \<equiv> 0"
abbreviation MEMBER :: u8 where "MEMBER \<equiv> 1"
abbreviation NOT_TAG :: u8 where "NOT_TAG \<equiv> 2"
abbreviation IMPLIES :: u8 where "IMPLIES \<equiv> 3"
abbreviation FOR_ALL :: u8 where "FOR_ALL \<equiv> 4"

abbreviation FREE_VARIABLE :: u8 where "FREE_VARIABLE \<equiv> 0"
abbreviation BOUND_VARIABLE :: u8 where "BOUND_VARIABLE \<equiv> 1"

datatype formula_codec_error =
    InputTooLong nat nat
  | NodeLimitExceeded nat
  | DepthLimitExceeded nat
  | UnexpectedEnd
  | UnknownFormulaTag u8
  | UnknownVariableTag u8
  | DanglingBoundVariable u32 nat
  | TrailingBytes nat

definition check_depth :: "nat \<Rightarrow> (formula_codec_error, unit) outcome" where
  "check_depth depth =
     (if FORMULA_MAX_DEPTH \<le> depth then Err (DepthLimitExceeded FORMULA_MAX_DEPTH) else Ok ())"

record node_budget =
  budget_used :: nat
  budget_maximum :: nat

definition node_budget_new :: "nat \<Rightarrow> node_budget" where
  "node_budget_new maximum = \<lparr>budget_used = 0, budget_maximum = min maximum FORMULA_MAX_NODES\<rparr>"

definition budget_charge :: "node_budget \<Rightarrow> (formula_codec_error, node_budget) outcome" where
  "budget_charge nodes =
     (if budget_used nodes = budget_maximum nodes then Err (NodeLimitExceeded (budget_maximum nodes))
      else Ok (nodes\<lparr>budget_used := budget_used nodes + 1\<rparr>))"

section \<open>Encoding\<close>

datatype free_variable_encoding =
    Preserve
  | Normalize "free_variable \<rightharpoonup> u32" u32

fun encoding_identifier :: "free_variable_encoding \<Rightarrow> free_variable \<Rightarrow> (u32 \<times> free_variable_encoding) option" where
  "encoding_identifier Preserve variable = Some (variable, Preserve)"
| "encoding_identifier (Normalize identifiers next_identifier) variable =
     (case identifiers variable of
        Some identifier \<Rightarrow> Some (identifier, Normalize identifiers next_identifier)
      | None \<Rightarrow>
          (case checked_add next_identifier 1 of
             None \<Rightarrow> None
           | Some next \<Rightarrow>
               Some (next_identifier, Normalize (identifiers(variable \<mapsto> next_identifier)) next)))"

fun encode_variable ::
  "variable \<Rightarrow> free_variable_encoding \<times> bytes \<Rightarrow> (free_variable_encoding \<times> bytes) option" where
  "encode_variable (Free variable) (variables, output) =
     map_option (\<lambda>(value, variables). (variables, output @ [FREE_VARIABLE] @ u32_to_be_bytes value))
       (encoding_identifier variables variable)"
| "encode_variable (Bound index) (variables, output) =
     Some (variables, output @ [BOUND_VARIABLE] @ u32_to_be_bytes index)"

definition encode_pair ::
  "u8 \<Rightarrow> variable \<Rightarrow> variable \<Rightarrow> free_variable_encoding \<times> bytes \<Rightarrow> (free_variable_encoding \<times> bytes) option" where
  "encode_pair tag l r st =
     Option.bind (encode_variable l (fst st, snd st @ [tag])) (encode_variable r)"

primrec encode_node ::
  "node \<Rightarrow> nat \<Rightarrow> node_budget \<Rightarrow> free_variable_encoding \<times> bytes \<Rightarrow>
     (formula_codec_error, node_budget \<times> free_variable_encoding \<times> bytes) outcome" where
  "encode_node (FEqual l r) depth nodes st =
     and_then (check_depth depth) (\<lambda>_. and_then (budget_charge nodes) (\<lambda>nodes.
       map_ok (Pair nodes) (expect (encode_pair EQUAL l r st))))"
| "encode_node (FMember l r) depth nodes st =
     and_then (check_depth depth) (\<lambda>_. and_then (budget_charge nodes) (\<lambda>nodes.
       map_ok (Pair nodes) (expect (encode_pair MEMBER l r st))))"
| "encode_node (FNot formula) depth nodes st =
     and_then (check_depth depth) (\<lambda>_. and_then (budget_charge nodes) (\<lambda>nodes.
       encode_node formula (depth + 1) nodes (fst st, snd st @ [NOT_TAG])))"
| "encode_node (FImplies antecedent consequent) depth nodes st =
     and_then (check_depth depth) (\<lambda>_. and_then (budget_charge nodes) (\<lambda>nodes.
       and_then (encode_node antecedent (depth + 1) nodes (fst st, snd st @ [IMPLIES])) (\<lambda>(nodes, st).
         encode_node consequent (depth + 1) nodes st)))"
| "encode_node (FForAll body) depth nodes st =
     and_then (check_depth depth) (\<lambda>_. and_then (budget_charge nodes) (\<lambda>nodes.
       encode_node body (depth + 1) nodes (fst st, snd st @ [FOR_ALL])))"

definition encode_with_node_limit ::
  "node \<Rightarrow> nat \<Rightarrow> free_variable_encoding \<Rightarrow> (formula_codec_error, bytes \<times> nat) outcome" where
  "encode_with_node_limit formula maximum_nodes variables =
     map_ok (\<lambda>(nodes, variables, output). (output, budget_used nodes))
       (encode_node formula 0 (node_budget_new maximum_nodes) (variables, []))"

definition encode_canonical_with_node_limit ::
  "node \<Rightarrow> nat \<Rightarrow> (formula_codec_error, bytes \<times> nat) outcome" where
  "encode_canonical_with_node_limit formula maximum_nodes =
     encode_with_node_limit formula maximum_nodes Preserve"

definition encode_canonical :: "node \<Rightarrow> (formula_codec_error, bytes) outcome" where
  "encode_canonical formula = map_ok fst (encode_canonical_with_node_limit formula FORMULA_MAX_NODES)"

definition encode_free_variable_normalized :: "node \<Rightarrow> (formula_codec_error, bytes) outcome" where
  "encode_free_variable_normalized formula =
     map_ok fst (encode_with_node_limit formula FORMULA_MAX_NODES (Normalize Map.empty 0))"

section \<open>Decoding\<close>

definition decode_variable :: "cursor \<Rightarrow> nat \<Rightarrow> (formula_codec_error, variable \<times> cursor) outcome" where
  "decode_variable cursor binder_depth =
     and_then (ok_or UnexpectedEnd (cursor_read_u8 cursor)) (\<lambda>(tag, cursor).
       and_then (ok_or UnexpectedEnd (cursor_read_u32 cursor)) (\<lambda>(value, cursor).
         if tag = FREE_VARIABLE then Ok (Free value, cursor)
         else if tag = BOUND_VARIABLE \<and> unat value < binder_depth then Ok (Bound value, cursor)
         else if tag = BOUND_VARIABLE then Err (DanglingBoundVariable value binder_depth)
         else Err (UnknownVariableTag tag)))"

definition decode_pair ::
  "(variable \<Rightarrow> variable \<Rightarrow> node) \<Rightarrow> cursor \<Rightarrow> nat \<Rightarrow> (formula_codec_error, node \<times> cursor) outcome" where
  "decode_pair build cursor binder_depth =
     and_then (decode_variable cursor binder_depth) (\<lambda>(l, cursor).
       and_then (decode_variable cursor binder_depth) (\<lambda>(r, cursor). Ok (build l r, cursor)))"

lemma check_depth_Ok [simp]: "check_depth d = Ok u \<longleftrightarrow> d < 256"
  by (simp add: check_depth_def FORMULA_MAX_DEPTH_def not_le)

function (sequential) decode_node ::
  "cursor \<Rightarrow> nat \<Rightarrow> nat \<Rightarrow> node_budget \<Rightarrow> (formula_codec_error, node \<times> cursor \<times> node_budget) outcome" where
  "decode_node cursor depth binder_depth nodes =
     and_then (check_depth depth) (\<lambda>_. and_then (budget_charge nodes) (\<lambda>nodes.
       and_then (ok_or UnexpectedEnd (cursor_read_u8 cursor)) (\<lambda>(tag, cursor).
         if tag = EQUAL then map_ok (\<lambda>(a, cursor). (a, cursor, nodes)) (decode_pair FEqual cursor binder_depth)
         else if tag = MEMBER then map_ok (\<lambda>(a, cursor). (a, cursor, nodes)) (decode_pair FMember cursor binder_depth)
         else if tag = NOT_TAG then
           map_ok (\<lambda>(a, rest). (FNot a, rest)) (decode_node cursor (depth + 1) binder_depth nodes)
         else if tag = IMPLIES then
           and_then (decode_node cursor (depth + 1) binder_depth nodes) (\<lambda>(a, cursor, nodes).
             map_ok (\<lambda>(b, rest). (FImplies a b, rest)) (decode_node cursor (depth + 1) binder_depth nodes))
         else if tag = FOR_ALL then
           map_ok (\<lambda>(a, rest). (FForAll a, rest)) (decode_node cursor (depth + 1) (binder_depth + 1) nodes)
         else Err (UnknownFormulaTag tag))))"
  by pat_completeness auto
termination
  by (relation "measure (\<lambda>(c, d, b, n). 256 - d)") auto

declare decode_node.simps [simp del]

definition decode_canonical_with_node_limit ::
  "bytes \<Rightarrow> nat \<Rightarrow> (formula_codec_error, node \<times> nat) outcome" where
  "decode_canonical_with_node_limit bs maximum_nodes =
     (if FORMULA_MAX_BYTES < length bs then Err (InputTooLong (length bs) FORMULA_MAX_BYTES)
      else and_then (decode_node (cursor_new bs) 0 0 (node_budget_new maximum_nodes)) (\<lambda>(node, cursor, nodes).
        if cursor_remaining cursor \<noteq> 0 then Err (TrailingBytes (cursor_remaining cursor))
        else Ok (node, budget_used nodes)))"

definition decode_canonical :: "bytes \<Rightarrow> (formula_codec_error, node) outcome" where
  "decode_canonical bs = map_ok fst (decode_canonical_with_node_limit bs FORMULA_MAX_NODES)"

section \<open>The ranges of an implication\<close>

record canonical_implication =
  ci_bytes :: bytes
  ci_antecedent_end :: nat
  ci_consequents :: "nat list"

definition ci_antecedent :: "canonical_implication \<Rightarrow> bytes" where
  "ci_antecedent ci = drop 1 (take (ci_antecedent_end ci) (ci_bytes ci))"

definition ci_consequent_slices :: "canonical_implication \<Rightarrow> bytes list" where
  "ci_consequent_slices ci = map (\<lambda>start. drop start (ci_bytes ci)) (ci_consequents ci)"

primrec wire_width :: "node \<Rightarrow> nat" where
  "wire_width (FEqual l r) = 11"
| "wire_width (FMember l r) = 11"
| "wire_width (FNot body) = 1 + wire_width body"
| "wire_width (FForAll body) = 1 + wire_width body"
| "wire_width (FImplies l r) = 1 + wire_width l + wire_width r"

fun spine_offsets :: "node \<Rightarrow> nat \<Rightarrow> nat list" where
  "spine_offsets (FImplies l r) offset =
     (let offset = offset + (1 + wire_width l) in offset # spine_offsets r offset)"
| "spine_offsets _ offset = []"

definition canonical_implication_of ::
  "node \<Rightarrow> (formula_codec_error, canonical_implication option) outcome" where
  "canonical_implication_of formula =
     (case formula of
        FImplies _ _ \<Rightarrow>
          and_then (encode_canonical formula) (\<lambda>bs.
            let consequents = spine_offsets formula 0
            in if consequents = [] then Panic
               else Ok (Some \<lparr>ci_bytes = bs, ci_antecedent_end = hd consequents, ci_consequents = consequents\<rparr>))
      | _ \<Rightarrow> Ok None)"

section \<open>The wire image of a formula\<close>

primrec wire_variable :: "variable \<Rightarrow> bytes" where
  "wire_variable (Free v) = FREE_VARIABLE # u32_to_be_bytes v"
| "wire_variable (Bound i) = BOUND_VARIABLE # u32_to_be_bytes i"

primrec wire :: "node \<Rightarrow> bytes" where
  "wire (FEqual l r) = EQUAL # wire_variable l @ wire_variable r"
| "wire (FMember l r) = MEMBER # wire_variable l @ wire_variable r"
| "wire (FNot a) = NOT_TAG # wire a"
| "wire (FImplies a b) = IMPLIES # wire a @ wire b"
| "wire (FForAll a) = FOR_ALL # wire a"

lemma length_wire_variable [simp]: "length (wire_variable v) = 5"
  by (cases v) simp_all

lemma length_wire: "length (wire a) = wire_width a"
  by (induction a) simp_all

lemma wire_width_leaves: "\<exists>leaves. wire_width a = node_count a + 10 * leaves \<and> 2 * leaves \<le> node_count a + 1"
proof (induction a)
  case (FImplies a b)
  then obtain m n where "wire_width a = node_count a + 10 * m" "2 * m \<le> node_count a + 1"
    "wire_width b = node_count b + 10 * n" "2 * n \<le> node_count b + 1" by blast
  then show ?case by (intro exI [of _ "m + n"]) simp
qed (force intro: exI [of _ 1])+

text \<open>The documented reason for the byte limit: every formula within the node limit fits it.\<close>

lemma length_wire_limit: "node_count a \<le> FORMULA_MAX_NODES \<Longrightarrow> length (wire a) \<le> FORMULA_MAX_BYTES"
proof -
  assume n: "node_count a \<le> FORMULA_MAX_NODES"
  obtain leaves where w: "wire_width a = node_count a + 10 * leaves" "2 * leaves \<le> node_count a + 1"
    using wire_width_leaves [of a] by blast
  have "leaves \<le> 32768" using n w(2) unfolding FORMULA_MAX_NODES_def by linarith
  with n w(1) show ?thesis
    unfolding length_wire FORMULA_MAX_NODES_def FORMULA_MAX_BYTES_def by linarith
qed

definition admitted :: "nat \<Rightarrow> node_budget \<Rightarrow> node \<Rightarrow> bool" where
  "admitted d nodes a \<longleftrightarrow> d + node_depth a \<le> 256 \<and> budget_used nodes + node_count a \<le> budget_maximum nodes"

definition spend :: "node \<Rightarrow> node_budget \<Rightarrow> node_budget" where
  "spend a nodes = nodes\<lparr>budget_used := budget_used nodes + node_count a\<rparr>"

lemma budget_charge_Ok [simp]:
  "budget_charge nodes = Ok nodes' \<longleftrightarrow>
     budget_used nodes \<noteq> budget_maximum nodes \<and> nodes' = nodes\<lparr>budget_used := budget_used nodes + 1\<rparr>"
  by (auto simp: budget_charge_def)

lemma checks_not_Panic [simp]: "check_depth d \<noteq> Panic" "budget_charge nodes \<noteq> Panic"
  by (simp_all add: check_depth_def budget_charge_def)

section \<open>The encoder\<close>

lemma encode_variable_Preserve [simp]:
  "encode_variable v (Preserve, out) = Some (Preserve, out @ wire_variable v)"
  by (cases v) simp_all

lemma encode_pair_Preserve [simp]:
  "encode_pair tag l r (Preserve, out) = Some (Preserve, out @ tag # wire_variable l @ wire_variable r)"
  by (simp add: encode_pair_def)

lemma encode_node_Ok:
  "budget_used nodes \<le> budget_maximum nodes \<Longrightarrow>
     encode_node a d nodes (Preserve, out) = Ok res \<longleftrightarrow>
       admitted d nodes a \<and> res = (spend a nodes, Preserve, out @ wire a)"
proof (induction a arbitrary: d nodes out res)
  case (FImplies a b)
  show ?case
  proof (cases "admitted (d + 1) (nodes\<lparr>budget_used := budget_used nodes + 1\<rparr>) a")
    case True
    with FImplies.prems show ?thesis
      by (auto simp: FImplies.IH admitted_def spend_def) 
  next
    case False
    with FImplies.prems show ?thesis
      by (auto simp: FImplies.IH admitted_def spend_def)
  qed
qed (auto simp: admitted_def spend_def)

lemma encode_node_keeps_Preserve:
  "encode_node a d nodes (Preserve, out) = Ok (nodes', variables, out') \<Longrightarrow> variables = Preserve"
  by (induction a arbitrary: d nodes out nodes' variables out') (auto, blast)

lemma encode_node_not_Panic: "encode_node a d nodes (Preserve, out) \<noteq> Panic"
proof (induction a arbitrary: d nodes out)
  case (FImplies a b)
  then show ?case by (auto dest!: encode_node_keeps_Preserve)
qed simp_all

section \<open>The decoder\<close>

lemma decode_variable_Ok:
  assumes "decode_variable c n = Ok (v, c')"
  shows "consumes c (wire_variable v) c'" "var_below n v"
proof -
  from assms obtain t d w e where *: "cursor_read_u8 c = Some (t, d)" "cursor_read_u32 d = Some (w, e)"
    and v: "(if t = FREE_VARIABLE then Ok (Free w, e)
         else if t = BOUND_VARIABLE \<and> unat w < n then Ok (Bound w, e)
         else if t = BOUND_VARIABLE then Err (DanglingBoundVariable w n)
         else Err (UnknownVariableTag t)) = Ok (v, c')"
    unfolding decode_variable_def by (auto simp only: and_then_Ok ok_or_Ok prod.case split_paired_Ex)
  show "consumes c (wire_variable v) c'" "var_below n v"
    using consumes_Cons [OF cursor_read_u8_Some [OF *(1)] cursor_read_u32_Some [OF *(2)]] v
    by (auto split: if_splits)
qed

lemma decode_pair_Ok:
  assumes "decode_pair build c n = Ok (a, c')"
  obtains l r where "a = build l r" "consumes c (wire_variable l @ wire_variable r) c'" "var_below n l" "var_below n r"
proof -
  from assms obtain l d r where "decode_variable c n = Ok (l, d)" "decode_variable d n = Ok (r, c')" "a = build l r"
    by (auto simp: decode_pair_def)
  with that show thesis by (blast dest: decode_variable_Ok intro: consumes_trans)
qed

lemma decode_variable_wire:
  "cursor_rest c = wire_variable v @ rest \<Longrightarrow> cursor_ok c \<Longrightarrow> var_below n v \<Longrightarrow>
     decode_variable c n = Ok (v, advance 5 c)"
  by (cases v) (auto simp: decode_variable_def codec_simps)

lemma decode_pair_wire:
  "cursor_rest c = wire_variable l @ wire_variable r @ rest \<Longrightarrow> cursor_ok c \<Longrightarrow> var_below n l \<Longrightarrow> var_below n r \<Longrightarrow>
     decode_pair build c n = Ok (build l r, advance 10 c)"
  by (simp add: decode_pair_def decode_variable_wire)

lemma decode_node_wire:
  "cursor_rest c = wire a @ rest \<Longrightarrow> cursor_ok c \<Longrightarrow> closed_at n a \<Longrightarrow> admitted d nodes a \<Longrightarrow>
     decode_node c d n nodes = Ok (a, advance (wire_width a) c, spend a nodes)"
proof (induction a arbitrary: c d n nodes rest)
  case (FEqual l r)
  then show ?case
    by (simp add: decode_node.simps [of c] admitted_def spend_def codec_simps decode_pair_wire
        not_le less_le [symmetric])
next
  case (FMember l r)
  then show ?case
    by (simp add: decode_node.simps [of c] admitted_def spend_def codec_simps decode_pair_wire)
next
  case (FNot a)
  then show ?case
    by (simp add: decode_node.simps [of c] admitted_def spend_def codec_simps)
next
  case (FImplies a b)
  let ?nodes = "nodes\<lparr>budget_used := Suc (budget_used nodes)\<rparr>"
  have "decode_node (advance 1 c) (d + 1) n ?nodes = Ok (a, advance (Suc (wire_width a)) c, spend a ?nodes)"
    using FImplies.IH(1) [of "advance 1 c" "wire b @ rest" n "d + 1" ?nodes] FImplies.prems
    by (simp add: admitted_def nat_add_max_right)
  moreover have "decode_node (advance (Suc (wire_width a)) c) (d + 1) n (spend a ?nodes) =
      Ok (b, advance (wire_width (FImplies a b)) c, spend (FImplies a b) nodes)"
    using FImplies.IH(2) [of "advance (Suc (wire_width a)) c" rest n "d + 1" "spend a ?nodes"] FImplies.prems
    by (simp add: admitted_def spend_def length_wire [symmetric] nat_add_max_right)
  ultimately show ?case
    using FImplies.prems by (simp add: decode_node.simps [of c] codec_simps admitted_def)
next
  case (FForAll a)
  then show ?case
    by (simp add: decode_node.simps [of c] admitted_def spend_def codec_simps)
qed

lemma decode_node_cases:
  assumes "decode_node c d n nodes = Ok (a, c', nodes')"
  obtains (pair) l r t x where "cursor_read_u8 c = Some (t, x)" "a = FEqual l r \<and> t = EQUAL \<or> a = FMember l r \<and> t = MEMBER"
      "consumes x (wire_variable l @ wire_variable r) c'" "var_below n l" "var_below n r"
      "nodes' = nodes\<lparr>budget_used := budget_used nodes + 1\<rparr>"
  | (neg) b x where "cursor_read_u8 c = Some (NOT_TAG, x)" "a = FNot b"
      "decode_node x (d + 1) n (nodes\<lparr>budget_used := budget_used nodes + 1\<rparr>) = Ok (b, c', nodes')"
  | (imp) b1 b2 x y m where "cursor_read_u8 c = Some (IMPLIES, x)" "a = FImplies b1 b2"
      "decode_node x (d + 1) n (nodes\<lparr>budget_used := budget_used nodes + 1\<rparr>) = Ok (b1, y, m)"
      "decode_node y (d + 1) n m = Ok (b2, c', nodes')"
  | (all) b x where "cursor_read_u8 c = Some (FOR_ALL, x)" "a = FForAll b"
      "decode_node x (d + 1) (n + 1) (nodes\<lparr>budget_used := budget_used nodes + 1\<rparr>) = Ok (b, c', nodes')"
  using assms unfolding decode_node.simps [of c]
  by (auto split: if_splits elim!: decode_pair_Ok)

lemma decode_node_Ok_checks:
  "decode_node c d n nodes = Ok res \<Longrightarrow> d < 256 \<and> budget_used nodes \<noteq> budget_maximum nodes"
  unfolding decode_node.simps [of c] by simp

lemma decode_node_Ok:
  "decode_node c d n nodes = Ok (a, c', nodes') \<Longrightarrow> budget_used nodes \<le> budget_maximum nodes \<Longrightarrow>
     consumes c (wire a) c' \<and> closed_at n a \<and> admitted d nodes a \<and> nodes' = spend a nodes"
proof (induction a arbitrary: c d n nodes c' nodes')
  case (FEqual l r)
  from decode_node_Ok_checks [OF FEqual.prems(1)] FEqual.prems(2) show ?case
    by (cases rule: decode_node_cases [OF FEqual.prems(1)])
      (auto simp: admitted_def spend_def dest!: cursor_read_u8_Some intro: consumes_Cons)
next
  case (FMember l r)
  from decode_node_Ok_checks [OF FMember.prems(1)] FMember.prems(2) show ?case
    by (cases rule: decode_node_cases [OF FMember.prems(1)])
      (auto simp: admitted_def spend_def dest!: cursor_read_u8_Some intro: consumes_Cons)
next
  case (FNot a)
  from decode_node_Ok_checks [OF FNot.prems(1)] FNot.prems(2) show ?case
    by (cases rule: decode_node_cases [OF FNot.prems(1)])
      (auto simp: admitted_def spend_def dest!: cursor_read_u8_Some FNot.IH intro: consumes_Cons)
next
  case (FForAll a)
  from decode_node_Ok_checks [OF FForAll.prems(1)] FForAll.prems(2) show ?case
    by (cases rule: decode_node_cases [OF FForAll.prems(1)])
      (auto simp: admitted_def spend_def dest!: cursor_read_u8_Some FForAll.IH intro: consumes_Cons)
next
  case (FImplies a b)
  from decode_node_Ok_checks [OF FImplies.prems(1)] FImplies.prems(2) show ?case
    by (cases rule: decode_node_cases [OF FImplies.prems(1)])
      (auto simp: admitted_def spend_def dest!: cursor_read_u8_Some FImplies.IH intro: consumes_Cons consumes_trans)
qed

lemma decode_node_not_Panic: "decode_node c d n nodes \<noteq> Panic"
proof (induction "256 - d" arbitrary: c d n nodes rule: less_induct)
  case less
  then have "decode_node x (Suc d) m y \<noteq> Panic" if "d < 256" for x m y using that by simp
  then show ?case
    unfolding decode_node.simps [of c]
    by (auto simp: decode_pair_def decode_variable_def split: if_splits)
qed

section \<open>The canonical format\<close>

definition wire_admitted :: "nat \<Rightarrow> node \<Rightarrow> bool" where
  "wire_admitted limit a \<longleftrightarrow> node_depth a \<le> 256 \<and> node_count a \<le> min limit FORMULA_MAX_NODES"

lemma admitted_new [simp]: "admitted 0 (node_budget_new limit) a = wire_admitted limit a"
  by (simp add: admitted_def node_budget_new_def wire_admitted_def)

lemma encode_canonical_with_node_limit_Ok:
  "encode_canonical_with_node_limit a limit = Ok (bs, used) \<longleftrightarrow>
     wire_admitted limit a \<and> bs = wire a \<and> used = node_count a"
  by (auto simp: encode_canonical_with_node_limit_def encode_with_node_limit_def encode_node_Ok
      spend_def node_budget_new_def [of limit] simp flip: admitted_new)

lemma encode_canonical_Ok:
  "encode_canonical a = Ok bs \<longleftrightarrow> wire_admitted FORMULA_MAX_NODES a \<and> bs = wire a"
  by (auto simp: encode_canonical_def encode_canonical_with_node_limit_Ok)

lemma encode_canonical_not_Panic [simp]:
  "encode_canonical_with_node_limit a limit \<noteq> Panic" "encode_canonical a \<noteq> Panic"
  by (simp_all add: encode_canonical_def encode_canonical_with_node_limit_def encode_with_node_limit_def
      encode_node_not_Panic)

lemma decode_canonical_with_node_limit_Ok:
  "decode_canonical_with_node_limit bs limit = Ok (a, used) \<longleftrightarrow>
     well_formed a \<and> wire_admitted limit a \<and> bs = wire a \<and> used = node_count a"
proof
  assume "decode_canonical_with_node_limit bs limit = Ok (a, used)"
  then obtain c nodes where *: "decode_node (cursor_new bs) 0 0 (node_budget_new limit) = Ok (a, c, nodes)"
    "cursor_remaining c = 0" "used = budget_used nodes"
    by (auto simp: decode_canonical_with_node_limit_def split: if_splits)
  have d: "consumes (cursor_new bs) (wire a) c" "closed_at 0 a" "wire_admitted limit a"
    "nodes = spend a (node_budget_new limit)"
    using decode_node_Ok [OF *(1)] by (simp_all add: node_budget_new_def [of limit] flip: admitted_new)
  with *(2,3) consumes_rest [OF d(1)] show
    "well_formed a \<and> wire_admitted limit a \<and> bs = wire a \<and> used = node_count a"
    by (simp add: well_formed_def spend_def node_budget_new_def cursor_remaining_rest)
next
  assume a: "well_formed a \<and> wire_admitted limit a \<and> bs = wire a \<and> used = node_count a"
  then have "decode_node (cursor_new bs) 0 0 (node_budget_new limit) =
      Ok (a, advance (wire_width a) (cursor_new bs), spend a (node_budget_new limit))"
    by (intro decode_node_wire [where rest = "[]"]) (simp_all add: well_formed_def)
  with a length_wire_limit [of a] show "decode_canonical_with_node_limit bs limit = Ok (a, used)"
    by (simp add: decode_canonical_with_node_limit_def wire_admitted_def cursor_remaining_rest
        length_wire spend_def node_budget_new_def)
qed

lemma decode_canonical_Ok:
  "decode_canonical bs = Ok a \<longleftrightarrow> well_formed a \<and> wire_admitted FORMULA_MAX_NODES a \<and> bs = wire a"
  by (auto simp: decode_canonical_def decode_canonical_with_node_limit_Ok)

lemma decode_canonical_not_Panic [simp]:
  "decode_canonical_with_node_limit bs limit \<noteq> Panic" "decode_canonical bs \<noteq> Panic"
  by (auto simp: decode_canonical_def decode_canonical_with_node_limit_def decode_node_not_Panic split: if_splits)

lemma u32_to_be_bytes_inject [simp]: "u32_to_be_bytes v = u32_to_be_bytes w \<longleftrightarrow> v = w"
proof
  assume "u32_to_be_bytes v = u32_to_be_bytes w"
  then have "(\<lambda>bs. u32_from_be_bytes (bs ! 0) (bs ! 1) (bs ! 2) (bs ! 3)) (u32_to_be_bytes v) =
      (\<lambda>bs. u32_from_be_bytes (bs ! 0) (bs ! 1) (bs ! 2) (bs ! 3)) (u32_to_be_bytes w)"
    by (rule arg_cong)
  then show "v = w" by (simp add: u32_to_be_bytes_def u32_from_to_be_bytes)
qed simp

lemma wire_variable_append: "wire_variable v @ xs = wire_variable w @ ys \<longleftrightarrow> v = w \<and> xs = ys"
  by (cases v; cases w) auto

lemma wire_append: "wire a @ xs = wire b @ ys \<longleftrightarrow> a = b \<and> xs = ys"
proof (induction a arbitrary: b xs ys)
qed (case_tac b; auto simp: wire_variable_append)+

lemma wire_inject [simp]: "wire a = wire b \<longleftrightarrow> a = b"
  using wire_append [of a "[]" b "[]"] by simp

section \<open>Normalized free variables\<close>

text \<open>
  The invariant of \<open>Normalize\<close>: the identifiers given out are exactly those below the next one and
  no two variables share one.
\<close>

definition numbering :: "(free_variable \<rightharpoonup> u32) \<Rightarrow> u32 \<Rightarrow> bool" where
  "numbering m n \<longleftrightarrow> inj_on m (dom m) \<and> (\<forall>v w. m v = Some w \<longrightarrow> w < n)"

definition relabel :: "(free_variable \<rightharpoonup> u32) \<Rightarrow> node \<Rightarrow> node" where
  "relabel m a = map_free_variables (\<lambda>v. the (m v)) a"

lemma map_free_variables_cong:
  "(\<And>v. v \<in> frees a \<Longrightarrow> f v = g v) \<Longrightarrow> map_free_variables f a = map_free_variables g a"
proof (induction a)
  case (FEqual l r) then show ?case by (cases l; cases r) auto
next
  case (FMember l r) then show ?case by (cases l; cases r) auto
qed auto

lemma relabel_mono: "m \<subseteq>\<^sub>m m' \<Longrightarrow> frees a \<subseteq> dom m \<Longrightarrow> relabel m' a = relabel m a"
  unfolding relabel_def by (rule map_free_variables_cong) (metis domIff map_le_def subset_iff)

lemma numbering_step:
  assumes "encoding_identifier (Normalize m n) v = Some (i, e)" "numbering m n"
  obtains m' n' where "e = Normalize m' n'" "numbering m' n'" "m \<subseteq>\<^sub>m m'" "dom m' = insert v (dom m)" "m' v = Some i"
    "unat n' \<le> unat n + 1"
proof (cases "m v")
  case (Some j)
  then have "insert v (dom m) = dom m" by auto
  with Some assms that [of m n] show thesis by auto
next
  case None
  with assms(1) obtain n' where n': "checked_add n 1 = Some n'" "i = n" "e = Normalize (m(v \<mapsto> n)) n'"
    by (auto split: option.splits)
  have u: "unat n' = unat n + 1" using checked_add_unat [OF n'(1)] by simp
  then have "n < n'" by (simp add: word_less_nat_alt)
  with assms(2) have "numbering (m(v \<mapsto> n)) n'"
    unfolding numbering_def by (auto simp: inj_on_def dom_def split: if_splits) force+
  moreover have "m \<subseteq>\<^sub>m m(v \<mapsto> n)" using None by (auto simp: map_le_def)
  ultimately show thesis using n' u that [of "m(v \<mapsto> n)" n'] by simp
qed

lemma encode_variable_normalized:
  assumes "encode_variable v (Normalize m n, out) = Some (e, out')" "numbering m n"
  obtains m' n' where "e = Normalize m' n'" "numbering m' n'" "m \<subseteq>\<^sub>m m'" "dom m' = dom m \<union> frees_of v"
    "out' = out @ wire_variable (map_free_variable (\<lambda>v. the (m' v)) v)" "unat n' \<le> unat n + 1"
proof (cases v)
  case (Free x)
  with assms(1) obtain i where i: "encoding_identifier (Normalize m n) x = Some (i, e)"
    "out' = out @ FREE_VARIABLE # u32_to_be_bytes i"
    by (auto simp del: encoding_identifier.simps)
  obtain m' n' where "e = Normalize m' n'" "numbering m' n'" "m \<subseteq>\<^sub>m m'" "dom m' = insert x (dom m)" "m' x = Some i"
    "unat n' \<le> unat n + 1"
    using numbering_step [OF i(1) assms(2)] .
  with that [of m' n'] show thesis by (simp add: Free i(2))
next
  case (Bound i)
  with assms that show thesis by auto
qed

lemma encode_variable_Normalize_Some:
  "unat n + 1 < 2 ^ 32 \<Longrightarrow> \<exists>res. encode_variable v (Normalize m n, out) = Some res"
  by (cases v) (auto split: option.splits simp: checked_add_None)

definition numbered_run :: "node \<Rightarrow> (free_variable \<rightharpoonup> u32) \<Rightarrow> u32 \<Rightarrow> bytes \<Rightarrow> (free_variable \<rightharpoonup> u32) \<Rightarrow> u32 \<Rightarrow> bytes \<Rightarrow> bool" where
  "numbered_run a m n out m' n' out' \<longleftrightarrow>
     numbering m' n' \<and> m \<subseteq>\<^sub>m m' \<and> dom m' = dom m \<union> frees a \<and> out' = out @ wire (relabel m' a) \<and>
     unat n' \<le> unat n + 2 * node_count a"

lemma encode_pair_normalized:
  assumes "encode_pair t l r (Normalize m n, out) = Some (e, out')" "numbering m n"
  obtains m' n' where "e = Normalize m' n'" "numbering m' n'" "m \<subseteq>\<^sub>m m'" "dom m' = dom m \<union> frees_of l \<union> frees_of r"
    "out' = out @ t # wire_variable (map_free_variable (\<lambda>v. the (m' v)) l)
       @ wire_variable (map_free_variable (\<lambda>v. the (m' v)) r)" "unat n' \<le> unat n + 2"
proof -
  from assms(1) obtain d mid where 1: "encode_variable l (Normalize m n, out @ [t]) = Some (d, mid)"
    and 2: "encode_variable r (d, mid) = Some (e, out')"
    by (auto simp: encode_pair_def bind_eq_Some_conv)
  obtain m1 n1 where m1: "d = Normalize m1 n1" "numbering m1 n1" "m \<subseteq>\<^sub>m m1" "dom m1 = dom m \<union> frees_of l"
    "mid = out @ [t] @ wire_variable (map_free_variable (\<lambda>v. the (m1 v)) l)" "unat n1 \<le> unat n + 1"
    using encode_variable_normalized [OF 1 assms(2)] by (metis append_assoc)
  obtain m2 n2 where m2: "e = Normalize m2 n2" "numbering m2 n2" "m1 \<subseteq>\<^sub>m m2" "dom m2 = dom m1 \<union> frees_of r"
    "out' = mid @ wire_variable (map_free_variable (\<lambda>v. the (m2 v)) r)" "unat n2 \<le> unat n1 + 1"
    using encode_variable_normalized [OF 2 [unfolded m1(1)] m1(2)] .
  have "map_free_variable (\<lambda>v. the (m1 v)) l = map_free_variable (\<lambda>v. the (m2 v)) l"
    using m1(4) m2(3) by (cases l) (auto simp: map_le_def)
  with m1 m2 that [of m2 n2] show thesis
    by (auto intro: map_le_trans)
qed

lemma encode_node_normalized:
  assumes "encode_node a d nodes (Normalize m n, out) = Ok (nodes', e, out')" "numbering m n"
  shows "\<exists>m' n'. e = Normalize m' n' \<and> numbered_run a m n out m' n' out' \<and> nodes' = spend a nodes"
  using assms
proof (induction a arbitrary: d nodes m n out nodes' e out')
  case (FImplies a b)
  then obtain x y z where 1: "encode_node a (d + 1) (nodes\<lparr>budget_used := budget_used nodes + 1\<rparr>)
      (Normalize m n, out @ [IMPLIES]) = Ok (x, y, z)"
    and 2: "encode_node b (d + 1) x (y, z) = Ok (nodes', e, out')" by auto
  obtain m1 n1 where m1: "y = Normalize m1 n1" "numbered_run a m n (out @ [IMPLIES]) m1 n1 z"
    "x = spend a (nodes\<lparr>budget_used := budget_used nodes + 1\<rparr>)"
    using FImplies.IH(1) [OF 1 FImplies.prems(2)] by blast
  obtain m2 n2 where m2: "e = Normalize m2 n2" "numbered_run b m1 n1 z m2 n2 out'" "nodes' = spend b x"
    using FImplies.IH(2) [OF 2 [unfolded m1(1)]] m1(2) by (auto simp: numbered_run_def)
  have "relabel m2 a = relabel m1 a"
    using m1(2) m2(2) by (intro relabel_mono) (auto simp: numbered_run_def)
  with m1 m2 show ?case
    by (auto simp: numbered_run_def relabel_def spend_def intro: map_le_trans)
next
  case (FNot a)
  then show ?case
    using FNot.IH [of "d + 1" "nodes\<lparr>budget_used := budget_used nodes + 1\<rparr>" m n "out @ [NOT_TAG]" nodes' e out']
    by (auto simp: numbered_run_def relabel_def spend_def)
next
  case (FForAll a)
  then show ?case
    using FForAll.IH [of "d + 1" "nodes\<lparr>budget_used := budget_used nodes + 1\<rparr>" m n "out @ [FOR_ALL]" nodes' e out']
    by (auto simp: numbered_run_def relabel_def spend_def)
qed (auto simp: numbered_run_def relabel_def spend_def elim!: encode_pair_normalized)

text \<open>Renaming a formula injectively does not change its normalized bytes: the two runs go in lockstep.\<close>

definition in_step :: "free_variable set \<Rightarrow> (free_variable \<Rightarrow> free_variable) \<Rightarrow> (free_variable \<rightharpoonup> u32) \<Rightarrow> (free_variable \<rightharpoonup> u32) \<Rightarrow> bool" where
  "in_step A f m k \<longleftrightarrow> inj_on f A \<and> (\<forall>v\<in>A. k (f v) = m v)"

lemma encode_variable_in_step:
  assumes "encode_variable v (Normalize m n, out) = Some (Normalize m' n', out')" "in_step A f m k" "frees_of v \<subseteq> A"
  shows "\<exists>k'. encode_variable (map_free_variable f v) (Normalize k n, out) = Some (Normalize k' n', out') \<and> in_step A f m' k'"
proof (cases v)
  case (Free x)
  with assms have x: "x \<in> A" "k (f x) = m x" by (auto simp: in_step_def)
  show ?thesis
  proof (cases "m x")
    case None
    with assms Free x show ?thesis
      by (auto simp: in_step_def inj_on_def split: option.splits)
  next
    case (Some i)
    with assms Free x show ?thesis by auto
  qed
next
  case (Bound i)
  with assms show ?thesis by auto
qed

lemma encode_variable_is_Normalize:
  "encode_variable v (Normalize m n, out) = Some (e, out') \<Longrightarrow> \<exists>m' n'. e = Normalize m' n'"
  by (cases v) (auto split: option.splits)

lemma encode_pair_in_step:
  assumes "encode_pair t l r (Normalize m n, out) = Some (Normalize m' n', out')" "in_step A f m k"
    "frees_of l \<union> frees_of r \<subseteq> A"
  shows "\<exists>k'. encode_pair t (map_free_variable f l) (map_free_variable f r) (Normalize k n, out) =
      Some (Normalize k' n', out') \<and> in_step A f m' k'"
proof -
  from assms(1) obtain e mid where "encode_variable l (Normalize m n, out @ [t]) = Some (e, mid)"
    and "encode_variable r (e, mid) = Some (Normalize m' n', out')"
    by (auto simp: encode_pair_def bind_eq_Some_conv)
  then obtain m1 n1 where 1: "encode_variable l (Normalize m n, out @ [t]) = Some (Normalize m1 n1, mid)"
    and 2: "encode_variable r (Normalize m1 n1, mid) = Some (Normalize m' n', out')"
    using encode_variable_is_Normalize by blast
  from encode_variable_in_step [OF 1 assms(2)] assms(3) obtain k1 where
    k1: "encode_variable (map_free_variable f l) (Normalize k n, out @ [t]) = Some (Normalize k1 n1, mid)"
    "in_step A f m1 k1" by auto
  from encode_variable_in_step [OF 2 k1(2)] assms(3) k1(1) show ?thesis
    by (auto simp: encode_pair_def)
qed

lemma encode_node_is_Normalize:
  "encode_node a d nodes (Normalize m n, out) = Ok (nodes', e, out') \<Longrightarrow> \<exists>m' n'. e = Normalize m' n'"
proof (induction a arbitrary: d nodes m n out nodes' e out')
  case (FImplies a b)
  then show ?case by auto blast
qed (auto simp: encode_pair_def bind_eq_Some_conv dest!: encode_variable_is_Normalize)

lemma encode_node_in_step:
  "encode_node a d nodes (Normalize m n, out) = Ok (nodes', Normalize m' n', out') \<Longrightarrow> in_step A f m k \<Longrightarrow> frees a \<subseteq> A \<Longrightarrow>
     \<exists>k'. encode_node (map_free_variables f a) d nodes (Normalize k n, out) = Ok (nodes', Normalize k' n', out')
       \<and> in_step A f m' k'"
proof (induction a arbitrary: d nodes m n out nodes' m' n' out' k)
  case (FImplies a b)
  then obtain x y z where 1: "encode_node a (d + 1) (nodes\<lparr>budget_used := budget_used nodes + 1\<rparr>)
      (Normalize m n, out @ [IMPLIES]) = Ok (x, y, z)"
    and 2: "encode_node b (d + 1) x (y, z) = Ok (nodes', Normalize m' n', out')" by auto
  obtain m1 n1 where y: "y = Normalize m1 n1" using encode_node_is_Normalize [OF 1] by blast
  obtain k1 where k1: "encode_node (map_free_variables f a) (d + 1) (nodes\<lparr>budget_used := budget_used nodes + 1\<rparr>)
      (Normalize k n, out @ [IMPLIES]) = Ok (x, Normalize k1 n1, z)" "in_step A f m1 k1"
    using FImplies.IH(1) [OF 1 [unfolded y] FImplies.prems(2)] FImplies.prems(3) by auto
  then show ?case
    using FImplies.IH(2) [OF 2 [unfolded y] k1(2)] FImplies.prems by auto
next
  case (FEqual l r)
  then show ?case using encode_pair_in_step [of EQUAL l r m n out m' n' out' A f k] by auto
next
  case (FMember l r)
  then show ?case using encode_pair_in_step [of MEMBER l r m n out m' n' out' A f k] by auto
qed auto

lemma numbering_empty: "numbering Map.empty 0"
  by (simp add: numbering_def)

lemma encode_free_variable_normalized_Ok:
  assumes "encode_free_variable_normalized a = Ok bs"
  obtains m where "bs = wire (relabel m a)" "inj_on (\<lambda>v. the (m v)) (frees a)"
proof -
  from assms obtain nodes e where r: "encode_node a 0 (node_budget_new FORMULA_MAX_NODES) (Normalize Map.empty 0, []) = Ok (nodes, e, bs)"
    by (auto simp: encode_free_variable_normalized_def encode_with_node_limit_def)
  then obtain m n where m: "numbered_run a Map.empty 0 [] m n bs"
    using encode_node_normalized [OF r numbering_empty] by blast
  then have "inj_on m (frees a)" "frees a \<subseteq> dom m" by (auto simp: numbered_run_def numbering_def)
  then have "inj_on (\<lambda>v. the (m v)) (frees a)"
    unfolding inj_on_def by (metis domIff option.expand subset_iff)
  with m that show thesis by (auto simp: numbered_run_def)
qed

lemma encode_free_variable_normalized_rename:
  assumes "encode_free_variable_normalized a = Ok bs" "inj_on f (frees a)"
  shows "encode_free_variable_normalized (map_free_variables f a) = Ok bs"
proof -
  from assms(1) obtain nodes e where r: "encode_node a 0 (node_budget_new FORMULA_MAX_NODES) (Normalize Map.empty 0, []) = Ok (nodes, e, bs)"
    by (auto simp: encode_free_variable_normalized_def encode_with_node_limit_def)
  obtain m n where e: "e = Normalize m n" using encode_node_is_Normalize [OF r] by blast
  have "in_step (frees a) f Map.empty Map.empty" using assms(2) by (simp add: in_step_def)
  from encode_node_in_step [OF r [unfolded e] this] show ?thesis
    by (auto simp: encode_free_variable_normalized_def encode_with_node_limit_def)
qed

lemma map_free_variables_comp: "map_free_variables g (map_free_variables f a) = map_free_variables (g \<circ> f) a"
proof (induction a)
  case (FEqual l r) then show ?case by (cases l; cases r) auto
next
  case (FMember l r) then show ?case by (cases l; cases r) auto
qed auto

lemma map_free_variables_inj:
  assumes "map_free_variables f a = map_free_variables g b" "inj_on f (frees a)" "inj_on g (frees b)"
  obtains h where "inj_on h (frees a)" "b = map_free_variables h a"
proof -
  let ?h = "inv_into (frees b) g \<circ> f"
  have fr: "f ` frees a = g ` frees b"
    using arg_cong [OF assms(1), of frees] by simp
  have "map_free_variables ?h a = map_free_variables (inv_into (frees b) g \<circ> g) b"
    using arg_cong [OF assms(1), of "map_free_variables (inv_into (frees b) g)"]
    by (simp add: map_free_variables_comp)
  also have "\<dots> = map_free_variables id b"
    using assms(3) by (intro map_free_variables_cong) auto
  also have "\<dots> = b"
  proof (induction b)
    case (FEqual l r) then show ?case by (cases l; cases r) auto
  next
    case (FMember l r) then show ?case by (cases l; cases r) auto
  qed auto
  finally have "b = map_free_variables ?h a" ..
  moreover have "inj_on ?h (frees a)"
    using assms(2) fr by (intro comp_inj_on) (auto intro: inj_on_inv_into)
  ultimately show thesis using that by blast
qed

text \<open>Two formulas have the same normalized bytes exactly when one is a renaming of the other.\<close>

lemma normalized_equal_iff:
  assumes "encode_free_variable_normalized a = Ok bs"
  shows "encode_free_variable_normalized b = Ok bs \<longleftrightarrow> (\<exists>f. inj_on f (frees a) \<and> b = map_free_variables f a)"
proof
  assume "encode_free_variable_normalized b = Ok bs"
  then obtain k where k: "bs = wire (relabel k b)" "inj_on (\<lambda>v. the (k v)) (frees b)"
    by (rule encode_free_variable_normalized_Ok)
  obtain m where m: "bs = wire (relabel m a)" "inj_on (\<lambda>v. the (m v)) (frees a)"
    using assms by (rule encode_free_variable_normalized_Ok)
  from k m have "map_free_variables (\<lambda>v. the (m v)) a = map_free_variables (\<lambda>v. the (k v)) b"
    by (simp add: relabel_def)
  then show "\<exists>f. inj_on f (frees a) \<and> b = map_free_variables f a"
    using m(2) k(2) by (rule map_free_variables_inj) blast
next
  assume "\<exists>f. inj_on f (frees a) \<and> b = map_free_variables f a"
  with encode_free_variable_normalized_rename [OF assms] show "encode_free_variable_normalized b = Ok bs" by auto
qed

lemma encode_pair_Normalize_Some:
  assumes "unat n + 2 < 2 ^ 32" "numbering m n"
  shows "\<exists>res. encode_pair t l r (Normalize m n, out) = Some res"
proof -
  obtain e mid where 1: "encode_variable l (Normalize m n, out @ [t]) = Some (e, mid)"
    using encode_variable_Normalize_Some [of n l m "out @ [t]"] assms(1) by auto
  obtain m' n' where "e = Normalize m' n'" "unat n' \<le> unat n + 1"
    using encode_variable_normalized [OF 1 assms(2)] .
  with 1 assms(1) show ?thesis
    using encode_variable_Normalize_Some [of n' r m' mid] by (auto simp: encode_pair_def)
qed

lemma encode_node_budget:
  "encode_node a d nodes st = Ok (nodes', st') \<Longrightarrow> budget_used nodes \<le> budget_maximum nodes \<Longrightarrow>
     budget_used nodes' \<le> budget_maximum nodes' \<and> budget_maximum nodes' = budget_maximum nodes"
proof (induction a arbitrary: d nodes st nodes' st')
  case (FImplies a b)
  then obtain x y where *: "budget_used nodes \<noteq> budget_maximum nodes"
    "encode_node a (d + 1) (nodes\<lparr>budget_used := budget_used nodes + 1\<rparr>) (fst st, snd st @ [IMPLIES]) = Ok (x, y)"
    "encode_node b (d + 1) x y = Ok (nodes', st')" by auto
  from FImplies.IH(1) [OF *(2)] FImplies.prems(2) *(1)
  have "budget_used x \<le> budget_maximum x \<and> budget_maximum x = budget_maximum nodes" by simp
  with FImplies.IH(2) [OF *(3)] show ?case by simp
next
  case (FNot a)
  then show ?case
    using FNot.IH [of "d + 1" "nodes\<lparr>budget_used := budget_used nodes + 1\<rparr>" "(fst st, snd st @ [NOT_TAG])" nodes' st']
    by (simp add: Suc_le_eq)
next
  case (FForAll a)
  then show ?case
    using FForAll.IH [of "d + 1" "nodes\<lparr>budget_used := budget_used nodes + 1\<rparr>" "(fst st, snd st @ [FOR_ALL])" nodes' st']
    by (simp add: Suc_le_eq)
qed auto

text \<open>The node budget bounds the identifiers given out, so that the counter never overflows.\<close>

definition within_budget :: "u32 \<Rightarrow> node_budget \<Rightarrow> bool" where
  "within_budget n nodes \<longleftrightarrow>
     unat n \<le> 2 * budget_used nodes \<and> budget_used nodes \<le> budget_maximum nodes \<and> budget_maximum nodes \<le> 65536"

lemma within_budget_charge:
  "within_budget n nodes \<Longrightarrow> budget_used nodes \<noteq> budget_maximum nodes \<Longrightarrow>
     within_budget n (nodes\<lparr>budget_used := Suc (budget_used nodes)\<rparr>) \<and> unat n + 2 < 2 ^ 32"
  by (auto simp: within_budget_def)

lemma encode_node_normalized_not_Panic:
  "numbering m n \<Longrightarrow> within_budget n nodes \<Longrightarrow> encode_node a d nodes (Normalize m n, out) \<noteq> Panic"
proof (induction a arbitrary: d nodes m n out)
  case (FImplies a b)
  let ?nodes = "nodes\<lparr>budget_used := Suc (budget_used nodes)\<rparr>"
  have 1: "encode_node a (d + 1) ?nodes (Normalize m n, out @ [IMPLIES]) \<noteq> Panic"
    if "budget_used nodes \<noteq> budget_maximum nodes"
    using FImplies within_budget_charge that by blast
  have 2: "encode_node b (d + 1) y (e, z) \<noteq> Panic"
    if run: "encode_node a (d + 1) ?nodes (Normalize m n, out @ [IMPLIES]) = Ok (y, e, z)"
      and left: "budget_used nodes \<noteq> budget_maximum nodes" for y e z
  proof -
    have w: "within_budget n ?nodes" using within_budget_charge FImplies.prems(2) left by blast
    obtain m' n' where "e = Normalize m' n'" "numbering m' n'" "unat n' \<le> unat n + 2 * node_count a" "y = spend a ?nodes"
      using encode_node_normalized [OF run FImplies.prems(1)] by (auto simp: numbered_run_def)
    moreover have "budget_used y \<le> budget_maximum y \<and> budget_maximum y = budget_maximum ?nodes"
      using encode_node_budget [OF run] w by (simp add: within_budget_def)
    ultimately show ?thesis
      using FImplies.IH(2) [of m' n' y "d + 1" z] w by (simp add: within_budget_def spend_def)
  qed
  from 1 2 show ?case by auto
next
  case (FEqual l r)
  then show ?case
    using encode_pair_Normalize_Some [of n m EQUAL l r out] within_budget_charge [of n nodes] by auto
next
  case (FMember l r)
  then show ?case
    using encode_pair_Normalize_Some [of n m MEMBER l r out] within_budget_charge [of n nodes] by auto
qed (auto dest: within_budget_charge)

lemma encode_free_variable_normalized_not_Panic: "encode_free_variable_normalized a \<noteq> Panic"
proof -
  have "within_budget 0 (node_budget_new FORMULA_MAX_NODES)"
    by (simp add: within_budget_def node_budget_new_def FORMULA_MAX_NODES_def)
  then show ?thesis
    by (simp add: encode_free_variable_normalized_def encode_with_node_limit_def
        encode_node_normalized_not_Panic numbering_empty)
qed

text \<open>Both encodings succeed for the same formulas, and for a closed formula they are the same bytes.\<close>

lemma encode_node_Ok_admitted:
  "encode_node a d nodes st = Ok (nodes', st') \<Longrightarrow> budget_used nodes \<le> budget_maximum nodes \<Longrightarrow>
     nodes' = spend a nodes \<and> admitted d nodes a"
proof (induction a arbitrary: d nodes st nodes' st')
  case (FImplies a b)
  then obtain x y where 1: "encode_node a (d + 1) (nodes\<lparr>budget_used := budget_used nodes + 1\<rparr>)
      (fst st, snd st @ [IMPLIES]) = Ok (x, y)" and 2: "encode_node b (d + 1) x y = Ok (nodes', st')"
    and n: "budget_used nodes \<noteq> budget_maximum nodes" by auto
  have a: "x = spend a (nodes\<lparr>budget_used := budget_used nodes + 1\<rparr>)"
    "admitted (d + 1) (nodes\<lparr>budget_used := budget_used nodes + 1\<rparr>) a"
    using FImplies.IH(1) [OF 1] FImplies.prems(2) n by auto
  then have "budget_used x \<le> budget_maximum x" by (simp add: spend_def admitted_def)
  from FImplies.IH(2) [OF 2 this] a show ?case by (auto simp: spend_def admitted_def)
next
  case (FNot a)
  then show ?case
    using FNot.IH [of "d + 1" "nodes\<lparr>budget_used := budget_used nodes + 1\<rparr>" _ nodes' st'] by (fastforce simp: spend_def admitted_def)
next
  case (FForAll a)
  then show ?case
    using FForAll.IH [of "d + 1" "nodes\<lparr>budget_used := budget_used nodes + 1\<rparr>" _ nodes' st'] by (fastforce simp: spend_def admitted_def)
qed (auto simp: spend_def admitted_def)

lemma encode_node_admitted_not_Err:
  "admitted d nodes a \<Longrightarrow> encode_node a d nodes st \<noteq> Err e"
proof (induction a arbitrary: d nodes st)
  case (FImplies a b)
  let ?nodes = "nodes\<lparr>budget_used := budget_used nodes + 1\<rparr>"
  have a: "admitted (d + 1) ?nodes a" using FImplies.prems by (auto simp: admitted_def)
  have b: "admitted (d + 1) (spend a ?nodes) b" using FImplies.prems by (auto simp: admitted_def spend_def)
  have "x = spend a ?nodes" if "encode_node a (d + 1) ?nodes st' = Ok (x, y)" for st' x y
    using encode_node_Ok_admitted [OF that] FImplies.prems by (simp add: admitted_def)
  with FImplies.IH(1) [OF a] FImplies.IH(2) [OF b] FImplies.prems show ?case
    by (auto simp: check_depth_def budget_charge_def admitted_def FORMULA_MAX_DEPTH_def split: prod.splits)
next
  case (FNot a)
  then have "admitted (d + 1) (nodes\<lparr>budget_used := budget_used nodes + 1\<rparr>) a" by (simp add: admitted_def)
  with FNot show ?case by (auto simp: check_depth_def budget_charge_def admitted_def FORMULA_MAX_DEPTH_def)
next
  case (FForAll a)
  then have "admitted (d + 1) (nodes\<lparr>budget_used := budget_used nodes + 1\<rparr>) a" by (simp add: admitted_def)
  with FForAll show ?case by (auto simp: check_depth_def budget_charge_def admitted_def FORMULA_MAX_DEPTH_def)
qed (auto simp: check_depth_def budget_charge_def admitted_def FORMULA_MAX_DEPTH_def)

lemma encode_free_variable_normalized_iff:
  "(\<exists>bs. encode_free_variable_normalized a = Ok bs) \<longleftrightarrow> wire_admitted FORMULA_MAX_NODES a"
proof
  assume "\<exists>bs. encode_free_variable_normalized a = Ok bs"
  then obtain r where "encode_node a 0 (node_budget_new FORMULA_MAX_NODES) (Normalize Map.empty 0, []) = Ok r"
    by (auto simp: encode_free_variable_normalized_def encode_with_node_limit_def)
  then show "wire_admitted FORMULA_MAX_NODES a"
    using encode_node_Ok_admitted [of a 0 "node_budget_new FORMULA_MAX_NODES" _ "fst r" "snd r"]
    by (simp add: node_budget_new_def flip: admitted_new)
next
  assume "wire_admitted FORMULA_MAX_NODES a"
  then have "admitted 0 (node_budget_new FORMULA_MAX_NODES) a" by simp
  from encode_node_admitted_not_Err [OF this] have "encode_free_variable_normalized a \<noteq> Err e" for e
    by (auto simp: encode_free_variable_normalized_def encode_with_node_limit_def)
  with encode_free_variable_normalized_not_Panic [of a] show "\<exists>bs. encode_free_variable_normalized a = Ok bs"
    by (cases "encode_free_variable_normalized a") auto
qed

lemma map_free_variables_closed: "frees a = {} \<Longrightarrow> map_free_variables f a = a"
proof (induction a)
  case (FEqual l r) then show ?case by (cases l; cases r) auto
next
  case (FMember l r) then show ?case by (cases l; cases r) auto
qed auto

lemma length_wire_map_free_variables [simp]: "length (wire (map_free_variables f a)) = length (wire a)"
  by (induction a) simp_all

lemma encode_free_variable_normalized_bytes:
  assumes "encode_free_variable_normalized a = Ok bs"
  shows "length bs = length (wire a)" and "frees a = {} \<Longrightarrow> bs = wire a"
proof -
  obtain m where m: "bs = wire (relabel m a)" using assms by (rule encode_free_variable_normalized_Ok)
  then show "length bs = length (wire a)" by (simp add: relabel_def)
  show "frees a = {} \<Longrightarrow> bs = wire a" using m by (simp add: relabel_def map_free_variables_closed)
qed

section \<open>The ranges of an implication are the bytes of its parts\<close>

fun spine_tails :: "node \<Rightarrow> node list" where
  "spine_tails (FImplies l r) = r # spine_tails r"
| "spine_tails _ = []"

lemma spine_offsets_wire:
  "map (\<lambda>start. drop start (pre @ wire a)) (spine_offsets a (length pre)) = map wire (spine_tails a)"
proof (induction a arbitrary: pre)
  case (FImplies l r)
  from FImplies.IH(2) [of "pre @ IMPLIES # wire l"] show ?case
    by (simp add: length_wire [symmetric] Let_def)
qed simp_all

lemma canonical_implication_of_Ok:
  assumes "canonical_implication_of (FImplies l r) = Ok (Some ci)"
  shows "ci_antecedent ci = wire l" "ci_consequent_slices ci = map wire (spine_tails (FImplies l r))"
proof -
  from assms have ci: "ci = \<lparr>ci_bytes = wire (FImplies l r), ci_antecedent_end = hd (spine_offsets (FImplies l r) 0),
      ci_consequents = spine_offsets (FImplies l r) 0\<rparr>"
    by (auto simp: canonical_implication_of_def encode_canonical_Ok Let_def)
  show "ci_antecedent ci = wire l"
    by (simp add: ci ci_antecedent_def Let_def length_wire [symmetric])
  show "ci_consequent_slices ci = map wire (spine_tails (FImplies l r))"
    using spine_offsets_wire [of "[]" "FImplies l r"]
    by (simp only: ci ci_consequent_slices_def canonical_implication.simps append_Nil list.size)
qed

lemma canonical_implication_of_not_Panic: "canonical_implication_of a \<noteq> Panic"
  by (cases a) (auto simp: canonical_implication_of_def Let_def)

section \<open>What the codec promises\<close>

text \<open>C22. The canonical encoding is a bijection between the formulas it admits and the byte strings it
  accepts: a byte string decodes to a formula exactly when the formula is well formed and encodes to
  that byte string.\<close>

theorem canonical_round_trip:
  "decode_canonical bs = Ok a \<longleftrightarrow> well_formed a \<and> encode_canonical a = Ok bs"
  by (auto simp: decode_canonical_Ok encode_canonical_Ok)

text \<open>C23. Two formulas have the same normalized encoding exactly when one is obtained from the other by an
  injective renaming of its free variables.\<close>

theorem normalized_bytes_identify_renamings:
  assumes "encode_free_variable_normalized a = Ok bs"
  shows "encode_free_variable_normalized b = Ok bs \<longleftrightarrow>
    (\<exists>f. inj_on f (frees a) \<and> b = map_free_variables f a)"
  using normalized_equal_iff [OF assms] .

theorem normalized_bytes_identify_renamings_witness:
  "\<exists>bs. encode_free_variable_normalized (FMember (Free 7) (Free 9)) = Ok bs \<and>
     encode_free_variable_normalized (FMember (Free 4) (Free 2)) = Ok bs"
proof -
  let ?bs = "[1, 0, 0, 0, 0, 0, 0, 0, 0, 0, 1]"
  have run: "encode_free_variable_normalized (FMember (Free 7) (Free 9)) = Ok ?bs"
    by (simp add: encode_free_variable_normalized_def encode_with_node_limit_def encode_pair_def
        node_budget_new_def check_depth_def budget_charge_def FORMULA_MAX_NODES_def FORMULA_MAX_DEPTH_def
        checked_add_def u32_to_be_bytes_def)
  have "inj_on (\<lambda>v. if v = 7 then 4 else 2 :: u32) (frees (FMember (Free 7) (Free 9)))" by (simp add: inj_on_def)
  then have "encode_free_variable_normalized (FMember (Free 4) (Free 2)) = Ok ?bs"
    unfolding normalized_bytes_identify_renamings [OF run]
    by (intro exI [of _ "\<lambda>v. if v = 7 then 4 else 2"]) simp
  with run show ?thesis by blast
qed

text \<open>C24. The borrowed ranges of an encoded implication are the canonical bytes of its antecedent and of
  every consequent along its outer spine.\<close>

theorem implication_ranges_are_canonical:
  assumes "canonical_implication_of (FImplies l r) = Ok (Some ci)"
  shows "encode_canonical l = Ok (ci_antecedent ci) \<and>
    map encode_canonical (spine_tails (FImplies l r)) = map Ok (ci_consequent_slices ci)"
proof -
  have adm: "wire_admitted FORMULA_MAX_NODES (FImplies l r)"
    using assms by (auto simp: canonical_implication_of_def encode_canonical_Ok)
  have "wire_admitted FORMULA_MAX_NODES b" if "b \<in> set (spine_tails a)" "wire_admitted FORMULA_MAX_NODES a" for a b
    using that by (induction a rule: spine_tails.induct) (auto simp: wire_admitted_def)
  with adm have "map encode_canonical (spine_tails (FImplies l r)) = map (\<lambda>b. Ok (wire b)) (spine_tails (FImplies l r))"
    by (intro map_cong refl) (use encode_canonical_Ok in blast)
  moreover from adm have "encode_canonical l = Ok (wire l)" by (auto simp: encode_canonical_Ok wire_admitted_def)
  ultimately show ?thesis using canonical_implication_of_Ok [OF assms] by simp
qed

theorem implication_ranges_are_canonical_witness:
  "\<exists>ci. canonical_implication_of (FImplies (FEqual (Free 0) (Free 0)) (FEqual (Free 1) (Free 1))) = Ok (Some ci) \<and>
     encode_canonical (FEqual (Free 0) (Free 0)) = Ok (ci_antecedent ci)"
proof -
  let ?a = "FImplies (FEqual (Free 0) (Free 0)) (FEqual (Free 1) (Free 1))"
  have "encode_canonical ?a = Ok (wire ?a)"
    by (simp add: encode_canonical_Ok wire_admitted_def FORMULA_MAX_NODES_def)
  then obtain ci where ci: "canonical_implication_of ?a = Ok (Some ci)"
    by (simp add: canonical_implication_of_def Let_def)
  with implication_ranges_are_canonical [OF ci] show ?thesis by blast
qed

end
