(* ===== verification/Defined_Formula.thy ===== *)
theory Defined_Formula
  imports Formula_Codec Semantics
begin

text \<open>
  Proof formulas that may apply selected definitions, \<open>naome-proof/src/defined_formula.rs\<close>: the
  constructors, the free variables and definition references, the definition-aware canonical codec
  and the bounded elimination of definitions. Variables are those of \<open>naome-foundation\<close>, because the
  two private \<open>Variable\<close> types have the same constructors. A \<open>DefinitionId\<close> is its 32 digest bytes.
  The identity-free \<open>Drop\<close> implementation has no counterpart.
\<close>

type_synonym definition_id = bytes

definition DEFINITION_ID_BYTE_LENGTH :: nat where "DEFINITION_ID_BYTE_LENGTH = 32"

datatype dnode =
    DEqual variable variable
  | DMember variable variable
  | DNot dnode
  | DImplies dnode dnode
  | DForAll dnode
  | DRelation definition_id "variable list"

section \<open>Constructors\<close>

definition d_equal :: "free_variable \<Rightarrow> free_variable \<Rightarrow> dnode" where
  "d_equal left right = DEqual (Free left) (Free right)"

definition d_member :: "free_variable \<Rightarrow> free_variable \<Rightarrow> dnode" where
  "d_member element set_variable = DMember (Free element) (Free set_variable)"

definition defined_relation :: "definition_id \<Rightarrow> free_variable list \<Rightarrow> dnode" where
  "defined_relation definition_id arguments = DRelation definition_id (map Free arguments)"

definition d_negate :: "dnode \<Rightarrow> dnode" where
  "d_negate formula = DNot formula"

definition d_implies :: "dnode \<Rightarrow> dnode \<Rightarrow> dnode" where
  "d_implies antecedent consequent = DImplies antecedent consequent"

definition d_conjunction :: "dnode \<Rightarrow> dnode \<Rightarrow> dnode" where
  "d_conjunction left right = d_negate (d_implies left (d_negate right))"

definition d_disjunction :: "dnode \<Rightarrow> dnode \<Rightarrow> dnode" where
  "d_disjunction left right = d_implies (d_negate left) right"

definition d_biconditional :: "dnode \<Rightarrow> dnode \<Rightarrow> dnode" where
  "d_biconditional left right = d_conjunction (d_implies left right) (d_implies right left)"

definition d_bind_variable :: "free_variable \<Rightarrow> u32 \<Rightarrow> variable \<Rightarrow> variable" where
  "d_bind_variable variable depth value = (if value = Free variable then Bound depth else value)"

primrec d_bind_free :: "free_variable \<Rightarrow> u32 \<Rightarrow> dnode \<Rightarrow> dnode option" where
  "d_bind_free variable depth (DEqual left right) =
     Some (DEqual (d_bind_variable variable depth left) (d_bind_variable variable depth right))"
| "d_bind_free variable depth (DMember left right) =
     Some (DMember (d_bind_variable variable depth left) (d_bind_variable variable depth right))"
| "d_bind_free variable depth (DRelation definition_id arguments) =
     Some (DRelation definition_id (map (d_bind_variable variable depth) arguments))"
| "d_bind_free variable depth (DNot formula) = map_option DNot (d_bind_free variable depth formula)"
| "d_bind_free variable depth (DImplies antecedent consequent) =
     Option.bind (d_bind_free variable depth antecedent) (\<lambda>a.
       map_option (DImplies a) (d_bind_free variable depth consequent))"
| "d_bind_free variable depth (DForAll body) =
     Option.bind (checked_add depth 1) (\<lambda>depth. map_option DForAll (d_bind_free variable depth body))"

definition d_for_all :: "free_variable \<Rightarrow> dnode \<Rightarrow> dnode option" where
  "d_for_all variable body = map_option DForAll (d_bind_free variable 0 body)"

definition d_exists :: "free_variable \<Rightarrow> dnode \<Rightarrow> dnode option" where
  "d_exists variable body = map_option d_negate (d_for_all variable (d_negate body))"

primrec d_map_free_variables :: "(free_variable \<Rightarrow> free_variable) \<Rightarrow> dnode \<Rightarrow> dnode" where
  "d_map_free_variables f (DEqual left right) = DEqual (map_free_variable f left) (map_free_variable f right)"
| "d_map_free_variables f (DMember left right) = DMember (map_free_variable f left) (map_free_variable f right)"
| "d_map_free_variables f (DRelation definition_id arguments) =
     DRelation definition_id (map (map_free_variable f) arguments)"
| "d_map_free_variables f (DNot formula) = DNot (d_map_free_variables f formula)"
| "d_map_free_variables f (DForAll formula) = DForAll (d_map_free_variables f formula)"
| "d_map_free_variables f (DImplies antecedent consequent) =
     DImplies (d_map_free_variables f antecedent) (d_map_free_variables f consequent)"

definition d_substitute_free :: "free_variable \<Rightarrow> free_variable \<Rightarrow> dnode \<Rightarrow> dnode" where
  "d_substitute_free from to formula =
     (if from = to then formula
      else d_map_free_variables (\<lambda>candidate. if candidate = from then to else candidate) formula)"

primrec d_collect_free_variables :: "dnode \<Rightarrow> free_variable list \<Rightarrow> free_variable list" where
  "d_collect_free_variables (DEqual left right) variables =
     collect_free_variable right (collect_free_variable left variables)"
| "d_collect_free_variables (DMember left right) variables =
     collect_free_variable right (collect_free_variable left variables)"
| "d_collect_free_variables (DRelation definition_id arguments) variables =
     fold collect_free_variable arguments variables"
| "d_collect_free_variables (DNot formula) variables = d_collect_free_variables formula variables"
| "d_collect_free_variables (DForAll formula) variables = d_collect_free_variables formula variables"
| "d_collect_free_variables (DImplies antecedent consequent) variables =
     d_collect_free_variables consequent (d_collect_free_variables antecedent variables)"

definition d_free_variables :: "dnode \<Rightarrow> free_variable list" where
  "d_free_variables formula = d_collect_free_variables formula []"

definition d_is_closed :: "dnode \<Rightarrow> bool" where
  "d_is_closed formula \<longleftrightarrow> d_free_variables formula = []"

primrec collect_definition_references :: "dnode \<Rightarrow> definition_id list \<Rightarrow> definition_id list" where
  "collect_definition_references (DRelation definition_id arguments) references = references @ [definition_id]"
| "collect_definition_references (DNot formula) references = collect_definition_references formula references"
| "collect_definition_references (DForAll formula) references = collect_definition_references formula references"
| "collect_definition_references (DImplies antecedent consequent) references =
     collect_definition_references consequent (collect_definition_references antecedent references)"
| "collect_definition_references (DEqual l r) references = references"
| "collect_definition_references (DMember l r) references = references"

definition definition_references :: "dnode \<Rightarrow> definition_id list" where
  "definition_references formula = collect_definition_references formula []"

primrec first_definition_reference :: "dnode \<Rightarrow> definition_id option" where
  "first_definition_reference (DRelation definition_id arguments) = Some definition_id"
| "first_definition_reference (DNot formula) = first_definition_reference formula"
| "first_definition_reference (DForAll formula) = first_definition_reference formula"
| "first_definition_reference (DImplies antecedent consequent) =
     (case first_definition_reference antecedent of
        Some definition_id \<Rightarrow> Some definition_id
      | None \<Rightarrow> first_definition_reference consequent)"
| "first_definition_reference (DEqual l r) = None"
| "first_definition_reference (DMember l r) = None"

primrec contains_definition :: "dnode \<Rightarrow> bool" where
  "contains_definition (DRelation definition_id arguments) = True"
| "contains_definition (DNot formula) = contains_definition formula"
| "contains_definition (DForAll formula) = contains_definition formula"
| "contains_definition (DImplies antecedent consequent) =
     (contains_definition antecedent \<or> contains_definition consequent)"
| "contains_definition (DEqual l r) = False"
| "contains_definition (DMember l r) = False"

end
