(* ===== verification/Defined_Codec.thy ===== *)
theory Defined_Codec
  imports Defined_Formula
begin

text \<open>
  The canonical codec of definition-aware formulas and the conversions to and from primitive
  formulas, the second half of \<open>naome-proof/src/defined_formula.rs\<close>. The private \<open>NodeBudget\<close>,
  \<open>FreeVariableEncoding\<close> and \<open>Cursor\<close> of that file repeat those of the primitive codec; the counters are
  shared and only the errors they report are declared again.
\<close>

abbreviation DEFINED_RELATION :: u8 where "DEFINED_RELATION \<equiv> 5"

datatype defined_formula_codec_error =
    DInputTooLong nat nat
  | DNodeLimitExceeded nat
  | DDepthLimitExceeded nat
  | DTooManyDefinitionArguments nat
  | DUnexpandedDefinition definition_id
  | DUnexpectedEnd
  | DUnknownFormulaTag u8
  | DUnknownVariableTag u8
  | DDanglingBoundVariable u32 nat
  | DTrailingBytes nat
  | DPrimitive formula_codec_error

definition d_check_depth_limit :: "nat \<Rightarrow> nat \<Rightarrow> (defined_formula_codec_error, unit) outcome" where
  "d_check_depth_limit depth maximum =
     (if maximum \<le> depth then Err (DDepthLimitExceeded maximum) else Ok ())"

definition d_check_depth :: "nat \<Rightarrow> (defined_formula_codec_error, unit) outcome" where
  "d_check_depth depth = d_check_depth_limit depth FORMULA_MAX_DEPTH"

definition d_budget_charge :: "node_budget \<Rightarrow> (defined_formula_codec_error, node_budget) outcome" where
  "d_budget_charge nodes =
     (if budget_used nodes = budget_maximum nodes then Err (DNodeLimitExceeded (budget_maximum nodes))
      else Ok (nodes\<lparr>budget_used := budget_used nodes + 1\<rparr>))"

section \<open>Encoding\<close>

primrec encode_arguments ::
  "variable list \<Rightarrow> free_variable_encoding \<times> bytes \<Rightarrow> (free_variable_encoding \<times> bytes) option" where
  "encode_arguments [] st = Some st"
| "encode_arguments (argument # arguments) st =
     Option.bind (encode_variable argument st) (encode_arguments arguments)"

definition d_check_length ::
  "node_budget \<times> free_variable_encoding \<times> bytes \<Rightarrow>
     (defined_formula_codec_error, node_budget \<times> free_variable_encoding \<times> bytes) outcome" where
  "d_check_length res =
     (let output = snd (snd res)
      in if FORMULA_MAX_BYTES < length output then Err (DInputTooLong (length output) FORMULA_MAX_BYTES)
         else Ok res)"

primrec d_encode_node ::
  "dnode \<Rightarrow> nat \<Rightarrow> node_budget \<Rightarrow> free_variable_encoding \<times> bytes \<Rightarrow> bool \<Rightarrow> nat \<Rightarrow>
     (defined_formula_codec_error, node_budget \<times> free_variable_encoding \<times> bytes) outcome" where
  "d_encode_node (DEqual l r) depth nodes st allow_definitions maximum_depth =
     and_then (d_check_depth_limit depth maximum_depth) (\<lambda>_. and_then (d_budget_charge nodes) (\<lambda>nodes.
       and_then (expect (encode_pair EQUAL l r st)) (\<lambda>st. d_check_length (nodes, st))))"
| "d_encode_node (DMember l r) depth nodes st allow_definitions maximum_depth =
     and_then (d_check_depth_limit depth maximum_depth) (\<lambda>_. and_then (d_budget_charge nodes) (\<lambda>nodes.
       and_then (expect (encode_pair MEMBER l r st)) (\<lambda>st. d_check_length (nodes, st))))"
| "d_encode_node (DNot formula) depth nodes st allow_definitions maximum_depth =
     and_then (d_check_depth_limit depth maximum_depth) (\<lambda>_. and_then (d_budget_charge nodes) (\<lambda>nodes.
       and_then (d_encode_node formula (depth + 1) nodes (fst st, snd st @ [NOT_TAG]) allow_definitions maximum_depth)
         d_check_length))"
| "d_encode_node (DImplies antecedent consequent) depth nodes st allow_definitions maximum_depth =
     and_then (d_check_depth_limit depth maximum_depth) (\<lambda>_. and_then (d_budget_charge nodes) (\<lambda>nodes.
       and_then (d_encode_node antecedent (depth + 1) nodes (fst st, snd st @ [IMPLIES]) allow_definitions maximum_depth)
         (\<lambda>(nodes, st).
       and_then (d_encode_node consequent (depth + 1) nodes st allow_definitions maximum_depth)
         d_check_length)))"
| "d_encode_node (DForAll body) depth nodes st allow_definitions maximum_depth =
     and_then (d_check_depth_limit depth maximum_depth) (\<lambda>_. and_then (d_budget_charge nodes) (\<lambda>nodes.
       and_then (d_encode_node body (depth + 1) nodes (fst st, snd st @ [FOR_ALL]) allow_definitions maximum_depth)
         d_check_length))"
| "d_encode_node (DRelation definition_id arguments) depth nodes st allow_definitions maximum_depth =
     and_then (d_check_depth_limit depth maximum_depth) (\<lambda>_. and_then (d_budget_charge nodes) (\<lambda>nodes.
       if allow_definitions then
         and_then (ok_or (DTooManyDefinitionArguments (length arguments)) (u32_try_from (length arguments))) (\<lambda>count.
         and_then (expect (encode_arguments arguments
             (fst st, snd st @ [DEFINED_RELATION] @ definition_id @ u32_to_be_bytes count))) (\<lambda>st.
         d_check_length (nodes, st)))
       else Err (DUnexpandedDefinition definition_id)))"

definition d_encode_with_limits ::
  "dnode \<Rightarrow> free_variable_encoding \<Rightarrow> bool \<Rightarrow> nat \<Rightarrow> nat \<Rightarrow> (defined_formula_codec_error, bytes \<times> nat) outcome" where
  "d_encode_with_limits node variables allow_definitions maximum_nodes maximum_depth =
     map_ok (\<lambda>(nodes, variables, output). (output, budget_used nodes))
       (d_encode_node node 0 (node_budget_new maximum_nodes) (variables, []) allow_definitions
         (min maximum_depth FORMULA_MAX_DEPTH))"

definition d_encode_with_limit ::
  "dnode \<Rightarrow> free_variable_encoding \<Rightarrow> bool \<Rightarrow> nat \<Rightarrow> (defined_formula_codec_error, bytes \<times> nat) outcome" where
  "d_encode_with_limit node variables allow_definitions maximum_nodes =
     d_encode_with_limits node variables allow_definitions maximum_nodes FORMULA_MAX_DEPTH"

definition d_encode ::
  "dnode \<Rightarrow> free_variable_encoding \<Rightarrow> bool \<Rightarrow> (defined_formula_codec_error, bytes \<times> nat) outcome" where
  "d_encode node variables allow_definitions = d_encode_with_limit node variables allow_definitions FORMULA_MAX_NODES"

definition d_encode_canonical :: "dnode \<Rightarrow> (defined_formula_codec_error, bytes) outcome" where
  "d_encode_canonical formula = map_ok fst (d_encode formula Preserve True)"

definition d_encode_canonical_with_node_limit ::
  "dnode \<Rightarrow> nat \<Rightarrow> (defined_formula_codec_error, bytes \<times> nat) outcome" where
  "d_encode_canonical_with_node_limit formula maximum_nodes =
     d_encode_with_limit formula Preserve True maximum_nodes"

definition d_encode_canonical_with_limits ::
  "dnode \<Rightarrow> nat \<Rightarrow> nat \<Rightarrow> (defined_formula_codec_error, bytes \<times> nat) outcome" where
  "d_encode_canonical_with_limits formula maximum_nodes maximum_depth =
     d_encode_with_limits formula Preserve True maximum_nodes maximum_depth"

definition d_encode_free_variable_normalized :: "dnode \<Rightarrow> (defined_formula_codec_error, bytes) outcome" where
  "d_encode_free_variable_normalized formula =
     map_ok fst (d_encode formula (Normalize Map.empty 0) True)"

section \<open>Decoding\<close>

definition d_decode_variable :: "cursor \<Rightarrow> nat \<Rightarrow> (defined_formula_codec_error, variable \<times> cursor) outcome" where
  "d_decode_variable cursor binder_depth =
     and_then (ok_or DUnexpectedEnd (cursor_read_u8 cursor)) (\<lambda>(tag, cursor).
       and_then (ok_or DUnexpectedEnd (cursor_read_u32 cursor)) (\<lambda>(value, cursor).
         if tag = FREE_VARIABLE then Ok (Free value, cursor)
         else if tag = BOUND_VARIABLE \<and> unat value < binder_depth then Ok (Bound value, cursor)
         else if tag = BOUND_VARIABLE then Err (DDanglingBoundVariable value binder_depth)
         else Err (DUnknownVariableTag tag)))"

definition d_decode_pair ::
  "(variable \<Rightarrow> variable \<Rightarrow> dnode) \<Rightarrow> cursor \<Rightarrow> nat \<Rightarrow> (defined_formula_codec_error, dnode \<times> cursor) outcome" where
  "d_decode_pair build cursor binder_depth =
     and_then (d_decode_variable cursor binder_depth) (\<lambda>(l, cursor).
       and_then (d_decode_variable cursor binder_depth) (\<lambda>(r, cursor). Ok (build l r, cursor)))"

primrec decode_arguments ::
  "nat \<Rightarrow> cursor \<Rightarrow> nat \<Rightarrow> (defined_formula_codec_error, variable list \<times> cursor) outcome" where
  "decode_arguments 0 cursor binder_depth = Ok ([], cursor)"
| "decode_arguments (Suc count) cursor binder_depth =
     and_then (d_decode_variable cursor binder_depth) (\<lambda>(argument, cursor).
       map_ok (\<lambda>(arguments, cursor). (argument # arguments, cursor)) (decode_arguments count cursor binder_depth))"

definition decode_relation :: "cursor \<Rightarrow> nat \<Rightarrow> (defined_formula_codec_error, dnode \<times> cursor) outcome" where
  "decode_relation cursor binder_depth =
     and_then (ok_or DUnexpectedEnd (cursor_take DEFINITION_ID_BYTE_LENGTH cursor)) (\<lambda>(definition_id, cursor).
       and_then (ok_or DUnexpectedEnd (cursor_read_u32 cursor)) (\<lambda>(count, cursor).
         if cursor_remaining cursor div 5 < unat count then Err DUnexpectedEnd
         else map_ok (\<lambda>(arguments, cursor). (DRelation definition_id arguments, cursor))
           (decode_arguments (unat count) cursor binder_depth)))"

lemma d_check_depth_limit_Ok [simp]: "d_check_depth_limit d m = Ok u \<longleftrightarrow> d < m"
  by (simp add: d_check_depth_limit_def not_le)

lemma d_check_depth_Ok [simp]: "d_check_depth d = Ok u \<longleftrightarrow> d < 256"
  by (simp add: d_check_depth_def FORMULA_MAX_DEPTH_def)

function (sequential) d_decode_node ::
  "cursor \<Rightarrow> nat \<Rightarrow> nat \<Rightarrow> node_budget \<Rightarrow> (defined_formula_codec_error, dnode \<times> cursor \<times> node_budget) outcome" where
  "d_decode_node cursor depth binder_depth nodes =
     and_then (d_check_depth depth) (\<lambda>_. and_then (d_budget_charge nodes) (\<lambda>nodes.
       and_then (ok_or DUnexpectedEnd (cursor_read_u8 cursor)) (\<lambda>(tag, cursor).
         if tag = EQUAL then map_ok (\<lambda>(a, cursor). (a, cursor, nodes)) (d_decode_pair DEqual cursor binder_depth)
         else if tag = MEMBER then map_ok (\<lambda>(a, cursor). (a, cursor, nodes)) (d_decode_pair DMember cursor binder_depth)
         else if tag = NOT_TAG then
           map_ok (\<lambda>(a, rest). (DNot a, rest)) (d_decode_node cursor (depth + 1) binder_depth nodes)
         else if tag = IMPLIES then
           and_then (d_decode_node cursor (depth + 1) binder_depth nodes) (\<lambda>(a, cursor, nodes).
             map_ok (\<lambda>(b, rest). (DImplies a b, rest)) (d_decode_node cursor (depth + 1) binder_depth nodes))
         else if tag = FOR_ALL then
           map_ok (\<lambda>(a, rest). (DForAll a, rest)) (d_decode_node cursor (depth + 1) (binder_depth + 1) nodes)
         else if tag = DEFINED_RELATION then
           map_ok (\<lambda>(a, cursor). (a, cursor, nodes)) (decode_relation cursor binder_depth)
         else Err (DUnknownFormulaTag tag))))"
  by pat_completeness auto
termination
  by (relation "measure (\<lambda>(c, d, b, n). 256 - d)") auto

declare d_decode_node.simps [simp del]

definition d_decode_canonical_with_node_limit ::
  "bytes \<Rightarrow> nat \<Rightarrow> (defined_formula_codec_error, dnode \<times> nat) outcome" where
  "d_decode_canonical_with_node_limit bs maximum_nodes =
     (if FORMULA_MAX_BYTES < length bs then Err (DInputTooLong (length bs) FORMULA_MAX_BYTES)
      else and_then (d_decode_node (cursor_new bs) 0 0 (node_budget_new maximum_nodes)) (\<lambda>(node, cursor, nodes).
        if cursor_remaining cursor \<noteq> 0 then Err (DTrailingBytes (cursor_remaining cursor))
        else Ok (node, budget_used nodes)))"

definition d_decode_canonical :: "bytes \<Rightarrow> (defined_formula_codec_error, dnode) outcome" where
  "d_decode_canonical bs = map_ok fst (d_decode_canonical_with_node_limit bs FORMULA_MAX_NODES)"

section \<open>Primitive formulas\<close>

definition from_primitive :: "node \<Rightarrow> (defined_formula_codec_error, dnode) outcome" where
  "from_primitive formula = and_then (map_err DPrimitive (encode_canonical formula)) d_decode_canonical"

definition into_primitive :: "dnode \<Rightarrow> (defined_formula_codec_error, node) outcome" where
  "into_primitive formula =
     and_then (d_encode formula Preserve False) (\<lambda>(bs, nodes). map_err DPrimitive (decode_canonical bs))"

section \<open>The wire image\<close>

primrec d_wire :: "dnode \<Rightarrow> bytes" where
  "d_wire (DEqual l r) = EQUAL # wire_variable l @ wire_variable r"
| "d_wire (DMember l r) = MEMBER # wire_variable l @ wire_variable r"
| "d_wire (DNot a) = NOT_TAG # d_wire a"
| "d_wire (DImplies a b) = IMPLIES # d_wire a @ d_wire b"
| "d_wire (DForAll a) = FOR_ALL # d_wire a"
| "d_wire (DRelation i vs) =
     DEFINED_RELATION # i @ u32_to_be_bytes (of_nat (length vs)) @ concat (map wire_variable vs)"

primrec d_node_count :: "dnode \<Rightarrow> nat" where
  "d_node_count (DEqual l r) = 1"
| "d_node_count (DMember l r) = 1"
| "d_node_count (DRelation i vs) = 1"
| "d_node_count (DNot a) = d_node_count a + 1"
| "d_node_count (DForAll a) = d_node_count a + 1"
| "d_node_count (DImplies a b) = d_node_count a + d_node_count b + 1"

primrec d_node_depth :: "dnode \<Rightarrow> nat" where
  "d_node_depth (DEqual l r) = 1"
| "d_node_depth (DMember l r) = 1"
| "d_node_depth (DRelation i vs) = 1"
| "d_node_depth (DNot a) = d_node_depth a + 1"
| "d_node_depth (DForAll a) = d_node_depth a + 1"
| "d_node_depth (DImplies a b) = max (d_node_depth a) (d_node_depth b) + 1"

text \<open>
  The invariant of the private constructor: no dangling index, and every identity has the width of
  a \<open>[u8; 32]\<close>.
\<close>

primrec d_closed_at :: "nat \<Rightarrow> dnode \<Rightarrow> bool" where
  "d_closed_at n (DEqual l r) = (var_below n l \<and> var_below n r)"
| "d_closed_at n (DMember l r) = (var_below n l \<and> var_below n r)"
| "d_closed_at n (DRelation i vs) = (length i = 32 \<and> (\<forall>v\<in>set vs. var_below n v))"
| "d_closed_at n (DNot a) = d_closed_at n a"
| "d_closed_at n (DForAll a) = d_closed_at (Suc n) a"
| "d_closed_at n (DImplies a b) = (d_closed_at n a \<and> d_closed_at n b)"

definition d_well_formed :: "dnode \<Rightarrow> bool" where
  "d_well_formed a \<longleftrightarrow> d_closed_at 0 a"

definition d_admitted :: "nat \<Rightarrow> nat \<Rightarrow> node_budget \<Rightarrow> dnode \<Rightarrow> bool" where
  "d_admitted d m nodes a \<longleftrightarrow> d + d_node_depth a \<le> m \<and> budget_used nodes + d_node_count a \<le> budget_maximum nodes"

definition d_spend :: "dnode \<Rightarrow> node_budget \<Rightarrow> node_budget" where
  "d_spend a nodes = nodes\<lparr>budget_used := budget_used nodes + d_node_count a\<rparr>"

lemma d_node_count_pos [simp]: "0 < d_node_count a" and d_node_depth_pos [simp]: "0 < d_node_depth a"
  by (cases a; simp)+

lemma length_concat_wire_variable [simp]: "length (concat (map wire_variable vs)) = 5 * length vs"
  by (induction vs) simp_all

lemma d_budget_charge_Ok [simp]:
  "d_budget_charge nodes = Ok nodes' \<longleftrightarrow>
     budget_used nodes \<noteq> budget_maximum nodes \<and> nodes' = nodes\<lparr>budget_used := budget_used nodes + 1\<rparr>"
  by (auto simp: d_budget_charge_def)

lemma d_checks_not_Panic [simp]:
  "d_check_depth_limit d m \<noteq> Panic" "d_budget_charge nodes \<noteq> Panic" "d_check_length res \<noteq> Panic" "d_check_depth d \<noteq> Panic"
  by (simp_all add: d_check_depth_limit_def d_budget_charge_def d_check_length_def Let_def d_check_depth_def)

lemma d_check_length_Ok [simp]:
  "d_check_length res = Ok res' \<longleftrightarrow> length (snd (snd res)) \<le> FORMULA_MAX_BYTES \<and> res' = res"
  by (auto simp: d_check_length_def Let_def)

lemma encode_arguments_Preserve [simp]:
  "encode_arguments vs (Preserve, out) = Some (Preserve, out @ concat (map wire_variable vs))"
  by (induction vs arbitrary: out) simp_all

section \<open>The encoder\<close>

definition d_encodable :: "nat \<Rightarrow> nat \<Rightarrow> node_budget \<Rightarrow> bytes \<Rightarrow> bool \<Rightarrow> dnode \<Rightarrow> bool" where
  "d_encodable d m nodes out allow a \<longleftrightarrow>
     d_admitted d m nodes a \<and> (allow \<or> \<not> contains_definition a) \<and> length out + length (d_wire a) \<le> FORMULA_MAX_BYTES"

lemma arguments_fit: "5 * length vs \<le> FORMULA_MAX_BYTES \<Longrightarrow> u32_try_from (length vs) = Some (of_nat (length vs))"
  by (simp add: u32_try_from_Some FORMULA_MAX_BYTES_def)

lemma d_encode_node_Ok:
  "budget_used nodes \<le> budget_maximum nodes \<Longrightarrow>
     d_encode_node a d nodes (Preserve, out) allow m = Ok res \<longleftrightarrow>
       d_encodable d m nodes out allow a \<and> res = (d_spend a nodes, Preserve, out @ d_wire a)"
proof (induction a arbitrary: d nodes out res allow)
  case (DImplies a b)
  show ?case
  proof (cases "d_encodable (d + 1) m (nodes\<lparr>budget_used := budget_used nodes + 1\<rparr>) (out @ [IMPLIES]) allow a")
    case True
    with DImplies.prems show ?thesis
      by (auto simp: DImplies.IH d_encodable_def d_admitted_def d_spend_def)
  next
    case False
    with DImplies.prems show ?thesis
      by (auto simp: DImplies.IH d_encodable_def d_admitted_def d_spend_def)
  qed
next
  case (DRelation i vs)
  then show ?case
    by (auto simp: d_encodable_def d_admitted_def d_spend_def u32_try_from_Some arguments_fit)
      (auto simp: FORMULA_MAX_BYTES_def)
qed (auto simp: d_encodable_def d_admitted_def d_spend_def)

lemma d_encode_node_keeps_Preserve:
  "d_encode_node a d nodes (Preserve, out) allow m = Ok (nodes', variables, out') \<Longrightarrow> variables = Preserve"
  by (induction a arbitrary: d nodes out nodes' variables out') (auto split: if_splits, blast)

lemma d_encode_node_not_Panic: "d_encode_node a d nodes (Preserve, out) allow m \<noteq> Panic"
proof (induction a arbitrary: d nodes out)
  case (DImplies a b)
  then show ?case by (auto dest!: d_encode_node_keeps_Preserve)
qed auto

section \<open>The decoder\<close>

lemma d_decode_variable_eq: "d_decode_variable c n = Ok res \<longleftrightarrow> decode_variable c n = Ok res"
  by (auto simp: d_decode_variable_def decode_variable_def split: if_splits)

lemma d_decode_variable_not_Panic [simp]: "d_decode_variable c n \<noteq> Panic"
  by (auto simp: d_decode_variable_def split: if_splits)

lemma decode_arguments_Ok:
  "decode_arguments k c n = Ok (vs, c') \<Longrightarrow> cursor_ok c \<Longrightarrow>
     length vs = k \<and> consumes c (concat (map wire_variable vs)) c' \<and> (\<forall>v\<in>set vs. var_below n v)"
proof (induction k arbitrary: c vs)
  case (Suc k)
  then obtain v d ws where *: "decode_variable c n = Ok (v, d)" "decode_arguments k d n = Ok (ws, c')" "vs = v # ws"
    by (auto simp: d_decode_variable_eq)
  note v = decode_variable_Ok [OF *(1)]
  from Suc.IH [OF *(2) consumes_ok [OF v(1)]] v *(3) show ?case
    by (auto intro: consumes_trans)
qed (auto intro: consumes_refl)

lemma decode_arguments_wire:
  "cursor_rest c = concat (map wire_variable vs) @ rest \<Longrightarrow> cursor_ok c \<Longrightarrow> \<forall>v\<in>set vs. var_below n v \<Longrightarrow>
     decode_arguments (length vs) c n = Ok (vs, advance (5 * length vs) c)"
proof (induction vs arbitrary: c)
  case (Cons v vs)
  then have "decode_variable c n = Ok (v, advance 5 c)"
    by (intro decode_variable_wire) auto
  moreover have "decode_arguments (length vs) (advance 5 c) n = Ok (vs, advance (5 * length vs) (advance 5 c))"
    using Cons.prems by (intro Cons.IH) auto
  ultimately show ?case by (simp flip: d_decode_variable_eq)
qed simp

lemma d_decode_pair_Ok:
  assumes "d_decode_pair build c n = Ok (a, c')"
  obtains l r where "a = build l r" "consumes c (wire_variable l @ wire_variable r) c'" "var_below n l" "var_below n r"
proof -
  from assms obtain l d r where "decode_variable c n = Ok (l, d)" "decode_variable d n = Ok (r, c')" "a = build l r"
    by (auto simp: d_decode_pair_def d_decode_variable_eq)
  with that show thesis by (blast dest: decode_variable_Ok intro: consumes_trans)
qed

lemma d_decode_pair_wire:
  "cursor_rest c = wire_variable l @ wire_variable r @ rest \<Longrightarrow> cursor_ok c \<Longrightarrow> var_below n l \<Longrightarrow> var_below n r \<Longrightarrow>
     d_decode_pair build c n = Ok (build l r, advance 10 c)"
  using decode_variable_wire [of c l "wire_variable r @ rest" n] decode_variable_wire [of "advance 5 c" r rest n]
  by (simp add: d_decode_pair_def flip: d_decode_variable_eq)

lemma decode_relation_Ok:
  assumes "decode_relation c n = Ok (a, c')"
  obtains i vs where "a = DRelation i vs" "length i = 32" "\<forall>v\<in>set vs. var_below n v"
    "consumes c (i @ u32_to_be_bytes (of_nat (length vs)) @ concat (map wire_variable vs)) c'"
proof -
  from assms obtain i d w e vs where *: "cursor_take 32 c = Some (i, d)" "cursor_read_u32 d = Some (w, e)"
    "decode_arguments (unat w) e n = Ok (vs, c')" "a = DRelation i vs"
    by (auto simp: decode_relation_def DEFINITION_ID_BYTE_LENGTH_def split: if_splits)
  note i = cursor_take_Some [OF *(1)] and w = cursor_read_u32_Some [OF *(2)]
  note vs = decode_arguments_Ok [OF *(3) consumes_ok [OF w]]
  have "w = of_nat (length vs)" using vs by auto
  moreover have "consumes c (i @ u32_to_be_bytes w @ concat (map wire_variable vs)) c'"
    using consumes_trans [OF i(1) consumes_trans [OF w]] vs by blast
  ultimately show thesis using that [OF *(4) i(2)] vs by blast
qed

lemma decode_relation_wire:
  assumes "cursor_rest c = i @ u32_to_be_bytes (of_nat (length vs)) @ concat (map wire_variable vs) @ rest"
    "cursor_ok c" "length i = 32" "\<forall>v\<in>set vs. var_below n v" "length vs < 2 ^ 32"
  shows "decode_relation c n = Ok (DRelation i vs, advance (36 + 5 * length vs) c)"
proof -
  have 1: "cursor_take 32 c = Some (i, advance 32 c)"
    using assms by (intro cursor_take_rest) auto
  have 2: "cursor_read_u32 (advance 32 c) = Some (of_nat (length vs), advance 36 c)"
    using assms cursor_read_u32_rest [of "advance 32 c" "of_nat (length vs)" "concat (map wire_variable vs) @ rest"] by simp
  have 3: "decode_arguments (length vs) (advance 36 c) n = Ok (vs, advance (36 + 5 * length vs) c)"
    using assms decode_arguments_wire [of "advance 36 c" vs rest n] by simp
  have "cursor_remaining (advance 36 c) = 5 * length vs + length rest"
    using assms by (simp add: cursor_remaining_rest)
  with 1 2 3 assms(5) show ?thesis
    by (simp add: decode_relation_def DEFINITION_ID_BYTE_LENGTH_def unat_u32_of_nat)
qed

lemma d_decode_node_cases:
  assumes "d_decode_node c d n nodes = Ok (a, c', nodes')"
  obtains (pair) l r t x where "cursor_read_u8 c = Some (t, x)" "a = DEqual l r \<and> t = EQUAL \<or> a = DMember l r \<and> t = MEMBER"
      "consumes x (wire_variable l @ wire_variable r) c'" "var_below n l" "var_below n r"
      "nodes' = nodes\<lparr>budget_used := budget_used nodes + 1\<rparr>"
  | (neg) b x where "cursor_read_u8 c = Some (NOT_TAG, x)" "a = DNot b"
      "d_decode_node x (d + 1) n (nodes\<lparr>budget_used := budget_used nodes + 1\<rparr>) = Ok (b, c', nodes')"
  | (imp) b1 b2 x y m where "cursor_read_u8 c = Some (IMPLIES, x)" "a = DImplies b1 b2"
      "d_decode_node x (d + 1) n (nodes\<lparr>budget_used := budget_used nodes + 1\<rparr>) = Ok (b1, y, m)"
      "d_decode_node y (d + 1) n m = Ok (b2, c', nodes')"
  | (all) b x where "cursor_read_u8 c = Some (FOR_ALL, x)" "a = DForAll b"
      "d_decode_node x (d + 1) (n + 1) (nodes\<lparr>budget_used := budget_used nodes + 1\<rparr>) = Ok (b, c', nodes')"
  | (relation) i vs x where "cursor_read_u8 c = Some (DEFINED_RELATION, x)" "a = DRelation i vs" "length i = 32"
      "\<forall>v\<in>set vs. var_below n v" "nodes' = nodes\<lparr>budget_used := budget_used nodes + 1\<rparr>"
      "consumes x (i @ u32_to_be_bytes (of_nat (length vs)) @ concat (map wire_variable vs)) c'"
  using assms unfolding d_decode_node.simps [of c]
  by (auto split: if_splits elim!: d_decode_pair_Ok decode_relation_Ok)

lemma d_decode_node_Ok_checks:
  "d_decode_node c d n nodes = Ok res \<Longrightarrow> d < 256 \<and> budget_used nodes \<noteq> budget_maximum nodes"
  unfolding d_decode_node.simps [of c] by simp

lemma d_decode_node_Ok:
  "d_decode_node c d n nodes = Ok (a, c', nodes') \<Longrightarrow> budget_used nodes \<le> budget_maximum nodes \<Longrightarrow>
     consumes c (d_wire a) c' \<and> d_closed_at n a \<and> d_admitted d 256 nodes a \<and> nodes' = d_spend a nodes"
proof (induction a arbitrary: c d n nodes c' nodes')
  case (DNot a)
  from d_decode_node_Ok_checks [OF DNot.prems(1)] DNot.prems(2) show ?case
    by (cases rule: d_decode_node_cases [OF DNot.prems(1)])
      (auto simp: d_admitted_def d_spend_def dest!: cursor_read_u8_Some DNot.IH intro: consumes_Cons)
next
  case (DForAll a)
  from d_decode_node_Ok_checks [OF DForAll.prems(1)] DForAll.prems(2) show ?case
    by (cases rule: d_decode_node_cases [OF DForAll.prems(1)])
      (auto simp: d_admitted_def d_spend_def dest!: cursor_read_u8_Some DForAll.IH intro: consumes_Cons)
next
  case (DImplies a b)
  from d_decode_node_Ok_checks [OF DImplies.prems(1)] DImplies.prems(2) show ?case
    by (cases rule: d_decode_node_cases [OF DImplies.prems(1)])
      (auto simp: d_admitted_def d_spend_def dest!: cursor_read_u8_Some DImplies.IH intro: consumes_Cons consumes_trans)
next
  case (DEqual l r)
  from d_decode_node_Ok_checks [OF DEqual.prems(1)] DEqual.prems(2) show ?case
    by (cases rule: d_decode_node_cases [OF DEqual.prems(1)])
      (auto simp: d_admitted_def d_spend_def dest!: cursor_read_u8_Some intro: consumes_Cons)
next
  case (DMember l r)
  from d_decode_node_Ok_checks [OF DMember.prems(1)] DMember.prems(2) show ?case
    by (cases rule: d_decode_node_cases [OF DMember.prems(1)])
      (auto simp: d_admitted_def d_spend_def dest!: cursor_read_u8_Some intro: consumes_Cons)
next
  case (DRelation i vs)
  from d_decode_node_Ok_checks [OF DRelation.prems(1)] DRelation.prems(2) show ?case
    by (cases rule: d_decode_node_cases [OF DRelation.prems(1)])
      (auto simp: d_admitted_def d_spend_def dest!: cursor_read_u8_Some intro: consumes_Cons)
qed

lemma d_decode_node_wire:
  "cursor_rest c = d_wire a @ rest \<Longrightarrow> cursor_ok c \<Longrightarrow> d_closed_at n a \<Longrightarrow> d_admitted d 256 nodes a \<Longrightarrow>
     length (d_wire a) \<le> FORMULA_MAX_BYTES \<Longrightarrow>
     d_decode_node c d n nodes = Ok (a, advance (length (d_wire a)) c, d_spend a nodes)"
proof (induction a arbitrary: c d n nodes rest)
  case (DImplies a b)
  let ?nodes = "nodes\<lparr>budget_used := Suc (budget_used nodes)\<rparr>"
  have "d_decode_node (advance 1 c) (d + 1) n ?nodes = Ok (a, advance (Suc (length (d_wire a))) c, d_spend a ?nodes)"
    using DImplies.IH(1) [of "advance 1 c" "d_wire b @ rest" n "d + 1" ?nodes] DImplies.prems
    by (simp add: d_admitted_def nat_add_max_right)
  moreover have "d_decode_node (advance (Suc (length (d_wire a))) c) (d + 1) n (d_spend a ?nodes) =
      Ok (b, advance (length (d_wire (DImplies a b))) c, d_spend (DImplies a b) nodes)"
    using DImplies.IH(2) [of "advance (Suc (length (d_wire a))) c" rest n "d + 1" "d_spend a ?nodes"] DImplies.prems
    by (simp add: d_admitted_def d_spend_def nat_add_max_right)
  ultimately show ?case
    using DImplies.prems by (simp add: d_decode_node.simps [of c] codec_simps d_admitted_def)
next
  case (DRelation i vs)
  have "decode_relation (advance 1 c) n = Ok (DRelation i vs, advance (Suc (36 + 5 * length vs)) c)"
    using DRelation.prems decode_relation_wire [of "advance 1 c" i vs rest n]
    by (simp add: FORMULA_MAX_BYTES_def)
  with DRelation.prems show ?case
    by (simp add: d_decode_node.simps [of c] codec_simps d_admitted_def d_spend_def)
next
  case (DEqual l r)
  then show ?case
    by (simp add: d_decode_node.simps [of c] codec_simps d_admitted_def d_spend_def d_decode_pair_wire)
next
  case (DMember l r)
  then show ?case
    by (simp add: d_decode_node.simps [of c] codec_simps d_admitted_def d_spend_def d_decode_pair_wire)
next
  case (DNot a)
  then show ?case
    by (simp add: d_decode_node.simps [of c] codec_simps d_admitted_def d_spend_def)
next
  case (DForAll a)
  then show ?case
    by (simp add: d_decode_node.simps [of c] codec_simps d_admitted_def d_spend_def)
qed

lemma decode_arguments_not_Panic [simp]: "decode_arguments k c n \<noteq> Panic"
  by (induction k arbitrary: c) auto

lemma d_decode_node_not_Panic: "d_decode_node c d n nodes \<noteq> Panic"
proof (induction "256 - d" arbitrary: c d n nodes rule: less_induct)
  case less
  then have "d_decode_node x (Suc d) m y \<noteq> Panic" if "d < 256" for x m y using that by simp
  then show ?case
    unfolding d_decode_node.simps [of c]
    by (auto simp: d_decode_pair_def decode_relation_def split: if_splits)
qed

section \<open>The canonical format\<close>

definition d_wire_admitted :: "nat \<Rightarrow> nat \<Rightarrow> dnode \<Rightarrow> bool" where
  "d_wire_admitted limit depth a \<longleftrightarrow> d_node_depth a \<le> min depth 256 \<and>
     d_node_count a \<le> min limit FORMULA_MAX_NODES \<and> length (d_wire a) \<le> FORMULA_MAX_BYTES"

lemma d_encode_with_limits_Ok:
  "d_encode_with_limits a Preserve allow limit depth = Ok (bs, used) \<longleftrightarrow>
     d_wire_admitted limit depth a \<and> (allow \<or> \<not> contains_definition a) \<and> bs = d_wire a \<and> used = d_node_count a"
  by (auto simp: d_encode_with_limits_def d_encode_node_Ok d_encodable_def d_admitted_def d_wire_admitted_def
      d_spend_def node_budget_new_def FORMULA_MAX_DEPTH_def)

lemma d_encode_canonical_with_node_limit_Ok:
  "d_encode_canonical_with_node_limit a limit = Ok (bs, used) \<longleftrightarrow>
     d_wire_admitted limit 256 a \<and> bs = d_wire a \<and> used = d_node_count a"
  by (simp add: d_encode_canonical_with_node_limit_def d_encode_with_limit_def d_encode_with_limits_Ok FORMULA_MAX_DEPTH_def)

lemma d_encode_canonical_Ok:
  "d_encode_canonical a = Ok bs \<longleftrightarrow> d_wire_admitted FORMULA_MAX_NODES 256 a \<and> bs = d_wire a"
  by (auto simp: d_encode_canonical_def d_encode_def d_encode_with_limit_def d_encode_with_limits_Ok FORMULA_MAX_DEPTH_def)

lemma d_encode_canonical_not_Panic [simp]:
  "d_encode_canonical_with_node_limit a limit \<noteq> Panic" "d_encode_canonical a \<noteq> Panic"
  "d_encode_canonical_with_limits a limit depth \<noteq> Panic"
  by (simp_all add: d_encode_canonical_def d_encode_canonical_with_node_limit_def d_encode_def
      d_encode_canonical_with_limits_def d_encode_with_limit_def d_encode_with_limits_def d_encode_node_not_Panic)

lemma d_decode_canonical_with_node_limit_Ok:
  "d_decode_canonical_with_node_limit bs limit = Ok (a, used) \<longleftrightarrow>
     d_well_formed a \<and> d_wire_admitted limit 256 a \<and> bs = d_wire a \<and> used = d_node_count a"
proof
  assume "d_decode_canonical_with_node_limit bs limit = Ok (a, used)"
  then obtain c nodes where *: "d_decode_node (cursor_new bs) 0 0 (node_budget_new limit) = Ok (a, c, nodes)"
    "cursor_remaining c = 0" "used = budget_used nodes" "length bs \<le> FORMULA_MAX_BYTES"
    by (auto simp: d_decode_canonical_with_node_limit_def split: if_splits)
  have d: "consumes (cursor_new bs) (d_wire a) c" "d_closed_at 0 a" "d_admitted 0 256 (node_budget_new limit) a"
    "nodes = d_spend a (node_budget_new limit)"
    using d_decode_node_Ok [OF *(1)] by (simp_all add: node_budget_new_def [of limit])
  with *(2-4) consumes_rest [OF d(1)] show
    "d_well_formed a \<and> d_wire_admitted limit 256 a \<and> bs = d_wire a \<and> used = d_node_count a"
    by (simp add: d_well_formed_def d_spend_def node_budget_new_def cursor_remaining_rest d_wire_admitted_def d_admitted_def)
next
  assume a: "d_well_formed a \<and> d_wire_admitted limit 256 a \<and> bs = d_wire a \<and> used = d_node_count a"
  then have "d_decode_node (cursor_new bs) 0 0 (node_budget_new limit) =
      Ok (a, advance (length (d_wire a)) (cursor_new bs), d_spend a (node_budget_new limit))"
    by (intro d_decode_node_wire [where rest = "[]"])
      (simp_all add: d_well_formed_def d_wire_admitted_def d_admitted_def node_budget_new_def)
  with a show "d_decode_canonical_with_node_limit bs limit = Ok (a, used)"
    by (simp add: d_decode_canonical_with_node_limit_def d_wire_admitted_def cursor_remaining_rest
        d_spend_def node_budget_new_def)
qed

lemma d_decode_canonical_Ok:
  "d_decode_canonical bs = Ok a \<longleftrightarrow> d_well_formed a \<and> d_wire_admitted FORMULA_MAX_NODES 256 a \<and> bs = d_wire a"
  by (auto simp: d_decode_canonical_def d_decode_canonical_with_node_limit_Ok)

lemma d_decode_canonical_not_Panic [simp]:
  "d_decode_canonical_with_node_limit bs limit \<noteq> Panic" "d_decode_canonical bs \<noteq> Panic"
  by (auto simp: d_decode_canonical_def d_decode_canonical_with_node_limit_def d_decode_node_not_Panic split: if_splits)

section \<open>Primitive formulas lift_node\<close>

primrec lift_node :: "node \<Rightarrow> dnode" where
  "lift_node (FEqual l r) = DEqual l r"
| "lift_node (FMember l r) = DMember l r"
| "lift_node (FNot a) = DNot (lift_node a)"
| "lift_node (FImplies a b) = DImplies (lift_node a) (lift_node b)"
| "lift_node (FForAll a) = DForAll (lift_node a)"

lemma embed_facts [simp]:
  "d_wire (lift_node a) = wire a" "d_node_count (lift_node a) = node_count a" "d_node_depth (lift_node a) = node_depth a"
  "d_closed_at n (lift_node a) = closed_at n a" "\<not> contains_definition (lift_node a)"
  by (induction a arbitrary: n) simp_all

lemma embed_inject [simp]: "lift_node a = lift_node b \<longleftrightarrow> a = b"
proof (induction a arbitrary: b)
qed (case_tac b; simp)+

lemma contains_definition_embed: "\<not> contains_definition d \<longleftrightarrow> (\<exists>a. d = lift_node a)"
proof
  show "\<not> contains_definition d \<Longrightarrow> \<exists>a. d = lift_node a"
    by (induction d) (auto intro: lift_node.simps [symmetric])
qed auto

lemma d_wire_admitted_embed [simp]: "d_wire_admitted FORMULA_MAX_NODES 256 (lift_node a) = wire_admitted FORMULA_MAX_NODES a"
  using length_wire_limit [of a] by (auto simp: d_wire_admitted_def wire_admitted_def)

lemma d_wire_embed_append: "d_wire d @ xs = wire a @ ys \<longleftrightarrow> d = lift_node a \<and> xs = ys"
proof (induction a arbitrary: d xs ys)
qed (case_tac d; auto simp: wire_variable_append)+

lemma from_primitive_Ok:
  "from_primitive a = Ok d \<longleftrightarrow> d = lift_node a \<and> well_formed a \<and> wire_admitted FORMULA_MAX_NODES a"
proof
  assume "from_primitive a = Ok d"
  then have d: "d_decode_canonical (wire a) = Ok d" and adm: "wire_admitted FORMULA_MAX_NODES a"
    by (auto simp: from_primitive_def encode_canonical_Ok)
  then have wf: "d_closed_at 0 d" "d_wire_admitted FORMULA_MAX_NODES 256 d" "d_wire d = wire a"
    by (simp_all add: d_decode_canonical_Ok d_well_formed_def)
  have "d = lift_node a"
    using d_wire_embed_append [of d "[]" a "[]"] wf by simp
  with wf adm show "d = lift_node a \<and> well_formed a \<and> wire_admitted FORMULA_MAX_NODES a"
    by (simp add: well_formed_def)
qed (simp add: from_primitive_def encode_canonical_Ok d_decode_canonical_Ok d_well_formed_def well_formed_def)

lemma into_primitive_Ok:
  "into_primitive d = Ok a \<longleftrightarrow> d = lift_node a \<and> well_formed a \<and> wire_admitted FORMULA_MAX_NODES a"
proof
  assume "into_primitive d = Ok a"
  then have *: "d_wire_admitted FORMULA_MAX_NODES 256 d" "\<not> contains_definition d" "decode_canonical (d_wire d) = Ok a"
    by (auto simp: into_primitive_def d_encode_def d_encode_with_limit_def d_encode_with_limits_Ok FORMULA_MAX_DEPTH_def)
  then obtain b where b: "d = lift_node b" using contains_definition_embed by blast
  with *(3) show "d = lift_node a \<and> well_formed a \<and> wire_admitted FORMULA_MAX_NODES a"
    by (auto simp: decode_canonical_Ok)
next
  assume a: "d = lift_node a \<and> well_formed a \<and> wire_admitted FORMULA_MAX_NODES a"
  then have "d_encode d Preserve False = Ok (wire a, node_count a)"
    by (simp add: d_encode_def d_encode_with_limit_def d_encode_with_limits_Ok FORMULA_MAX_DEPTH_def)
  with a show "into_primitive d = Ok a"
    by (simp add: into_primitive_def decode_canonical_Ok)
qed

lemma into_primitive_not_Panic [simp]: "into_primitive d \<noteq> Panic"
  by (auto simp: into_primitive_def d_encode_def d_encode_with_limit_def d_encode_with_limits_def d_encode_node_not_Panic)

end
