(* ===== verification/Defined_Expansion.thy ===== *)
theory Defined_Expansion
  imports Defined_Codec
begin

text \<open>
  Bounded elimination of definitions, \<open>expand_node\<close> and its callers in
  \<open>naome-proof/src/defined_formula.rs\<close>, and what it preserves. The stack \<open>definitions\<close> of the source is
  popped on every return, so it is an argument here. A resolver is any function with the type of
  the trait method.
\<close>

datatype definition_access_error = Storage string | Corrupt | Limit

datatype definition_expansion_error =
    Access definition_access_error
  | UnknownDefinition definition_id
  | ArityMismatch definition_id nat nat
  | CyclicDefinition definition_id
  | UndeclaredFormalVariable u32
  | ExpansionNodeLimitExceeded nat
  | ExpansionDepthLimitExceeded nat
  | ExpansionFormula defined_formula_codec_error

record definition_resolution =
  relation_arity :: u32
  resolution_body :: dnode

type_synonym definition_resolver =
  "definition_id \<Rightarrow> (definition_access_error, definition_resolution option) outcome"

definition instantiate_variable ::
  "variable \<Rightarrow> variable list option \<Rightarrow> u32 \<Rightarrow> (definition_expansion_error, variable) outcome" where
  "instantiate_variable variable substitution depth =
     (case substitution of
        None \<Rightarrow> Ok variable
      | Some arguments \<Rightarrow>
          (case variable of
             Bound _ \<Rightarrow> Ok variable
           | Free parameter \<Rightarrow>
               if unat parameter < length arguments then
                 (case arguments ! unat parameter of
                    Bound index \<Rightarrow>
                      map_ok Bound (ok_or (ExpansionDepthLimitExceeded FORMULA_MAX_DEPTH) (checked_add index depth))
                  | Free v \<Rightarrow> Ok (Free v))
               else Err (UndeclaredFormalVariable parameter)))"

primrec instantiate_arguments ::
  "variable list \<Rightarrow> variable list option \<Rightarrow> u32 \<Rightarrow> (definition_expansion_error, variable list) outcome" where
  "instantiate_arguments [] substitution depth = Ok []"
| "instantiate_arguments (v # vs) substitution depth =
     and_then (instantiate_variable v substitution depth) (\<lambda>w.
       map_ok (Cons w) (instantiate_arguments vs substitution depth))"

definition expansion_charge :: "node_budget \<Rightarrow> (definition_expansion_error, node_budget) outcome" where
  "expansion_charge budget =
     (if budget_used budget = budget_maximum budget then Err (ExpansionNodeLimitExceeded (budget_maximum budget))
      else Ok (budget\<lparr>budget_used := budget_used budget + 1\<rparr>))"

definition instantiate_pair ::
  "(variable \<Rightarrow> variable \<Rightarrow> dnode) \<Rightarrow> variable \<Rightarrow> variable \<Rightarrow> variable list option \<Rightarrow> u32 \<Rightarrow> (definition_expansion_error, dnode) outcome" where
  "instantiate_pair build l r substitution depth =
     and_then (instantiate_variable l substitution depth) (\<lambda>l.
       map_ok (build l) (instantiate_variable r substitution depth))"

definition check_formula_depth :: "nat \<Rightarrow> (definition_expansion_error, unit) outcome" where
  "check_formula_depth formula_depth =
     (if FORMULA_MAX_DEPTH \<le> formula_depth then Err (ExpansionDepthLimitExceeded FORMULA_MAX_DEPTH) else Ok ())"

definition selected_definition ::
  "definition_resolver \<Rightarrow> definition_id \<Rightarrow> variable list \<Rightarrow> nat \<Rightarrow> definition_id list \<Rightarrow>
     (definition_expansion_error, definition_resolution) outcome" where
  "selected_definition resolver definition_id arguments formula_depth definitions =
     and_then (map_err Access (resolver definition_id)) (\<lambda>found.
     and_then (ok_or (UnknownDefinition definition_id) found) (\<lambda>definition.
       if length arguments \<noteq> unat (relation_arity definition)
       then Err (ArityMismatch definition_id (unat (relation_arity definition)) (length arguments))
       else if definition_id \<in> set definitions then Err (CyclicDefinition definition_id)
       else if FORMULA_MAX_DEPTH - formula_depth \<le> length definitions
       then Err (ExpansionDepthLimitExceeded FORMULA_MAX_DEPTH)
       else Ok definition))"

lemma selected_definition_Ok:
  "selected_definition resolver i vs fd ds = Ok res \<longleftrightarrow>
     resolver i = Ok (Some res) \<and> length vs = unat (relation_arity res) \<and> i \<notin> set ds \<and> length ds < 256 - fd"
  by (auto simp: selected_definition_def FORMULA_MAX_DEPTH_def split: if_splits)

function (sequential) expand_node ::
  "dnode \<Rightarrow> definition_resolver \<Rightarrow> variable list option \<Rightarrow> u32 \<Rightarrow> nat \<Rightarrow> definition_id list \<Rightarrow> node_budget \<Rightarrow>
     (definition_expansion_error, dnode \<times> node_budget) outcome" where
  "expand_node (DEqual l r) resolver substitution substitution_depth formula_depth definitions budget =
     and_then (expansion_charge budget) (\<lambda>budget. and_then (check_formula_depth formula_depth) (\<lambda>_.
       map_ok (\<lambda>a. (a, budget)) (instantiate_pair DEqual l r substitution substitution_depth)))"
| "expand_node (DMember l r) resolver substitution substitution_depth formula_depth definitions budget =
     and_then (expansion_charge budget) (\<lambda>budget. and_then (check_formula_depth formula_depth) (\<lambda>_.
       map_ok (\<lambda>a. (a, budget)) (instantiate_pair DMember l r substitution substitution_depth)))"
| "expand_node (DNot formula) resolver substitution substitution_depth formula_depth definitions budget =
     and_then (expansion_charge budget) (\<lambda>budget. and_then (check_formula_depth formula_depth) (\<lambda>_.
       map_ok (\<lambda>(a, budget). (DNot a, budget))
         (expand_node formula resolver substitution substitution_depth (formula_depth + 1) definitions budget)))"
| "expand_node (DImplies antecedent consequent) resolver substitution substitution_depth formula_depth definitions budget =
     and_then (expansion_charge budget) (\<lambda>budget. and_then (check_formula_depth formula_depth) (\<lambda>_.
       and_then (expand_node antecedent resolver substitution substitution_depth (formula_depth + 1) definitions budget)
         (\<lambda>(a, budget).
       map_ok (\<lambda>(b, budget). (DImplies a b, budget))
         (expand_node consequent resolver substitution substitution_depth (formula_depth + 1) definitions budget))))"
| "expand_node (DForAll body) resolver substitution substitution_depth formula_depth definitions budget =
     and_then (expansion_charge budget) (\<lambda>budget. and_then (check_formula_depth formula_depth) (\<lambda>_.
       map_ok (\<lambda>(a, budget). (DForAll a, budget))
         (expand_node body resolver substitution
           (substitution_depth + (if substitution = None then 0 else 1)) (formula_depth + 1) definitions budget)))"
| "expand_node (DRelation definition_id arguments) resolver substitution substitution_depth formula_depth definitions budget =
     and_then (expansion_charge budget) (\<lambda>budget. and_then (check_formula_depth formula_depth) (\<lambda>_.
       and_then (selected_definition resolver definition_id arguments formula_depth definitions) (\<lambda>definition.
       and_then (instantiate_arguments arguments substitution substitution_depth) (\<lambda>arguments.
         expand_node (resolution_body definition) resolver (Some arguments) 0 formula_depth
           (definitions @ [definition_id]) budget))))"
  by pat_completeness auto
termination
  by (relation "measures [\<lambda>(d, _, _, _, _, ds, _). 256 - length ds, \<lambda>(d, _). size d]")
    (auto simp: selected_definition_Ok)

definition expand_with_node_limit ::
  "dnode \<Rightarrow> definition_resolver \<Rightarrow> nat \<Rightarrow> (definition_expansion_error, node \<times> nat) outcome" where
  "expand_with_node_limit formula resolver maximum_nodes =
     and_then (expand_node formula resolver None 0 0 [] (node_budget_new maximum_nodes)) (\<lambda>(expanded, budget).
       map_ok (\<lambda>a. (a, budget_used budget)) (map_err ExpansionFormula (into_primitive expanded)))"

definition expand_with :: "dnode \<Rightarrow> definition_resolver \<Rightarrow> (definition_expansion_error, node) outcome" where
  "expand_with formula resolver = map_ok fst (expand_with_node_limit formula resolver FORMULA_MAX_NODES)"

section \<open>The meaning of definition-aware formulas\<close>

type_synonym 'd interpretation_of_definitions = "definition_id \<Rightarrow> 'd list \<Rightarrow> bool"

primrec d_sem :: "'d universe \<Rightarrow> 'd interpretation_of_definitions \<Rightarrow> 'd assignment \<Rightarrow> 'd list \<Rightarrow> dnode \<Rightarrow> bool" where
  "d_sem E I r bs (DEqual l s) = (value_of r bs l = value_of r bs s)"
| "d_sem E I r bs (DMember l s) = E (value_of r bs l) (value_of r bs s)"
| "d_sem E I r bs (DRelation i vs) = I i (map (value_of r bs) vs)"
| "d_sem E I r bs (DNot a) = (\<not> d_sem E I r bs a)"
| "d_sem E I r bs (DForAll a) = (\<forall>d. d_sem E I r (d # bs) a)"
| "d_sem E I r bs (DImplies a b) = (d_sem E I r bs a \<longrightarrow> d_sem E I r bs b)"

text \<open>The formal parameters of a definition are its free variables numbered from zero.\<close>

definition formals :: "'d list \<Rightarrow> 'd assignment" where
  "formals xs = (\<lambda>v. xs ! unat v)"

text \<open>
  An interpretation agrees with a resolver when each selected relation holds exactly of the argument
  lists that satisfy its body.
\<close>

definition interprets :: "'d universe \<Rightarrow> 'd interpretation_of_definitions \<Rightarrow> definition_resolver \<Rightarrow> bool" where
  "interprets E I resolver \<longleftrightarrow>
     (\<forall>i res. resolver i = Ok (Some res) \<longrightarrow> d_well_formed (resolution_body res) \<and>
        (\<forall>xs. length xs = unat (relation_arity res) \<longrightarrow>
           (I i xs \<longleftrightarrow> d_sem E I (formals xs) [] (resolution_body res))))"

lemma d_sem_lift_node [simp]: "d_sem E I r bs (lift_node a) = sem E r bs a"
  by (induction a arbitrary: bs) simp_all

section \<open>Elimination preserves meaning\<close>

definition agrees ::
  "variable list option \<Rightarrow> u32 \<Rightarrow> 'd assignment \<Rightarrow> 'd list \<Rightarrow> 'd assignment \<Rightarrow> 'd list \<Rightarrow> bool" where
  "agrees substitution depth r stack q ds \<longleftrightarrow>
     (case substitution of
        None \<Rightarrow> q = r \<and> stack = ds
      | Some vs \<Rightarrow> unat depth = length ds \<and>
          (\<exists>bs. stack = ds @ bs \<and> (\<forall>v. unat v < length vs \<longrightarrow> q v = value_of r bs (vs ! unat v))))"

lemma expansion_charge_Ok [simp]:
  "expansion_charge b = Ok b' \<longleftrightarrow> budget_used b \<noteq> budget_maximum b \<and> b' = b\<lparr>budget_used := budget_used b + 1\<rparr>"
  by (auto simp: expansion_charge_def)

lemma check_formula_depth_Ok [simp]: "check_formula_depth d = Ok u \<longleftrightarrow> d < 256"
  by (simp add: check_formula_depth_def FORMULA_MAX_DEPTH_def not_le)

lemma agrees_value:
  assumes "instantiate_variable v substitution depth = Ok w" "agrees substitution depth r stack q ds" "var_below (length ds) v"
  shows "value_of r stack w = value_of q ds v"
proof (cases substitution)
  case None
  with assms show ?thesis by (simp add: instantiate_variable_def agrees_def)
next
  case (Some vs)
  with assms(2) obtain bs where bs: "stack = ds @ bs" "unat depth = length ds"
    "\<And>v. unat v < length vs \<Longrightarrow> q v = value_of r bs (vs ! unat v)" by (auto simp: agrees_def)
  show ?thesis
  proof (cases v)
    case (Bound i)
    with Some assms bs show ?thesis by (auto simp: instantiate_variable_def nth_append)
  next
    case (Free p)
    with Some assms(1) bs show ?thesis
      by (cases "vs ! unat p")
        (auto simp: instantiate_variable_def nth_append split: if_splits dest!: checked_add_unat,
          metis value_of.simps(2))
  qed
qed

lemma agrees_push:
  assumes "agrees substitution depth r stack q ds" "unat depth + 1 < 2 ^ 32"
  shows "agrees substitution (depth + (if substitution = None then 0 else 1)) r (x # stack) q (x # ds)"
  using assms checked_add_one [of depth] by (auto simp: agrees_def split: option.splits)

lemma agrees_call:
  assumes "length vs = n"
  shows "agrees (Some vs) 0 r stack (formals (map (value_of r stack) vs)) []"
  using assms by (auto simp: agrees_def formals_def)

lemma instantiate_arguments_Ok:
  "instantiate_arguments vs s d = Ok ws \<longleftrightarrow> list_all2 (\<lambda>v w. instantiate_variable v s d = Ok w) vs ws"
  by (induction vs arbitrary: ws) (auto simp: list_all2_Cons1)

lemma agrees_values:
  assumes "instantiate_arguments vs s d = Ok ws" "agrees s d r stack q ds" "\<forall>v\<in>set vs. var_below (length ds) v"
  shows "map (value_of r stack) ws = map (value_of q ds) vs"
  using assms
proof (induction vs arbitrary: ws)
  case (Cons v vs)
  then show ?case by (auto intro: agrees_value)
qed simp

lemma expand_node_sem:
  "expand_node d resolver substitution depth fd definitions budget = Ok (d', budget') \<Longrightarrow>
    interprets E I resolver \<Longrightarrow> agrees substitution depth r stack q ds \<Longrightarrow> d_closed_at (length ds) d \<Longrightarrow>
    unat depth \<le> fd \<Longrightarrow> d_sem E I r stack d' = d_sem E I q ds d"
proof (induction d resolver substitution depth fd definitions budget arbitrary: d' budget' stack q ds
    rule: expand_node.induct)
  case (1 l s resolver substitution depth fd definitions budget)
  then show ?case by (auto simp: instantiate_pair_def agrees_value)
next
  case (2 l s resolver substitution depth fd definitions budget)
  then show ?case by (auto simp: instantiate_pair_def agrees_value)
next
  case (3 a resolver substitution depth fd definitions budget)
  then show ?case by (fastforce simp: le_SucI)
next
  case (4 a b resolver substitution depth fd definitions budget)
  then obtain x y z where "expand_node a resolver substitution depth (fd + 1) definitions
      (budget\<lparr>budget_used := budget_used budget + 1\<rparr>) = Ok (x, y)"
    "expand_node b resolver substitution depth (fd + 1) definitions y = Ok (z, budget')" "d' = DImplies x z"
    by auto
  with 4 show ?case by simp
next
  case (5 a resolver substitution depth fd definitions budget)
  let ?depth = "depth + (if substitution = None then 0 else 1)"
  from 5 obtain x where x: "expand_node a resolver substitution ?depth (fd + 1) definitions
      (budget\<lparr>budget_used := budget_used budget + 1\<rparr>) = Ok (x, budget')" "d' = DForAll x" "fd < 256"
    "budget_used budget \<noteq> budget_maximum budget" by auto
  have "unat ?depth \<le> fd + 1" "unat depth + 1 < 2 ^ 32"
    using checked_add_one [of depth] 5(6) x(3) by auto
  then have "d_sem E I r (e # stack) x = d_sem E I q (e # ds) a" for e
    using 5 x agrees_push [OF 5(4)] by simp
  with x(2) show ?case by simp
next
  case (6 i vs resolver substitution depth fd definitions budget)
  then obtain res ws where res: "resolver i = Ok (Some res)" "length vs = unat (relation_arity res)"
    "fd < 256" "budget_used budget \<noteq> budget_maximum budget"
    "selected_definition resolver i vs fd definitions = Ok res"
    and ws: "instantiate_arguments vs substitution depth = Ok ws"
    and body: "expand_node (resolution_body res) resolver (Some ws) 0 fd (definitions @ [i])
      (budget\<lparr>budget_used := budget_used budget + 1\<rparr>) = Ok (d', budget')"
    by (auto simp: selected_definition_Ok)
  have I: "d_closed_at 0 (resolution_body res)" "\<And>xs. length xs = length vs \<Longrightarrow>
      I i xs = d_sem E I (formals xs) [] (resolution_body res)"
    using 6(3) res(1,2) by (auto simp: interprets_def d_well_formed_def)
  have "length ws = length vs" using ws by (auto simp: instantiate_arguments_Ok list_all2_lengthD)
  moreover have "map (value_of r stack) ws = map (value_of q ds) vs"
    by (rule agrees_values [OF ws 6(4)]) (use 6(5) in simp)
  moreover have "d_sem E I r stack d' = d_sem E I (formals (map (value_of r stack) ws)) [] (resolution_body res)"
    using 6(1) [OF _ _ _ _ body 6(3) agrees_call] res ws I(1) by simp
  ultimately show ?case using I(2) by simp
qed

section \<open>Elimination is total and bounded\<close>

lemma expansion_not_Panic [simp]:
  "expansion_charge b \<noteq> Panic" "check_formula_depth fd \<noteq> Panic" "instantiate_variable v s d \<noteq> Panic"
  "instantiate_pair build l r s d \<noteq> Panic" "instantiate_arguments vs s d \<noteq> Panic"
proof -
  show v: "instantiate_variable v s d \<noteq> Panic" for v
    by (auto simp: instantiate_variable_def split: option.splits variable.splits if_splits)
  then show "instantiate_pair build l r s d \<noteq> Panic" by (auto simp: instantiate_pair_def)
  show "instantiate_arguments vs s d \<noteq> Panic" using v by (induction vs) auto
qed (simp_all add: expansion_charge_def check_formula_depth_def)

lemma selected_definition_not_Panic:
  "resolver i \<noteq> Panic \<Longrightarrow> selected_definition resolver i vs fd ds \<noteq> Panic"
  by (auto simp: selected_definition_def)

lemma expand_node_not_Panic:
  "\<forall>i. resolver i \<noteq> Panic \<Longrightarrow> expand_node d resolver s depth fd ds budget \<noteq> Panic"
  by (induction d resolver s depth fd ds budget rule: expand_node.induct)
    (auto simp: selected_definition_not_Panic)

lemma expand_node_budget:
  "expand_node d resolver s depth fd ds budget = Ok (d', budget') \<Longrightarrow> budget_used budget \<le> budget_maximum budget \<Longrightarrow>
     budget_maximum budget' = budget_maximum budget \<and> budget_used budget' \<le> budget_maximum budget \<and>
     budget_used budget + d_node_count d' \<le> budget_used budget'"
proof (induction d resolver s depth fd ds budget arbitrary: d' budget' rule: expand_node.induct)
  case (3 a resolver substitution depth fd definitions budget)
  then show ?case by fastforce
next
  case (4 a b resolver substitution depth fd definitions budget)
  from 4(3) obtain x y z where *: "expand_node a resolver substitution depth (fd + 1) definitions
      (budget\<lparr>budget_used := budget_used budget + 1\<rparr>) = Ok (x, y)" "budget_used budget \<noteq> budget_maximum budget" "fd < 256"
    "expand_node b resolver substitution depth (fd + 1) definitions y = Ok (z, budget')" "d' = DImplies x z"
    by auto
  have y: "budget_maximum y = budget_maximum budget \<and> budget_used y \<le> budget_maximum budget \<and>
      budget_used budget + 1 + d_node_count x \<le> budget_used y"
    using 4(1) [OF _ _ *(1)] *(2,3) 4(4) by simp
  then show ?case using 4(2) [OF _ _ *(1) refl *(4)] *(2,3,5) by simp
next
  case (5 a resolver substitution depth fd definitions budget)
  then show ?case by fastforce
next
  case (6 i vs resolver substitution depth fd definitions budget)
  then show ?case by fastforce
qed (auto simp: instantiate_pair_def)

section \<open>What elimination promises\<close>

lemma expand_with_node_limit_Ok:
  assumes "expand_with_node_limit d resolver limit = Ok (a, used)"
  shows "well_formed a" "wire_admitted FORMULA_MAX_NODES a" "used \<le> min limit FORMULA_MAX_NODES" "node_count a \<le> used"
    "d_well_formed d \<Longrightarrow> interprets E I resolver \<Longrightarrow> sem E r [] a = d_sem E I r [] d"
proof -
  from assms obtain d' b where d': "expand_node d resolver None 0 0 [] (node_budget_new limit) = Ok (d', b)"
    "into_primitive d' = Ok a" "used = budget_used b"
    by (auto simp: expand_with_node_limit_def)
  then have a: "d' = lift_node a" "well_formed a" "wire_admitted FORMULA_MAX_NODES a"
    by (simp_all add: into_primitive_Ok)
  then show "well_formed a" "wire_admitted FORMULA_MAX_NODES a" by simp_all
  from expand_node_budget [OF d'(1)] show "used \<le> min limit FORMULA_MAX_NODES" "node_count a \<le> used"
    by (simp_all add: d'(3) a(1) node_budget_new_def [of limit])
  show "sem E r [] a = d_sem E I r [] d" if "d_well_formed d" "interprets E I resolver"
  proof -
    have "agrees None 0 r [] r []" by (simp add: agrees_def)
    from expand_node_sem [OF d'(1) that(2) this] that(1) a(1) show ?thesis
      by (simp add: d_well_formed_def)
  qed
qed

lemma expand_with_Ok:
  assumes "expand_with d resolver = Ok a"
  shows "well_formed a" "wire_admitted FORMULA_MAX_NODES a"
    "d_well_formed d \<Longrightarrow> interprets E I resolver \<Longrightarrow> sem E r [] a = d_sem E I r [] d"
proof -
  from assms obtain used where "expand_with_node_limit d resolver FORMULA_MAX_NODES = Ok (a, used)"
    by (auto simp: expand_with_def)
  from expand_with_node_limit_Ok(1,2,5) [OF this]
  show "well_formed a" "wire_admitted FORMULA_MAX_NODES a"
    "d_well_formed d \<Longrightarrow> interprets E I resolver \<Longrightarrow> sem E r [] a = d_sem E I r [] d" by simp_all
qed

lemma expand_with_node_limit_not_Panic:
  "\<forall>i. resolver i \<noteq> Panic \<Longrightarrow> expand_with_node_limit d resolver limit \<noteq> Panic"
  by (auto simp: expand_with_node_limit_def expand_node_not_Panic)

text \<open>C29. Eliminating definitions keeps the meaning: whenever the expansion succeeds, the primitive formula
  holds in a structure exactly when the definition-aware formula holds there, with every selected
  relation read as its body; the result is well formed and within the codec limits.\<close>

theorem expansion_preserves_meaning:
  assumes "expand_with d resolver = Ok a" "d_well_formed d" "interprets (E :: 'd universe) I resolver"
  shows "well_formed a \<and> (\<forall>r. sem E r [] a \<longleftrightarrow> d_sem E I r [] d)"
  using expand_with_Ok(1) [OF assms(1)] expand_with_Ok(3) [OF assms] by blast

text \<open>Expansion work is bounded: the reported work never exceeds the caller's limit or the codec's node
  limit, it counts at least the nodes of the result, and the expansion ends without a panic for any
  resolver that does not itself panic, cyclic ones included.\<close>

theorem expansion_work_is_bounded:
  assumes "\<forall>i. resolver i \<noteq> Panic"
  shows "expand_with_node_limit d resolver limit \<noteq> Panic \<and>
    (\<forall>a used. expand_with_node_limit d resolver limit = Ok (a, used) \<longrightarrow>
       used \<le> limit \<and> used \<le> FORMULA_MAX_NODES \<and> node_count a \<le> used)"
  using expand_with_node_limit_not_Panic [OF assms] expand_with_node_limit_Ok(3,4) by fastforce

text \<open>A resolver that knows one definition, inclusion.\<close>

definition inclusion_id :: definition_id where
  "inclusion_id = replicate 32 7"

definition inclusion_resolver :: definition_resolver where
  "inclusion_resolver i =
     (if i = inclusion_id
      then Ok (Some \<lparr>relation_arity = 2,
             resolution_body = DForAll (DImplies (DMember (Bound 0) (Free 0)) (DMember (Bound 0) (Free 1)))\<rparr>)
      else Ok None)"

lemma inclusion_interpreted:
  "interprets E (\<lambda>i xs. \<forall>z. E z (xs ! 0) \<longrightarrow> E z (xs ! 1)) inclusion_resolver"
  by (auto simp: interprets_def inclusion_resolver_def d_well_formed_def formals_def split: if_splits)

lemma inclusion_expands:
  "expand_with (DForAll (DRelation inclusion_id [Free 3, Bound 0])) inclusion_resolver =
     Ok (FForAll (FForAll (FImplies (FMember (Bound 0) (Free 3)) (FMember (Bound 0) (Bound 1)))))"
proof -
  let ?a = "FForAll (FForAll (FImplies (FMember (Bound 0) (Free 3)) (FMember (Bound 0) (Bound 1))))"
  have "into_primitive (lift_node ?a) = Ok ?a"
    by (simp only: into_primitive_Ok) (simp add: well_formed_def wire_admitted_def FORMULA_MAX_NODES_def)
  moreover have "expand_node (DForAll (DRelation inclusion_id [Free 3, Bound 0])) inclusion_resolver None 0 0 []
      (node_budget_new FORMULA_MAX_NODES) =
      Ok (lift_node ?a, \<lparr>budget_used = 6, budget_maximum = FORMULA_MAX_NODES\<rparr>)"
    by (simp add: node_budget_new_def selected_definition_def inclusion_resolver_def instantiate_variable_def
        instantiate_pair_def expansion_charge_def check_formula_depth_def FORMULA_MAX_NODES_def
        FORMULA_MAX_DEPTH_def checked_add_def)
  ultimately show ?thesis
    unfolding expand_with_def expand_with_node_limit_def by (simp only: and_then.simps prod.case map_err.simps map_ok.simps fst_conv)
qed

theorem expansion_preserves_meaning_witness:
  "sem (\<lambda>x y :: nat. x < y) (\<lambda>_. 0) []
     (FForAll (FForAll (FImplies (FMember (Bound 0) (Free 3)) (FMember (Bound 0) (Bound 1)))))
   \<longleftrightarrow> d_sem (\<lambda>x y :: nat. x < y) (\<lambda>i xs. \<forall>z. z < xs ! 0 \<longrightarrow> z < xs ! 1) (\<lambda>_. 0) []
         (DForAll (DRelation inclusion_id [Free 3, Bound 0]))"
proof -
  have "d_well_formed (DForAll (DRelation inclusion_id [Free 3, Bound 0]))"
    by (simp add: d_well_formed_def inclusion_id_def)
  from expansion_preserves_meaning [OF inclusion_expands this inclusion_interpreted] show ?thesis by blast
qed

theorem expansion_work_is_bounded_witness:
  "expand_with_node_limit (DRelation inclusion_id [Free 0, Free 1]) inclusion_resolver 3 \<noteq> Panic"
  using expansion_work_is_bounded [of inclusion_resolver] by (simp add: inclusion_resolver_def)

end
