(* ===== verification/Proof_Formula.thy ===== *)
theory Proof_Formula
  imports Defined_Expansion
begin

text \<open>
  The formula field of a proof certificate, \<open>naome-proof/src/proof_formula.rs\<close>: a primitive formula
  kept as it is, or a definition-aware one. The invariant \<open>pf_ok\<close> says that the second case always
  contains a definition, so that equal bytes have one representation.
\<close>

datatype proof_formula = Primitive node | Defined dnode

datatype proof_formula_codec_error =
    PrimitiveCodec formula_codec_error
  | DefinedCodec defined_formula_codec_error

primrec as_primitive :: "proof_formula \<Rightarrow> node option" where
  "as_primitive (Primitive formula) = Some formula"
| "as_primitive (Defined formula) = None"

primrec as_defined :: "proof_formula \<Rightarrow> dnode option" where
  "as_defined (Primitive formula) = None"
| "as_defined (Defined formula) = Some formula"

definition from_defined :: "dnode \<Rightarrow> (defined_formula_codec_error, proof_formula) outcome" where
  "from_defined formula =
     (if contains_definition formula then Ok (Defined formula)
      else map_ok Primitive (into_primitive formula))"

primrec pf_map_free_variables :: "(free_variable \<Rightarrow> free_variable) \<Rightarrow> proof_formula \<Rightarrow> proof_formula" where
  "pf_map_free_variables f (Primitive formula) = Primitive (map_free_variables f formula)"
| "pf_map_free_variables f (Defined formula) = Defined (d_map_free_variables f formula)"

primrec pf_free_variables :: "proof_formula \<Rightarrow> free_variable list" where
  "pf_free_variables (Primitive formula) = free_variables formula"
| "pf_free_variables (Defined formula) = d_free_variables formula"

primrec pf_definition_references :: "proof_formula \<Rightarrow> definition_id list" where
  "pf_definition_references (Primitive formula) = []"
| "pf_definition_references (Defined formula) = definition_references formula"

primrec pf_expand_with ::
  "proof_formula \<Rightarrow> definition_resolver \<Rightarrow> (definition_expansion_error, node) outcome" where
  "pf_expand_with (Primitive formula) resolver = Ok formula"
| "pf_expand_with (Defined formula) resolver = expand_with formula resolver"

primrec pf_expand_with_node_limit ::
  "proof_formula \<Rightarrow> definition_resolver \<Rightarrow> nat \<Rightarrow> (definition_expansion_error, node \<times> nat) outcome" where
  "pf_expand_with_node_limit (Primitive formula) resolver maximum_nodes = Ok (formula, 0)"
| "pf_expand_with_node_limit (Defined formula) resolver maximum_nodes =
     expand_with_node_limit formula resolver maximum_nodes"

primrec pf_encode_canonical_with_node_limit ::
  "proof_formula \<Rightarrow> nat \<Rightarrow> (proof_formula_codec_error, bytes \<times> nat) outcome" where
  "pf_encode_canonical_with_node_limit (Primitive formula) maximum_nodes =
     map_err PrimitiveCodec (encode_canonical_with_node_limit formula maximum_nodes)"
| "pf_encode_canonical_with_node_limit (Defined formula) maximum_nodes =
     map_err DefinedCodec (d_encode_canonical_with_node_limit formula maximum_nodes)"

definition pf_decode_canonical_with_node_limit ::
  "bytes \<Rightarrow> nat \<Rightarrow> (proof_formula_codec_error, proof_formula \<times> nat) outcome" where
  "pf_decode_canonical_with_node_limit bs maximum_nodes =
     (case decode_canonical_with_node_limit bs maximum_nodes of
        Ok (formula, nodes) \<Rightarrow> Ok (Primitive formula, nodes)
      | Err source \<Rightarrow>
          if source = UnknownFormulaTag 5 then
            map_err DefinedCodec (map_ok (\<lambda>(formula, nodes). (Defined formula, nodes))
              (d_decode_canonical_with_node_limit bs maximum_nodes))
          else Err (PrimitiveCodec source)
      | Panic \<Rightarrow> Panic)"

section \<open>The representation invariant\<close>

primrec pf_ok :: "proof_formula \<Rightarrow> bool" where
  "pf_ok (Primitive a) = well_formed a"
| "pf_ok (Defined d) = (d_well_formed d \<and> contains_definition d)"

primrec pf_wire :: "proof_formula \<Rightarrow> bytes" where
  "pf_wire (Primitive a) = wire a"
| "pf_wire (Defined d) = d_wire d"

primrec pf_node_count :: "proof_formula \<Rightarrow> nat" where
  "pf_node_count (Primitive a) = node_count a"
| "pf_node_count (Defined d) = d_node_count d"

primrec pf_admitted :: "nat \<Rightarrow> proof_formula \<Rightarrow> bool" where
  "pf_admitted limit (Primitive a) = wire_admitted limit a"
| "pf_admitted limit (Defined d) = d_wire_admitted limit 256 d"

lemma pf_encode_Ok:
  "pf_encode_canonical_with_node_limit f limit = Ok (bs, used) \<longleftrightarrow>
     pf_admitted limit f \<and> bs = pf_wire f \<and> used = pf_node_count f"
  by (cases f) (simp_all add: encode_canonical_with_node_limit_Ok d_encode_canonical_with_node_limit_Ok)

lemma pf_encode_not_Panic [simp]: "pf_encode_canonical_with_node_limit f limit \<noteq> Panic"
  by (cases f) simp_all

lemma pf_decode_not_Panic [simp]: "pf_decode_canonical_with_node_limit bs limit \<noteq> Panic"
  by (auto simp: pf_decode_canonical_with_node_limit_def split: outcome.splits prod.splits)

text \<open>The primitive decoder stops at the first definition and reports its tag.\<close>

lemma decode_node_at_definition:
  "cursor_rest c = d_wire d @ rest \<Longrightarrow> cursor_ok c \<Longrightarrow> d_closed_at n d \<Longrightarrow> d_admitted depth 256 nodes d \<Longrightarrow>
     contains_definition d \<Longrightarrow> decode_node c depth n nodes = Err (UnknownFormulaTag 5)"
proof (induction d arbitrary: c depth n nodes rest)
  case (DImplies a b)
  let ?nodes = "nodes\<lparr>budget_used := Suc (budget_used nodes)\<rparr>"
  have step: "decode_node c depth n nodes = and_then (decode_node (advance 1 c) (depth + 1) n ?nodes) (\<lambda>(a, cursor, nodes).
      map_ok (\<lambda>(b, rest). (FImplies a b, rest)) (decode_node cursor (depth + 1) n nodes))"
    using DImplies.prems by (simp add: decode_node.simps [of c] codec_simps d_admitted_def check_depth_def budget_charge_def FORMULA_MAX_DEPTH_def)
  show ?case
  proof (cases "contains_definition a")
    case True
    then have "decode_node (advance 1 c) (depth + 1) n ?nodes = Err (UnknownFormulaTag 5)"
      using DImplies.IH(1) [of "advance 1 c" "d_wire b @ rest" n "depth + 1" ?nodes] DImplies.prems
      by (simp add: d_admitted_def nat_add_max_right)
    with step show ?thesis by simp
  next
    case False
    then obtain a' where a': "a = lift_node a'" using contains_definition_embed by blast
    have "decode_node (advance 1 c) (depth + 1) n ?nodes = Ok (a', advance (Suc (wire_width a')) c, spend a' ?nodes)"
      using decode_node_wire [of "advance 1 c" a' "d_wire b @ rest" n "depth + 1" ?nodes] DImplies.prems a'
      by (simp add: d_admitted_def admitted_def nat_add_max_right)
    moreover have "decode_node (advance (Suc (wire_width a')) c) (depth + 1) n (spend a' ?nodes) = Err (UnknownFormulaTag 5)"
      using DImplies.IH(2) [of "advance (Suc (wire_width a')) c" rest n "depth + 1" "spend a' ?nodes"] DImplies.prems a' False
      by (simp add: d_admitted_def spend_def nat_add_max_right length_wire [symmetric])
    ultimately show ?thesis using step by simp
  qed
next
  case (DNot a)
  then show ?case
    by (simp add: decode_node.simps [of c] codec_simps d_admitted_def check_depth_def budget_charge_def FORMULA_MAX_DEPTH_def)
next
  case (DForAll a)
  then show ?case
    by (simp add: decode_node.simps [of c] codec_simps d_admitted_def check_depth_def budget_charge_def FORMULA_MAX_DEPTH_def)
next
  case (DRelation i vs)
  then show ?case
    by (simp add: decode_node.simps [of c] codec_simps d_admitted_def check_depth_def budget_charge_def FORMULA_MAX_DEPTH_def)
qed simp_all

lemma pf_wire_of_lift: "d_wire d = wire a \<longleftrightarrow> d = lift_node a"
  using d_wire_embed_append [of d "[]" a "[]"] by simp

lemma pf_decode_Ok:
  "pf_decode_canonical_with_node_limit bs limit = Ok (f, used) \<longleftrightarrow>
     pf_ok f \<and> pf_admitted limit f \<and> bs = pf_wire f \<and> used = pf_node_count f"
proof
  assume run: "pf_decode_canonical_with_node_limit bs limit = Ok (f, used)"
  show "pf_ok f \<and> pf_admitted limit f \<and> bs = pf_wire f \<and> used = pf_node_count f"
  proof (cases "decode_canonical_with_node_limit bs limit")
    case (Ok x)
    with run show ?thesis
      by (cases x) (auto simp: pf_decode_canonical_with_node_limit_def decode_canonical_with_node_limit_Ok)
  next
    case (Err e)
    with run obtain d where d: "f = Defined d" "d_decode_canonical_with_node_limit bs limit = Ok (d, used)"
      by (auto simp: pf_decode_canonical_with_node_limit_def split: if_splits)
    then have *: "d_well_formed d" "d_wire_admitted limit 256 d" "bs = d_wire d" "used = d_node_count d"
      by (simp_all add: d_decode_canonical_with_node_limit_Ok)
    have "contains_definition d"
    proof (rule ccontr)
      assume "\<not> contains_definition d"
      then obtain a where "d = lift_node a" using contains_definition_embed by blast
      with * have "decode_canonical_with_node_limit bs limit = Ok (a, used)"
        by (simp add: decode_canonical_with_node_limit_Ok d_well_formed_def well_formed_def d_wire_admitted_def wire_admitted_def)
      with Err show False by simp
    qed
    with d * show ?thesis by simp
  qed (use run in \<open>simp add: pf_decode_canonical_with_node_limit_def\<close>)
next
  assume f: "pf_ok f \<and> pf_admitted limit f \<and> bs = pf_wire f \<and> used = pf_node_count f"
  show "pf_decode_canonical_with_node_limit bs limit = Ok (f, used)"
  proof (cases f)
    case (Primitive a)
    with f have "decode_canonical_with_node_limit bs limit = Ok (a, used)"
      by (simp add: decode_canonical_with_node_limit_Ok)
    with Primitive show ?thesis by (simp add: pf_decode_canonical_with_node_limit_def)
  next
    case (Defined d)
    with f have *: "d_closed_at 0 d" "contains_definition d" "d_wire_admitted limit 256 d" "bs = d_wire d"
      "d_decode_canonical_with_node_limit bs limit = Ok (d, used)"
      by (simp_all add: d_decode_canonical_with_node_limit_Ok d_well_formed_def)
    have "decode_node (cursor_new bs) 0 0 (node_budget_new limit) = Err (UnknownFormulaTag 5)"
      using * by (intro decode_node_at_definition [where rest = "[]"])
        (simp_all add: d_wire_admitted_def d_admitted_def node_budget_new_def)
    then have "decode_canonical_with_node_limit bs limit = Err (UnknownFormulaTag 5)"
      using * by (simp add: decode_canonical_with_node_limit_def d_wire_admitted_def)
    with * Defined show ?thesis by (simp add: pf_decode_canonical_with_node_limit_def)
  qed
qed

lemma pf_admitted_mono: "pf_admitted m f \<Longrightarrow> m \<le> n \<Longrightarrow> pf_admitted n f"
  by (cases f) (auto simp: wire_admitted_def d_wire_admitted_def)

lemma pf_admitted_count: "pf_admitted limit f \<longleftrightarrow> pf_admitted FORMULA_MAX_NODES f \<and> pf_node_count f \<le> limit"
  by (cases f) (auto simp: wire_admitted_def d_wire_admitted_def)

lemma pf_wire_length: "pf_admitted n f \<Longrightarrow> length (pf_wire f) \<le> FORMULA_MAX_BYTES"
  by (cases f) (auto simp: d_wire_admitted_def wire_admitted_def length_wire_limit)

lemma from_defined_ok: "from_defined d = Ok f \<Longrightarrow> d_well_formed d \<Longrightarrow> pf_ok f"
  by (auto simp: from_defined_def into_primitive_Ok split: if_splits)

section \<open>Meaning\<close>

primrec pf_sem :: "'d universe \<Rightarrow> 'd interpretation_of_definitions \<Rightarrow> 'd assignment \<Rightarrow> proof_formula \<Rightarrow> bool" where
  "pf_sem E I r (Primitive a) = sem E r [] a"
| "pf_sem E I r (Defined d) = d_sem E I r [] d"

lemma pf_expand_with_node_limit_Ok:
  assumes "pf_expand_with_node_limit f resolver limit = Ok (a, work)" "pf_ok f"
  shows "well_formed a" "work \<le> limit" "interprets E I resolver \<Longrightarrow> sem E r [] a = pf_sem E I r f"
proof -
  show "well_formed a" "work \<le> limit"
    using assms expand_with_node_limit_Ok(1,3) by (cases f; fastforce)+
  show "sem E r [] a = pf_sem E I r f" if "interprets E I resolver"
    using assms that expand_with_node_limit_Ok(5) by (cases f) fastforce+
qed

lemma pf_expand_with_node_limit_not_Panic:
  "\<forall>i. resolver i \<noteq> Panic \<Longrightarrow> pf_expand_with_node_limit f resolver limit \<noteq> Panic"
  by (cases f) (simp_all add: expand_with_node_limit_not_Panic)

text \<open>C28. A formula field has one representation and one encoding: bytes decode to a field exactly when the
  field satisfies the representation invariant and encodes to those bytes with the same node count.\<close>

theorem proof_formula_round_trip:
  "pf_decode_canonical_with_node_limit bs limit = Ok (f, nodes) \<longleftrightarrow>
     pf_ok f \<and> pf_encode_canonical_with_node_limit f limit = Ok (bs, nodes)"
  by (auto simp: pf_decode_Ok pf_encode_Ok)

end
