(* ===== verification/Proof_Certificate.thy ===== *)
theory Proof_Certificate
  imports Proof_Formula Zfc
begin

text \<open>
  Proof steps and certificates, \<open>naome-proof/src/lib.rs\<close>: the step language, the structural checks of
  \<open>ProofCertificate::new\<close> and what a certificate refers to. A \<open>ProofId\<close> is its 32 digest bytes. Byte
  caches and provenance used only for diagnostics are left out.
\<close>

type_synonym proof_id = bytes

definition PROOF_ID_BYTE_LENGTH :: nat where "PROOF_ID_BYTE_LENGTH = 32"

definition CERTIFICATE_MAX_BYTES :: nat where "CERTIFICATE_MAX_BYTES = 4194304"
definition CERTIFICATE_MAX_STEPS :: nat where "CERTIFICATE_MAX_STEPS = 65536"
definition CERTIFICATE_MAX_FORMULA_NODES :: nat where "CERTIFICATE_MAX_FORMULA_NODES = FORMULA_MAX_NODES"

record proof_separation =
  ps_predicate :: proof_formula
  ps_element :: free_variable
  ps_source :: free_variable
  ps_result :: free_variable
  ps_parameters :: "free_variable list"

record proof_replacement =
  pr_predicate :: proof_formula
  pr_input :: free_variable
  pr_output :: free_variable
  pr_uniqueness_witness :: free_variable
  pr_source :: free_variable
  pr_result :: free_variable
  pr_parameters :: "free_variable list"

datatype proof_step =
    SimplificationStep proof_formula proof_formula
  | FregeStep proof_formula proof_formula proof_formula
  | ContrapositionStep proof_formula proof_formula
  | DistributionStep free_variable proof_formula proof_formula
  | VacuousStep proof_formula
  | InstantiationStep free_variable free_variable proof_formula
  | ReflexivityStep free_variable
  | SubstitutionStep free_variable free_variable proof_formula
  | ZfcAxiomStep zfc_axiom
  | SeparationStep proof_separation
  | ReplacementStep proof_replacement
  | ProofReference proof_id
  | ModusPonensStep u32 u32
  | GeneralizationStep u32 free_variable

record proof_certificate =
  cert_steps :: "proof_step list"

datatype proof_certificate_error =
    EmptyCertificate
  | TooManySteps nat nat
  | CertificateTooLong nat nat
  | ReferenceNotEarlier u32 u32
  | CertificateUnexpectedEnd
  | UnknownStepTag u8
  | UnknownZfcAxiomTag u8
  | FormulaNodeLimitExceeded nat
  | CertificateFormula formula_codec_error
  | CertificateDefinedFormula defined_formula_codec_error
  | CertificateTrailingBytes nat

primrec canonical_tag :: "proof_step \<Rightarrow> u8" where
  "canonical_tag (SimplificationStep a b) = 0x00"
| "canonical_tag (FregeStep a b c) = 0x01"
| "canonical_tag (ContrapositionStep a b) = 0x02"
| "canonical_tag (DistributionStep v a b) = 0x03"
| "canonical_tag (VacuousStep a) = 0x04"
| "canonical_tag (InstantiationStep v w a) = 0x05"
| "canonical_tag (ReflexivityStep v) = 0x06"
| "canonical_tag (SubstitutionStep v w a) = 0x07"
| "canonical_tag (ZfcAxiomStep ax) = 0x10"
| "canonical_tag (SeparationStep s) = 0x11"
| "canonical_tag (ReplacementStep s) = 0x12"
| "canonical_tag (ModusPonensStep p i) = 0x20"
| "canonical_tag (GeneralizationStep p v) = 0x21"
| "canonical_tag (ProofReference i) = 0x30"

text \<open>The array of two optional references, flattened as its only callers flatten it.\<close>

fun local_references :: "proof_step \<Rightarrow> u32 list" where
  "local_references (ModusPonensStep premise implication) = [premise, implication]"
| "local_references (GeneralizationStep premise variable) = [premise]"
| "local_references _ = []"

primrec step_formulas :: "proof_step \<Rightarrow> proof_formula list" where
  "step_formulas (SimplificationStep a b) = [a, b]"
| "step_formulas (FregeStep a b c) = [a, b, c]"
| "step_formulas (ContrapositionStep a b) = [a, b]"
| "step_formulas (DistributionStep v a b) = [a, b]"
| "step_formulas (VacuousStep a) = [a]"
| "step_formulas (InstantiationStep v w a) = [a]"
| "step_formulas (ReflexivityStep v) = []"
| "step_formulas (SubstitutionStep v w a) = [a]"
| "step_formulas (ZfcAxiomStep ax) = []"
| "step_formulas (SeparationStep s) = [ps_predicate s]"
| "step_formulas (ReplacementStep s) = [pr_predicate s]"
| "step_formulas (ProofReference i) = []"
| "step_formulas (ModusPonensStep p i) = []"
| "step_formulas (GeneralizationStep p v) = []"

definition step_definition_references :: "proof_step \<Rightarrow> definition_id list" where
  "step_definition_references step = concat (map pf_definition_references (step_formulas step))"

section \<open>Structural validation\<close>

definition validate_reference :: "u32 \<Rightarrow> u32 \<Rightarrow> (proof_certificate_error, unit) outcome" where
  "validate_reference step reference =
     (if step \<le> reference then Err (ReferenceNotEarlier step reference) else Ok ())"

primrec validate_references :: "u32 \<Rightarrow> u32 list \<Rightarrow> (proof_certificate_error, unit) outcome" where
  "validate_references position [] = Ok ()"
| "validate_references position (reference # references) =
     and_then (validate_reference position reference) (\<lambda>_. validate_references position references)"

definition validate_step_references :: "u32 \<Rightarrow> proof_step \<Rightarrow> (proof_certificate_error, unit) outcome" where
  "validate_step_references position step = validate_references position (local_references step)"

primrec validate_step_list :: "nat \<Rightarrow> proof_step list \<Rightarrow> (proof_certificate_error, unit) outcome" where
  "validate_step_list position [] = Ok ()"
| "validate_step_list position (step # steps) =
     and_then (expect (u32_try_from position)) (\<lambda>p.
       and_then (validate_step_references p step) (\<lambda>_. validate_step_list (Suc position) steps))"

definition validate_steps :: "proof_step list \<Rightarrow> (proof_certificate_error, unit) outcome" where
  "validate_steps steps =
     (if steps = [] then Err EmptyCertificate
      else if CERTIFICATE_MAX_STEPS < length steps then Err (TooManySteps (length steps) CERTIFICATE_MAX_STEPS)
      else validate_step_list 0 steps)"

text \<open>References strictly earlier than their step, as a property of the list.\<close>

definition refs_earlier :: "nat \<Rightarrow> proof_step \<Rightarrow> bool" where
  "refs_earlier position step \<longleftrightarrow> (\<forall>r\<in>set (local_references step). unat r < position)"

definition steps_earlier :: "nat \<Rightarrow> proof_step list \<Rightarrow> bool" where
  "steps_earlier position steps \<longleftrightarrow> (\<forall>k<length steps. refs_earlier (position + k) (steps ! k))"

lemma steps_earlier_Nil [simp]: "steps_earlier p []"
  by (simp add: steps_earlier_def)

lemma steps_earlier_Cons [simp]: "steps_earlier p (s # ss) \<longleftrightarrow> refs_earlier p s \<and> steps_earlier (Suc p) ss"
  by (auto simp: steps_earlier_def less_Suc_eq_0_disj)

lemma validate_references_Ok: "validate_references p rs = Ok u \<longleftrightarrow> (\<forall>r\<in>set rs. r < p)"
  by (induction rs) (auto simp: validate_reference_def)

lemma validate_step_references_Ok:
  "n < 2 ^ 32 \<Longrightarrow> validate_step_references (of_nat n) s = Ok u \<longleftrightarrow> refs_earlier n s"
  by (simp add: validate_step_references_def validate_references_Ok refs_earlier_def word_less_nat_alt unat_u32_of_nat)

lemma validate_step_list_Ok:
  "p + length ss \<le> 2 ^ 32 \<Longrightarrow> validate_step_list p ss = Ok u \<longleftrightarrow> steps_earlier p ss"
  by (induction ss arbitrary: p) (auto simp: u32_try_from_Some validate_step_references_Ok)

lemma validate_references_not_Panic [simp]: "validate_references p rs \<noteq> Panic"
  by (induction rs) (auto simp: validate_reference_def)

lemma validate_step_references_not_Panic [simp]: "validate_step_references p s \<noteq> Panic"
  by (simp add: validate_step_references_def)

lemma validate_step_list_not_Panic: "p + length ss \<le> 2 ^ 32 \<Longrightarrow> validate_step_list p ss \<noteq> Panic"
proof (induction ss arbitrary: p)
  case (Cons s ss)
  then have "u32_try_from p \<noteq> None" using u32_try_from_Some [of p "of_nat p"] by auto
  with Cons show ?case by auto
qed simp

lemma validate_steps_Ok:
  "validate_steps ss = Ok u \<longleftrightarrow> ss \<noteq> [] \<and> length ss \<le> 65536 \<and> steps_earlier 0 ss"
  using validate_step_list_Ok [of 0 ss] by (auto simp: validate_steps_def CERTIFICATE_MAX_STEPS_def)

lemma validate_steps_not_Panic: "validate_steps ss \<noteq> Panic"
  using validate_step_list_not_Panic [of 0 ss] by (auto simp: validate_steps_def CERTIFICATE_MAX_STEPS_def)

end
