(* ===== verification/Certificate_Codec.thy ===== *)
theory Certificate_Codec
  imports Proof_Certificate
begin

text \<open>
  The canonical certificate codec, \<open>naome-proof/src/codec.rs\<close>, and the certificate operations of
  \<open>naome-proof/src/lib.rs\<close> that use it. The encoder is generic in the trait \<open>ByteSink\<close>: a record of the
  three trait methods. The locale \<open>sink_refines\<close> says when a sink represents the bytes written so far;
  it is interpreted for the three sinks of the source, so that measuring, matching and building an
  encoding agree.
\<close>

section \<open>Byte sinks\<close>

record 's byte_sink =
  sink_len :: "'s \<Rightarrow> nat"
  sink_push :: "'s \<Rightarrow> u8 \<Rightarrow> 's"
  sink_extend :: "'s \<Rightarrow> bytes \<Rightarrow> 's"

definition vec_sink :: "bytes byte_sink" where
  "vec_sink = \<lparr>sink_len = length, sink_push = (\<lambda>out b. out @ [b]), sink_extend = (\<lambda>out bs. out @ bs)\<rparr>"

definition length_sink :: "nat byte_sink" where
  "length_sink = \<lparr>sink_len = (\<lambda>n. n), sink_push = (\<lambda>n b. n + 1), sink_extend = (\<lambda>n bs. n + length bs)\<rparr>"

record matching_sink =
  ms_expected :: bytes
  ms_position :: nat
  ms_matching :: bool

definition matching_sink_new :: "bytes \<Rightarrow> matching_sink" where
  "matching_sink_new expected = \<lparr>ms_expected = expected, ms_position = 0, ms_matching = True\<rparr>"

definition ms_matches :: "matching_sink \<Rightarrow> bool" where
  "ms_matches s \<longleftrightarrow> ms_matching s \<and> ms_position s = length (ms_expected s)"

definition ms_extend :: "matching_sink \<Rightarrow> bytes \<Rightarrow> matching_sink" where
  "ms_extend s bs =
     (let stop = ms_position s + length bs
      in s\<lparr>ms_matching := (ms_matching s \<and> stop \<le> length (ms_expected s) \<and>
             take (length bs) (drop (ms_position s) (ms_expected s)) = bs),
           ms_position := stop\<rparr>)"

definition matching_sink_ops :: "matching_sink byte_sink" where
  "matching_sink_ops = \<lparr>sink_len = ms_position, sink_push = (\<lambda>s b. ms_extend s [b]), sink_extend = ms_extend\<rparr>"

section \<open>Encoding\<close>

definition ensure_within_byte_limit :: "nat \<Rightarrow> (proof_certificate_error, unit) outcome" where
  "ensure_within_byte_limit actual =
     (if CERTIFICATE_MAX_BYTES < actual then Err (CertificateTooLong actual CERTIFICATE_MAX_BYTES) else Ok ())"

definition ensure_additional_bytes :: "nat \<Rightarrow> nat \<Rightarrow> (proof_certificate_error, unit) outcome" where
  "ensure_additional_bytes current additional = ensure_within_byte_limit (current + additional)"

fun map_formula_error :: "formula_codec_error \<Rightarrow> proof_certificate_error" where
  "map_formula_error (NodeLimitExceeded m) = FormulaNodeLimitExceeded CERTIFICATE_MAX_FORMULA_NODES"
| "map_formula_error source = CertificateFormula source"

fun map_proof_formula_error :: "proof_formula_codec_error \<Rightarrow> proof_certificate_error" where
  "map_proof_formula_error (PrimitiveCodec source) = map_formula_error source"
| "map_proof_formula_error (DefinedCodec (DNodeLimitExceeded m)) =
     FormulaNodeLimitExceeded CERTIFICATE_MAX_FORMULA_NODES"
| "map_proof_formula_error (DefinedCodec source) = CertificateDefinedFormula source"

definition write_u32 :: "'s byte_sink \<Rightarrow> u32 \<Rightarrow> 's \<times> nat \<Rightarrow> 's \<times> nat" where
  "write_u32 S w st = (sink_extend S (fst st) (u32_to_be_bytes w), snd st)"

definition write_variable :: "'s byte_sink \<Rightarrow> free_variable \<Rightarrow> 's \<times> nat \<Rightarrow> 's \<times> nat" where
  "write_variable S v st = write_u32 S v st"

definition write_formula ::
  "'s byte_sink \<Rightarrow> proof_formula \<Rightarrow> 's \<times> nat \<Rightarrow> (proof_certificate_error, 's \<times> nat) outcome" where
  "write_formula S formula st =
     (let (out, remaining) = st in
      and_then (map_err map_proof_formula_error (pf_encode_canonical_with_node_limit formula remaining)) (\<lambda>(bs, used).
        if remaining < used then Panic
        else and_then (expect (u32_try_from (length bs))) (\<lambda>n.
          and_then (ensure_additional_bytes (sink_len S out) (4 + length bs)) (\<lambda>_.
            Ok (sink_extend S (sink_extend S out (u32_to_be_bytes n)) bs, remaining - used)))))"

definition write_variables ::
  "'s byte_sink \<Rightarrow> free_variable list \<Rightarrow> 's \<times> nat \<Rightarrow> (proof_certificate_error, 's \<times> nat) outcome" where
  "write_variables S vs st =
     and_then (ensure_additional_bytes (sink_len S (fst st)) (4 * length vs + 4)) (\<lambda>_.
       and_then (expect (u32_try_from (length vs))) (\<lambda>count.
         Ok (fold (write_variable S) vs (write_u32 S count st))))"

primrec encode_zfc_axiom :: "zfc_axiom \<Rightarrow> u8" where
  "encode_zfc_axiom Extensionality = 0"
| "encode_zfc_axiom Pairing = 1"
| "encode_zfc_axiom Union = 2"
| "encode_zfc_axiom PowerSet = 3"
| "encode_zfc_axiom Infinity = 4"
| "encode_zfc_axiom Foundation = 5"
| "encode_zfc_axiom Choice = 6"

primrec encode_step_fields ::
  "'s byte_sink \<Rightarrow> proof_step \<Rightarrow> 's \<times> nat \<Rightarrow> (proof_certificate_error, 's \<times> nat) outcome" where
  "encode_step_fields S (SimplificationStep a b) st =
     and_then (write_formula S a st) (write_formula S b)"
| "encode_step_fields S (FregeStep a b c) st =
     and_then (write_formula S a st) (\<lambda>st. and_then (write_formula S b st) (write_formula S c))"
| "encode_step_fields S (ContrapositionStep a b) st =
     and_then (write_formula S a st) (write_formula S b)"
| "encode_step_fields S (DistributionStep v a b) st =
     and_then (write_formula S a (write_variable S v st)) (write_formula S b)"
| "encode_step_fields S (VacuousStep a) st = write_formula S a st"
| "encode_step_fields S (InstantiationStep v w a) st =
     write_formula S a (write_variable S w (write_variable S v st))"
| "encode_step_fields S (ReflexivityStep v) st = Ok (write_variable S v st)"
| "encode_step_fields S (SubstitutionStep v w a) st =
     write_formula S a (write_variable S w (write_variable S v st))"
| "encode_step_fields S (ZfcAxiomStep ax) st = Ok (sink_push S (fst st) (encode_zfc_axiom ax), snd st)"
| "encode_step_fields S (SeparationStep s) st =
     and_then (write_formula S (ps_predicate s) st) (\<lambda>st.
       write_variables S (ps_parameters s)
         (fold (write_variable S) [ps_element s, ps_source s, ps_result s] st))"
| "encode_step_fields S (ReplacementStep s) st =
     and_then (write_formula S (pr_predicate s) st) (\<lambda>st.
       write_variables S (pr_parameters s)
         (fold (write_variable S)
           [pr_input s, pr_output s, pr_uniqueness_witness s, pr_source s, pr_result s] st))"
| "encode_step_fields S (ProofReference proof_id) st = Ok (sink_extend S (fst st) proof_id, snd st)"
| "encode_step_fields S (ModusPonensStep premise implication) st =
     Ok (write_u32 S implication (write_u32 S premise st))"
| "encode_step_fields S (GeneralizationStep premise v) st =
     Ok (write_variable S v (write_u32 S premise st))"

definition encode_step_with_formula_budget ::
  "'s byte_sink \<Rightarrow> proof_step \<Rightarrow> 's \<times> nat \<Rightarrow> (proof_certificate_error, 's \<times> nat) outcome" where
  "encode_step_with_formula_budget S step st =
     encode_step_fields S step (sink_push S (fst st) (canonical_tag step), snd st)"

primrec encode_step_list ::
  "'s byte_sink \<Rightarrow> proof_step list \<Rightarrow> 's \<times> nat \<Rightarrow> (proof_certificate_error, 's \<times> nat) outcome" where
  "encode_step_list S [] st = Ok st"
| "encode_step_list S (step # steps) st =
     and_then (encode_step_with_formula_budget S step st) (\<lambda>st.
       and_then (ensure_within_byte_limit (sink_len S (fst st))) (\<lambda>_. encode_step_list S steps st))"

definition encode_steps_into ::
  "'s byte_sink \<Rightarrow> proof_step list \<Rightarrow> 's \<Rightarrow> (proof_certificate_error, 's) outcome" where
  "encode_steps_into S steps out =
     and_then (expect (u32_try_from (length steps))) (\<lambda>step_count.
       map_ok fst (encode_step_list S steps (write_u32 S step_count (out, CERTIFICATE_MAX_FORMULA_NODES))))"

definition encode_steps :: "proof_step list \<Rightarrow> (proof_certificate_error, bytes) outcome" where
  "encode_steps steps = encode_steps_into vec_sink steps []"

definition validate_steps_encoding :: "proof_step list \<Rightarrow> (proof_certificate_error, unit) outcome" where
  "validate_steps_encoding steps = map_ok (\<lambda>_. ()) (encode_steps_into length_sink steps 0)"

definition steps_match_encoding :: "proof_step list \<Rightarrow> bytes \<Rightarrow> bool option" where
  "steps_match_encoding steps expected =
     map_option ms_matches (unwrap (encode_steps_into matching_sink_ops steps (matching_sink_new expected)))"

definition step_encoded_length :: "proof_step \<Rightarrow> (proof_certificate_error, nat) outcome" where
  "step_encoded_length step =
     and_then (encode_step_with_formula_budget length_sink step (0, CERTIFICATE_MAX_FORMULA_NODES)) (\<lambda>st.
       and_then (ensure_within_byte_limit (sink_len length_sink (fst st))) (\<lambda>_. Ok (sink_len length_sink (fst st))))"

section \<open>Decoding\<close>

definition read_u8 :: "cursor \<times> nat \<Rightarrow> (proof_certificate_error, u8 \<times> cursor \<times> nat) outcome" where
  "read_u8 st = map_ok (\<lambda>(b, cursor). (b, cursor, snd st)) (ok_or CertificateUnexpectedEnd (cursor_read_u8 (fst st)))"

definition read_u32 :: "cursor \<times> nat \<Rightarrow> (proof_certificate_error, u32 \<times> cursor \<times> nat) outcome" where
  "read_u32 st = map_ok (\<lambda>(w, cursor). (w, cursor, snd st)) (ok_or CertificateUnexpectedEnd (cursor_read_u32 (fst st)))"

definition read_bytes :: "nat \<Rightarrow> cursor \<times> nat \<Rightarrow> (proof_certificate_error, bytes \<times> cursor \<times> nat) outcome" where
  "read_bytes n st = map_ok (\<lambda>(bs, cursor). (bs, cursor, snd st)) (ok_or CertificateUnexpectedEnd (cursor_take n (fst st)))"

definition read_variable :: "cursor \<times> nat \<Rightarrow> (proof_certificate_error, free_variable \<times> cursor \<times> nat) outcome" where
  "read_variable st = read_u32 st"

definition read_formula :: "cursor \<times> nat \<Rightarrow> (proof_certificate_error, proof_formula \<times> cursor \<times> nat) outcome" where
  "read_formula st =
     and_then (read_u32 st) (\<lambda>(n, st).
     and_then (read_bytes (unat n) st) (\<lambda>(bs, cursor, remaining).
     and_then (map_err map_proof_formula_error (pf_decode_canonical_with_node_limit bs remaining)) (\<lambda>(formula, used).
       if remaining < used then Panic else Ok (formula, cursor, remaining - used))))"

primrec read_variable_list ::
  "nat \<Rightarrow> cursor \<times> nat \<Rightarrow> (proof_certificate_error, free_variable list \<times> cursor \<times> nat) outcome" where
  "read_variable_list 0 st = Ok ([], st)"
| "read_variable_list (Suc count) st =
     and_then (read_variable st) (\<lambda>(v, st). map_ok (\<lambda>(vs, st). (v # vs, st)) (read_variable_list count st))"

definition read_variables :: "cursor \<times> nat \<Rightarrow> (proof_certificate_error, free_variable list \<times> cursor \<times> nat) outcome" where
  "read_variables st =
     and_then (read_u32 st) (\<lambda>(count, st).
       if cursor_remaining (fst st) div 4 < unat count then Err CertificateUnexpectedEnd
       else read_variable_list (unat count) st)"

definition decode_zfc_axiom :: "u8 \<Rightarrow> (proof_certificate_error, zfc_axiom) outcome" where
  "decode_zfc_axiom tag =
     (if tag = 0 then Ok Extensionality else if tag = 1 then Ok Pairing else if tag = 2 then Ok Union
      else if tag = 3 then Ok PowerSet else if tag = 4 then Ok Infinity else if tag = 5 then Ok Foundation
      else if tag = 6 then Ok Choice else Err (UnknownZfcAxiomTag tag))"

text \<open>The three field layouts that several steps share, then the dispatch on the tag.\<close>

definition read_formulas2 ::
  "(proof_formula \<Rightarrow> proof_formula \<Rightarrow> proof_step) \<Rightarrow> cursor \<times> nat \<Rightarrow> (proof_certificate_error, proof_step \<times> cursor \<times> nat) outcome" where
  "read_formulas2 build st =
     and_then (read_formula st) (\<lambda>(a, st). map_ok (\<lambda>(b, st). (build a b, st)) (read_formula st))"

definition read_variables2_formula ::
  "(free_variable \<Rightarrow> free_variable \<Rightarrow> proof_formula \<Rightarrow> proof_step) \<Rightarrow> cursor \<times> nat \<Rightarrow> (proof_certificate_error, proof_step \<times> cursor \<times> nat) outcome" where
  "read_variables2_formula build st =
     and_then (read_variable st) (\<lambda>(v, st). and_then (read_variable st) (\<lambda>(w, st).
       map_ok (\<lambda>(a, st). (build v w a, st)) (read_formula st)))"

definition read_separation :: "cursor \<times> nat \<Rightarrow> (proof_certificate_error, proof_step \<times> cursor \<times> nat) outcome" where
  "read_separation st =
     and_then (read_formula st) (\<lambda>(predicate, st). and_then (read_variable st) (\<lambda>(element, st).
     and_then (read_variable st) (\<lambda>(source, st). and_then (read_variable st) (\<lambda>(result, st).
     map_ok (\<lambda>(parameters, st). (SeparationStep \<lparr>ps_predicate = predicate, ps_element = element,
       ps_source = source, ps_result = result, ps_parameters = parameters\<rparr>, st)) (read_variables st)))))"

definition read_replacement :: "cursor \<times> nat \<Rightarrow> (proof_certificate_error, proof_step \<times> cursor \<times> nat) outcome" where
  "read_replacement st =
     and_then (read_formula st) (\<lambda>(predicate, st). and_then (read_variable st) (\<lambda>(input, st).
     and_then (read_variable st) (\<lambda>(out, st). and_then (read_variable st) (\<lambda>(witness, st).
     and_then (read_variable st) (\<lambda>(source, st). and_then (read_variable st) (\<lambda>(result, st).
     map_ok (\<lambda>(parameters, st). (ReplacementStep \<lparr>pr_predicate = predicate, pr_input = input,
       pr_output = out, pr_uniqueness_witness = witness, pr_source = source, pr_result = result,
       pr_parameters = parameters\<rparr>, st)) (read_variables st)))))))"

definition decode_step :: "cursor \<times> nat \<Rightarrow> (proof_certificate_error, proof_step \<times> cursor \<times> nat) outcome" where
  "decode_step st =
     and_then (read_u8 st) (\<lambda>(tag, st).
       if tag = 0x00 then read_formulas2 SimplificationStep st
       else if tag = 0x01 then
         and_then (read_formula st) (\<lambda>(a, st). read_formulas2 (FregeStep a) st)
       else if tag = 0x02 then read_formulas2 ContrapositionStep st
       else if tag = 0x03 then
         and_then (read_variable st) (\<lambda>(v, st). read_formulas2 (DistributionStep v) st)
       else if tag = 0x04 then map_ok (\<lambda>(a, st). (VacuousStep a, st)) (read_formula st)
       else if tag = 0x05 then read_variables2_formula InstantiationStep st
       else if tag = 0x06 then map_ok (\<lambda>(v, st). (ReflexivityStep v, st)) (read_variable st)
       else if tag = 0x07 then read_variables2_formula SubstitutionStep st
       else if tag = 0x10 then
         and_then (read_u8 st) (\<lambda>(b, st). map_ok (\<lambda>ax. (ZfcAxiomStep ax, st)) (decode_zfc_axiom b))
       else if tag = 0x11 then read_separation st
       else if tag = 0x12 then read_replacement st
       else if tag = 0x30 then map_ok (\<lambda>(i, st). (ProofReference i, st)) (read_bytes PROOF_ID_BYTE_LENGTH st)
       else if tag = 0x20 then
         and_then (read_u32 st) (\<lambda>(premise, st). map_ok (\<lambda>(i, st). (ModusPonensStep premise i, st)) (read_u32 st))
       else if tag = 0x21 then
         and_then (read_u32 st) (\<lambda>(premise, st). map_ok (\<lambda>(v, st). (GeneralizationStep premise v, st)) (read_variable st))
       else Err (UnknownStepTag tag))"

primrec decode_step_list ::
  "nat \<Rightarrow> nat \<Rightarrow> cursor \<times> nat \<Rightarrow> (proof_certificate_error, proof_step list \<times> cursor \<times> nat) outcome" where
  "decode_step_list 0 position st = Ok ([], st)"
| "decode_step_list (Suc count) position st =
     and_then (decode_step st) (\<lambda>(step, st).
     and_then (validate_step_references (of_nat position) step) (\<lambda>_.
     map_ok (\<lambda>(steps, st). (step # steps, st)) (decode_step_list count (Suc position) st)))"

definition decode_certificate :: "bytes \<Rightarrow> (proof_certificate_error, proof_certificate) outcome" where
  "decode_certificate bs =
     and_then (ensure_within_byte_limit (length bs)) (\<lambda>_.
     and_then (read_u32 (cursor_new bs, CERTIFICATE_MAX_FORMULA_NODES)) (\<lambda>(step_count, st).
       if step_count = 0 then Err EmptyCertificate
       else if CERTIFICATE_MAX_STEPS < unat step_count then Err (TooManySteps (unat step_count) CERTIFICATE_MAX_STEPS)
       else and_then (decode_step_list (unat step_count) 0 st) (\<lambda>(steps, cursor, remaining).
         if cursor_remaining cursor \<noteq> 0 then Err (CertificateTrailingBytes (cursor_remaining cursor))
         else Ok \<lparr>cert_steps = steps\<rparr>)))"

section \<open>Certificates\<close>

definition certificate_new :: "proof_step list \<Rightarrow> (proof_certificate_error, proof_certificate) outcome" where
  "certificate_new steps =
     and_then (validate_steps steps) (\<lambda>_.
       and_then (validate_steps_encoding steps) (\<lambda>_. Ok \<lparr>cert_steps = steps\<rparr>))"

definition to_canonical_bytes :: "proof_certificate \<Rightarrow> bytes option" where
  "to_canonical_bytes certificate = unwrap (encode_steps (cert_steps certificate))"

definition from_canonical_bytes :: "bytes \<Rightarrow> (proof_certificate_error, proof_certificate) outcome" where
  "from_canonical_bytes bs = decode_certificate bs"

section \<open>Every sink sees the same bytes\<close>

lemma rel_outcome_and_then:
  "rel_outcome (=) R x y \<Longrightarrow> (\<And>a b. R a b \<Longrightarrow> rel_outcome (=) Q (f a) (g b)) \<Longrightarrow>
     rel_outcome (=) Q (and_then x f) (and_then y g)"
  by (cases x; cases y) auto

lemma rel_outcome_map_ok:
  "rel_outcome (=) R x y \<Longrightarrow> (\<And>a b. R a b \<Longrightarrow> Q (f a) (g b)) \<Longrightarrow> rel_outcome (=) Q (map_ok f x) (map_ok g y)"
  by (cases x; cases y) auto

lemma rel_outcome_refl_Ok: "(\<And>a. x = Ok a \<Longrightarrow> R a a) \<Longrightarrow> rel_outcome (=) R x x"
  by (cases x) auto

locale sink_refines =
  fixes S :: "'s byte_sink"
    and view :: "'s \<Rightarrow> bytes \<Rightarrow> bool"
  assumes view_len: "view s bs \<Longrightarrow> sink_len S s = length bs"
    and view_push: "view s bs \<Longrightarrow> view (sink_push S s b) (bs @ [b])"
    and view_extend: "view s bs \<Longrightarrow> view (sink_extend S s cs) (bs @ cs)"
begin

abbreviation st_view :: "'s \<times> nat \<Rightarrow> bytes \<times> nat \<Rightarrow> bool" where
  "st_view st vst \<equiv> view (fst st) (fst vst) \<and> snd st = snd vst"

lemma write_u32_view: "st_view st vst \<Longrightarrow> st_view (write_u32 S w st) (write_u32 vec_sink w vst)"
  by (simp add: write_u32_def vec_sink_def view_extend)

lemma write_variable_view: "st_view st vst \<Longrightarrow> st_view (write_variable S v st) (write_variable vec_sink v vst)"
  unfolding write_variable_def by (rule write_u32_view)

lemma fold_write_variable_view:
  "st_view st vst \<Longrightarrow> st_view (fold (write_variable S) vs st) (fold (write_variable vec_sink) vs vst)"
  by (induction vs arbitrary: st vst) (simp_all add: write_variable_view)

lemma write_formula_view:
  assumes "st_view st vst"
  shows "rel_outcome (=) st_view (write_formula S f st) (write_formula vec_sink f vst)"
proof -
  obtain s n where st: "st = (s, n)" by (cases st)
  obtain bs where vst: "vst = (bs, n)" "view s bs" using assms st by (cases vst) auto
  have "view (sink_extend S (sink_extend S s xs) ys) (bs @ xs @ ys)" for xs ys
    using view_extend [OF view_extend [OF vst(2)], of xs ys] by simp
  then show ?thesis
    using view_len [OF vst(2)]
    unfolding write_formula_def st vst Let_def prod.case
    by (intro rel_outcome_and_then [where R = "(=)"])
      (auto simp: vec_sink_def rel_outcome_refl_Ok outcome.rel_eq
        intro!: rel_outcome_and_then [where R = "(=)"] split: prod.splits)
qed

lemma write_variables_view:
  assumes "st_view st vst"
  shows "rel_outcome (=) st_view (write_variables S vs st) (write_variables vec_sink vs vst)"
  unfolding write_variables_def
proof (intro rel_outcome_and_then [where R = "(=)"])
  show "rel_outcome (=) (=) (ensure_additional_bytes (sink_len S (fst st)) (4 * length vs + 4))
      (ensure_additional_bytes (sink_len vec_sink (fst vst)) (4 * length vs + 4))"
    using view_len [of "fst st" "fst vst"] assms by (simp add: vec_sink_def outcome.rel_eq)
qed (use assms in \<open>auto simp: outcome.rel_eq intro!: fold_write_variable_view [THEN conjunct1]
      fold_write_variable_view [THEN conjunct2] write_u32_view\<close>)

lemma encode_step_fields_view:
  assumes "st_view st vst"
  shows "rel_outcome (=) st_view (encode_step_fields S s st) (encode_step_fields vec_sink s vst)"
proof (cases s)
  case (ZfcAxiomStep ax)
  with assms show ?thesis by (simp add: view_push) (simp add: vec_sink_def view_push)
next
  case (ProofReference i)
  with assms show ?thesis by (simp add: vec_sink_def view_extend)
qed (use assms in \<open>auto simp del: fold.simps intro!: rel_outcome_and_then [where R = st_view] write_formula_view
      write_variables_view fold_write_variable_view write_variable_view write_u32_view\<close>)

lemma encode_step_view:
  assumes "st_view st vst"
  shows "rel_outcome (=) st_view (encode_step_with_formula_budget S s st) (encode_step_with_formula_budget vec_sink s vst)"
  unfolding encode_step_with_formula_budget_def using assms
  by (intro encode_step_fields_view) (simp add: view_push vec_sink_def)

lemma encode_step_list_view:
  "st_view st vst \<Longrightarrow> rel_outcome (=) st_view (encode_step_list S ss st) (encode_step_list vec_sink ss vst)"
proof (induction ss arbitrary: st vst)
  case (Cons s ss)
  have "rel_outcome (=) st_view
      (and_then (ensure_within_byte_limit (sink_len S (fst x))) (\<lambda>_. encode_step_list S ss x))
      (and_then (ensure_within_byte_limit (sink_len vec_sink (fst y))) (\<lambda>_. encode_step_list vec_sink ss y))"
    if "st_view x y" for x y
  proof -
    have "sink_len S (fst x) = sink_len vec_sink (fst y)"
      using that view_len [of "fst x" "fst y"] by (simp add: vec_sink_def)
    with Cons.IH [OF that] show ?thesis
      by (intro rel_outcome_and_then [where R = "(=)"]) (auto simp: outcome.rel_eq)
  qed
  then show ?case
    unfolding encode_step_list.simps by (intro rel_outcome_and_then [OF encode_step_view [OF Cons.prems]])
qed simp

lemma encode_steps_into_view:
  assumes "view s []"
  shows "rel_outcome (=) view (encode_steps_into S ss s) (encode_steps ss)"
proof -
  have "st_view (write_u32 S w (s, n)) (write_u32 vec_sink w ([], n))" for w n
    by (rule write_u32_view) (simp add: assms)
  from encode_step_list_view [OF this] have
    "rel_outcome (=) view (map_ok fst (encode_step_list S ss (write_u32 S w (s, n))))
      (map_ok fst (encode_step_list vec_sink ss (write_u32 vec_sink w ([], n))))" for w n
    by (rule rel_outcome_map_ok) simp
  then show ?thesis
    unfolding encode_steps_into_def encode_steps_def
    by (intro rel_outcome_and_then [where R = "(=)"]) (auto simp: outcome.rel_eq)
qed

end

interpretation length_sink: sink_refines length_sink "\<lambda>n bs. n = length bs"
  by unfold_locales (simp_all add: length_sink_def)

definition matching_view :: "bytes \<Rightarrow> matching_sink \<Rightarrow> bytes \<Rightarrow> bool" where
  "matching_view expected s bs \<longleftrightarrow>
     ms_expected s = expected \<and> ms_position s = length bs \<and>
     ms_matching s = (length bs \<le> length expected \<and> take (length bs) expected = bs)"

lemma matching_view_extend: "matching_view expected s bs \<Longrightarrow> matching_view expected (ms_extend s cs) (bs @ cs)"
  by (auto simp: matching_view_def ms_extend_def Let_def take_add)

interpretation matching_sink: sink_refines matching_sink_ops "matching_view expected" for expected
  by unfold_locales
    (simp add: matching_sink_ops_def matching_view_def, simp_all add: matching_sink_ops_def matching_view_extend)

interpretation vec_sink: sink_refines vec_sink "(=)"
  by unfold_locales (simp_all add: vec_sink_def)

lemma validate_steps_encoding_Ok: "validate_steps_encoding ss = Ok () \<longleftrightarrow> (\<exists>bs. encode_steps ss = Ok bs)"
  using length_sink.encode_steps_into_view [of 0 ss]
  by (cases "encode_steps_into length_sink ss 0"; cases "encode_steps ss") (auto simp: validate_steps_encoding_def)

lemma validate_steps_encoding_eq: "validate_steps_encoding ss = map_ok (\<lambda>_. ()) (encode_steps ss)"
  using length_sink.encode_steps_into_view [of 0 ss]
  by (cases "encode_steps_into length_sink ss 0"; cases "encode_steps ss") (auto simp: validate_steps_encoding_def)

lemma steps_match_encoding_eq:
  assumes "encode_steps ss = Ok bs"
  shows "steps_match_encoding ss expected = Some (bs = expected)"
proof -
  have "matching_view expected (matching_sink_new expected) []"
    by (simp add: matching_view_def matching_sink_new_def)
  from matching_sink.encode_steps_into_view [OF this, of ss] assms obtain s where
    "encode_steps_into matching_sink_ops ss (matching_sink_new expected) = Ok s" "matching_view expected s bs"
    by (cases "encode_steps_into matching_sink_ops ss (matching_sink_new expected)") auto
  moreover from this(2) have "ms_matches s \<longleftrightarrow> bs = expected"
    unfolding ms_matches_def matching_view_def by (metis order_refl take_all_iff)
  ultimately show ?thesis by (simp add: steps_match_encoding_def)
qed

section \<open>The bytes of a step\<close>

definition formula_wire :: "proof_formula \<Rightarrow> bytes" where
  "formula_wire f = u32_to_be_bytes (of_nat (length (pf_wire f))) @ pf_wire f"

definition variables_wire :: "free_variable list \<Rightarrow> bytes" where
  "variables_wire vs = u32_to_be_bytes (of_nat (length vs)) @ concat (map u32_to_be_bytes vs)"

primrec fields_wire :: "proof_step \<Rightarrow> bytes" where
  "fields_wire (SimplificationStep a b) = formula_wire a @ formula_wire b"
| "fields_wire (FregeStep a b c) = formula_wire a @ formula_wire b @ formula_wire c"
| "fields_wire (ContrapositionStep a b) = formula_wire a @ formula_wire b"
| "fields_wire (DistributionStep v a b) = u32_to_be_bytes v @ formula_wire a @ formula_wire b"
| "fields_wire (VacuousStep a) = formula_wire a"
| "fields_wire (InstantiationStep v w a) = u32_to_be_bytes v @ u32_to_be_bytes w @ formula_wire a"
| "fields_wire (ReflexivityStep v) = u32_to_be_bytes v"
| "fields_wire (SubstitutionStep v w a) = u32_to_be_bytes v @ u32_to_be_bytes w @ formula_wire a"
| "fields_wire (ZfcAxiomStep ax) = [encode_zfc_axiom ax]"
| "fields_wire (SeparationStep s) = formula_wire (ps_predicate s) @ u32_to_be_bytes (ps_element s) @
     u32_to_be_bytes (ps_source s) @ u32_to_be_bytes (ps_result s) @ variables_wire (ps_parameters s)"
| "fields_wire (ReplacementStep s) = formula_wire (pr_predicate s) @ u32_to_be_bytes (pr_input s) @
     u32_to_be_bytes (pr_output s) @ u32_to_be_bytes (pr_uniqueness_witness s) @
     u32_to_be_bytes (pr_source s) @ u32_to_be_bytes (pr_result s) @ variables_wire (pr_parameters s)"
| "fields_wire (ProofReference i) = i"
| "fields_wire (ModusPonensStep p i) = u32_to_be_bytes p @ u32_to_be_bytes i"
| "fields_wire (GeneralizationStep p v) = u32_to_be_bytes p @ u32_to_be_bytes v"

definition step_wire :: "proof_step \<Rightarrow> bytes" where
  "step_wire s = canonical_tag s # fields_wire s"

definition formulas_cost :: "proof_formula list \<Rightarrow> nat" where
  "formulas_cost fs = sum_list (map pf_node_count fs)"

definition formulas_fit :: "nat \<Rightarrow> proof_formula list \<Rightarrow> bool" where
  "formulas_fit remaining fs \<longleftrightarrow> (\<forall>f\<in>set fs. pf_admitted FORMULA_MAX_NODES f) \<and> formulas_cost fs \<le> remaining"

lemma formulas_fit_simps [simp]:
  "formulas_fit n []" "formulas_cost [] = 0" "formulas_cost (f # fs) = pf_node_count f + formulas_cost fs"
  "formulas_fit n (f # fs) \<longleftrightarrow> pf_admitted FORMULA_MAX_NODES f \<and> pf_node_count f \<le> n \<and> formulas_fit (n - pf_node_count f) fs"
  by (auto simp: formulas_fit_def formulas_cost_def)

lemma length_concat_u32 [simp]: "length (concat (map u32_to_be_bytes vs)) = 4 * length vs"
  by (induction vs) simp_all

lemma ensure_within_byte_limit_Ok [simp]: "ensure_within_byte_limit n = Ok u \<longleftrightarrow> n \<le> CERTIFICATE_MAX_BYTES"
  by (simp add: ensure_within_byte_limit_def)

lemma ensure_not_Panic [simp]: "ensure_within_byte_limit n \<noteq> Panic" "ensure_additional_bytes m n \<noteq> Panic"
  by (simp_all add: ensure_within_byte_limit_def ensure_additional_bytes_def)

lemma ensure_additional_bytes_Ok [simp]: "ensure_additional_bytes m n = Ok u \<longleftrightarrow> m + n \<le> CERTIFICATE_MAX_BYTES"
  by (simp add: ensure_additional_bytes_def)

lemma vec_write [simp]:
  "write_u32 vec_sink w (out, n) = (out @ u32_to_be_bytes w, n)"
  "write_variable vec_sink v (out, n) = (out @ u32_to_be_bytes v, n)"
  "sink_push vec_sink out b = out @ [b]" "sink_extend vec_sink out bs = out @ bs" "sink_len vec_sink out = length out"
  by (simp_all add: write_variable_def write_u32_def vec_sink_def)

lemma fold_write_variable_vec:
  "fold (write_variable vec_sink) vs (out, n) = (out @ concat (map u32_to_be_bytes vs), n)"
  by (induction vs arbitrary: out) simp_all

lemma write_formula_Ok:
  "write_formula vec_sink f (out, n) = Ok res \<longleftrightarrow>
     formulas_fit n [f] \<and> length out + length (formula_wire f) \<le> CERTIFICATE_MAX_BYTES \<and>
     res = (out @ formula_wire f, n - pf_node_count f)"
proof -
  have small: "u32_try_from (length (pf_wire f)) = Some (of_nat (length (pf_wire f)))" if "pf_admitted n f"
    using pf_wire_length [OF that] by (simp add: u32_try_from_Some FORMULA_MAX_BYTES_def)
  show ?thesis
    unfolding write_formula_def Let_def prod.case
    by (auto simp: pf_encode_Ok pf_admitted_count [of n] formula_wire_def small split: if_splits)
qed

lemma write_formula_not_Panic [simp]: "write_formula vec_sink f st \<noteq> Panic"
proof -
  have "u32_try_from (length (pf_wire f)) \<noteq> None" if "pf_admitted n f" for n
    using pf_wire_length [OF that] by (auto simp: u32_try_from_def unat_u32_of_nat FORMULA_MAX_BYTES_def)
  moreover obtain out n where "st = (out, n)" by (cases st)
  ultimately show ?thesis
    unfolding write_formula_def Let_def
    by (auto simp: pf_encode_Ok dest: pf_admitted_count [of n, THEN iffD1] split: if_splits)
qed

lemma write_variables_Ok:
  "write_variables vec_sink vs (out, n) = Ok res \<longleftrightarrow>
     length out + length (variables_wire vs) \<le> CERTIFICATE_MAX_BYTES \<and> res = (out @ variables_wire vs, n)"
proof -
  have "u32_try_from (length vs) = Some (of_nat (length vs))" if "length out + (4 * length vs + 4) \<le> CERTIFICATE_MAX_BYTES"
    using that by (simp add: u32_try_from_Some CERTIFICATE_MAX_BYTES_def)
  then show ?thesis
    by (auto simp: write_variables_def variables_wire_def fold_write_variable_vec)
qed

lemma write_variables_not_Panic [simp]: "write_variables vec_sink vs st \<noteq> Panic"
  by (cases st) (auto simp: write_variables_def u32_try_from_def unat_u32_of_nat CERTIFICATE_MAX_BYTES_def)

lemma encode_step_fields_Ok:
  assumes "encode_step_fields vec_sink s (out, n) = Ok res"
  shows "formulas_fit n (step_formulas s) \<and> res = (out @ fields_wire s, n - formulas_cost (step_formulas s))"
  using assms
  by (cases s) (auto simp: write_formula_Ok write_variables_Ok)

lemma encode_step_fields_fits:
  assumes "formulas_fit n (step_formulas s)" "length out + length (fields_wire s) \<le> CERTIFICATE_MAX_BYTES"
  shows "encode_step_fields vec_sink s (out, n) = Ok (out @ fields_wire s, n - formulas_cost (step_formulas s))"
  using assms
  by (cases s) (auto simp: write_formula_Ok write_variables_Ok)

lemma encode_step_fields_not_Panic [simp]: "encode_step_fields vec_sink s st \<noteq> Panic"
  by (cases s; cases st) auto

lemma encode_step_Ok:
  "encode_step_with_formula_budget vec_sink s (out, n) = Ok res \<Longrightarrow>
     formulas_fit n (step_formulas s) \<and> res = (out @ step_wire s, n - formulas_cost (step_formulas s))"
  by (auto simp: encode_step_with_formula_budget_def step_wire_def dest!: encode_step_fields_Ok)

lemma encode_step_fits:
  "formulas_fit n (step_formulas s) \<Longrightarrow> length out + length (step_wire s) \<le> CERTIFICATE_MAX_BYTES \<Longrightarrow>
     encode_step_with_formula_budget vec_sink s (out, n) = Ok (out @ step_wire s, n - formulas_cost (step_formulas s))"
  by (simp add: encode_step_with_formula_budget_def step_wire_def encode_step_fields_fits)

definition steps_wire :: "proof_step list \<Rightarrow> bytes" where
  "steps_wire ss = concat (map step_wire ss)"

definition all_formulas :: "proof_step list \<Rightarrow> proof_formula list" where
  "all_formulas ss = concat (map step_formulas ss)"

lemma steps_wire_simps [simp]:
  "steps_wire [] = []" "steps_wire (s # ss) = step_wire s @ steps_wire ss"
  "all_formulas [] = []" "all_formulas (s # ss) = step_formulas s @ all_formulas ss"
  by (simp_all add: steps_wire_def all_formulas_def)

lemma formulas_fit_append [simp]:
  "formulas_fit n (fs @ gs) \<longleftrightarrow> formulas_fit n fs \<and> formulas_fit (n - formulas_cost fs) gs"
  "formulas_cost (fs @ gs) = formulas_cost fs + formulas_cost gs"
  by (auto simp: formulas_fit_def formulas_cost_def)

lemma encode_step_list_Ok:
  "length out \<le> CERTIFICATE_MAX_BYTES \<Longrightarrow>
     encode_step_list vec_sink ss (out, n) = Ok res \<longleftrightarrow>
       formulas_fit n (all_formulas ss) \<and> length out + length (steps_wire ss) \<le> CERTIFICATE_MAX_BYTES \<and>
       res = (out @ steps_wire ss, n - formulas_cost (all_formulas ss))"
proof (induction ss arbitrary: out n)
  case (Cons s ss)
  show ?case
  proof (cases "formulas_fit n (step_formulas s) \<and> length out + length (step_wire s) \<le> CERTIFICATE_MAX_BYTES")
    case True
    with Cons show ?thesis by (simp add: encode_step_fits) auto
  next
    case False
    then show ?thesis by (auto dest!: encode_step_Ok)
  qed
qed auto

lemma encode_step_list_not_Panic [simp]: "encode_step_list vec_sink ss st \<noteq> Panic"
  by (induction ss arbitrary: st) (auto simp: encode_step_with_formula_budget_def)

definition certificate_wire :: "proof_step list \<Rightarrow> bytes" where
  "certificate_wire ss = u32_to_be_bytes (of_nat (length ss)) @ steps_wire ss"

definition steps_encodable :: "proof_step list \<Rightarrow> bool" where
  "steps_encodable ss \<longleftrightarrow>
     formulas_fit FORMULA_MAX_NODES (all_formulas ss) \<and> length (certificate_wire ss) \<le> CERTIFICATE_MAX_BYTES"

lemma encode_steps_Ok:
  "length ss < 2 ^ 32 \<Longrightarrow> encode_steps ss = Ok bs \<longleftrightarrow> steps_encodable ss \<and> bs = certificate_wire ss"
  using encode_step_list_Ok [of "u32_to_be_bytes (of_nat (length ss))" ss FORMULA_MAX_NODES]
  by (auto simp: encode_steps_def encode_steps_into_def u32_try_from_Some [THEN iffD2] steps_encodable_def
      certificate_wire_def CERTIFICATE_MAX_FORMULA_NODES_def CERTIFICATE_MAX_BYTES_def)

lemma encode_steps_not_Panic: "length ss < 2 ^ 32 \<Longrightarrow> encode_steps ss \<noteq> Panic"
  by (auto simp: encode_steps_def encode_steps_into_def u32_try_from_def unat_u32_of_nat)

section \<open>Reading a step back\<close>

fun step_ok :: "proof_step \<Rightarrow> bool" where
  "step_ok (ProofReference i) = (length i = 32)"
| "step_ok s = (\<forall>f\<in>set (step_formulas s). pf_ok f)"

lemma read_u8_Ok: "read_u8 (c, n) = Ok (b, st) \<Longrightarrow> \<exists>c'. st = (c', n) \<and> consumes c [b] c'"
  by (auto simp: read_u8_def dest: cursor_read_u8_Some)

lemma read_u32_Ok: "read_u32 (c, n) = Ok (w, st) \<Longrightarrow> \<exists>c'. st = (c', n) \<and> consumes c (u32_to_be_bytes w) c'"
  by (auto simp: read_u32_def dest: cursor_read_u32_Some)

lemma read_bytes_Ok: "read_bytes k (c, n) = Ok (bs, st) \<Longrightarrow> \<exists>c'. st = (c', n) \<and> consumes c bs c' \<and> length bs = k"
  by (auto simp: read_bytes_def dest: cursor_take_Some)

lemma read_formula_Ok:
  assumes "read_formula (c, n) = Ok (f, st)"
  shows "\<exists>c'. st = (c', n - pf_node_count f) \<and> consumes c (formula_wire f) c' \<and> pf_ok f \<and> formulas_fit n [f]"
proof -
  from assms obtain w st' bs c2 k used where *: "read_u32 (c, n) = Ok (w, st')"
    "read_bytes (unat w) st' = Ok (bs, c2, k)" "pf_decode_canonical_with_node_limit bs k = Ok (f, used)"
    "st = (c2, k - used)"
    by (auto simp: read_formula_def split: if_splits)
  from read_u32_Ok [OF *(1)] obtain c1 where c1: "st' = (c1, n)" "consumes c (u32_to_be_bytes w) c1" by blast
  from read_bytes_Ok [OF *(2) [unfolded c1(1)]] have c2: "k = n" "consumes c1 bs c2" "length bs = unat w" by auto
  from *(3) c2(1) have f: "pf_ok f" "pf_admitted n f" "bs = pf_wire f" "used = pf_node_count f"
    by (simp_all add: pf_decode_Ok)
  have "w = of_nat (length (pf_wire f))" using c2(3) f(3) by simp
  with c1(2) c2(1,2) f *(4) consumes_trans [OF c1(2) c2(2)] show ?thesis
    using pf_admitted_count [of n f] by (simp add: formula_wire_def)
qed

lemma read_variable_list_Ok:
  "read_variable_list k (c, n) = Ok (vs, st) \<Longrightarrow> cursor_ok c \<Longrightarrow>
     \<exists>c'. st = (c', n) \<and> consumes c (concat (map u32_to_be_bytes vs)) c' \<and> length vs = k"
proof (induction k arbitrary: c vs st)
  case (Suc k)
  then obtain v st' ws where *: "read_u32 (c, n) = Ok (v, st')" "read_variable_list k st' = Ok (ws, st)" "vs = v # ws"
    by (auto simp: read_variable_def)
  from read_u32_Ok [OF *(1)] obtain c1 where c1: "st' = (c1, n)" "consumes c (u32_to_be_bytes v) c1" by blast
  from Suc.IH [OF *(2) [unfolded c1(1)] consumes_ok [OF c1(2)]] c1 *(3) show ?case
    by (auto intro: consumes_trans)
qed (auto intro: consumes_refl)

lemma read_variables_Ok:
  assumes "read_variables (c, n) = Ok (vs, st)"
  shows "\<exists>c'. st = (c', n) \<and> consumes c (variables_wire vs) c'"
proof -
  from assms obtain w st' where *: "read_u32 (c, n) = Ok (w, st')" "read_variable_list (unat w) st' = Ok (vs, st)"
    by (auto simp: read_variables_def split: if_splits)
  from read_u32_Ok [OF *(1)] obtain c1 where c1: "st' = (c1, n)" "consumes c (u32_to_be_bytes w) c1" by blast
  from read_variable_list_Ok [OF *(2) [unfolded c1(1)] consumes_ok [OF c1(2)]] obtain c2 where
    c2: "st = (c2, n)" "consumes c1 (concat (map u32_to_be_bytes vs)) c2" "length vs = unat w" by blast
  then have "w = of_nat (length vs)" by simp
  with consumes_trans [OF c1(2) c2(2)] c2(1) show ?thesis by (simp add: variables_wire_def)
qed

definition step_read :: "cursor \<Rightarrow> nat \<Rightarrow> proof_step \<Rightarrow> cursor \<times> nat \<Rightarrow> bool" where
  "step_read c n s st \<longleftrightarrow>
     step_ok s \<and> formulas_fit n (step_formulas s) \<and> snd st = n - formulas_cost (step_formulas s) \<and>
     consumes c (fields_wire s) (fst st)"

lemmas read_Ok = read_formula_Ok read_u32_Ok read_u8_Ok read_bytes_Ok read_variables_Ok

lemma read_variable_Ok: "read_variable (c, n) = Ok (w, st) \<Longrightarrow> \<exists>c'. st = (c', n) \<and> consumes c (u32_to_be_bytes w) c'"
  unfolding read_variable_def by (rule read_u32_Ok)

lemma read_formulas2_Ok:
  assumes "read_formulas2 build (c, n) = Ok (s, st)"
  shows "\<exists>a b. s = build a b \<and> pf_ok a \<and> pf_ok b \<and> formulas_fit n [a, b] \<and>
    snd st = n - formulas_cost [a, b] \<and> consumes c (formula_wire a @ formula_wire b) (fst st)"
proof -
  from assms obtain a st' b where *: "read_formula (c, n) = Ok (a, st')" "read_formula st' = Ok (b, st)" "s = build a b"
    by (auto simp: read_formulas2_def)
  from read_formula_Ok [OF *(1)] obtain c1 where c1: "st' = (c1, n - pf_node_count a)" "consumes c (formula_wire a) c1"
    "pf_ok a" "formulas_fit n [a]" by blast
  from read_formula_Ok [OF *(2) [unfolded c1(1)]] c1 *(3) show ?thesis
    by - (rule exI [of _ a], rule exI [of _ b], auto intro: consumes_trans)
qed

lemma read_variables2_formula_Ok:
  assumes "read_variables2_formula build (c, n) = Ok (s, st)"
  shows "\<exists>v w a. s = build v w a \<and> pf_ok a \<and> formulas_fit n [a] \<and> snd st = n - pf_node_count a \<and>
    consumes c (u32_to_be_bytes v @ u32_to_be_bytes w @ formula_wire a) (fst st)"
proof -
  from assms obtain v s1 w s2 a where *: "read_variable (c, n) = Ok (v, s1)" "read_variable s1 = Ok (w, s2)"
    "read_formula s2 = Ok (a, st)" "s = build v w a"
    by (auto simp: read_variables2_formula_def)
  from read_variable_Ok [OF *(1)] obtain c1 where c1: "s1 = (c1, n)" "consumes c (u32_to_be_bytes v) c1" by blast
  from read_variable_Ok [OF *(2) [unfolded c1(1)]] obtain c2 where c2: "s2 = (c2, n)" "consumes c1 (u32_to_be_bytes w) c2" by blast
  from read_formula_Ok [OF *(3) [unfolded c2(1)]] c1(2) c2(2) *(4) show ?thesis
    by - (rule exI [of _ v], rule exI [of _ w], rule exI [of _ a], auto intro!: consumes_trans)
qed

lemma read_separation_Ok:
  assumes "read_separation (c, n) = Ok (s, st)"
  shows "step_read c n s st"
proof -
  from assms obtain p s1 x s2 y s3 z s4 vs where *: "read_formula (c, n) = Ok (p, s1)" "read_variable s1 = Ok (x, s2)"
    "read_variable s2 = Ok (y, s3)" "read_variable s3 = Ok (z, s4)" "read_variables s4 = Ok (vs, st)"
    "s = SeparationStep \<lparr>ps_predicate = p, ps_element = x, ps_source = y, ps_result = z, ps_parameters = vs\<rparr>"
    by (auto simp: read_separation_def)
  let ?m = "n - pf_node_count p"
  from read_formula_Ok [OF *(1)] obtain c1 where c1: "s1 = (c1, ?m)" "consumes c (formula_wire p) c1" "pf_ok p" "formulas_fit n [p]" by blast
  from read_variable_Ok [OF *(2) [unfolded c1(1)]] obtain c2 where c2: "s2 = (c2, ?m)" "consumes c1 (u32_to_be_bytes x) c2" by blast
  from read_variable_Ok [OF *(3) [unfolded c2(1)]] obtain c3 where c3: "s3 = (c3, ?m)" "consumes c2 (u32_to_be_bytes y) c3" by blast
  from read_variable_Ok [OF *(4) [unfolded c3(1)]] obtain c4 where c4: "s4 = (c4, ?m)" "consumes c3 (u32_to_be_bytes z) c4" by blast
  from read_variables_Ok [OF *(5) [unfolded c4(1)]] obtain c5 where c5: "st = (c5, ?m)" "consumes c4 (variables_wire vs) c5" by blast
  from c1 c2 c3 c4 c5 *(6) show ?thesis by (auto simp: step_read_def intro!: consumes_trans)
qed

lemma read_replacement_Ok:
  assumes "read_replacement (c, n) = Ok (s, st)"
  shows "step_read c n s st"
proof -
  from assms obtain p s1 x s2 y s3 z s4 u s5 w s6 vs where *: "read_formula (c, n) = Ok (p, s1)" "read_variable s1 = Ok (x, s2)"
    "read_variable s2 = Ok (y, s3)" "read_variable s3 = Ok (z, s4)" "read_variable s4 = Ok (u, s5)"
    "read_variable s5 = Ok (w, s6)" "read_variables s6 = Ok (vs, st)"
    "s = ReplacementStep \<lparr>pr_predicate = p, pr_input = x, pr_output = y, pr_uniqueness_witness = z,
       pr_source = u, pr_result = w, pr_parameters = vs\<rparr>"
    by (auto simp: read_replacement_def)
  let ?m = "n - pf_node_count p"
  from read_formula_Ok [OF *(1)] obtain c1 where c1: "s1 = (c1, ?m)" "consumes c (formula_wire p) c1" "pf_ok p" "formulas_fit n [p]" by blast
  from read_variable_Ok [OF *(2) [unfolded c1(1)]] obtain c2 where c2: "s2 = (c2, ?m)" "consumes c1 (u32_to_be_bytes x) c2" by blast
  from read_variable_Ok [OF *(3) [unfolded c2(1)]] obtain c3 where c3: "s3 = (c3, ?m)" "consumes c2 (u32_to_be_bytes y) c3" by blast
  from read_variable_Ok [OF *(4) [unfolded c3(1)]] obtain c4 where c4: "s4 = (c4, ?m)" "consumes c3 (u32_to_be_bytes z) c4" by blast
  from read_variable_Ok [OF *(5) [unfolded c4(1)]] obtain c5 where c5: "s5 = (c5, ?m)" "consumes c4 (u32_to_be_bytes u) c5" by blast
  from read_variable_Ok [OF *(6) [unfolded c5(1)]] obtain c6 where c6: "s6 = (c6, ?m)" "consumes c5 (u32_to_be_bytes w) c6" by blast
  from read_variables_Ok [OF *(7) [unfolded c6(1)]] obtain c7 where c7: "st = (c7, ?m)" "consumes c6 (variables_wire vs) c7" by blast
  from c1 c2 c3 c4 c5 c6 c7 *(8) show ?thesis by (auto simp: step_read_def intro!: consumes_trans)
qed

lemma decode_zfc_axiom_Ok: "decode_zfc_axiom b = Ok ax \<longleftrightarrow> b = encode_zfc_axiom ax"
  by (cases ax) (auto simp: decode_zfc_axiom_def)

lemma decode_step_fields_Ok:
  assumes "decode_step (c, n) = Ok (s, st)"
  obtains c' where "consumes c [canonical_tag s] c'" "step_read c' n s st"
proof -
  from assms obtain t st' where r: "read_u8 (c, n) = Ok (t, st')" unfolding decode_step_def by auto
  from read_u8_Ok [OF r] obtain c1 where c1: "st' = (c1, n)" "consumes c [t] c1" by blast
  note d = assms [unfolded decode_step_def r c1(1) and_then.simps prod.case]
  have "t = canonical_tag s \<and> step_read c1 n s st"
  proof -
    consider "t = 0x00" | "t = 0x01" | "t = 0x02" | "t = 0x03" | "t = 0x04" | "t = 0x05" | "t = 0x06" | "t = 0x07"
      | "t = 0x10" | "t = 0x11" | "t = 0x12" | "t = 0x30" | "t = 0x20" | "t = 0x21"
      using d by (simp split: if_splits)
    then show ?thesis
    proof cases
      case 2
      with d obtain a s1 where *: "read_formula (c1, n) = Ok (a, s1)" "read_formulas2 (FregeStep a) s1 = Ok (s, st)" by auto
      from read_formula_Ok [OF *(1)] obtain c2 where c2: "s1 = (c2, n - pf_node_count a)" "consumes c1 (formula_wire a) c2"
        "pf_ok a" "formulas_fit n [a]" by blast
      from read_formulas2_Ok [OF *(2) [unfolded c2(1)]] c2 2 show ?thesis
        by (auto simp: step_read_def intro: consumes_trans)
    next
      case 4
      with d obtain v s1 where *: "read_variable (c1, n) = Ok (v, s1)" "read_formulas2 (DistributionStep v) s1 = Ok (s, st)" by auto
      from read_variable_Ok [OF *(1)] obtain c2 where c2: "s1 = (c2, n)" "consumes c1 (u32_to_be_bytes v) c2" by blast
      from read_formulas2_Ok [OF *(2) [unfolded c2(1)]] c2 4 show ?thesis
        by (auto simp: step_read_def intro: consumes_trans)
    next
      case 13
      with d obtain p s1 i where *: "read_u32 (c1, n) = Ok (p, s1)" "read_u32 s1 = Ok (i, st)" "s = ModusPonensStep p i" by auto
      from read_u32_Ok [OF *(1)] obtain c2 where c2: "s1 = (c2, n)" "consumes c1 (u32_to_be_bytes p) c2" by blast
      from read_u32_Ok [OF *(2) [unfolded c2(1)]] c2 *(3) 13 show ?thesis
        by (auto simp: step_read_def intro: consumes_trans)
    next
      case 14
      with d obtain p s1 v where *: "read_u32 (c1, n) = Ok (p, s1)" "read_variable s1 = Ok (v, st)" "s = GeneralizationStep p v" by auto
      from read_u32_Ok [OF *(1)] obtain c2 where c2: "s1 = (c2, n)" "consumes c1 (u32_to_be_bytes p) c2" by blast
      from read_variable_Ok [OF *(2) [unfolded c2(1)]] c2 *(3) 14 show ?thesis
        by (auto simp: step_read_def intro: consumes_trans)
    next
      case 10
      with d read_separation_Ok [of c1 n s st] show ?thesis by (auto simp: read_separation_def)
    next
      case 11
      with d read_replacement_Ok [of c1 n s st] show ?thesis by (auto simp: read_replacement_def)
    qed (use d in \<open>auto simp: step_read_def decode_zfc_axiom_Ok PROOF_ID_BYTE_LENGTH_def
        dest!: read_formulas2_Ok read_variables2_formula_Ok read_formula_Ok read_variable_Ok read_u8_Ok read_bytes_Ok\<close>)
  qed
  with c1(2) that show thesis by blast
qed

lemma decode_step_Ok:
  assumes "decode_step (c, n) = Ok (s, st)"
  shows "\<exists>c'. st = (c', n - formulas_cost (step_formulas s)) \<and> consumes c (step_wire s) c' \<and> step_ok s \<and>
    formulas_fit n (step_formulas s)"
proof -
  obtain c' where "consumes c [canonical_tag s] c'" "step_read c' n s st"
    using assms by (rule decode_step_fields_Ok)
  then show ?thesis by (cases st) (auto simp: step_read_def step_wire_def intro: consumes_Cons)
qed

lemma read_u8_wire: "cursor_rest c = b # rest \<Longrightarrow> read_u8 (c, n) = Ok (b, advance 1 c, n)"
  by (simp add: read_u8_def cursor_read_u8_rest)

lemma read_u32_wire:
  "cursor_rest c = u32_to_be_bytes w @ rest \<Longrightarrow> cursor_ok c \<Longrightarrow> read_u32 (c, n) = Ok (w, advance 4 c, n)"
  by (simp add: read_u32_def cursor_read_u32_rest)

lemma read_variable_wire:
  "cursor_rest c = u32_to_be_bytes w @ rest \<Longrightarrow> cursor_ok c \<Longrightarrow> read_variable (c, n) = Ok (w, advance 4 c, n)"
  by (simp add: read_variable_def read_u32_wire)

lemma read_bytes_wire:
  "cursor_rest c = bs @ rest \<Longrightarrow> cursor_ok c \<Longrightarrow> length bs = k \<Longrightarrow> read_bytes k (c, n) = Ok (bs, advance k c, n)"
  by (simp add: read_bytes_def cursor_take_rest)

lemma read_formula_wire:
  assumes "cursor_rest c = formula_wire f @ rest" "cursor_ok c" "pf_ok f" "formulas_fit n [f]"
  shows "read_formula (c, n) = Ok (f, advance (length (formula_wire f)) c, n - pf_node_count f)"
proof -
  from assms(4) have adm: "pf_admitted n f" by (simp add: pf_admitted_count [of n])
  have "length (pf_wire f) < 2 ^ 32" using pf_wire_length [OF adm] by (simp add: FORMULA_MAX_BYTES_def)
  then have u: "unat (of_nat (length (pf_wire f)) :: u32) = length (pf_wire f)" by (rule unat_u32_of_nat)
  have 1: "read_u32 (c, n) = Ok (of_nat (length (pf_wire f)), advance 4 c, n)"
    using assms(1,2) by (intro read_u32_wire) (auto simp: formula_wire_def)
  have 2: "read_bytes (length (pf_wire f)) (advance 4 c, n) = Ok (pf_wire f, advance (4 + length (pf_wire f)) c, n)"
    using assms(1,2) read_bytes_wire [of "advance 4 c" "pf_wire f" rest "length (pf_wire f)" n] by (simp add: formula_wire_def)
  have 3: "pf_decode_canonical_with_node_limit (pf_wire f) n = Ok (f, pf_node_count f)"
    using adm assms(3) by (simp add: pf_decode_Ok)
  from 1 2 3 u assms(4) show ?thesis by (simp add: read_formula_def formula_wire_def)
qed

lemma read_variable_list_wire:
  "cursor_rest c = concat (map u32_to_be_bytes vs) @ rest \<Longrightarrow> cursor_ok c \<Longrightarrow>
     read_variable_list (length vs) (c, n) = Ok (vs, advance (4 * length vs) c, n)"
proof (induction vs arbitrary: c)
  case (Cons v vs)
  then have "read_variable (c, n) = Ok (v, advance 4 c, n)" by (intro read_variable_wire) auto
  with Cons show ?case by simp
qed simp

lemma read_variables_wire:
  assumes "cursor_rest c = variables_wire vs @ rest" "cursor_ok c" "length vs < 2 ^ 32"
  shows "read_variables (c, n) = Ok (vs, advance (length (variables_wire vs)) c, n)"
proof -
  have 1: "read_u32 (c, n) = Ok (of_nat (length vs), advance 4 c, n)"
    using assms(1,2) by (intro read_u32_wire) (auto simp: variables_wire_def)
  have 2: "read_variable_list (length vs) (advance 4 c, n) = Ok (vs, advance (4 + 4 * length vs) c, n)"
    using assms(1,2) read_variable_list_wire [of "advance 4 c" vs rest n] by (simp add: variables_wire_def)
  have "length vs \<le> cursor_remaining (advance 4 c) div 4"
    using assms(1) by (simp add: cursor_remaining_rest variables_wire_def)
  with 1 2 assms(3) show ?thesis by (simp add: read_variables_def variables_wire_def unat_u32_of_nat)
qed

lemmas read_wire = read_u8_wire read_u32_wire read_variable_wire read_bytes_wire read_formula_wire read_variables_wire

text \<open>A cursor standing before given bytes, kept abstract so that a chain of reads is a chain of rewrites.\<close>

definition at_bytes :: "cursor \<Rightarrow> bytes \<Rightarrow> bool" where
  "at_bytes c bs \<longleftrightarrow> cursor_ok c \<and> cursor_rest c = bs"

lemma at_advance: "at_bytes c (bs @ rest) \<Longrightarrow> at_bytes (advance (length bs) c) rest"
  by (auto simp: at_bytes_def)

lemma read_variable_at:
  "at_bytes c (u32_to_be_bytes w @ rest) \<Longrightarrow>
     \<exists>c'. read_variable (c, n) = Ok (w, c', n) \<and> at_bytes c' rest"
  using at_advance [of c "u32_to_be_bytes w" rest] read_variable_wire [of c w rest n] by (auto simp: at_bytes_def)

lemma read_formula_at:
  "at_bytes c (formula_wire f @ rest) \<Longrightarrow> pf_ok f \<Longrightarrow> formulas_fit n [f] \<Longrightarrow>
     \<exists>c'. read_formula (c, n) = Ok (f, c', n - pf_node_count f) \<and> at_bytes c' rest"
  using at_advance [of c "formula_wire f" rest] read_formula_wire [of c f rest n] by (auto simp: at_bytes_def)

lemma read_variables_at:
  "at_bytes c (variables_wire vs @ rest) \<Longrightarrow> length vs < 2 ^ 32 \<Longrightarrow>
     \<exists>c'. read_variables (c, n) = Ok (vs, c', n) \<and> at_bytes c' rest"
  using at_advance [of c "variables_wire vs" rest] read_variables_wire [of c vs rest n] by (auto simp: at_bytes_def)

lemma read_formulas2_at:
  assumes "at_bytes c (formula_wire a @ formula_wire b @ rest)" "pf_ok a" "pf_ok b" "formulas_fit n [a, b]"
  shows "\<exists>st. read_formulas2 build (c, n) = Ok (build a b, st)"
proof -
  obtain c1 where c1: "read_formula (c, n) = Ok (a, c1, n - pf_node_count a)" "at_bytes c1 (formula_wire b @ rest)"
    using read_formula_at [OF assms(1,2)] assms(4) by auto
  then show ?thesis
    using read_formula_at [OF c1(2) assms(3), of "n - pf_node_count a"] assms(4) by (auto simp: read_formulas2_def)
qed

lemma read_separation_at:
  assumes "at_bytes c (fields_wire (SeparationStep s) @ rest)" "pf_ok (ps_predicate s)" "formulas_fit n [ps_predicate s]"
    "length (ps_parameters s) < 2 ^ 32"
  shows "\<exists>st. read_separation (c, n) = Ok (SeparationStep s, st)"
proof -
  let ?m = "n - pf_node_count (ps_predicate s)"
  from assms(1) have c: "at_bytes c (formula_wire (ps_predicate s) @ u32_to_be_bytes (ps_element s) @
     u32_to_be_bytes (ps_source s) @ u32_to_be_bytes (ps_result s) @ variables_wire (ps_parameters s) @ rest)" by simp
  obtain c1 where c1: "read_formula (c, n) = Ok (ps_predicate s, c1, ?m)" "at_bytes c1 (u32_to_be_bytes (ps_element s) @
     u32_to_be_bytes (ps_source s) @ u32_to_be_bytes (ps_result s) @ variables_wire (ps_parameters s) @ rest)"
    using read_formula_at [OF c assms(2,3)] by blast
  obtain c2 where c2: "read_variable (c1, ?m) = Ok (ps_element s, c2, ?m)"
    "at_bytes c2 (u32_to_be_bytes (ps_source s) @ u32_to_be_bytes (ps_result s) @ variables_wire (ps_parameters s) @ rest)"
    using read_variable_at [OF c1(2)] by blast
  obtain c3 where c3: "read_variable (c2, ?m) = Ok (ps_source s, c3, ?m)"
    "at_bytes c3 (u32_to_be_bytes (ps_result s) @ variables_wire (ps_parameters s) @ rest)"
    using read_variable_at [OF c2(2)] by blast
  obtain c4 where c4: "read_variable (c3, ?m) = Ok (ps_result s, c4, ?m)" "at_bytes c4 (variables_wire (ps_parameters s) @ rest)"
    using read_variable_at [OF c3(2)] by blast
  obtain c5 where "read_variables (c4, ?m) = Ok (ps_parameters s, c5, ?m)"
    using read_variables_at [OF c4(2) assms(4)] by blast
  with c1(1) c2(1) c3(1) c4(1) show ?thesis by (simp add: read_separation_def)
qed

lemma read_replacement_at:
  assumes "at_bytes c (fields_wire (ReplacementStep s) @ rest)" "pf_ok (pr_predicate s)" "formulas_fit n [pr_predicate s]"
    "length (pr_parameters s) < 2 ^ 32"
  shows "\<exists>st. read_replacement (c, n) = Ok (ReplacementStep s, st)"
proof -
  let ?m = "n - pf_node_count (pr_predicate s)" and ?r = "variables_wire (pr_parameters s) @ rest"
  from assms(1) have c: "at_bytes c (formula_wire (pr_predicate s) @ u32_to_be_bytes (pr_input s) @
     u32_to_be_bytes (pr_output s) @ u32_to_be_bytes (pr_uniqueness_witness s) @
     u32_to_be_bytes (pr_source s) @ u32_to_be_bytes (pr_result s) @ ?r)" by simp
  obtain c1 where c1: "read_formula (c, n) = Ok (pr_predicate s, c1, ?m)" "at_bytes c1 (u32_to_be_bytes (pr_input s) @
     u32_to_be_bytes (pr_output s) @ u32_to_be_bytes (pr_uniqueness_witness s) @
     u32_to_be_bytes (pr_source s) @ u32_to_be_bytes (pr_result s) @ ?r)"
    using read_formula_at [OF c assms(2,3)] by blast
  obtain c2 where c2: "read_variable (c1, ?m) = Ok (pr_input s, c2, ?m)" "at_bytes c2 (u32_to_be_bytes (pr_output s) @
     u32_to_be_bytes (pr_uniqueness_witness s) @ u32_to_be_bytes (pr_source s) @ u32_to_be_bytes (pr_result s) @ ?r)"
    using read_variable_at [OF c1(2)] by blast
  obtain c3 where c3: "read_variable (c2, ?m) = Ok (pr_output s, c3, ?m)"
    "at_bytes c3 (u32_to_be_bytes (pr_uniqueness_witness s) @ u32_to_be_bytes (pr_source s) @ u32_to_be_bytes (pr_result s) @ ?r)"
    using read_variable_at [OF c2(2)] by blast
  obtain c4 where c4: "read_variable (c3, ?m) = Ok (pr_uniqueness_witness s, c4, ?m)"
    "at_bytes c4 (u32_to_be_bytes (pr_source s) @ u32_to_be_bytes (pr_result s) @ ?r)"
    using read_variable_at [OF c3(2)] by blast
  obtain c5 where c5: "read_variable (c4, ?m) = Ok (pr_source s, c5, ?m)" "at_bytes c5 (u32_to_be_bytes (pr_result s) @ ?r)"
    using read_variable_at [OF c4(2)] by blast
  obtain c6 where c6: "read_variable (c5, ?m) = Ok (pr_result s, c6, ?m)" "at_bytes c6 ?r"
    using read_variable_at [OF c5(2)] by blast
  obtain c7 where "read_variables (c6, ?m) = Ok (pr_parameters s, c7, ?m)"
    using read_variables_at [OF c6(2) assms(4)] by blast
  with c1(1) c2(1) c3(1) c4(1) c5(1) c6(1) show ?thesis by (simp add: read_replacement_def)
qed

definition step_fits :: "nat \<Rightarrow> proof_step \<Rightarrow> bool" where
  "step_fits n s \<longleftrightarrow> step_ok s \<and> formulas_fit n (step_formulas s) \<and> length (step_wire s) \<le> CERTIFICATE_MAX_BYTES"

lemma decode_step_at:
  assumes "at_bytes c (step_wire s @ rest)" "step_fits n s"
  shows "\<exists>st. decode_step (c, n) = Ok (s, st)"
proof -
  have tag: "read_u8 (c, n) = Ok (canonical_tag s, advance 1 c, n)"
    using assms(1) by (intro read_u8_wire) (simp add: step_wire_def at_bytes_def)
  have at: "at_bytes (advance 1 c) (fields_wire s @ rest)"
    using at_advance [of c "[canonical_tag s]" "fields_wire s @ rest"] assms(1) by (simp add: step_wire_def)
  show ?thesis
  proof (cases s)
    case (FregeStep a b d)
    with at assms(2) obtain c1 where c1: "read_formula (advance 1 c, n) = Ok (a, c1, n - pf_node_count a)"
      "at_bytes c1 (formula_wire b @ formula_wire d @ rest)"
      using read_formula_at [of "advance 1 c" a "formula_wire b @ formula_wire d @ rest" n] by (auto simp: step_fits_def)
    then show ?thesis
      using read_formulas2_at [OF c1(2), of "n - pf_node_count a" "FregeStep a"] FregeStep assms(2) tag
      by (simp add: decode_step_def step_fits_def)
  next
    case (DistributionStep v a b)
    with at obtain c1 where c1: "read_variable (advance 1 c, n) = Ok (v, c1, n)"
      "at_bytes c1 (formula_wire a @ formula_wire b @ rest)"
      using read_variable_at [of "advance 1 c" v "formula_wire a @ formula_wire b @ rest" n] by auto
    then show ?thesis
      using read_formulas2_at [OF c1(2), of n "DistributionStep v"] DistributionStep assms(2) tag
      by (simp add: decode_step_def step_fits_def)
  next
    case (SeparationStep x)
    then show ?thesis
      using read_separation_at [of "advance 1 c" x rest n] at assms(2) tag
      by (simp add: decode_step_def step_fits_def step_wire_def variables_wire_def CERTIFICATE_MAX_BYTES_def)
  next
    case (ReplacementStep x)
    then show ?thesis
      using read_replacement_at [of "advance 1 c" x rest n] at assms(2) tag
      by (simp add: decode_step_def step_fits_def step_wire_def variables_wire_def CERTIFICATE_MAX_BYTES_def)
  qed (use assms tag in \<open>auto simp: decode_step_def read_wire read_formulas2_def read_variables2_formula_def
        step_wire_def step_fits_def decode_zfc_axiom_Ok PROOF_ID_BYTE_LENGTH_def at_bytes_def\<close>)
qed

lemma decode_step_wire:
  assumes "at_bytes c (step_wire s @ rest)" "step_fits n s"
  shows "\<exists>c'. decode_step (c, n) = Ok (s, c', n - formulas_cost (step_formulas s)) \<and> at_bytes c' rest"
proof -
  obtain st where st: "decode_step (c, n) = Ok (s, st)" using decode_step_at [OF assms] by blast
  from decode_step_Ok [OF st] at_advance [OF assms(1)] show ?thesis
    unfolding st by (auto simp: consumes_def)
qed

lemma decode_step_list_Ok:
  "decode_step_list k p (c, n) = Ok (ss, st) \<Longrightarrow> cursor_ok c \<Longrightarrow> p + k \<le> 2 ^ 32 \<Longrightarrow>
     \<exists>c'. st = (c', n - formulas_cost (all_formulas ss)) \<and> consumes c (steps_wire ss) c' \<and> length ss = k \<and>
       steps_earlier p ss \<and> (\<forall>s\<in>set ss. step_ok s) \<and> formulas_fit n (all_formulas ss)"
proof (induction k arbitrary: p c n ss)
  case (Suc k)
  then obtain s st' rs where *: "decode_step (c, n) = Ok (s, st')" "validate_step_references (of_nat p) s = Ok ()"
    "decode_step_list k (Suc p) st' = Ok (rs, st)" "ss = s # rs" by auto
  from decode_step_Ok [OF *(1)] obtain c1 where c1: "st' = (c1, n - formulas_cost (step_formulas s))"
    "consumes c (step_wire s) c1" "step_ok s" "formulas_fit n (step_formulas s)" by blast
  from Suc.IH [OF *(3) [unfolded c1(1)] consumes_ok [OF c1(2)]] Suc.prems(3) c1 *(2,4) show ?case
    by (auto simp: validate_step_references_Ok intro: consumes_trans)
qed (auto intro: consumes_refl)

lemma decode_step_list_wire:
  "at_bytes c (steps_wire ss @ rest) \<Longrightarrow> steps_earlier p ss \<Longrightarrow> \<forall>s\<in>set ss. step_ok s \<Longrightarrow> formulas_fit n (all_formulas ss) \<Longrightarrow>
     length (steps_wire ss) \<le> CERTIFICATE_MAX_BYTES \<Longrightarrow> p + length ss \<le> 2 ^ 32 \<Longrightarrow>
     \<exists>c' m. decode_step_list (length ss) p (c, n) = Ok (ss, c', m) \<and> at_bytes c' rest"
proof (induction ss arbitrary: c p n)
  case (Cons s ss)
  then have fits: "step_fits n s" by (simp add: step_fits_def)
  obtain c1 where c1: "decode_step (c, n) = Ok (s, c1, n - formulas_cost (step_formulas s))" "at_bytes c1 (steps_wire ss @ rest)"
    using decode_step_wire [of c s "steps_wire ss @ rest" n] Cons.prems(1) fits by auto
  have "validate_step_references (of_nat p) s = Ok ()"
    using Cons.prems(2,6) by (simp add: validate_step_references_Ok)
  moreover obtain c' m where "decode_step_list (length ss) (Suc p) (c1, n - formulas_cost (step_formulas s)) = Ok (ss, c', m)"
    "at_bytes c' rest"
    using Cons.IH [OF c1(2), of "Suc p" "n - formulas_cost (step_formulas s)"] Cons.prems by auto
  ultimately show ?case using c1(1) by simp
qed simp

section \<open>Certificates\<close>

definition cert_ok :: "proof_certificate \<Rightarrow> bool" where
  "cert_ok cert \<longleftrightarrow> cert_steps cert \<noteq> [] \<and> length (cert_steps cert) \<le> 65536 \<and> steps_earlier 0 (cert_steps cert) \<and>
     (\<forall>s\<in>set (cert_steps cert). step_ok s) \<and> steps_encodable (cert_steps cert)"

lemma certificate_new_Ok:
  "certificate_new ss = Ok cert \<longleftrightarrow>
     cert = \<lparr>cert_steps = ss\<rparr> \<and> ss \<noteq> [] \<and> length ss \<le> 65536 \<and> steps_earlier 0 ss \<and> steps_encodable ss"
  by (auto simp: certificate_new_def validate_steps_Ok validate_steps_encoding_Ok encode_steps_Ok)

lemma certificate_new_not_Panic: "certificate_new ss \<noteq> Panic"
proof -
  have "encode_steps ss \<noteq> Panic" if "length ss \<le> 65536"
    using that by (intro encode_steps_not_Panic) simp
  then show ?thesis
    by (auto simp: certificate_new_def validate_steps_not_Panic validate_steps_Ok validate_steps_encoding_eq)
qed

lemma to_canonical_bytes_ok: "cert_ok cert \<Longrightarrow> to_canonical_bytes cert = Some (certificate_wire (cert_steps cert))"
  by (simp add: to_canonical_bytes_def cert_ok_def encode_steps_Ok)

lemma decode_certificate_Ok:
  "decode_certificate bs = Ok cert \<longleftrightarrow> cert_ok cert \<and> bs = certificate_wire (cert_steps cert)"
proof
  assume "decode_certificate bs = Ok cert"
  then obtain w st ss c m where *: "read_u32 (cursor_new bs, FORMULA_MAX_NODES) = Ok (w, st)"
    "decode_step_list (unat w) 0 st = Ok (ss, c, m)" "cursor_remaining c = 0" "cert = \<lparr>cert_steps = ss\<rparr>"
    "length bs \<le> CERTIFICATE_MAX_BYTES" "unat w \<le> 65536" "w \<noteq> 0"
    by (auto simp: decode_certificate_def CERTIFICATE_MAX_FORMULA_NODES_def CERTIFICATE_MAX_STEPS_def split: if_splits)
  from read_u32_Ok [OF *(1)] obtain c1 where c1: "st = (c1, FORMULA_MAX_NODES)" "consumes (cursor_new bs) (u32_to_be_bytes w) c1"
    by blast
  from decode_step_list_Ok [OF *(2) [unfolded c1(1)] consumes_ok [OF c1(2)]] *(6) have
    d: "consumes c1 (steps_wire ss) c" "length ss = unat w" "steps_earlier 0 ss" "\<forall>s\<in>set ss. step_ok s"
    "formulas_fit FORMULA_MAX_NODES (all_formulas ss)" by auto
  have "bs = u32_to_be_bytes w @ steps_wire ss"
    using consumes_rest [OF consumes_trans [OF c1(2) d(1)]] *(3) by (simp add: cursor_remaining_rest)
  then have "bs = certificate_wire ss" by (simp add: certificate_wire_def d(2))
  moreover have "ss \<noteq> []" "length ss \<le> 65536" using d(2) *(6,7) by (auto simp: unat_eq_0)
  ultimately show "cert_ok cert \<and> bs = certificate_wire (cert_steps cert)"
    using d(3-5) *(4,5) by (simp add: cert_ok_def steps_encodable_def)
next
  assume a: "cert_ok cert \<and> bs = certificate_wire (cert_steps cert)"
  let ?ss = "cert_steps cert"
  have n: "unat (of_nat (length ?ss) :: u32) = length ?ss"
    using a by (intro unat_u32_of_nat) (simp add: cert_ok_def)
  have 1: "read_u32 (cursor_new bs, FORMULA_MAX_NODES) = Ok (of_nat (length ?ss), advance 4 (cursor_new bs), FORMULA_MAX_NODES)"
    using a by (intro read_u32_wire) (simp_all add: certificate_wire_def)
  have at: "at_bytes (advance 4 (cursor_new bs)) (steps_wire ?ss @ [])"
    using a by (simp add: at_bytes_def certificate_wire_def)
  obtain c m where 2: "decode_step_list (length ?ss) 0 (advance 4 (cursor_new bs), FORMULA_MAX_NODES) = Ok (?ss, c, m)" "at_bytes c []"
    using decode_step_list_wire [OF at, of 0 FORMULA_MAX_NODES] a
    by (auto simp: cert_ok_def steps_encodable_def certificate_wire_def)
  have "(of_nat (length ?ss) :: u32) \<noteq> 0" using n a by (metis cert_ok_def length_0_conv unat_0)
  with 1 2 n a show "decode_certificate bs = Ok cert"
    by (simp add: decode_certificate_def CERTIFICATE_MAX_FORMULA_NODES_def CERTIFICATE_MAX_STEPS_def cert_ok_def
        steps_encodable_def cursor_remaining_rest at_bytes_def)
qed

lemma step_encoded_length_eq: "step_encoded_length s = and_then (encode_step_with_formula_budget vec_sink s ([], CERTIFICATE_MAX_FORMULA_NODES))
    (\<lambda>(bs, _). map_ok (\<lambda>_. length bs) (ensure_within_byte_limit (length bs)))"
proof -
  have "rel_outcome (=) (\<lambda>st vst. fst st = length (fst vst) \<and> snd st = snd vst)
      (encode_step_with_formula_budget length_sink s (0, CERTIFICATE_MAX_FORMULA_NODES))
      (encode_step_with_formula_budget vec_sink s ([], CERTIFICATE_MAX_FORMULA_NODES))"
    using length_sink.encode_step_view [of "(0, CERTIFICATE_MAX_FORMULA_NODES)" "([], CERTIFICATE_MAX_FORMULA_NODES)" s] by simp
  then show ?thesis
    unfolding step_encoded_length_def
    by (cases "encode_step_with_formula_budget length_sink s (0, CERTIFICATE_MAX_FORMULA_NODES)";
        cases "encode_step_with_formula_budget vec_sink s ([], CERTIFICATE_MAX_FORMULA_NODES)")
      (auto simp: length_sink_def ensure_within_byte_limit_def)
qed

lemma encode_steps_into_length: "encode_steps_into length_sink ss 0 = map_ok length (encode_steps ss)"
  using length_sink.encode_steps_into_view [of 0 ss]
  by (cases "encode_steps_into length_sink ss 0"; cases "encode_steps ss") auto

text \<open>C26. The certificate codec is a bijection: bytes decode to a certificate exactly when the certificate is
  one that the constructor accepts, with well-formed fields, and re-encodes to those bytes; every certificate that
  the constructor accepts has an encoding, within the byte limit, and one with well-formed fields decodes from it.\<close>

theorem certificate_round_trip:
  "(from_canonical_bytes bs = Ok cert \<longleftrightarrow>
     certificate_new (cert_steps cert) = Ok cert \<and> (\<forall>s\<in>set (cert_steps cert). step_ok s) \<and>
     to_canonical_bytes cert = Some bs) \<and>
   (certificate_new ss = Ok built \<longrightarrow>
     (\<exists>out. to_canonical_bytes built = Some out \<and> length out \<le> CERTIFICATE_MAX_BYTES \<and>
        ((\<forall>s\<in>set ss. step_ok s) \<longrightarrow> from_canonical_bytes out = Ok built)))"
proof (intro conjI impI)
  have "certificate_new (cert_steps cert) = Ok cert \<and> (\<forall>s\<in>set (cert_steps cert). step_ok s) \<longleftrightarrow> cert_ok cert"
    by (auto simp: certificate_new_Ok cert_ok_def)
  then show "from_canonical_bytes bs = Ok cert \<longleftrightarrow>
     certificate_new (cert_steps cert) = Ok cert \<and> (\<forall>s\<in>set (cert_steps cert). step_ok s) \<and> to_canonical_bytes cert = Some bs"
    using to_canonical_bytes_ok [of cert] by (auto simp: from_canonical_bytes_def decode_certificate_Ok)
next
  assume "certificate_new ss = Ok built"
  then have new: "built = \<lparr>cert_steps = ss\<rparr>" "ss \<noteq> []" "length ss \<le> 65536" "steps_earlier 0 ss" "steps_encodable ss"
    by (simp_all add: certificate_new_Ok)
  then show "\<exists>out. to_canonical_bytes built = Some out \<and> length out \<le> CERTIFICATE_MAX_BYTES \<and>
        ((\<forall>s\<in>set ss. step_ok s) \<longrightarrow> from_canonical_bytes out = Ok built)"
    by (simp add: to_canonical_bytes_def encode_steps_Ok steps_encodable_def from_canonical_bytes_def
        decode_certificate_Ok cert_ok_def)
qed

text \<open>C27. The three byte sinks agree on every list of steps. The length-only sink fails where the vector sink fails,
  with the same error, and otherwise holds the number of bytes that the vector sink holds, for the whole
  certificate and for one step; so validation accepts exactly what can be encoded. The matching sink accepts
  exactly the canonical bytes.\<close>

theorem byte_sinks_agree:
  "encode_steps_into length_sink ss 0 = map_ok length (encode_steps ss) \<and>
   validate_steps_encoding ss = map_ok (\<lambda>_. ()) (encode_steps ss) \<and>
   step_encoded_length s = and_then (encode_step_with_formula_budget vec_sink s ([], CERTIFICATE_MAX_FORMULA_NODES))
     (\<lambda>(bs, _). if length bs \<le> CERTIFICATE_MAX_BYTES then Ok (length bs)
                else Err (CertificateTooLong (length bs) CERTIFICATE_MAX_BYTES)) \<and>
   (\<forall>bs expected. encode_steps ss = Ok bs \<longrightarrow> steps_match_encoding ss expected = Some (bs = expected))"
  using validate_steps_encoding_eq steps_match_encoding_eq encode_steps_into_length
  unfolding step_encoded_length_eq ensure_within_byte_limit_def
  by (auto simp: not_less intro!: arg_cong2 [where f = and_then])

theorem certificate_round_trip_witness:
  "from_canonical_bytes [0, 0, 0, 1, 0x10, 0] = Ok \<lparr>cert_steps = [ZfcAxiomStep Extensionality]\<rparr> \<and>
   (\<exists>out. to_canonical_bytes \<lparr>cert_steps = [ZfcAxiomStep Choice]\<rparr> = Some out \<and>
      from_canonical_bytes out = Ok \<lparr>cert_steps = [ZfcAxiomStep Choice]\<rparr>)"
proof
  have "certificate_new (cert_steps \<lparr>cert_steps = [ZfcAxiomStep a]\<rparr>) = Ok \<lparr>cert_steps = [ZfcAxiomStep a]\<rparr>" for a
    by (simp add: certificate_new_Ok steps_encodable_def certificate_wire_def
      step_wire_def refs_earlier_def CERTIFICATE_MAX_BYTES_def u32_to_be_bytes_def)
  note new = this [unfolded proof_certificate.simps]
  have "to_canonical_bytes \<lparr>cert_steps = [ZfcAxiomStep Extensionality]\<rparr> = Some [0, 0, 0, 1, 0x10, 0]"
    by (simp add: to_canonical_bytes_def encode_steps_Ok steps_encodable_def certificate_wire_def
      step_wire_def CERTIFICATE_MAX_BYTES_def u32_to_be_bytes_def)
  with certificate_round_trip [THEN conjunct1] new show
    "from_canonical_bytes [0, 0, 0, 1, 0x10, 0] = Ok \<lparr>cert_steps = [ZfcAxiomStep Extensionality]\<rparr>" by simp
  from certificate_round_trip [THEN conjunct2, rule_format, OF new [of Choice]] show
    "\<exists>out. to_canonical_bytes \<lparr>cert_steps = [ZfcAxiomStep Choice]\<rparr> = Some out \<and>
      from_canonical_bytes out = Ok \<lparr>cert_steps = [ZfcAxiomStep Choice]\<rparr>" by auto
qed

theorem byte_sinks_agree_witness:
  "steps_match_encoding [ZfcAxiomStep Choice] [0, 0, 0, 1, 0x10, 6] = Some True \<and>
   encode_steps_into length_sink [ZfcAxiomStep Choice] 0 = Ok 6"
proof -
  have "encode_steps [ZfcAxiomStep Choice] = Ok [0, 0, 0, 1, 0x10, 6]"
    by (simp add: encode_steps_Ok steps_encodable_def certificate_wire_def step_wire_def
        CERTIFICATE_MAX_BYTES_def u32_to_be_bytes_def)
  with byte_sinks_agree [of "[ZfcAxiomStep Choice]"] show ?thesis by simp
qed

end
