(* ===== verification/Identity.thy ===== *)
theory Identity
  imports Naome_Prelude
begin

text \<open>
  Content identities, \<open>naome-proof/src/identity.rs\<close>: the framed and domain-separated byte strings that
  are hashed into statement, proof and artifact identities. Every identity type of the source wraps
  32 bytes; here all of them are byte lists and \<open>key_ok\<close> is the width. SHA-256 comes from a library and
  is a parameter; the only fact used of it is that a digest has 32 bytes (\<open>digest_ok\<close>). No lemma assumes
  collision resistance: where a property needs it, its statement offers a collision among the inputs that were
  hashed as the alternative.
\<close>

type_synonym hash = "bytes \<Rightarrow> bytes"
type_synonym key256 = bytes
type_synonym statement_id = bytes
type_synonym derivation_id = bytes
type_synonym artifact_id = bytes

definition key_ok :: "key256 \<Rightarrow> bool" where
  "key_ok k \<longleftrightarrow> length k = 32"

definition digest_ok :: "hash \<Rightarrow> bool" where
  "digest_ok sha256 \<longleftrightarrow> (\<forall>bs. length (sha256 bs) = 32)"

lemma digest_key_ok [simp]: "digest_ok h \<Longrightarrow> key_ok (h bs)"
  by (simp add: digest_ok_def key_ok_def)

definition collision :: "hash \<Rightarrow> bytes list \<Rightarrow> bool" where
  "collision h inputs \<longleftrightarrow> (\<exists>x\<in>set inputs. \<exists>y\<in>set inputs. x \<noteq> y \<and> h x = h y)"

lemma collision_mono: "collision h xs \<Longrightarrow> set xs \<subseteq> set ys \<Longrightarrow> collision h ys"
  unfolding collision_def by blast

lemma collisionI: "h x = h y \<Longrightarrow> x \<in> set inputs \<Longrightarrow> y \<in> set inputs \<Longrightarrow> x = y \<or> collision h inputs"
  unfolding collision_def by blast

text \<open>A digest for examples, which is not constant: the last 32 bytes of its input.\<close>

definition tail_digest :: hash where
  "tail_digest bs = rev (take 32 (rev bs @ replicate 32 0))"

lemma tail_digest_ok: "digest_ok tail_digest"
  by (auto simp: digest_ok_def tail_digest_def min_def)

definition ascii :: "string \<Rightarrow> bytes" where
  "ascii s = map (\<lambda>c. of_nat (of_char c)) s"

definition FOUNDATION_ID :: bytes where
  "FOUNDATION_ID = ascii ''naome:zfc''"

lemma length_FOUNDATION_ID [simp]: "length FOUNDATION_ID = 9"
  by (simp add: FOUNDATION_ID_def ascii_def)

text \<open>Hashing a length-prefixed field panics for a field of \<open>2^32\<close> bytes or more.\<close>

definition framed :: "bytes \<Rightarrow> bytes option" where
  "framed bs = map_option (\<lambda>n. u32_to_be_bytes n @ bs) (u32_try_from (length bs))"

lemma framed_Some: "framed bs = Some fs \<longleftrightarrow> length bs < 2 ^ 32 \<and> fs = u32_to_be_bytes (of_nat (length bs)) @ bs"
  by (auto simp: framed_def u32_try_from_Some)

lemma framed_None: "framed bs = None \<longleftrightarrow> 2 ^ 32 \<le> length bs"
  using framed_Some [of bs] by (metis (no_types) not_le option.distinct(1) option.exhaust)

lemma u32_to_be_bytes_inj: "u32_to_be_bytes v = u32_to_be_bytes w \<Longrightarrow> v = w"
  by (drule arg_cong [where f = "\<lambda>bs. u32_from_be_bytes (bs ! 0) (bs ! 1) (bs ! 2) (bs ! 3)"])
     (simp add: u32_to_be_bytes_def u32_from_to_be_bytes)

lemma framed_inj: "framed xs = Some fs \<Longrightarrow> framed ys = Some gs \<Longrightarrow> fs @ as = gs @ bs \<Longrightarrow> xs = ys \<and> as = bs"
proof -
  assume a: "framed xs = Some fs" "framed ys = Some gs" "fs @ as = gs @ bs"
  then have len: "length xs < 2 ^ 32" "length ys < 2 ^ 32" by (simp_all add: framed_Some)
  from a have "u32_to_be_bytes (of_nat (length xs)) = u32_to_be_bytes (of_nat (length ys))" and r: "xs @ as = ys @ bs"
    by (auto simp: framed_Some)
  then have "of_nat (length xs) = (of_nat (length ys) :: u32)"
    by (intro u32_to_be_bytes_inj)
  then have "length xs = length ys" using len by (metis unat_u32_of_nat)
  with r show ?thesis by simp
qed

definition scoped_hash :: "hash \<Rightarrow> bytes \<Rightarrow> bytes \<Rightarrow> bytes \<Rightarrow> bytes option" where
  "scoped_hash sha256 domain binding payload =
     map_option
       (\<lambda>n. sha256 (domain @ u32_to_be_bytes (of_nat (length FOUNDATION_ID)) @ FOUNDATION_ID @ binding @ u32_to_be_bytes n @ payload))
       (u32_try_from (length payload))"

definition of_canonical_formula :: "hash \<Rightarrow> bytes \<Rightarrow> statement_id option" where
  "of_canonical_formula sha256 bs = scoped_hash sha256 (ascii ''naome:statement'' @ [0]) [] bs"

definition of_canonical_certificate :: "hash \<Rightarrow> statement_id \<Rightarrow> bytes \<Rightarrow> bytes option" where
  "of_canonical_certificate sha256 statement bs = scoped_hash sha256 (ascii ''naome:proof'' @ [0]) statement bs"

definition from_typed_id :: "hash \<Rightarrow> bytes \<Rightarrow> bytes \<Rightarrow> artifact_id" where
  "from_typed_id sha256 domain identity = sha256 (domain @ identity)"

definition from_proof_id :: "hash \<Rightarrow> bytes \<Rightarrow> artifact_id" where
  "from_proof_id sha256 proof_id = from_typed_id sha256 (ascii ''naome:artifact:proof:v0'' @ [0]) proof_id"

definition from_definition_id :: "hash \<Rightarrow> bytes \<Rightarrow> artifact_id" where
  "from_definition_id sha256 definition_id =
     from_typed_id sha256 (ascii ''naome:artifact:definition:v1'' @ [0]) definition_id"

lemma artifact_id_ok [simp]: "digest_ok h \<Longrightarrow> key_ok (from_proof_id h i)" "digest_ok h \<Longrightarrow> key_ok (from_definition_id h i)"
  by (simp_all add: from_proof_id_def from_definition_id_def from_typed_id_def)

lemma scoped_hash_Some:
  "length payload < 2 ^ 32 \<Longrightarrow> digest_ok h \<Longrightarrow> \<exists>i. scoped_hash h domain binding payload = Some i \<and> key_ok i"
  by (auto simp: scoped_hash_def u32_try_from_Some)

end
