(* ===== verification/Persistent_Map.thy ===== *)
theory Persistent_Map
  imports Identity
begin

text \<open>
  The Patricia map behind the checked state, \<open>naome-checker/src/state/persistent_map.rs\<close>, with the
  key fingerprints of \<open>naome-checker/src/context/fingerprint.rs\<close>. Keys are 32 bytes; a branch tests the
  bit with its index, counted from the most significant bit of the first byte. Sharing of subtrees
  is invisible in a pure model. Locale \<open>finite_map_ops\<close> is the interface the checked state relies on.
\<close>

unbundle bit_operations_syntax

section \<open>Fingerprints\<close>

definition fingerprint_leaf :: "hash \<Rightarrow> key256 \<Rightarrow> bytes" where
  "fingerprint_leaf sha256 key = sha256 (ascii ''naome:checked-map:leaf:v1'' @ [0] @ key)"

definition fingerprint_branch :: "hash \<Rightarrow> nat \<Rightarrow> bytes \<Rightarrow> bytes \<Rightarrow> bytes" where
  "fingerprint_branch sha256 b left right =
     sha256 (ascii ''naome:checked-map:branch:v1'' @ [0] @ [of_nat b] @ left @ right)"

section \<open>Nodes\<close>

datatype 'v pnode =
    PLeaf key256 'v bytes
  | PBranch nat "'v pnode" "'v pnode" bytes

primrec node_fingerprint :: "'v pnode \<Rightarrow> bytes" where
  "node_fingerprint (PLeaf k v fp) = fp"
| "node_fingerprint (PBranch b l r fp) = fp"

definition make_leaf :: "hash \<Rightarrow> key256 \<Rightarrow> 'v \<Rightarrow> 'v pnode" where
  "make_leaf sha256 key v = PLeaf key v (fingerprint_leaf sha256 key)"

definition make_branch :: "hash \<Rightarrow> nat \<Rightarrow> 'v pnode \<Rightarrow> 'v pnode \<Rightarrow> 'v pnode" where
  "make_branch sha256 b left right =
     PBranch b left right (fingerprint_branch sha256 b (node_fingerprint left) (node_fingerprint right))"

definition key_bit :: "key256 \<Rightarrow> nat \<Rightarrow> bool" where
  "key_bit key b \<longleftrightarrow> (key ! (b div 8)) AND (push_bit (7 - b mod 8) 1) \<noteq> 0"

definition leading_zeros :: "u8 \<Rightarrow> nat" where
  "leading_zeros w = length (takeWhile (\<lambda>i. \<not> bit w i) [7, 6, 5, 4, 3, 2, 1, 0])"

fun first_differing_from :: "nat \<Rightarrow> bytes \<Rightarrow> bytes \<Rightarrow> nat option" where
  "first_differing_from byte_index (l # ls) (r # rs) =
     (let differing = l XOR r
      in if differing \<noteq> 0 then
           (let b = byte_index * 8 + leading_zeros differing in if b < 256 then Some b else None)
         else first_differing_from (Suc byte_index) ls rs)"
| "first_differing_from byte_index _ _ = None"

definition first_differing_bit :: "key256 \<Rightarrow> key256 \<Rightarrow> nat option" where
  "first_differing_bit left right = first_differing_from 0 left right"

section \<open>The map\<close>

record 'v persistent_map =
  pm_root :: "'v pnode option"

definition pm_new :: "'v persistent_map" where
  "pm_new = \<lparr>pm_root = None\<rparr>"

definition pm_fingerprint :: "'v persistent_map \<Rightarrow> bytes" where
  "pm_fingerprint m = (case pm_root m of None \<Rightarrow> replicate 32 0 | Some node \<Rightarrow> node_fingerprint node)"

text \<open>The iterator pops the pending stack, left subtrees first; it is the list of what it yields.\<close>

function (sequential) entries_from :: "'v pnode list \<Rightarrow> (key256 \<times> 'v) list" where
  "entries_from [] = []"
| "entries_from (PLeaf key v fp # pending) = (key, v) # entries_from pending"
| "entries_from (PBranch b l r fp # pending) = entries_from (l # r # pending)"
  by pat_completeness auto
termination
  by (relation "measure (\<lambda>ns. sum_list (map (\<lambda>n. 2 * size n + 1) ns))") auto

definition pm_entries :: "'v persistent_map \<Rightarrow> (key256 \<times> 'v) list" where
  "pm_entries m = (case pm_root m of None \<Rightarrow> [] | Some node \<Rightarrow> entries_from [node])"

primrec node_get :: "'v pnode \<Rightarrow> key256 \<Rightarrow> 'v option" where
  "node_get (PLeaf stored_key v fp) key = (if stored_key = key then Some v else None)"
| "node_get (PBranch b l r fp) key = (if key_bit key b then node_get r key else node_get l key)"

definition pm_get :: "'v persistent_map \<Rightarrow> key256 \<Rightarrow> 'v option" where
  "pm_get m key = (case pm_root m of None \<Rightarrow> None | Some node \<Rightarrow> node_get node key)"

definition pm_contains_key :: "'v persistent_map \<Rightarrow> key256 \<Rightarrow> bool" where
  "pm_contains_key m key \<longleftrightarrow> pm_get m key \<noteq> None"

primrec terminal_key :: "'v pnode \<Rightarrow> key256 \<Rightarrow> key256" where
  "terminal_key (PLeaf stored_key v fp) key = stored_key"
| "terminal_key (PBranch b l r fp) key = (if key_bit key b then terminal_key r key else terminal_key l key)"

primrec replace_at :: "hash \<Rightarrow> 'v pnode \<Rightarrow> key256 \<Rightarrow> 'v \<Rightarrow> 'v pnode" where
  "replace_at sha256 (PLeaf stored_key w fp) key v = make_leaf sha256 key v"
| "replace_at sha256 (PBranch b l r fp) key v =
     (if key_bit key b then make_branch sha256 b l (replace_at sha256 r key v)
      else make_branch sha256 b (replace_at sha256 l key v) r)"

definition split_at :: "hash \<Rightarrow> 'v pnode \<Rightarrow> nat \<Rightarrow> key256 \<Rightarrow> 'v \<Rightarrow> 'v pnode" where
  "split_at sha256 node differing_bit key v =
     (let leaf = make_leaf sha256 key v;
          (left, right) = if key_bit key differing_bit then (node, leaf) else (leaf, node)
      in make_branch sha256 differing_bit left right)"

primrec insert_at :: "hash \<Rightarrow> 'v pnode \<Rightarrow> nat \<Rightarrow> key256 \<Rightarrow> 'v \<Rightarrow> 'v pnode" where
  "insert_at sha256 (PLeaf stored_key w fp) differing_bit key v =
     split_at sha256 (PLeaf stored_key w fp) differing_bit key v"
| "insert_at sha256 (PBranch b l r fp) differing_bit key v =
     (if b < differing_bit then
        (if key_bit key b then make_branch sha256 b l (insert_at sha256 r differing_bit key v)
         else make_branch sha256 b (insert_at sha256 l differing_bit key v) r)
      else split_at sha256 (PBranch b l r fp) differing_bit key v)"

definition pm_insert :: "hash \<Rightarrow> 'v persistent_map \<Rightarrow> key256 \<Rightarrow> 'v \<Rightarrow> (bool \<times> 'v persistent_map) option" where
  "pm_insert sha256 m key v =
     (case pm_root m of
        None \<Rightarrow> Some (True, \<lparr>pm_root = Some (make_leaf sha256 key v)\<rparr>)
      | Some root \<Rightarrow>
          let terminal = terminal_key root key
          in if terminal = key then Some (False, m)
             else map_option (\<lambda>differing_bit. (True, \<lparr>pm_root = Some (insert_at sha256 root differing_bit key v)\<rparr>))
               (first_differing_bit terminal key))"

definition pm_set :: "hash \<Rightarrow> 'v persistent_map \<Rightarrow> key256 \<Rightarrow> 'v \<Rightarrow> 'v persistent_map option" where
  "pm_set sha256 m key v =
     (if pm_contains_key m key
      then map_option (\<lambda>root. \<lparr>pm_root = Some (replace_at sha256 root key v)\<rparr>) (pm_root m)
      else map_option snd (pm_insert sha256 m key v))"

section \<open>Bits of a key\<close>

lemma key_bit_iff: "key_bit k b \<longleftrightarrow> bit (k ! (b div 8)) (7 - b mod 8)"
  by (simp add: key_bit_def and_exp_eq_0_iff_not_bit push_bit_of_1)

lemma leading_zeros_bit:
  assumes "w \<noteq> 0"
  shows "leading_zeros w < 8" "bit w (7 - leading_zeros w)" "i < leading_zeros w \<Longrightarrow> \<not> bit w (7 - i)"
proof -
  let ?p = "\<lambda>i. \<not> bit w i"
  have ex: "\<exists>i\<in>{0, 1, 2, 3, 4, 5, 6, 7}. bit w i"
  proof (rule ccontr)
    assume "\<not> ?thesis"
    then have "\<not> bit w n" if "n < 8" for n
      using that by (auto simp: less_Suc_eq numeral_eq_Suc)
    then have "w = 0" by (intro bit_word_eqI) simp
    with assms show False by simp
  qed
  show "leading_zeros w < 8" "bit w (7 - leading_zeros w)" "i < leading_zeros w \<Longrightarrow> \<not> bit w (7 - i)"
    using ex by (auto simp: leading_zeros_def less_Suc_eq numeral_eq_Suc split: if_splits)
qed

text \<open>The bits of a byte list, most significant first, and the first place where two lists differ.\<close>

definition differ_first :: "key256 \<Rightarrow> key256 \<Rightarrow> nat \<Rightarrow> bool" where
  "differ_first k k' d \<longleftrightarrow> key_bit k d \<noteq> key_bit k' d \<and> (\<forall>i<d. key_bit k i = key_bit k' i)"

lemma differ_first_sym: "differ_first k k' d \<Longrightarrow> differ_first k' k d"
  by (auto simp: differ_first_def)

lemma differ_first_unique: "differ_first k k' d \<Longrightarrow> differ_first k k' e \<Longrightarrow> d = e"
  unfolding differ_first_def by (metis linorder_neqE_nat)

lemma key_bit_Cons: "key_bit (x # xs) i = (if i < 8 then bit x (7 - i) else key_bit xs (i - 8))"
proof (cases "i < 8")
  case True
  then show ?thesis by (simp add: key_bit_iff)
next
  case False
  then obtain j where "i = j + 8" by (metis le_add_diff_inverse2 not_less)
  moreover have "(j + 8) div 8 = Suc (j div 8)" by simp
  ultimately show ?thesis by (simp only: key_bit_iff) simp
qed

lemma first_differing_from_Some:
  "length ls = length rs \<Longrightarrow> ls \<noteq> rs \<Longrightarrow> n + length ls \<le> 32 \<Longrightarrow>
     \<exists>d < 8 * length ls. first_differing_from n ls rs = Some (8 * n + d) \<and> differ_first ls rs d"
proof (induction n ls rs rule: first_differing_from.induct)
  case (1 n l ls r rs)
  show ?case
  proof (cases "l = r")
    case True
    with 1 obtain d where "d < 8 * length ls" "first_differing_from (Suc n) ls rs = Some (8 * Suc n + d)" "differ_first ls rs d"
      by auto
    with True show ?thesis
      by (intro exI [of _ "d + 8"]) (auto simp: differ_first_def key_bit_Cons)
  next
    case False
    then have ne: "l XOR r \<noteq> 0" by (auto simp: bit_eq_iff bit_xor_iff)
    note z = leading_zeros_bit [OF ne]
    have "differ_first (l # ls) (r # rs) (leading_zeros (l XOR r))"
      using z by (auto simp: differ_first_def key_bit_Cons bit_xor_iff)
    with z(1) ne 1 show ?thesis
      by (intro exI [of _ "leading_zeros (l XOR r)"]) (auto simp: Let_def)
  qed
qed auto

lemma first_differing_bit_Some:
  assumes "key_ok k" "key_ok k'" "k \<noteq> k'"
  obtains d where "first_differing_bit k k' = Some d" "d < 256" "differ_first k k' d"
  using assms first_differing_from_Some [of k k' 0] by (auto simp: key_ok_def first_differing_bit_def)

lemma key_bits_eq: "key_ok k \<Longrightarrow> key_ok k' \<Longrightarrow> (\<And>i. i < 256 \<Longrightarrow> key_bit k i = key_bit k' i) \<Longrightarrow> k = k'"
  by (metis differ_first_def first_differing_bit_Some)

section \<open>The Patricia invariant\<close>

primrec node_entries :: "'v pnode \<Rightarrow> (key256 \<times> 'v) list" where
  "node_entries (PLeaf k v fp) = [(k, v)]"
| "node_entries (PBranch b l r fp) = node_entries l @ node_entries r"

definition node_keys :: "'v pnode \<Rightarrow> key256 set" where
  "node_keys n = fst ` set (node_entries n)"

lemma node_keys_simps [simp]:
  "node_keys (PLeaf k v fp) = {k}" "node_keys (PBranch b l r fp) = node_keys l \<union> node_keys r"
  "node_keys (make_leaf h k v) = {k}" "node_keys (make_branch h b l r) = node_keys l \<union> node_keys r"
  by (auto simp: node_keys_def make_leaf_def make_branch_def)

lemma mem_node_keys: "k \<in> node_keys n \<longleftrightarrow> (\<exists>v. (k, v) \<in> set (node_entries n))"
  by (force simp: node_keys_def)

primrec patricia :: "hash \<Rightarrow> 'v pnode \<Rightarrow> bool" where
  "patricia h (PLeaf k v fp) \<longleftrightarrow> key_ok k \<and> fp = fingerprint_leaf h k"
| "patricia h (PBranch b l r fp) \<longleftrightarrow> patricia h l \<and> patricia h r \<and> b < 256 \<and>
     fp = fingerprint_branch h b (node_fingerprint l) (node_fingerprint r) \<and>
     (\<forall>k\<in>node_keys l. \<not> key_bit k b) \<and> (\<forall>k\<in>node_keys r. key_bit k b) \<and>
     (\<forall>k\<in>node_keys l \<union> node_keys r. \<forall>k'\<in>node_keys l \<union> node_keys r. \<forall>i<b. key_bit k i = key_bit k' i)"

lemma patricia_make [simp]:
  "patricia h (make_leaf h k v) \<longleftrightarrow> key_ok k"
  "patricia h (make_branch h b l r) \<longleftrightarrow> patricia h l \<and> patricia h r \<and> b < 256 \<and>
     (\<forall>k\<in>node_keys l. \<not> key_bit k b) \<and> (\<forall>k\<in>node_keys r. key_bit k b) \<and>
     (\<forall>k\<in>node_keys l \<union> node_keys r. \<forall>k'\<in>node_keys l \<union> node_keys r. \<forall>i<b. key_bit k i = key_bit k' i)"
  by (simp_all only: make_leaf_def make_branch_def patricia.simps simp_thms)

lemma node_entries_make [simp]:
  "node_entries (make_leaf h k v) = [(k, v)]" "node_entries (make_branch h b l r) = node_entries l @ node_entries r"
  by (simp_all add: make_leaf_def make_branch_def)

lemma patricia_key_ok: "patricia h n \<Longrightarrow> k \<in> node_keys n \<Longrightarrow> key_ok k"
  by (induction n) auto

lemma terminal_key_in: "terminal_key n k \<in> node_keys n"
  by (induction n) auto

lemma node_get_Some: "patricia h n \<Longrightarrow> node_get n k = Some v \<longleftrightarrow> (k, v) \<in> set (node_entries n)"
proof (induction n)
  case (PBranch b l r fp)
  then have "(k, v) \<in> set (node_entries l) \<Longrightarrow> \<not> key_bit k b" "(k, v) \<in> set (node_entries r) \<Longrightarrow> key_bit k b"
    by (force simp: node_keys_def)+
  with PBranch show ?case by auto
qed auto

lemma node_get_None: "patricia h n \<Longrightarrow> node_get n k = None \<longleftrightarrow> k \<notin> node_keys n"
  using node_get_Some [of h n k] by (cases "node_get n k") (auto simp: mem_node_keys)

lemma patricia_distinct: "patricia h n \<Longrightarrow> distinct (map fst (node_entries n))"
proof (induction n)
  case (PBranch b l r fp)
  then have "node_keys l \<inter> node_keys r = {}" by auto
  with PBranch show ?case by (auto simp: node_keys_def)
qed simp

lemma terminal_key_member: "patricia h n \<Longrightarrow> k \<in> node_keys n \<Longrightarrow> terminal_key n k = k"
  by (induction n) auto

lemma patricia_shared:
  "patricia h (PBranch b l r fp) \<Longrightarrow> k \<in> node_keys (PBranch b l r fp) \<Longrightarrow> k' \<in> node_keys (PBranch b l r fp) \<Longrightarrow>
     i < b \<Longrightarrow> key_bit k i = key_bit k' i"
  unfolding patricia.simps node_keys_simps by blast

lemma terminal_key_bit:
  "patricia h (PBranch b l r fp) \<Longrightarrow> key_bit (terminal_key (PBranch b l r fp) k) b = key_bit k b"
  using terminal_key_in [of l k] terminal_key_in [of r k] by auto

lemma split_at_patricia:
  assumes "patricia h n" "key_ok k" "d < 256"
    and "\<And>k'. k' \<in> node_keys n \<Longrightarrow> differ_first k' k d"
  shows "patricia h (split_at h n d k v) \<and> set (node_entries (split_at h n d k v)) = insert (k, v) (set (node_entries n))"
proof -
  have "key_bit k' i = key_bit k'' i" if "k' \<in> node_keys n \<or> k' = k" "k'' \<in> node_keys n \<or> k'' = k" "i < d" for k' k'' i
    using that assms(4) by (auto simp: differ_first_def)
  moreover have "key_bit k' d \<noteq> key_bit k d" if "k' \<in> node_keys n" for k'
    using assms(4) [OF that] by (simp add: differ_first_def)
  ultimately show ?thesis
    using assms(1-3) by (auto simp: split_at_def Let_def)
qed

lemma insert_at_patricia:
  "patricia h n \<Longrightarrow> key_ok k \<Longrightarrow> d < 256 \<Longrightarrow> differ_first (terminal_key n k) k d \<Longrightarrow>
     patricia h (insert_at h n d k v) \<and> set (node_entries (insert_at h n d k v)) = insert (k, v) (set (node_entries n))"
proof (induction n)
  case (PLeaf k' w fp)
  then show ?case using split_at_patricia [of h "PLeaf k' w fp" k d v] by simp
next
  case (PBranch b l r fp)
  let ?n = "PBranch b l r fp"
  have t: "terminal_key ?n k \<in> node_keys ?n" by (rule terminal_key_in)
  have shared: "key_bit k' i = key_bit (terminal_key ?n k) i" if "k' \<in> node_keys ?n" "i < b" for k' i
    using patricia_shared [OF PBranch.prems(1) that(1) t that(2)] .
  show ?case
  proof (cases "b < d")
    case True
    have k: "key_bit k' i = key_bit k i" if "k' \<in> node_keys ?n" "i < b" for k' i
      using shared [OF that] PBranch.prems(4) that(2) True by (simp add: differ_first_def)
    have keys: "node_keys x = insert k (node_keys y)" if "set (node_entries x) = insert (k, v) (set (node_entries y))" for x y :: "'a pnode"
      using that by (simp add: node_keys_def)
    show ?thesis
    proof (cases "key_bit k b")
      case bit: True
      with PBranch have IH: "patricia h (insert_at h r d k v)"
        "set (node_entries (insert_at h r d k v)) = insert (k, v) (set (node_entries r))" by auto
      with True bit PBranch.prems(1) keys [OF IH(2)] k show ?thesis by (auto 0 3)
    next
      case bit: False
      with PBranch have IH: "patricia h (insert_at h l d k v)"
        "set (node_entries (insert_at h l d k v)) = insert (k, v) (set (node_entries l))" by auto
      with True bit PBranch.prems(1) keys [OF IH(2)] k show ?thesis by (auto 0 3)
    qed
  next
    case False
    have "b \<noteq> d"
      using terminal_key_bit [OF PBranch.prems(1), of k] PBranch.prems(4) by (auto simp: differ_first_def)
    with False have "d < b" by simp
    then have "differ_first k' k d" if "k' \<in> node_keys ?n" for k'
      using shared [OF that] PBranch.prems(4) by (simp add: differ_first_def)
    with split_at_patricia [OF PBranch.prems(1-3)] False show ?thesis by simp
  qed
qed

lemma replace_at_patricia:
  "patricia h n \<Longrightarrow> k \<in> node_keys n \<Longrightarrow>
     patricia h (replace_at h n k v) \<and> node_keys (replace_at h n k v) = node_keys n \<and>
     (\<forall>k'. node_get (replace_at h n k v) k' = (if k' = k then Some v else node_get n k'))"
  (is "_ \<Longrightarrow> _ \<Longrightarrow> ?ok n")
proof (induction n)
  case (PLeaf k' w fp)
  then show ?case by (auto simp: make_leaf_def)
next
  case (PBranch b l r fp)
  then have "key_bit k b \<Longrightarrow> k \<in> node_keys r" "\<not> key_bit k b \<Longrightarrow> k \<in> node_keys l" by auto
  with PBranch have IH: "key_bit k b \<Longrightarrow> ?ok r" "\<not> key_bit k b \<Longrightarrow> ?ok l" by simp_all
  show ?case
  proof (cases "key_bit k b")
    case True
    with IH(1) PBranch.prems(1) have "patricia h (make_branch h b l (replace_at h r k v))"
      by (simp only: patricia_make patricia.simps simp_thms) blast
    with True IH(1) show ?thesis by (simp del: patricia_make) (simp add: make_branch_def)
  next
    case False
    with IH(2) PBranch.prems(1) have "patricia h (make_branch h b (replace_at h l k v) r)"
      by (simp only: patricia_make patricia.simps simp_thms) blast
    with False IH(2) show ?thesis by (simp del: patricia_make) (simp add: make_branch_def)
  qed
qed


section \<open>The map as a finite function\<close>

definition pm_ok :: "hash \<Rightarrow> 'v persistent_map \<Rightarrow> bool" where
  "pm_ok h m \<longleftrightarrow> (\<forall>n. pm_root m = Some n \<longrightarrow> patricia h n)"

lemma pm_ok_new [simp]: "pm_ok h pm_new" and pm_get_new [simp]: "pm_get pm_new k = None"
  by (simp_all add: pm_ok_def pm_new_def pm_get_def)

lemma patricia_functional:
  "patricia h n \<Longrightarrow> (k, v) \<in> set (node_entries n) \<Longrightarrow> (k, w) \<in> set (node_entries n) \<Longrightarrow> v = w"
  by (metis node_get_Some option.inject)

lemma insert_at_get:
  assumes "patricia h n" "key_ok k" "d < 256" "differ_first (terminal_key n k) k d"
  shows "node_get (insert_at h n d k v) k' = (if k' = k then Some v else node_get n k')"
proof -
  note I = insert_at_patricia [OF assms, of v]
  have "k \<notin> node_keys n"
    using assms(4) terminal_key_member [OF assms(1)] by (auto simp: differ_first_def)
  then have "node_get (insert_at h n d k v) k' = Some w \<longleftrightarrow> (if k' = k then Some v else node_get n k') = Some w" for w
    using I by (auto simp: node_get_Some [OF assms(1)] node_get_Some [of h "insert_at h n d k v"] mem_node_keys)
  then show ?thesis by (metis option.exhaust)
qed

lemma pm_insert_ok:
  assumes "pm_ok h m" "key_ok k"
  obtains m' where "pm_insert h m k v = Some (pm_get m k = None, m')" "pm_ok h m'"
    "\<And>k'. pm_get m' k' = (if k' = k \<and> pm_get m k = None then Some v else pm_get m k')"
proof (cases "pm_root m")
  case None
  with assms(2) show ?thesis
    by (intro that [of "\<lparr>pm_root = Some (make_leaf h k v)\<rparr>"])
       (auto simp: pm_insert_def pm_get_def pm_ok_def make_leaf_def)
next
  case (Some n)
  with assms(1) have n: "patricia h n" by (simp add: pm_ok_def)
  show ?thesis
  proof (cases "terminal_key n k = k")
    case True
    with terminal_key_in [of n k] have "node_get n k \<noteq> None" by (simp add: node_get_None [OF n])
    with True Some assms(1) show ?thesis
      by (intro that [of m]) (auto simp: pm_insert_def pm_get_def Let_def)
  next
    case False
    then have fresh: "node_get n k = None"
      using terminal_key_member [OF n] by (auto simp: node_get_None [OF n])
    from first_differing_bit_Some [OF patricia_key_ok [OF n terminal_key_in] assms(2) False]
    obtain d where d: "first_differing_bit (terminal_key n k) k = Some d" "d < 256" "differ_first (terminal_key n k) k d" .
    show ?thesis
      using insert_at_patricia [OF n assms(2) d(2,3), of v] insert_at_get [OF n assms(2) d(2,3), of v] False Some fresh d(1)
      by (intro that [of "\<lparr>pm_root = Some (insert_at h n d k v)\<rparr>"]) (auto simp: pm_insert_def pm_get_def pm_ok_def Let_def)
  qed
qed

lemma pm_set_ok:
  assumes "pm_ok h m" "key_ok k"
  obtains m' where "pm_set h m k v = Some m'" "pm_ok h m'" "\<And>k'. pm_get m' k' = (if k' = k then Some v else pm_get m k')"
proof (cases "pm_contains_key m k")
  case True
  then obtain n w where "pm_root m = Some n" "node_get n k = Some w"
    by (auto simp: pm_contains_key_def pm_get_def split: option.splits)
  with assms(1) have n: "pm_root m = Some n" "k \<in> node_keys n" "patricia h n"
    by (auto simp: pm_ok_def node_get_Some mem_node_keys)
  from replace_at_patricia [OF n(3,2), of v] n True show ?thesis
    by (intro that [of "\<lparr>pm_root = Some (replace_at h n k v)\<rparr>"]) (auto simp: pm_set_def pm_ok_def pm_get_def)
next
  case False
  then have "pm_get m k = None" by (simp add: pm_contains_key_def)
  with False show ?thesis
    by (rule_tac pm_insert_ok [OF assms, of v]) (rule that, auto simp: pm_set_def)
qed

section \<open>Order and content\<close>

text \<open>The lexicographic order that the source derives for arrays of bytes.\<close>

fun bytes_less :: "bytes \<Rightarrow> bytes \<Rightarrow> bool" where
  "bytes_less (x # xs) (y # ys) \<longleftrightarrow> x < y \<or> x = y \<and> bytes_less xs ys"
| "bytes_less [] (y # ys) \<longleftrightarrow> True"
| "bytes_less xs [] \<longleftrightarrow> False"

lemma bytes_less_irrefl: "\<not> bytes_less xs xs"
  by (induction xs) simp_all

lemma entries_from_append: "entries_from ns = concat (map node_entries ns)"
  by (induction ns rule: entries_from.induct) auto

lemma pm_entries_node: "pm_entries m = (case pm_root m of None \<Rightarrow> [] | Some n \<Rightarrow> node_entries n)"
  by (simp add: pm_entries_def entries_from_append split: option.split)

lemma pm_entries_get: "pm_ok h m \<Longrightarrow> (k, v) \<in> set (pm_entries m) \<longleftrightarrow> pm_get m k = Some v"
  by (auto simp: pm_entries_node pm_get_def pm_ok_def node_get_Some split: option.split)

lemma nat_less_bit:
  fixes a b :: nat
  assumes "a div 2 ^ Suc m = b div 2 ^ Suc m" "bit a m \<noteq> bit b m"
  shows "a < b \<longleftrightarrow> bit b m"
proof -
  have half: "c div 2 ^ m = 2 * (c div 2 ^ Suc m) + of_bool (bit c m)" for c :: nat
    by (simp add: bit_iff_odd div_mult2_eq mult.commute [of 2] flip: mod_2_eq_odd)
  have "a div 2 ^ m < b div 2 ^ m \<longleftrightarrow> bit b m" "b div 2 ^ m < a div 2 ^ m \<longleftrightarrow> bit a m"
    using assms by (auto simp only: half) auto
  then show ?thesis using assms(2) by (metis div_le_mono leD linorder_neqE_nat less_imp_le_nat)
qed

lemma u8_less_bits:
  fixes x y :: u8
  assumes "i < 8" "bit x (7 - i) \<noteq> bit y (7 - i)" "\<forall>j<i. bit x (7 - j) = bit y (7 - j)"
  shows "x < y \<longleftrightarrow> bit y (7 - i)"
proof -
  have "bit x j = bit y j" if "Suc (7 - i) \<le> j" for j
  proof (cases "j < 8")
    case True
    with that assms(1) have "7 - j < i" "7 - (7 - j) = j" by auto
    with assms(3) show ?thesis by metis
  next
    case False
    then show ?thesis by (auto dest: bit_imp_le_length)
  qed
  then have "drop_bit (Suc (7 - i)) x = drop_bit (Suc (7 - i)) y"
    by (auto simp: bit_eq_iff bit_drop_bit_eq)
  then have "unat x div 2 ^ Suc (7 - i) = unat y div 2 ^ Suc (7 - i)"
    by (metis unat_drop_bit_eq drop_bit_eq_div)
  from nat_less_bit [OF this] assms(2) show ?thesis by (simp add: word_less_nat_alt bit_unsigned_iff)
qed

lemma u8_bits_eq:
  fixes x y :: u8
  assumes "\<And>j. j < 8 \<Longrightarrow> bit x (7 - j) = bit y (7 - j)"
  shows "x = y"
proof (rule bit_word_eqI)
  fix n assume "n < LENGTH(8)"
  then have "7 - n < 8" "7 - (7 - n) = n" by auto
  with assms [of "7 - n"] show "bit x n = bit y n" by simp
qed

lemma bytes_less_bit:
  "length k = length k' \<Longrightarrow> differ_first k k' d \<Longrightarrow> d < 8 * length k \<Longrightarrow> bytes_less k k' \<longleftrightarrow> key_bit k' d"
proof (induction k k' arbitrary: d rule: list_induct2)
  case (Cons x xs y ys)
  show ?case
  proof (cases "d < 8")
    case True
    with Cons.prems(1) have "bit x (7 - d) \<noteq> bit y (7 - d)" "\<forall>j<d. bit x (7 - j) = bit y (7 - j)"
      by (auto simp: differ_first_def key_bit_Cons)
    with u8_less_bits [OF True this] True show ?thesis by (auto simp: key_bit_Cons)
  next
    case False
    have agree: "key_bit (x # xs) j = key_bit (y # ys) j" if "j < d" for j
      using Cons.prems(1) that by (simp add: differ_first_def)
    have "x = y"
    proof (rule u8_bits_eq)
      fix j :: nat assume "j < 8"
      with agree [of j] False show "bit x (7 - j) = bit y (7 - j)" by (simp add: key_bit_Cons)
    qed
    moreover have "key_bit xs j = key_bit ys j" if "j < d - 8" for j
      using agree [of "j + 8"] that by (simp add: key_bit_Cons)
    then have "differ_first xs ys (d - 8)"
      using False Cons.prems(1) by (simp add: differ_first_def key_bit_Cons)
    moreover from False Cons.prems(2) have "d - 8 < 8 * length xs" by simp
    ultimately show ?thesis using Cons.IH False by (simp add: key_bit_Cons)
  qed
qed simp

lemma node_entries_sorted: "patricia h n \<Longrightarrow> sorted_wrt bytes_less (map fst (node_entries n))"
proof (induction n)
  case (PBranch b l r fp)
  have "bytes_less k k'" if "k \<in> node_keys l" "k' \<in> node_keys r" for k k'
  proof -
    have "differ_first k k' b" "key_bit k' b" "b < 256"
      using PBranch.prems that patricia_shared [OF PBranch.prems, of k k'] by (auto simp: differ_first_def)
    moreover have "key_ok k" "key_ok k'"
      using that patricia_key_ok [of h l k] patricia_key_ok [of h r k'] PBranch.prems by auto
    ultimately show ?thesis by (simp add: bytes_less_bit key_ok_def)
  qed
  with PBranch show ?case by (simp add: sorted_wrt_append node_keys_def)
qed simp

text \<open>The shape of a node is a function of its keys: a branch sits at the first bit on which they differ.\<close>

lemma patricia_branch_unique:
  assumes "patricia h (PBranch b l r fp)" "patricia h (PBranch b' l' r' fp')"
    "node_keys (PBranch b l r fp) = node_keys (PBranch b' l' r' fp')"
  shows "b \<le> b'"
proof (rule ccontr)
  assume "\<not> b \<le> b'"
  then have "b' < b" by simp
  obtain k k' where k: "k \<in> node_keys l'" "k' \<in> node_keys r'" using terminal_key_in by blast
  with assms(2) have "key_bit k b' \<noteq> key_bit k' b'" by simp
  moreover have "key_bit k b' = key_bit k' b'"
    using k patricia_shared [OF assms(1) _ _ \<open>b' < b\<close>, unfolded assms(3), of k k'] by simp
  ultimately show False by simp
qed

lemma patricia_branch_many: "patricia h (PBranch b l r fp) \<Longrightarrow> node_keys (PBranch b l r fp) \<noteq> {k}"
  using terminal_key_in [of l k] terminal_key_in [of r k] unfolding patricia.simps node_keys_simps
  by (metis UnI1 UnI2 singletonD)

lemma patricia_sides:
  assumes "patricia h (PBranch b l r fp)"
  shows "node_keys l = {k \<in> node_keys (PBranch b l r fp). \<not> key_bit k b}"
    and "node_keys r = {k \<in> node_keys (PBranch b l r fp). key_bit k b}"
  using assms by auto

lemma patricia_content_fingerprint:
  "patricia h n \<Longrightarrow> patricia h n' \<Longrightarrow> node_keys n = node_keys n' \<Longrightarrow> node_fingerprint n = node_fingerprint n'"
proof (induction n arbitrary: n')
  case (PLeaf k v fp)
  then show ?case
  proof (cases n')
    case (PBranch b' l' r' fp')
    with PLeaf.prems have "node_keys (PBranch b' l' r' fp') = {k}" by (simp only: node_keys_simps)
    with patricia_branch_many [OF PLeaf.prems(2) [unfolded PBranch]] show ?thesis by (rule notE)
  qed simp
next
  case (PBranch b l r fp)
  show ?case
  proof (cases n')
    case (PLeaf k v fp')
    with PBranch.prems(3) have "node_keys (PBranch b l r fp) = {k}" by (simp only: node_keys_simps)
    with patricia_branch_many [OF PBranch.prems(1)] show ?thesis by (rule notE)
  next
    case n': (PBranch b' l' r' fp')
    with PBranch.prems patricia_branch_unique have "b = b'" by (metis le_antisym)
    with PBranch.prems n' have "node_keys l = node_keys l'" "node_keys r = node_keys r'"
      using patricia_sides [OF PBranch.prems(1)] patricia_sides [of h b' l' r' fp'] by (simp_all only:)
    then have "node_fingerprint l = node_fingerprint l'" "node_fingerprint r = node_fingerprint r'"
      using PBranch.IH [of l'] PBranch.IH [of r'] PBranch.prems(1,2) n' by (simp_all only: patricia.simps)
    with PBranch.prems(1,2) n' \<open>b = b'\<close> show ?thesis
      by (simp only: patricia.simps node_fingerprint.simps)
  qed
qed

lemma pm_ok_Some: "pm_ok h m \<Longrightarrow> pm_root m = Some n \<Longrightarrow> patricia h n"
  by (simp add: pm_ok_def)

lemma pm_dom: "pm_ok h m \<Longrightarrow> dom (pm_get m) = (case pm_root m of None \<Rightarrow> {} | Some n \<Rightarrow> node_keys n)"
  by (auto simp: pm_get_def dom_def mem_node_keys node_get_Some pm_ok_def split: option.split)

lemma pm_get_key_ok: "pm_ok h m \<Longrightarrow> pm_get m k = Some v \<Longrightarrow> key_ok k"
  by (auto simp: pm_get_def node_get_Some [OF pm_ok_Some] intro!: patricia_key_ok [OF pm_ok_Some] mem_node_keys [THEN iffD2]
      split: option.splits)

lemma pm_fingerprint_content:
  fixes m :: "'a persistent_map" and m' :: "'b persistent_map"
  assumes "pm_ok h m" "pm_ok h m'" "dom (pm_get m) = dom (pm_get m')"
  shows "pm_fingerprint m = pm_fingerprint m'"
proof -
  have "node_keys n \<noteq> {}" for n :: "'a pnode" using terminal_key_in by blast
  moreover have "node_keys n \<noteq> {}" for n :: "'b pnode" using terminal_key_in by blast
  moreover have "(case pm_root m of None \<Rightarrow> {} | Some n \<Rightarrow> node_keys n) = (case pm_root m' of None \<Rightarrow> {} | Some n \<Rightarrow> node_keys n)"
    using assms by (simp add: pm_dom)
  ultimately show ?thesis
    using pm_ok_Some [OF assms(1)] pm_ok_Some [OF assms(2)]
    by (auto simp: pm_fingerprint_def split: option.splits intro: patricia_content_fingerprint)
qed

text \<open>Conversely a fingerprint determines the keys, up to a collision among the inputs hashed in the two trees.\<close>

definition leaf_input :: "key256 \<Rightarrow> bytes" where
  "leaf_input key = ascii ''naome:checked-map:leaf:v1'' @ [0] @ key"

definition branch_input :: "nat \<Rightarrow> bytes \<Rightarrow> bytes \<Rightarrow> bytes" where
  "branch_input b left right = ascii ''naome:checked-map:branch:v1'' @ [0] @ [of_nat b] @ left @ right"

primrec node_inputs :: "'v pnode \<Rightarrow> bytes list" where
  "node_inputs (PLeaf k v fp) = [leaf_input k]"
| "node_inputs (PBranch b l r fp) = branch_input b (node_fingerprint l) (node_fingerprint r) # node_inputs l @ node_inputs r"

definition map_inputs :: "'v persistent_map \<Rightarrow> bytes list" where
  "map_inputs m = (case pm_root m of None \<Rightarrow> [] | Some node \<Rightarrow> node_inputs node)"

lemma leaf_not_branch [simp]: "leaf_input k \<noteq> branch_input b l r" "branch_input b l r \<noteq> leaf_input k"
  by (simp_all add: leaf_input_def branch_input_def ascii_def)

lemma leaf_input_eq [simp]: "leaf_input k = leaf_input k' \<longleftrightarrow> k = k'"
  by (simp add: leaf_input_def)

lemma branch_input_eq:
  assumes "length l = length l'" "b < 256" "b' < 256"
  shows "branch_input b l r = branch_input b' l' r' \<longleftrightarrow> b = b' \<and> l = l' \<and> r = r'"
proof -
  have "(of_nat b :: u8) = of_nat b' \<longleftrightarrow> b = b'" using assms(2,3) by (simp add: word_of_nat_eq_iff take_bit_eq_mod)
  then show ?thesis using assms(1) by (simp add: branch_input_def)
qed

lemma node_fingerprint_width: "digest_ok h \<Longrightarrow> patricia h n \<Longrightarrow> length (node_fingerprint n) = 32"
  by (cases n) (simp_all add: fingerprint_leaf_def fingerprint_branch_def digest_ok_def)

lemma node_fingerprint_input: "patricia h n \<Longrightarrow> \<exists>x\<in>set (node_inputs n). node_fingerprint n = h x"
  by (cases n) (auto simp: fingerprint_leaf_def fingerprint_branch_def leaf_input_def branch_input_def)

lemma fingerprint_determines_keys:
  assumes "digest_ok h"
  shows "patricia h n \<Longrightarrow> patricia h n' \<Longrightarrow> node_fingerprint n = node_fingerprint n' \<Longrightarrow>
    node_keys n = node_keys n' \<or> collision h (node_inputs n @ node_inputs n')"
proof (induction n arbitrary: n')
  case (PLeaf k v fp)
  show ?case
  proof (cases n')
    case (PLeaf k' v' fp')
    with PLeaf.prems have "h (leaf_input k) = h (leaf_input k')" by (simp add: fingerprint_leaf_def leaf_input_def)
    from collisionI [where h = h, OF this, of "[leaf_input k, leaf_input k']"] PLeaf show ?thesis by auto
  next
    case (PBranch b l r fp')
    with PLeaf.prems have "h (leaf_input k) = h (branch_input b (node_fingerprint l) (node_fingerprint r))"
      by (simp add: fingerprint_leaf_def fingerprint_branch_def leaf_input_def branch_input_def)
    from collisionI [where h = h, OF this, of "node_inputs (PLeaf k v fp) @ node_inputs n'"] PBranch show ?thesis by auto
  qed
next
  case (PBranch b l r fp)
  let ?in = "branch_input b (node_fingerprint l) (node_fingerprint r)"
  have fp: "fp = h ?in" using PBranch.prems(1) by (simp add: fingerprint_branch_def branch_input_def)
  show ?case
  proof (cases n')
    case (PLeaf k v fp')
    with PBranch.prems fp have "h ?in = h (leaf_input k)" by (simp add: fingerprint_leaf_def leaf_input_def)
    from collisionI [where h = h, OF this, of "node_inputs (PBranch b l r fp) @ node_inputs n'"] PLeaf show ?thesis by auto
  next
    case n': (PBranch b' l' r' fp')
    let ?all = "node_inputs (PBranch b l r fp) @ node_inputs n'"
    let ?in' = "branch_input b' (node_fingerprint l') (node_fingerprint r')"
    have "h ?in = h ?in'" using PBranch.prems n' fp by (simp add: fingerprint_branch_def branch_input_def)
    from collisionI [where h = h, OF this, of ?all] n' have "?in = ?in' \<or> collision h ?all" by simp
    moreover have "length (node_fingerprint l) = length (node_fingerprint l')" "b < 256" "b' < 256"
      using node_fingerprint_width [OF assms, of l] node_fingerprint_width [OF assms, of l'] PBranch.prems(1,2) n' by simp_all
    moreover have "node_keys l = node_keys l' \<or> collision h ?all" if "node_fingerprint l = node_fingerprint l'"
      using PBranch.IH(1) [OF _ _ that] PBranch.prems(1,2) n' collision_mono [of h "node_inputs l @ node_inputs l'" ?all] by auto
    moreover have "node_keys r = node_keys r' \<or> collision h ?all" if "node_fingerprint r = node_fingerprint r'"
      using PBranch.IH(2) [OF _ _ that] PBranch.prems(1,2) n' collision_mono [of h "node_inputs r @ node_inputs r'" ?all] by auto
    ultimately show ?thesis using n' branch_input_eq by (metis node_keys_simps(2))
  qed
qed

lemma pm_fingerprint_width: "digest_ok h \<Longrightarrow> pm_ok h m \<Longrightarrow> length (pm_fingerprint m) = 32"
  by (auto simp: pm_fingerprint_def pm_ok_def node_fingerprint_width split: option.split)

lemma pm_fingerprint_determines_keys:
  assumes "digest_ok h" "pm_ok h m" "pm_ok h m'" "pm_fingerprint m = pm_fingerprint m'"
  shows "dom (pm_get m) = dom (pm_get m') \<or> collision h (map_inputs m @ map_inputs m') \<or>
    (\<exists>x\<in>set (map_inputs m @ map_inputs m'). h x = replicate 32 0)"
proof (cases "pm_root m")
  case root: (Some n)
  from pm_ok_Some [OF assms(2) root] have n: "patricia h n" .
  show ?thesis
  proof (cases "pm_root m'")
    case None
    then have "node_fingerprint n = replicate 32 0" using root assms(4) by (simp add: pm_fingerprint_def)
    then show ?thesis using node_fingerprint_input [OF n] root by (auto simp: map_inputs_def)
  next
    case (Some n')
    then have "node_fingerprint n = node_fingerprint n'" using root assms(4) by (simp add: pm_fingerprint_def)
    from fingerprint_determines_keys [OF assms(1) n pm_ok_Some [OF assms(3) Some] this] show ?thesis
      using root Some by (auto simp: pm_dom [OF assms(2)] pm_dom [OF assms(3)] map_inputs_def)
  qed
next
  case root: None
  show ?thesis
  proof (cases "pm_root m'")
    case (Some n')
    then have "node_fingerprint n' = replicate 32 0" using root assms(4) by (simp add: pm_fingerprint_def)
    then show ?thesis using node_fingerprint_input [OF pm_ok_Some [OF assms(3) Some]] Some by (auto simp: map_inputs_def)
  qed (use root in \<open>simp add: pm_dom [OF assms(2)] pm_dom [OF assms(3)]\<close>)
qed

lemma pm_entries_map_of: "pm_ok h m \<Longrightarrow> map_of (pm_entries m) = pm_get m"
proof (rule ext)
  fix k assume ok: "pm_ok h m"
  have "distinct (map fst (pm_entries m))"
    using ok by (auto simp: pm_entries_node pm_ok_def patricia_distinct split: option.split)
  then show "map_of (pm_entries m) k = pm_get m k"
    using pm_entries_get [OF ok, of k] by (cases "pm_get m k") (auto simp: map_of_eq_None_iff)
qed

lemma pm_entries_sorted: "pm_ok h m \<Longrightarrow> sorted_wrt bytes_less (map fst (pm_entries m))"
  by (auto simp: pm_entries_node pm_ok_def node_entries_sorted split: option.split)

section \<open>The interface of the map\<close>

text \<open>
  What the owners of a map rely on: it is a finite function that \<open>insert\<close> extends without replacing an
  entry, that \<open>set\<close> overrides, and that neither operation can fail for keys of 32 bytes. The states of
  \<open>ArtifactState\<close> and \<open>KnowledgeIndex\<close> are made of such maps.
\<close>

locale finite_map_ops =
  fixes ok :: "'m \<Rightarrow> bool" and new :: 'm and get :: "'m \<Rightarrow> 'k \<Rightarrow> 'v option"
    and insert :: "'m \<Rightarrow> 'k \<Rightarrow> 'v \<Rightarrow> (bool \<times> 'm) option" and set :: "'m \<Rightarrow> 'k \<Rightarrow> 'v \<Rightarrow> 'm option"
    and key :: "'k \<Rightarrow> bool"
  assumes new_ok: "ok new" and get_new: "get new k = None"
    and insert_ok: "ok m \<Longrightarrow> key k \<Longrightarrow> \<exists>m'. insert m k v = Some (get m k = None, m') \<and> ok m' \<and>
          get m' = (if get m k = None then (get m)(k \<mapsto> v) else get m)"
    and set_ok: "ok m \<Longrightarrow> key k \<Longrightarrow> \<exists>m'. set m k v = Some m' \<and> ok m' \<and> get m' = (get m)(k \<mapsto> v)"
begin

lemma insertE:
  assumes "ok m" "key k"
  obtains m' where "insert m k v = Some (get m k = None, m')" "ok m'"
    "get m' = (if get m k = None then (get m)(k \<mapsto> v) else get m)"
  using insert_ok [OF assms] by blast

lemma setE:
  assumes "ok m" "key k"
  obtains m' where "set m k v = Some m'" "ok m'" "get m' = (get m)(k \<mapsto> v)"
  using set_ok [OF assms] by blast

end

interpretation pm: finite_map_ops "pm_ok h" pm_new pm_get "pm_insert h" "pm_set h" key_ok for h :: hash
proof
  show "\<exists>m'. pm_insert h m k v = Some (pm_get m k = None, m') \<and> pm_ok h m' \<and>
      pm_get m' = (if pm_get m k = None then (pm_get m)(k \<mapsto> v) else pm_get m)"
    if "pm_ok h m" "key_ok k" for m :: "'a persistent_map" and k v
    by (rule pm_insert_ok [OF that, of v]) (auto simp: fun_eq_iff)
  show "\<exists>m'. pm_set h m k v = Some m' \<and> pm_ok h m' \<and> pm_get m' = (pm_get m)(k \<mapsto> v)"
    if "pm_ok h m" "key_ok k" for m :: "'a persistent_map" and k v
    by (rule pm_set_ok [OF that, of v]) (auto simp: fun_eq_iff)
qed simp_all

text \<open>The maps that a sequence of insertions and settings can build.\<close>

inductive pm_built :: "hash \<Rightarrow> 'v persistent_map \<Rightarrow> bool" for h where
  pm_built_new: "pm_built h pm_new"
| pm_built_insert: "pm_built h m \<Longrightarrow> key_ok k \<Longrightarrow> pm_insert h m k v = Some (b, m') \<Longrightarrow> pm_built h m'"
| pm_built_set: "pm_built h m \<Longrightarrow> key_ok k \<Longrightarrow> pm_set h m k v = Some m' \<Longrightarrow> pm_built h m'"

lemma pm_built_ok: "pm_built h m \<Longrightarrow> pm_ok h m"
proof (induction rule: pm_built.induct)
  case (pm_built_insert m k v b m')
  then show ?case using pm.insertE [of h m k v] by fastforce
next
  case (pm_built_set m k v m')
  then show ?case using pm.setE [of h m k v] by fastforce
qed simp

section \<open>Properties\<close>

text \<open>C30. A map of 256-bit keys that any sequence of insertions and settings builds is a finite function: an
  insertion reports whether the key was absent and adds the entry exactly in that case, a setting
  always overrides, neither panics, every other entry is kept, and the iterator yields each entry
  once, in ascending order of the keys.\<close>

theorem persistent_map_refines_function:
  assumes "pm_built h m" "key_ok k"
  shows "(\<exists>m'. pm_insert h m k v = Some (pm_get m k = None, m') \<and>
            pm_get m' = (if pm_get m k = None then (pm_get m)(k \<mapsto> v) else pm_get m)) \<and>
         (\<exists>m'. pm_set h m k v = Some m' \<and> pm_get m' = (pm_get m)(k \<mapsto> v)) \<and>
         map_of (pm_entries m) = pm_get m \<and> sorted_wrt bytes_less (map fst (pm_entries m))"
proof (intro conjI)
  have ok: "pm_ok h m" by (rule pm_built_ok [OF assms(1)])
  show "\<exists>m'. pm_insert h m k v = Some (pm_get m k = None, m') \<and>
      pm_get m' = (if pm_get m k = None then (pm_get m)(k \<mapsto> v) else pm_get m)"
    by (rule pm.insertE [OF ok assms(2)]) blast
  show "\<exists>m'. pm_set h m k v = Some m' \<and> pm_get m' = (pm_get m)(k \<mapsto> v)"
    by (rule pm.setE [OF ok assms(2)]) blast
  show "map_of (pm_entries m) = pm_get m" by (rule pm_entries_map_of [OF ok])
  show "sorted_wrt bytes_less (map fst (pm_entries m))" by (rule pm_entries_sorted [OF ok])
qed

lemma sample_map_built:
  "pm_built h \<lparr>pm_root = Some (make_leaf h (replicate 32 7) True)\<rparr>"
  by (rule pm_built_insert [OF pm_built_new, of "replicate 32 7" _ True True])
     (simp_all add: key_ok_def pm_insert_def pm_new_def)

theorem persistent_map_refines_function_witness:
  "\<exists>m'. pm_set (\<lambda>b. replicate 32 0) \<lparr>pm_root = Some (make_leaf (\<lambda>b. replicate 32 0) (replicate 32 7) True)\<rparr> (replicate 32 9) False = Some m'
     \<and> pm_get m' (replicate 32 9) = Some False"
  using persistent_map_refines_function [OF sample_map_built [of "\<lambda>b. replicate 32 0"], of "replicate 32 9" False]
  by (auto simp: key_ok_def)

text \<open>C31. The fingerprint of a map is a function of its set of keys alone: two maps with the same keys have
  the same fingerprint, whatever the values and whatever the order of the operations that built them.\<close>

theorem fingerprint_is_order_independent:
  assumes "pm_built h m" "pm_built h m'" "dom (pm_get m) = dom (pm_get m')"
  shows "pm_fingerprint m = pm_fingerprint m'"
  using assms by (intro pm_fingerprint_content pm_built_ok)

lemma two_insertions:
  assumes "key_ok k" "key_ok k'" "k \<noteq> k'"
  obtains m where "pm_built h m" "pm_get m = [k \<mapsto> v, k' \<mapsto> w]"
proof (rule pm.insertE [OF pm_ok_new assms(1), of h v])
  fix m1 assume m1: "pm_insert h pm_new k v = Some (pm_get pm_new k = None, m1)" "pm_ok h m1"
    "pm_get m1 = (if pm_get pm_new k = None then (pm_get pm_new)(k \<mapsto> v) else pm_get pm_new)"
  have b1: "pm_built h m1" by (rule pm_built_insert [OF pm_built_new assms(1) m1(1)])
  have g1: "pm_get m1 = [k \<mapsto> v]" using m1(3) by (auto simp: fun_eq_iff)
  show thesis
  proof (rule pm.insertE [OF m1(2) assms(2), of w])
    fix m2 assume m2: "pm_insert h m1 k' w = Some (pm_get m1 k' = None, m2)"
      "pm_get m2 = (if pm_get m1 k' = None then (pm_get m1)(k' \<mapsto> w) else pm_get m1)"
    from pm_built_insert [OF b1 assms(2) m2(1)] m2(2) g1 assms(3) show thesis by (intro that) auto
  qed
qed

theorem fingerprint_is_order_independent_witness:
  "\<exists>m m'. pm_get m = [replicate 32 7 \<mapsto> True, replicate 32 9 \<mapsto> True] \<and>
          pm_get m' = [replicate 32 9 \<mapsto> False, replicate 32 7 \<mapsto> False] \<and>
          pm_fingerprint m = pm_fingerprint m'"
proof -
  let ?h = "\<lambda>b :: bytes. take 32 (rev b)"
  have keys: "key_ok (replicate 32 7)" "key_ok (replicate 32 9)" "replicate 32 7 \<noteq> (replicate 32 9 :: bytes)"
    by (simp_all add: key_ok_def)
  obtain m where m: "pm_built ?h m" "pm_get m = [replicate 32 7 \<mapsto> True, replicate 32 9 \<mapsto> True]"
    by (rule two_insertions [OF keys])
  obtain m' where m': "pm_built ?h m'" "pm_get m' = [replicate 32 9 \<mapsto> False, replicate 32 7 \<mapsto> False]"
    by (rule two_insertions [OF keys(2,1) keys(3) [symmetric]])
  have "dom (pm_get m) = dom (pm_get m')" by (simp add: m(2) m'(2) insert_commute)
  from fingerprint_is_order_independent [OF m(1) m'(1) this] m(2) m'(2) show ?thesis by blast
qed

end
