(* ===== verification/Set_Fingerprint.thy ===== *)
theory Set_Fingerprint
  imports Persistent_Map
begin

text \<open>
  \<open>naome-checker/src/context/fingerprint.rs\<close>: the streaming reconstruction of the fingerprint of a set of
  keys that arrive in ascending order, with its stack of pending branches, and \<open>ContextError\<close> of
  \<open>context.rs\<close>. The stack of \<open>SetFingerprint\<close> is a list whose head is the top, that is, the vector of the
  source in reverse. It is shown to compute the fingerprint of the Patricia map of \<open>Persistent_Map\<close>.
\<close>

datatype context_error = ContextStorage string | ContextCorrupt | ContextLimit

record set_fingerprint =
  sf_previous :: "key256 option"
  sf_pending :: "(nat \<times> bytes) list"
  sf_current :: bytes

definition sf_default :: set_fingerprint where
  "sf_default = \<lparr>sf_previous = None, sf_pending = [], sf_current = replicate 32 0\<rparr>"

text \<open>The loop of \<open>push\<close> that folds every pending branch at or below the new branching bit.\<close>

fun sf_collapse :: "hash \<Rightarrow> nat \<Rightarrow> (nat \<times> bytes) list \<Rightarrow> bytes \<Rightarrow> (nat \<times> bytes) list \<times> bytes" where
  "sf_collapse sha256 b [] current = ([], current)"
| "sf_collapse sha256 b ((level, left) # pending) current =
     (if b \<le> level then sf_collapse sha256 b pending (fingerprint_branch sha256 level left current)
      else ((level, left) # pending, current))"

definition sf_push :: "hash \<Rightarrow> set_fingerprint \<Rightarrow> key256 \<Rightarrow> (context_error, set_fingerprint) outcome" where
  "sf_push sha256 s key =
     and_then
       (case sf_previous s of
          None \<Rightarrow> Ok (sf_pending s)
        | Some previous \<Rightarrow>
            if \<not> bytes_less previous key then Err ContextCorrupt
            else case first_differing_bit previous key of
                None \<Rightarrow> Err ContextCorrupt
              | Some b \<Rightarrow>
                  let (pending, current) = sf_collapse sha256 b (sf_pending s) (sf_current s)
                  in Ok ((b, current) # pending))
       (\<lambda>pending. Ok \<lparr>sf_previous = Some key, sf_pending = pending, sf_current = fingerprint_leaf sha256 key\<rparr>)"

fun sf_fold :: "hash \<Rightarrow> (nat \<times> bytes) list \<Rightarrow> bytes \<Rightarrow> bytes" where
  "sf_fold sha256 [] current = current"
| "sf_fold sha256 ((b, left) # pending) current = sf_fold sha256 pending (fingerprint_branch sha256 b left current)"

definition sf_finish :: "hash \<Rightarrow> set_fingerprint \<Rightarrow> bytes" where
  "sf_finish sha256 s = sf_fold sha256 (sf_pending s) (sf_current s)"

fun sf_push_all :: "hash \<Rightarrow> set_fingerprint \<Rightarrow> key256 list \<Rightarrow> (context_error, set_fingerprint) outcome" where
  "sf_push_all sha256 s [] = Ok s"
| "sf_push_all sha256 s (key # keys) = and_then (sf_push sha256 s key) (\<lambda>s'. sf_push_all sha256 s' keys)"

section \<open>The pending stack as the right spine of a Patricia tree\<close>

fun assemble :: "hash \<Rightarrow> (nat \<times> unit pnode) list \<Rightarrow> unit pnode \<Rightarrow> unit pnode" where
  "assemble h [] c = c"
| "assemble h ((b, l) # ps) c = assemble h ps (make_branch h b l c)"

definition stack_of :: "(nat \<times> unit pnode) list \<Rightarrow> (nat \<times> bytes) list" where
  "stack_of ps = map (\<lambda>(b, l). (b, node_fingerprint l)) ps"

lemma stack_of_simps [simp]:
  "stack_of [] = []" "stack_of ((b, l) # ps) = (b, node_fingerprint l) # stack_of ps"
  by (simp_all add: stack_of_def)

lemma fingerprint_make [simp]:
  "node_fingerprint (make_leaf h k v) = fingerprint_leaf h k"
  "node_fingerprint (make_branch h b l r) = fingerprint_branch h b (node_fingerprint l) (node_fingerprint r)"
  by (simp_all add: make_leaf_def make_branch_def)

lemma sf_fold_assemble: "sf_fold h (stack_of ps) (node_fingerprint c) = node_fingerprint (assemble h ps c)"
  by (induction h ps c rule: assemble.induct) simp_all

lemma assemble_current: "patricia h (assemble h ps c) \<Longrightarrow> patricia h c"
  by (induction h ps c rule: assemble.induct) auto

lemma assemble_head: "patricia h (assemble h ((b, l) # ps) c) \<Longrightarrow> patricia h (make_branch h b l c)"
  unfolding assemble.simps by (rule assemble_current)

lemma make_branch_right: "patricia h (make_branch h b l c) \<Longrightarrow> q \<in> node_keys c \<Longrightarrow> key_bit q b"
  unfolding patricia_make by blast

lemma make_branch_shared:
  "patricia h (make_branch h b l c) \<Longrightarrow> q \<in> node_keys (make_branch h b l c) \<Longrightarrow> q' \<in> node_keys (make_branch h b l c) \<Longrightarrow>
     i < b \<Longrightarrow> key_bit q i = key_bit q' i"
  unfolding patricia_make node_keys_simps by blast

lemma assemble_right: "patricia h (assemble h ps c) \<Longrightarrow> (b, l) \<in> set ps \<Longrightarrow> q \<in> node_keys c \<Longrightarrow> key_bit q b"
proof (induction h ps c rule: assemble.induct)
  case (2 h b' l' ps c)
  from make_branch_right [OF assemble_head [OF 2(2)] 2(4)] 2 show ?case
    by (auto simp del: patricia_make)
qed simp

text \<open>Replacing the current node of the spine by one with one more key, which turns right at every branch.\<close>

lemma assemble_extend:
  assumes "patricia h (assemble h ps c)" "patricia h c'" "node_keys c' = insert k (node_keys c)" "p \<in> node_keys c"
    "\<And>b l. (b, l) \<in> set ps \<Longrightarrow> key_bit k b \<and> (\<forall>i<b. key_bit p i = key_bit k i)"
  shows "patricia h (assemble h ps c') \<and> node_keys (assemble h ps c') = insert k (node_keys (assemble h ps c))"
  using assms
proof (induction h ps c arbitrary: c' rule: assemble.induct)
  case (2 h b l ps c)
  let ?c = "make_branch h b l c" and ?c' = "make_branch h b l c'"
  have c: "patricia h ?c" by (rule assemble_head [OF 2(2)])
  have kb: "key_bit k b" "\<forall>i<b. key_bit p i = key_bit k i" using 2(6) [of b l] by simp_all
  have k: "key_bit q i = key_bit k i" if "q \<in> insert k (node_keys ?c)" "i < b" for q i
    using make_branch_shared [OF c, of q p i] kb(2) 2(5) that by auto
  have c': "patricia h ?c'"
    using c kb(1) 2(3,4) k unfolding patricia_make node_keys_simps by (metis UnCI insert_iff Un_insert_right)
  show ?case
    unfolding assemble.simps
    by (rule 2(1) [OF 2(2) [unfolded assemble.simps] c']) (use 2(4,5) 2(6) [OF set_subset_Cons [THEN subsetD]] in simp_all)
qed simp

definition agree_upto :: "nat \<Rightarrow> key256 \<Rightarrow> key256 set \<Rightarrow> bool" where
  "agree_upto d p K \<longleftrightarrow> (\<forall>q\<in>K. \<forall>i\<le>d. key_bit q i = key_bit p i)"

lemma sf_collapse_assemble:
  assumes "patricia h (assemble h ps c)" "p \<in> node_keys c" "\<not> key_bit p d" "sorted_wrt (>) (map fst ps)"
    "agree_upto d p (node_keys c)"
  shows "\<exists>ps' c'. sf_collapse h d (stack_of ps) (node_fingerprint c) = (stack_of ps', node_fingerprint c') \<and>
    assemble h ps' c' = assemble h ps c \<and> p \<in> node_keys c' \<and> sorted_wrt (>) (map fst ps') \<and>
    (\<forall>(b, l) \<in> set ps'. b < d) \<and> agree_upto d p (node_keys c')"
  using assms
proof (induction h ps c rule: assemble.induct)
  case (1 h c)
  then show ?case by (intro exI [of _ "[]"] exI [of _ c]) simp
next
  case (2 h b l ps c)
  have c: "patricia h (make_branch h b l c)" by (rule assemble_head [OF 2(2)])
  show ?case
  proof (cases "d \<le> b")
    case True
    moreover have "key_bit p b" by (rule make_branch_right [OF c 2(3)])
    ultimately have "d < b" using 2(4) by (metis le_neq_implies_less)
    have "agree_upto d p (node_keys (make_branch h b l c))"
      unfolding agree_upto_def
      using make_branch_shared [OF c, of _ p] \<open>d < b\<close> 2(3) by (metis UnCI le_less_trans node_keys_simps(4))
    with 2(1) [OF 2(2) [unfolded assemble.simps]] 2(3-6) True show ?thesis by simp
  next
    case False
    with 2(5) have "\<forall>(b', l') \<in> set ((b, l) # ps). b' < d" by fastforce
    with False 2(3-6) show ?thesis by (intro exI [of _ "(b, l) # ps"] exI [of _ c]) simp
  qed
qed

section \<open>The stream\<close>

text \<open>What the state stands for after the keys \<open>K\<close>, the last of them \<open>p\<close>, have been pushed.\<close>

definition sf_holds :: "hash \<Rightarrow> set_fingerprint \<Rightarrow> key256 set \<Rightarrow> key256 \<Rightarrow> bool" where
  "sf_holds h s K p \<longleftrightarrow> (\<exists>ps. sf_previous s = Some p \<and> sf_pending s = stack_of ps \<and> sf_current s = fingerprint_leaf h p \<and>
     patricia h (assemble h ps (make_leaf h p ())) \<and> node_keys (assemble h ps (make_leaf h p ())) = K \<and>
     sorted_wrt (>) (map fst ps))"

lemma sf_push_first: "key_ok k \<Longrightarrow> \<exists>s. sf_push h sf_default k = Ok s \<and> sf_holds h s {k} k"
  by (auto simp: sf_push_def sf_default_def sf_holds_def intro!: exI [of _ "[]"])

lemma sf_push_next:
  assumes "sf_holds h s K p" "key_ok k" "bytes_less p k"
  shows "\<exists>s'. sf_push h s k = Ok s' \<and> sf_holds h s' (insert k K) k"
proof -
  obtain ps where s: "sf_previous s = Some p" "sf_pending s = stack_of ps" "sf_current s = fingerprint_leaf h p"
    and t: "patricia h (assemble h ps (make_leaf h p ()))" "node_keys (assemble h ps (make_leaf h p ())) = K"
    and sorted: "sorted_wrt (>) (map fst ps)"
    using assms(1) unfolding sf_holds_def by blast
  have p: "key_ok p" using assemble_current [OF t(1)] by simp
  have "p \<noteq> k" using assms(3) bytes_less_irrefl by blast
  then obtain d where d: "first_differing_bit p k = Some d" "d < 256" "differ_first p k d"
    by (rule first_differing_bit_Some [OF p assms(2)])
  have kd: "key_bit k d" "\<not> key_bit p d"
    using bytes_less_bit [OF _ d(3)] d(2,3) p assms(2,3) by (auto simp: key_ok_def differ_first_def)
  obtain ps' c' where c': "sf_collapse h d (stack_of ps) (fingerprint_leaf h p) = (stack_of ps', node_fingerprint c')"
    "assemble h ps' c' = assemble h ps (make_leaf h p ())" "p \<in> node_keys c'" "sorted_wrt (>) (map fst ps')"
    "\<forall>(b, l) \<in> set ps'. b < d" "agree_upto d p (node_keys c')"
    using sf_collapse_assemble [OF t(1) _ kd(2) sorted] by (auto simp: agree_upto_def)
  let ?n = "make_branch h d c' (make_leaf h k ())"
  have pc': "patricia h c'" using t(1) c'(2) assemble_current by metis
  have agree: "key_bit q i = key_bit k i" if "q \<in> insert k (node_keys c')" "i < d" for q i
    using that c'(6) d(3) by (auto simp: differ_first_def agree_upto_def)
  have left: "\<not> key_bit q d" if "q \<in> node_keys c'" for q
    using that c'(6) kd(2) by (auto simp: agree_upto_def)
  have n: "patricia h ?n"
    unfolding patricia_make node_keys_simps
    using pc' assms(2) d(2) kd(1) left agree by (metis UnE insertCI singletonD)
  have spine: "key_bit k b \<and> (\<forall>i<b. key_bit p i = key_bit k i)" if "(b, l) \<in> set ps'" for b l
  proof -
    have "b < d" using c'(5) that by blast
    moreover have "key_bit p b" by (rule assemble_right [of h, OF _ that c'(3)]) (simp only: c'(2) t(1))
    ultimately show ?thesis using d(3) by (auto simp: differ_first_def)
  qed
  have "patricia h (assemble h ((d, c') # ps') (make_leaf h k ())) \<and>
      node_keys (assemble h ((d, c') # ps') (make_leaf h k ())) = insert k K"
    using assemble_extend [OF t(1) [folded c'(2)] n _ c'(3) spine] t(2) c'(2) by (simp del: patricia_make)
  moreover have "sorted_wrt (>) (map fst ((d, c') # ps'))" using c'(4,5) by auto
  ultimately have "sf_holds h \<lparr>sf_previous = Some k, sf_pending = (d, node_fingerprint c') # stack_of ps',
      sf_current = fingerprint_leaf h k\<rparr> (insert k K) k"
    unfolding sf_holds_def by (intro exI [of _ "(d, c') # ps'"]) (simp del: patricia_make assemble.simps)
  with s d(1) c'(1) assms(3) show ?thesis by (simp add: sf_push_def)
qed

lemma sf_push_all_holds:
  "sf_holds h s K p \<Longrightarrow> list_all key_ok ks \<Longrightarrow> sorted_wrt bytes_less (p # ks) \<Longrightarrow>
     \<exists>s'. sf_push_all h s ks = Ok s' \<and> sf_holds h s' (K \<union> set ks) (last (p # ks))"
proof (induction ks arbitrary: s K p)
  case (Cons k ks)
  then obtain s1 where s1: "sf_push h s k = Ok s1" "sf_holds h s1 (insert k K) k"
    using sf_push_next [of h s K p k] by auto
  from Cons.IH [OF s1(2)] Cons.prems s1(1) show ?case by auto
qed simp

lemma sf_holds_finish: "sf_holds h s K p \<Longrightarrow> \<exists>n :: unit pnode. sf_finish h s = node_fingerprint n \<and> patricia h n \<and> node_keys n = K"
proof -
  assume "sf_holds h s K p"
  then obtain ps where ps: "sf_pending s = stack_of ps" "sf_current s = fingerprint_leaf h p"
    "patricia h (assemble h ps (make_leaf h p ()))" "node_keys (assemble h ps (make_leaf h p ())) = K"
    unfolding sf_holds_def by blast
  then show ?thesis
    using sf_fold_assemble [of h ps "make_leaf h p ()"] by (intro exI [of _ "assemble h ps (make_leaf h p ())"]) (simp add: sf_finish_def)
qed

lemma sf_push_rejects: "sf_previous s = Some p \<Longrightarrow> \<not> bytes_less p k \<Longrightarrow> sf_push h s k = Err ContextCorrupt"
  by (simp add: sf_push_def)

lemma sf_stream_fingerprint:
  assumes "list_all key_ok ks" "sorted_wrt bytes_less ks" "pm_ok h m" "dom (pm_get m) = set ks"
  obtains s where "sf_push_all h sf_default ks = Ok s" "sf_finish h s = pm_fingerprint m"
proof (cases ks)
  case Nil
  with assms(3,4) have "pm_root m = None"
    using terminal_key_in by (auto simp: pm_dom split: option.splits)
  with Nil show ?thesis by (intro that [of sf_default]) (simp_all add: sf_finish_def sf_default_def pm_fingerprint_def)
next
  case (Cons k ks')
  with assms(1) obtain s0 where s0: "sf_push h sf_default k = Ok s0" "sf_holds h s0 {k} k"
    using sf_push_first [of k h] by auto
  obtain s where s: "sf_push_all h s0 ks' = Ok s" "sf_holds h s ({k} \<union> set ks') (last (k # ks'))"
    using sf_push_all_holds [OF s0(2), of ks'] assms(1,2) Cons by auto
  obtain n :: "unit pnode" where n: "sf_finish h s = node_fingerprint n" "patricia h n" "node_keys n = set ks"
    using sf_holds_finish [OF s(2)] Cons by auto
  obtain r where r: "pm_root m = Some r" "patricia h r" "node_keys r = set ks"
    using assms(3,4) Cons by (auto simp: pm_dom pm_ok_def split: option.splits)
  have "node_fingerprint n = node_fingerprint r"
    by (rule patricia_content_fingerprint [OF n(2) r(2)]) (simp only: n(3) r(3))
  with n(1) r(1) s(1) s0(1) Cons show ?thesis by (intro that [of s]) (simp_all add: pm_fingerprint_def)
qed

section \<open>Properties\<close>

text \<open>C32. Streaming the keys of a set in strictly ascending order computes the very fingerprint that the
  Patricia map with these keys caches at its root, however that map was built; a key that is not
  greater than its predecessor is rejected as corrupt.\<close>

theorem streamed_fingerprint_is_map_fingerprint:
  assumes "list_all key_ok ks" "pm_built h m" "dom (pm_get m) = set ks"
  shows "(sorted_wrt bytes_less ks \<longrightarrow> (\<exists>s. sf_push_all h sf_default ks = Ok s \<and> sf_finish h s = pm_fingerprint m)) \<and>
         (\<forall>s p k. sf_previous s = Some p \<and> \<not> bytes_less p k \<longrightarrow> sf_push h s k = Err ContextCorrupt)"
  using sf_stream_fingerprint [OF assms(1) _ pm_built_ok [OF assms(2)] assms(3)] sf_push_rejects by metis

theorem streamed_fingerprint_is_map_fingerprint_witness:
  "\<exists>m s. dom (pm_get m) = {replicate 32 7, replicate 32 9} \<and>
     sf_push_all (\<lambda>b. take 32 (rev b)) sf_default [replicate 32 7, replicate 32 9] = Ok s \<and>
     sf_finish (\<lambda>b. take 32 (rev b)) s = pm_fingerprint (m :: bool persistent_map)"
proof -
  let ?h = "\<lambda>b :: bytes. take 32 (rev b)"
  have keys: "key_ok (replicate 32 9)" "key_ok (replicate 32 7)" "replicate 32 9 \<noteq> (replicate 32 7 :: bytes)"
    by (simp_all add: key_ok_def)
  obtain m where m: "pm_built ?h m" "pm_get m = [replicate 32 9 \<mapsto> True, replicate 32 7 \<mapsto> False]"
    by (rule two_insertions [OF keys])
  have "dom (pm_get m) = set [replicate 32 7, replicate 32 9]" by (simp add: m(2))
  moreover have "bytes_less (replicate 32 7) (replicate 32 9)" by code_simp
  ultimately have "\<exists>s. sf_push_all ?h sf_default [replicate 32 7, replicate 32 9] = Ok s \<and> sf_finish ?h s = pm_fingerprint m"
    using streamed_fingerprint_is_map_fingerprint [OF _ m(1), of "[replicate 32 7, replicate 32 9]"] keys(1,2)
    by (simp del: sf_push_all.simps)
  with m(2) show ?thesis by (intro exI [of _ m]) (simp add: insert_commute)
qed

end
