(* ===== verification/Definition_Certificate.thy ===== *)
theory Definition_Certificate
  imports Identity Defined_Expansion
begin

text \<open>
  Conservative definitions, \<open>naome-proof/src/definition.rs\<close>: the two graph kinds, the structural
  conditions on a body (no definitions in it, and exactly the declared formal variables), the canonical
  bytes and the identity. Arities are compared as \<open>u64\<close> in the source, where one more than a \<open>u32\<close>
  cannot wrap; here they are natural numbers.
\<close>

datatype definition_kind = RelationKind u32 | FunctionKind u32

record definition_certificate =
  dc_kind :: definition_kind
  dc_body :: dnode
  dc_canonical :: bytes
  dc_id :: definition_id

datatype definition_certificate_error =
    DcInputTooLong nat nat
  | DcUnexpectedEnd
  | DcUnknownKindTag u8
  | DcZeroRelationArity
  | DcZeroFunctionArity
  | DcArityTooLarge nat u32
  | DcDefinitionReference definition_id
  | DcUndeclaredFormalVariable u32 u32
  | DcMissingFormalVariable u32 u32
  | DcFormula defined_formula_codec_error
  | DcTrailingBytes nat

definition RELATION_TAG :: u8 where "RELATION_TAG = 0x00"
definition FUNCTION_TAG :: u8 where "FUNCTION_TAG = 0x02"
definition DEFINITION_MAX_GRAPH_ARITY :: u32 where "DEFINITION_MAX_GRAPH_ARITY = 256"
definition DEFINITION_MAX_BYTES :: nat where "DEFINITION_MAX_BYTES = 1 + 4 + 4 + FORMULA_MAX_BYTES"

section \<open>Structural validation\<close>

definition validate_kind :: "definition_kind \<Rightarrow> (definition_certificate_error, u32) outcome" where
  "validate_kind kind =
     and_then
       (case kind of
          RelationKind arity \<Rightarrow> if arity = 0 then Err DcZeroRelationArity else Ok (unat arity)
        | FunctionKind input_arity \<Rightarrow> if input_arity = 0 then Err DcZeroFunctionArity else Ok (unat input_arity + 1))
       (\<lambda>graph_arity.
         if unat DEFINITION_MAX_GRAPH_ARITY < graph_arity
         then Err (DcArityTooLarge graph_arity DEFINITION_MAX_GRAPH_ARITY)
         else expect (u32_try_from graph_arity))"

definition validate_definition_body ::
  "definition_kind \<Rightarrow> dnode \<Rightarrow> nat \<Rightarrow> (definition_certificate_error, unit) outcome" where
  "validate_definition_body kind formula body_length =
     and_then (validate_kind kind) (\<lambda>arity.
       case first_definition_reference formula of
         Some definition_id \<Rightarrow> Err (DcDefinitionReference definition_id)
       | None \<Rightarrow>
           let free_variables = d_free_variables formula
           in case find (\<lambda>variable. arity \<le> variable) free_variables of
                Some variable \<Rightarrow> Err (DcUndeclaredFormalVariable variable arity)
              | None \<Rightarrow>
                  (case find (\<lambda>identifier. identifier \<notin> set free_variables) (map of_nat [0..<unat arity]) of
                     Some identifier \<Rightarrow> Err (DcMissingFormalVariable identifier arity)
                   | None \<Rightarrow>
                       let actual = 1 + 4 + 4 + body_length
                       in if DEFINITION_MAX_BYTES < actual then Err (DcInputTooLong actual DEFINITION_MAX_BYTES)
                          else Ok ()))"

section \<open>Construction, bytes and identity\<close>

definition definition_from_parts :: "hash \<Rightarrow> definition_kind \<Rightarrow> dnode \<Rightarrow> bytes \<Rightarrow> definition_certificate option" where
  "definition_from_parts sha256 kind body canonical =
     Option.bind (framed FOUNDATION_ID) (\<lambda>foundation.
       map_option
         (\<lambda>payload. \<lparr>dc_kind = kind, dc_body = body, dc_canonical = canonical,
            dc_id = sha256 (ascii ''naome:definition:v1'' @ [0] @ foundation @ payload)\<rparr>)
         (framed canonical))"

definition kind_bytes :: "definition_kind \<Rightarrow> bytes" where
  "kind_bytes kind =
     (case kind of
        RelationKind arity \<Rightarrow> RELATION_TAG # u32_to_be_bytes arity
      | FunctionKind input_arity \<Rightarrow> FUNCTION_TAG # u32_to_be_bytes input_arity)"

definition definition_new :: "hash \<Rightarrow> definition_kind \<Rightarrow> dnode \<Rightarrow> (definition_certificate_error, definition_certificate) outcome" where
  "definition_new sha256 kind body =
     and_then (validate_kind kind) (\<lambda>_.
     and_then (map_err DcFormula (d_encode_canonical body)) (\<lambda>encoded.
     and_then (validate_definition_body kind body (length encoded)) (\<lambda>_.
     and_then (expect (u32_try_from (length encoded))) (\<lambda>n.
       expect (definition_from_parts sha256 kind body (kind_bytes kind @ u32_to_be_bytes n @ encoded))))))"

definition dc_relation_arity :: "definition_certificate \<Rightarrow> u32" where
  "dc_relation_arity c = (case dc_kind c of RelationKind arity \<Rightarrow> arity | FunctionKind input_arity \<Rightarrow> input_arity + 1)"

definition dc_resolution :: "definition_certificate \<Rightarrow> definition_resolution" where
  "dc_resolution c = \<lparr>relation_arity = dc_relation_arity c, resolution_body = dc_body c\<rparr>"

definition read_kind :: "cursor \<Rightarrow> (definition_certificate_error, definition_kind \<times> u32 \<times> cursor) outcome" where
  "read_kind cursor =
     and_then (ok_or DcUnexpectedEnd (cursor_read_u8 cursor)) (\<lambda>(tag, cursor).
       if tag = RELATION_TAG then
         and_then (ok_or DcUnexpectedEnd (cursor_read_u32 cursor)) (\<lambda>(arity, cursor).
           map_ok (\<lambda>(n, cursor). (RelationKind arity, n, cursor)) (ok_or DcUnexpectedEnd (cursor_read_u32 cursor)))
       else if tag = FUNCTION_TAG then
         and_then (ok_or DcUnexpectedEnd (cursor_read_u32 cursor)) (\<lambda>(input_arity, cursor).
           map_ok (\<lambda>(n, cursor). (FunctionKind input_arity, n, cursor)) (ok_or DcUnexpectedEnd (cursor_read_u32 cursor)))
       else Err (DcUnknownKindTag tag))"

definition definition_from_canonical_bytes ::
  "hash \<Rightarrow> bytes \<Rightarrow> (definition_certificate_error, definition_certificate) outcome" where
  "definition_from_canonical_bytes sha256 bs =
     (if DEFINITION_MAX_BYTES < length bs then Err (DcInputTooLong (length bs) DEFINITION_MAX_BYTES)
      else and_then (read_kind (cursor_new bs)) (\<lambda>(kind, body_length, cursor).
        and_then (ok_or DcUnexpectedEnd (cursor_take (unat body_length) cursor)) (\<lambda>(body_bytes, cursor).
          if cursor_remaining cursor \<noteq> 0 then Err (DcTrailingBytes (cursor_remaining cursor))
          else and_then (map_err DcFormula (d_decode_canonical body_bytes)) (\<lambda>body.
            and_then (validate_definition_body kind body (length body_bytes)) (\<lambda>_.
              expect (definition_from_parts sha256 kind body bs))))))"

section \<open>What the structural conditions are\<close>

definition graph_arity :: "definition_kind \<Rightarrow> nat" where
  "graph_arity kind = (case kind of RelationKind arity \<Rightarrow> unat arity | FunctionKind input_arity \<Rightarrow> unat input_arity + 1)"

definition kind_ok :: "definition_kind \<Rightarrow> bool" where
  "kind_ok kind \<longleftrightarrow> graph_arity kind \<le> 256 \<and> (case kind of RelationKind arity \<Rightarrow> arity \<noteq> 0 | FunctionKind input_arity \<Rightarrow> input_arity \<noteq> 0)"

definition definition_ok :: "definition_kind \<Rightarrow> dnode \<Rightarrow> bool" where
  "definition_ok kind body \<longleftrightarrow> kind_ok kind \<and> \<not> contains_definition body \<and>
     set (d_free_variables body) = {v. unat v < graph_arity kind}"

lemma validate_kind_Ok: "validate_kind kind = Ok arity \<longleftrightarrow> kind_ok kind \<and> arity = of_nat (graph_arity kind)"
  by (cases kind) (auto simp: validate_kind_def kind_ok_def graph_arity_def DEFINITION_MAX_GRAPH_ARITY_def u32_try_from_Some)

lemma validate_kind_not_Panic [simp]: "validate_kind kind \<noteq> Panic"
  using u32_try_from_Some [of "graph_arity kind" "of_nat (graph_arity kind)"]
  by (cases kind) (auto simp: validate_kind_def DEFINITION_MAX_GRAPH_ARITY_def graph_arity_def split: if_splits)

lemma first_definition_reference_None: "first_definition_reference a = None \<longleftrightarrow> \<not> contains_definition a"
  by (induction a) (auto split: option.splits)

lemma formal_variables_iff:
  assumes "kind_ok kind"
  shows "find (\<lambda>v. of_nat (graph_arity kind) \<le> v) vs = None \<and>
      find (\<lambda>i. i \<notin> set vs) (map of_nat [0..<unat (of_nat (graph_arity kind) :: u32)]) = None \<longleftrightarrow>
      set vs = {v :: u32. unat v < graph_arity kind}"
proof -
  have n: "unat (of_nat (graph_arity kind) :: u32) = graph_arity kind"
    using assms by (intro unat_u32_of_nat) (simp add: kind_ok_def)
  have le: "of_nat (graph_arity kind) \<le> v \<longleftrightarrow> \<not> unat v < graph_arity kind" for v :: u32
    by (simp add: word_le_nat_alt n not_less)
  have "(\<forall>i\<in>set (map of_nat [0..<graph_arity kind]). i \<in> set vs) \<longleftrightarrow> {v :: u32. unat v < graph_arity kind} \<subseteq> set vs"
  proof (intro iffI subsetI ballI)
    fix v :: u32 assume *: "\<forall>i\<in>set (map of_nat [0..<graph_arity kind]). i \<in> set vs" "v \<in> {v. unat v < graph_arity kind}"
    then have "of_nat (unat v) \<in> set (map of_nat [0..<graph_arity kind] :: u32 list)" by (simp only: set_map) (rule imageI, simp)
    with *(1) have "of_nat (unat v) \<in> set vs" by blast
    then show "v \<in> set vs" by simp
  next
    fix i :: u32 assume *: "{v. unat v < graph_arity kind} \<subseteq> set vs" "i \<in> set (map of_nat [0..<graph_arity kind])"
    then obtain j where "i = of_nat j" "j < graph_arity kind" by auto
    moreover from this have "unat i = j" using assms by (simp add: unat_u32_of_nat kind_ok_def)
    ultimately show "i \<in> set vs" using *(1) by auto
  qed
  then show ?thesis unfolding n find_None_iff le by auto
qed

lemma validate_definition_body_Ok:
  "validate_definition_body kind body n = Ok u \<longleftrightarrow> definition_ok kind body \<and> 9 + n \<le> DEFINITION_MAX_BYTES"
proof (cases "kind_ok kind \<and> \<not> contains_definition body")
  case True
  then have none: "first_definition_reference body = None" by (simp add: first_definition_reference_None)
  have eq: "definition_ok kind body \<longleftrightarrow> find (\<lambda>v. of_nat (graph_arity kind) \<le> v) (d_free_variables body) = None \<and>
      find (\<lambda>i. i \<notin> set (d_free_variables body)) (map of_nat [0..<unat (of_nat (graph_arity kind) :: u32)]) = None"
    using formal_variables_iff [of kind "d_free_variables body"] True by (simp only: definition_ok_def simp_thms)
  from True have kind: "validate_kind kind = Ok (of_nat (graph_arity kind))" by (simp add: validate_kind_Ok)
  show ?thesis
    by (simp add: validate_definition_body_def kind none eq Let_def not_less del: find_None_iff split: option.split)
next
  case False
  then show ?thesis
    by (auto simp: validate_definition_body_def validate_kind_Ok definition_ok_def first_definition_reference_None
        split: option.splits)
qed

lemma validate_definition_body_not_Panic [simp]: "validate_definition_body kind body n \<noteq> Panic"
  by (auto simp: validate_definition_body_def Let_def split: option.splits)

section \<open>Certificates\<close>

definition definition_wire :: "definition_kind \<Rightarrow> dnode \<Rightarrow> bytes" where
  "definition_wire kind body = kind_bytes kind @ u32_to_be_bytes (of_nat (length (d_wire body))) @ d_wire body"

definition dc_of :: "hash \<Rightarrow> definition_kind \<Rightarrow> dnode \<Rightarrow> definition_certificate" where
  "dc_of h kind body = \<lparr>dc_kind = kind, dc_body = body, dc_canonical = definition_wire kind body,
     dc_id = h (ascii ''naome:definition:v1'' @ [0] @ the (framed FOUNDATION_ID) @ the (framed (definition_wire kind body)))\<rparr>"

lemma length_kind_bytes [simp]: "length (kind_bytes kind) = 5"
  by (cases kind) (simp_all add: kind_bytes_def)

lemma from_parts_wire:
  assumes "length (d_wire body) \<le> FORMULA_MAX_BYTES"
  shows "definition_from_parts h kind body (definition_wire kind body) = Some (dc_of h kind body)"
proof -
  have "length (definition_wire kind body) < 2 ^ 32" using assms by (simp add: definition_wire_def FORMULA_MAX_BYTES_def)
  then obtain p where "framed (definition_wire kind body) = Some p" by (simp add: framed_Some)
  moreover obtain q where "framed FOUNDATION_ID = Some q" by (simp add: framed_Some)
  ultimately show ?thesis by (simp add: definition_from_parts_def dc_of_def)
qed

lemma definition_new_Ok:
  "definition_new h kind body = Ok c \<longleftrightarrow>
     definition_ok kind body \<and> d_wire_admitted FORMULA_MAX_NODES 256 body \<and> c = dc_of h kind body"
proof -
  have fits: "9 + length (d_wire body) \<le> DEFINITION_MAX_BYTES \<and> length (d_wire body) < 2 ^ 32"
    if "d_wire_admitted FORMULA_MAX_NODES 256 body"
    using that by (simp add: d_wire_admitted_def DEFINITION_MAX_BYTES_def FORMULA_MAX_BYTES_def)
  have "definition_from_parts h kind body (kind_bytes kind @ u32_to_be_bytes (of_nat (length (d_wire body))) @ d_wire body) =
      Some (dc_of h kind body)" if "d_wire_admitted FORMULA_MAX_NODES 256 body"
    using from_parts_wire [of body h kind] that by (simp add: d_wire_admitted_def definition_wire_def)
  with fits show ?thesis
    by (auto simp: definition_new_def validate_kind_Ok d_encode_canonical_Ok validate_definition_body_Ok u32_try_from_Some
        definition_ok_def)
qed

lemma definition_new_not_Panic: "definition_new h kind body \<noteq> Panic"
proof
  assume "definition_new h kind body = Panic"
  then have a: "d_wire_admitted FORMULA_MAX_NODES 256 body"
    and p: "u32_try_from (length (d_wire body)) = None \<or>
      (\<exists>n. u32_try_from (length (d_wire body)) = Some n \<and>
        definition_from_parts h kind body (kind_bytes kind @ u32_to_be_bytes n @ d_wire body) = None)"
    by (auto simp: definition_new_def d_encode_canonical_Ok)
  from a have l: "length (d_wire body) \<le> FORMULA_MAX_BYTES" by (simp add: d_wire_admitted_def)
  then have "u32_try_from (length (d_wire body)) = Some (of_nat (length (d_wire body)))"
    by (simp add: u32_try_from_Some FORMULA_MAX_BYTES_def)
  with p from_parts_wire [OF l, of h kind] show False by (simp add: definition_wire_def)
qed

text \<open>What every certificate in a checked state satisfies: it is one that the constructor can return.\<close>

definition certificate_ok :: "hash \<Rightarrow> definition_certificate \<Rightarrow> bool" where
  "certificate_ok h c \<longleftrightarrow> (\<exists>kind body. d_well_formed body \<and> definition_new h kind body = Ok c)"

lemma certificate_ok_iff:
  "certificate_ok h c \<longleftrightarrow> d_well_formed (dc_body c) \<and> definition_ok (dc_kind c) (dc_body c) \<and>
     d_wire_admitted FORMULA_MAX_NODES 256 (dc_body c) \<and> c = dc_of h (dc_kind c) (dc_body c)"
proof -
  have "dc_body (dc_of h kind body) = body" "dc_kind (dc_of h kind body) = kind" for kind body by (simp_all add: dc_of_def)
  then show ?thesis unfolding certificate_ok_def definition_new_Ok by metis
qed

lemma certificate_ok_relation_arity:
  "certificate_ok h c \<Longrightarrow> unat (dc_relation_arity c) = graph_arity (dc_kind c)"
proof (cases "dc_kind c")
  case (FunctionKind n)
  moreover assume "certificate_ok h c"
  ultimately have "unat n + 1 \<le> 256" by (simp add: certificate_ok_iff definition_ok_def kind_ok_def graph_arity_def)
  then have "unat (n + 1) = unat n + 1" by (simp add: unat_word_ariths)
  with FunctionKind show ?thesis by (simp add: dc_relation_arity_def graph_arity_def)
qed (simp add: dc_relation_arity_def graph_arity_def)

lemma certificate_ok_id: "digest_ok h \<Longrightarrow> certificate_ok h c \<Longrightarrow> key_ok (dc_id c)"
proof -
  assume "digest_ok h" "certificate_ok h c"
  then have "dc_id c = dc_id (dc_of h (dc_kind c) (dc_body c))" by (metis certificate_ok_iff)
  with \<open>digest_ok h\<close> show ?thesis by (simp add: dc_of_def)
qed

section \<open>The certificate codec\<close>

lemma read_kind_Ok:
  assumes "read_kind (cursor_new bs) = Ok (kind, n, c')"
  shows "consumes (cursor_new bs) (kind_bytes kind @ u32_to_be_bytes n) c'"
proof -
  obtain tag c1 where tag: "cursor_read_u8 (cursor_new bs) = Some (tag, c1)"
    using assms by (auto simp: read_kind_def)
  obtain a c2 where a: "cursor_read_u32 c1 = Some (a, c2)" "cursor_read_u32 c2 = Some (n, c')" "kind_bytes kind = tag # u32_to_be_bytes a"
    using assms tag by (auto simp: read_kind_def kind_bytes_def split: if_splits)
  show ?thesis
    using consumes_Cons [OF cursor_read_u8_Some [OF tag]
        consumes_trans [OF cursor_read_u32_Some [OF a(1)] cursor_read_u32_Some [OF a(2)]]] a(3) by simp
qed

lemma read_kind_wire:
  assumes "cursor_rest c = kind_bytes kind @ u32_to_be_bytes n @ rest" "cursor_ok c"
  shows "read_kind c = Ok (kind, n, advance 9 c)"
proof -
  have l: "length (cursor_rest c) = 9 + length rest" using assms(1) by simp
  have ok: "cursor_ok (advance 1 c)" "cursor_ok (advance 5 c)" using assms(2) l by simp_all
  obtain tag a where k: "kind_bytes kind = tag # u32_to_be_bytes a"
    and kind: "kind = (if tag = RELATION_TAG then RelationKind a else FunctionKind a)" "tag = RELATION_TAG \<or> tag = FUNCTION_TAG"
    by (cases kind) (auto simp: kind_bytes_def RELATION_TAG_def FUNCTION_TAG_def)
  have "cursor_read_u8 c = Some (tag, advance 1 c)" using assms(1) k by (simp add: cursor_read_u8_rest)
  moreover have "cursor_read_u32 (advance 1 c) = Some (a, advance 5 c)"
    using cursor_read_u32_rest [of "advance 1 c" a "u32_to_be_bytes n @ rest"] assms(1) k ok by simp
  moreover have "cursor_read_u32 (advance 5 c) = Some (n, advance 9 c)"
    using cursor_read_u32_rest [of "advance 5 c" n rest] assms(1) k ok by simp
  ultimately show ?thesis
    using kind by (auto simp: read_kind_def RELATION_TAG_def FUNCTION_TAG_def)
qed

lemma from_parts_fields:
  "definition_from_parts h kind body bs = Some c \<Longrightarrow> dc_kind c = kind \<and> dc_body c = body \<and> dc_canonical c = bs"
  by (auto simp: definition_from_parts_def bind_eq_Some_conv)

lemma definition_from_canonical_bytes_Ok:
  "definition_from_canonical_bytes h bs = Ok c \<longleftrightarrow> certificate_ok h c \<and> dc_canonical c = bs"
proof
  assume "definition_from_canonical_bytes h bs = Ok c"
  then obtain kind n c1 body_bytes c2 body where
    r: "read_kind (cursor_new bs) = Ok (kind, n, c1)" "cursor_take (unat n) c1 = Some (body_bytes, c2)"
       "cursor_remaining c2 = 0"
    and b: "d_decode_canonical body_bytes = Ok body" "validate_definition_body kind body (length body_bytes) = Ok ()"
    and p: "definition_from_parts h kind body bs = Some c"
    by (auto simp: definition_from_canonical_bytes_def split: if_splits)
  have body: "d_well_formed body" "d_wire_admitted FORMULA_MAX_NODES 256 body" "body_bytes = d_wire body"
    using b(1) by (simp_all add: d_decode_canonical_Ok)
  have "bs = kind_bytes kind @ u32_to_be_bytes n @ d_wire body" "unat n = length (d_wire body)"
    using consumes_rest [OF read_kind_Ok [OF r(1)]] consumes_rest [OF cursor_take_Some(1) [OF r(2)]]
      cursor_take_Some(2) [OF r(2)] r(3) body(3) by (simp_all add: cursor_remaining_rest)
  moreover from this(2) have "of_nat (length (d_wire body)) = n" by (simp flip: \<open>unat n = length (d_wire body)\<close>)
  ultimately have bs: "bs = definition_wire kind body" by (simp add: definition_wire_def)
  have "c = dc_of h kind body"
    using p from_parts_wire [of body h kind] body(2) by (simp add: bs d_wire_admitted_def)
  then have "definition_new h kind body = Ok c"
    using b(2) body(2) by (simp add: definition_new_Ok validate_definition_body_Ok)
  with body(1) from_parts_fields [OF p] show "certificate_ok h c \<and> dc_canonical c = bs"
    unfolding certificate_ok_def by blast
next
  assume a: "certificate_ok h c \<and> dc_canonical c = bs"
  let ?kind = "dc_kind c" and ?body = "dc_body c"
  have c: "d_well_formed ?body" "definition_ok ?kind ?body" "d_wire_admitted FORMULA_MAX_NODES 256 ?body" "c = dc_of h ?kind ?body"
    using a by (simp_all only: certificate_ok_iff)
  have bs: "bs = definition_wire ?kind ?body" using a c(4) by (metis dc_of_def definition_certificate.select_convs(3))
  have l: "length (d_wire ?body) \<le> FORMULA_MAX_BYTES" using c(3) by (simp add: d_wire_admitted_def)
  let ?n = "of_nat (length (d_wire ?body)) :: u32"
  have n: "unat ?n = length (d_wire ?body)" using l by (intro unat_u32_of_nat) (simp add: FORMULA_MAX_BYTES_def)
  have rest: "cursor_rest (cursor_new bs) = kind_bytes ?kind @ u32_to_be_bytes ?n @ d_wire ?body"
    by (simp add: bs definition_wire_def)
  have k: "read_kind (cursor_new bs) = Ok (?kind, ?n, advance 9 (cursor_new bs))"
    using rest by (rule read_kind_wire) simp
  have len: "length (cursor_rest (cursor_new bs)) = 9 + length (d_wire ?body)" unfolding rest by simp
  have ok9: "cursor_ok (advance 9 (cursor_new bs))" by (rule cursor_ok_advance) (simp_all only: cursor_ok_new len le_add1)
  have t: "cursor_take (unat ?n) (advance 9 (cursor_new bs)) = Some (d_wire ?body, advance (unat ?n) (advance 9 (cursor_new bs)))"
    by (rule cursor_take_rest [where r = "[]"]) (simp_all add: rest n ok9 del: cursor_rest_new advance_add)
  have r0: "cursor_remaining (advance (unat ?n) (advance 9 (cursor_new bs))) = 0"
    by (simp add: cursor_remaining_rest rest n del: cursor_rest_new)
  have v: "validate_definition_body ?kind ?body (length (d_wire ?body)) = Ok ()"
    using c(2) l by (simp add: validate_definition_body_Ok DEFINITION_MAX_BYTES_def)
  have d: "d_decode_canonical (d_wire ?body) = Ok ?body" using c(1,3) by (simp add: d_decode_canonical_Ok)
  have fp: "definition_from_parts h ?kind ?body bs = Some c"
    using from_parts_wire [OF l, of h ?kind] c(4) bs by (simp only:)
  have "\<not> DEFINITION_MAX_BYTES < length bs" using l by (simp add: bs definition_wire_def DEFINITION_MAX_BYTES_def)
  then show "definition_from_canonical_bytes h bs = Ok c"
    unfolding definition_from_canonical_bytes_def
    by (simp only: if_False k t r0 v d fp and_then.simps prod.case ok_or.simps map_err.simps expect.simps simp_thms)
qed

lemma read_kind_not_Panic [simp]: "read_kind c \<noteq> Panic"
  by (auto simp: read_kind_def split: if_splits)

lemma definition_from_canonical_bytes_not_Panic: "definition_from_canonical_bytes h bs \<noteq> Panic"
proof
  assume p: "definition_from_canonical_bytes h bs = Panic"
  then obtain kind body where "definition_from_parts h kind body bs = None" "length bs \<le> DEFINITION_MAX_BYTES"
    by (auto simp: definition_from_canonical_bytes_def split: if_splits)
  then show False
    by (auto simp: definition_from_parts_def bind_eq_None_conv framed_None DEFINITION_MAX_BYTES_def FORMULA_MAX_BYTES_def)
qed

section \<open>What a definition means\<close>

text \<open>A body holds no definition, so its meaning does not depend on an interpretation of any.\<close>

lemma d_sem_definition_free: "\<not> contains_definition a \<Longrightarrow> d_sem E I r bs a = d_sem E J r bs a"
  by (induction a arbitrary: bs) simp_all

definition definition_meaning :: "'d universe \<Rightarrow> definition_certificate \<Rightarrow> 'd list \<Rightarrow> bool" where
  "definition_meaning E c xs = d_sem E (\<lambda>_ _. False) (formals xs) [] (dc_body c)"

lemma certificates_interpreted:
  assumes "\<And>i. resolver i = Ok (map_option dc_resolution (lookup i))" "\<And>i c. lookup i = Some c \<Longrightarrow> certificate_ok h c"
  shows "interprets E (\<lambda>i xs. case lookup i of None \<Rightarrow> False | Some c \<Rightarrow> definition_meaning E c xs) resolver"
  unfolding interprets_def
proof (intro allI impI)
  fix i res assume "resolver i = Ok (Some res)"
  then obtain c where c: "lookup i = Some c" "res = dc_resolution c" by (auto simp: assms(1))
  then have ok: "certificate_ok h c" by (intro assms(2))
  let ?I = "\<lambda>i xs. case lookup i of None \<Rightarrow> False | Some c \<Rightarrow> definition_meaning E c xs"
  have "d_sem E ?I (formals xs) [] (dc_body c) = definition_meaning E c xs" for xs
    unfolding definition_meaning_def by (rule d_sem_definition_free) (use ok in \<open>simp add: certificate_ok_iff definition_ok_def\<close>)
  with c ok show "d_well_formed (resolution_body res) \<and> (\<forall>xs. length xs = unat (relation_arity res) \<longrightarrow>
      (?I i xs \<longleftrightarrow> d_sem E ?I (formals xs) [] (resolution_body res)))"
    by (simp add: dc_resolution_def certificate_ok_iff)
qed

section \<open>Properties\<close>

text \<open>C33. Bytes decode to a definition certificate exactly when the certificate is one that the constructor
  returns for a well-formed body, with these bytes as its canonical encoding; neither direction panics.\<close>

theorem definition_round_trip:
  "(definition_from_canonical_bytes h bs = Ok c \<longleftrightarrow>
      (\<exists>kind body. d_well_formed body \<and> definition_new h kind body = Ok c \<and> dc_canonical c = bs)) \<and>
   definition_from_canonical_bytes h bs \<noteq> Panic \<and> definition_new h kind body \<noteq> Panic"
  using definition_from_canonical_bytes_Ok [of h bs c] definition_from_canonical_bytes_not_Panic definition_new_not_Panic
  unfolding certificate_ok_def by blast

text \<open>C34. The constructor accepts a kind and a body exactly when the arity is positive and at most 256, the
  body cites no definition, its free variables are exactly the formal parameters, and it is within the
  limits of the formula codec; every other input is an error.\<close>

theorem definition_new_accepts_exactly:
  "(\<exists>c. definition_new h kind body = Ok c) \<longleftrightarrow>
     kind \<noteq> RelationKind 0 \<and> kind \<noteq> FunctionKind 0 \<and> graph_arity kind \<le> 256 \<and> \<not> contains_definition body \<and>
     set (d_free_variables body) = {v. unat v < graph_arity kind} \<and> d_wire_admitted FORMULA_MAX_NODES 256 body"
  by (cases kind) (auto simp: definition_new_Ok definition_ok_def kind_ok_def)

end
