(* ===== verification/Artifact_Payload.thy ===== *)
theory Artifact_Payload
  imports Definition_Certificate Certificate_Codec
begin

text \<open>
  The typed envelope of an artifact, \<open>naome-proof/src/artifact.rs\<close>: one tag byte followed by the
  canonical bytes of a proof certificate or of a definition certificate.
\<close>

datatype artifact_payload =
    ProofPayload proof_certificate
  | DefinitionPayload definition_certificate

datatype artifact_payload_error =
    ApInputTooLong nat nat
  | ApUnexpectedEnd
  | ApUnknownTag u8
  | ApProof proof_certificate_error
  | ApDefinition definition_certificate_error

definition PROOF_TAG :: u8 where "PROOF_TAG = 0x00"
definition DEFINITION_TAG :: u8 where "DEFINITION_TAG = 0x01"

definition ARTIFACT_PAYLOAD_MAX_BYTES :: nat where
  "ARTIFACT_PAYLOAD_MAX_BYTES =
     1 + (if DEFINITION_MAX_BYTES < CERTIFICATE_MAX_BYTES then CERTIFICATE_MAX_BYTES else DEFINITION_MAX_BYTES)"

definition payload_to_canonical_bytes :: "artifact_payload \<Rightarrow> bytes option" where
  "payload_to_canonical_bytes p =
     (case p of
        ProofPayload certificate \<Rightarrow> map_option (Cons PROOF_TAG) (to_canonical_bytes certificate)
      | DefinitionPayload definition_certificate \<Rightarrow> Some (DEFINITION_TAG # dc_canonical definition_certificate))"

definition payload_from_canonical_bytes :: "hash \<Rightarrow> bytes \<Rightarrow> (artifact_payload_error, artifact_payload) outcome" where
  "payload_from_canonical_bytes sha256 bs =
     (if ARTIFACT_PAYLOAD_MAX_BYTES < length bs then Err (ApInputTooLong (length bs) ARTIFACT_PAYLOAD_MAX_BYTES)
      else case bs of
          [] \<Rightarrow> Err ApUnexpectedEnd
        | tag # payload \<Rightarrow>
            if tag = PROOF_TAG then map_err ApProof (map_ok ProofPayload (from_canonical_bytes payload))
            else if tag = DEFINITION_TAG then
              map_err ApDefinition (map_ok DefinitionPayload (definition_from_canonical_bytes sha256 payload))
            else Err (ApUnknownTag tag))"

text \<open>A payload that the constructors of its parts can return.\<close>

definition payload_ok :: "hash \<Rightarrow> artifact_payload \<Rightarrow> bool" where
  "payload_ok h p =
     (case p of
        ProofPayload certificate \<Rightarrow> cert_ok certificate
      | DefinitionPayload definition_certificate \<Rightarrow> certificate_ok h definition_certificate)"

lemma length_certificate_wire: "cert_ok cert \<Longrightarrow> length (certificate_wire (cert_steps cert)) \<le> CERTIFICATE_MAX_BYTES"
  by (simp add: cert_ok_def steps_encodable_def)

lemma length_dc_canonical: "certificate_ok h c \<Longrightarrow> length (dc_canonical c) \<le> DEFINITION_MAX_BYTES"
proof -
  assume c: "certificate_ok h c"
  then have "dc_canonical c = definition_wire (dc_kind c) (dc_body c)"
    by (metis certificate_ok_iff dc_of_def definition_certificate.select_convs(3))
  with c show ?thesis by (simp add: certificate_ok_iff d_wire_admitted_def definition_wire_def DEFINITION_MAX_BYTES_def)
qed

lemma payload_fits:
  "n \<le> CERTIFICATE_MAX_BYTES \<Longrightarrow> Suc n \<le> ARTIFACT_PAYLOAD_MAX_BYTES" "n \<le> DEFINITION_MAX_BYTES \<Longrightarrow> Suc n \<le> ARTIFACT_PAYLOAD_MAX_BYTES"
  by (auto simp: ARTIFACT_PAYLOAD_MAX_BYTES_def)

lemma payload_bytes_iff:
  "payload_from_canonical_bytes h bs = Ok p \<longleftrightarrow> payload_ok h p \<and> payload_to_canonical_bytes p = Some bs"
proof (cases bs)
  case Nil
  then show ?thesis
    by (cases p) (auto simp: payload_from_canonical_bytes_def payload_to_canonical_bytes_def)
next
  case (Cons tag payload)
  have tags: "PROOF_TAG \<noteq> DEFINITION_TAG" by (simp add: PROOF_TAG_def DEFINITION_TAG_def)
  show ?thesis
  proof (cases p)
    case (ProofPayload cert)
    have "payload_ok h p \<and> payload_to_canonical_bytes p = Some bs \<longleftrightarrow>
        tag = PROOF_TAG \<and> cert_ok cert \<and> payload = certificate_wire (cert_steps cert)"
      using to_canonical_bytes_ok [of cert] by (auto simp: ProofPayload Cons payload_ok_def payload_to_canonical_bytes_def)
    moreover have "payload_from_canonical_bytes h bs = Ok p \<longleftrightarrow>
        tag = PROOF_TAG \<and> cert_ok cert \<and> payload = certificate_wire (cert_steps cert)"
      using payload_fits(1) [of "length payload"] length_certificate_wire [of cert] tags
      by (auto simp: ProofPayload Cons payload_from_canonical_bytes_def from_canonical_bytes_def decode_certificate_Ok)
    ultimately show ?thesis by blast
  next
    case (DefinitionPayload c)
    then show ?thesis
      using payload_fits(2) [of "length payload"] length_dc_canonical [of h c] tags Cons
      by (auto simp: payload_ok_def payload_to_canonical_bytes_def payload_from_canonical_bytes_def
          definition_from_canonical_bytes_Ok)
  qed
qed

section \<open>Property\<close>

text \<open>C35. Bytes decode to a typed artifact exactly when the artifact is one that the constructors return and
  the bytes are its canonical encoding; so an artifact has one encoding, and a proof and a definition
  never share one.\<close>

theorem artifact_round_trip:
  "payload_from_canonical_bytes h bs = Ok p \<longleftrightarrow> payload_ok h p \<and> payload_to_canonical_bytes p = Some bs"
  by (rule payload_bytes_iff)

end
