(* ===== verification/Formula_Graph.thy ===== *)
theory Formula_Graph
  imports Semantics
begin

text \<open>
  Constant-size formula nodes, \<open>naome-foundation/src/formula/graph.rs\<close>. A node refers to its children by
  identifiers of an arbitrary type, so that a formula larger than the memory can be kept in a store. A node
  carries the structural properties that the store records with it, and the two variable transforms on which
  binding and substitution are built. The children of a node are an array of two options, a pair here. A fold of
  a tree is compared with the operations on trees: the recorded properties decide closedness, and a fold with
  a transform is the operation on the tree.
\<close>

datatype gvariable = GFree u32 | GBound u64

datatype 'i gnode =
    GEqual gvariable gvariable
  | GMember gvariable gvariable
  | GNot 'i
  | GImplies 'i 'i
  | GForAll 'i

record properties =
  has_free_variables :: bool
  required_binders :: u64

definition closed :: "properties \<Rightarrow> bool" where
  "closed p \<longleftrightarrow> \<not> has_free_variables p \<and> required_binders p = 0"

datatype transform = Bind u32 | Substitute u32 u32

fun transform_variable :: "transform \<Rightarrow> gvariable \<Rightarrow> u64 \<Rightarrow> gvariable" where
  "transform_variable (Bind target) (GFree v) depth = (if v = target then GBound depth else GFree v)"
| "transform_variable (Substitute from to) (GFree v) depth = (if v = from then GFree to else GFree v)"
| "transform_variable t (GBound i) depth = GBound i"

primrec gmap :: "('i \<Rightarrow> 'j) \<Rightarrow> 'i gnode \<Rightarrow> 'j gnode" where
  "gmap f (GEqual a b) = GEqual a b"
| "gmap f (GMember a b) = GMember a b"
| "gmap f (GNot a) = GNot (f a)"
| "gmap f (GImplies a b) = GImplies (f a) (f b)"
| "gmap f (GForAll a) = GForAll (f a)"

primrec children :: "'i gnode \<Rightarrow> 'i option \<times> 'i option" where
  "children (GEqual a b) = (None, None)"
| "children (GMember a b) = (None, None)"
| "children (GNot a) = (Some a, None)"
| "children (GImplies a b) = (Some a, Some b)"
| "children (GForAll a) = (Some a, None)"

definition nested_depth :: "'i gnode \<Rightarrow> u64 \<Rightarrow> u64 option" where
  "nested_depth n depth = (case n of GForAll _ \<Rightarrow> checked_add depth 1 | _ \<Rightarrow> Some depth)"

primrec transformed :: "'i gnode \<Rightarrow> transform \<Rightarrow> u64 \<Rightarrow> 'i option \<times> 'i option \<Rightarrow> 'i gnode option" where
  "transformed (GEqual a b) t depth cs = Some (GEqual (transform_variable t a depth) (transform_variable t b depth))"
| "transformed (GMember a b) t depth cs = Some (GMember (transform_variable t a depth) (transform_variable t b depth))"
| "transformed (GNot _) t depth cs = map_option GNot (fst cs)"
| "transformed (GForAll _) t depth cs = map_option GForAll (fst cs)"
| "transformed (GImplies _ _) t depth cs = Option.bind (fst cs) (\<lambda>a. map_option (GImplies a) (snd cs))"

primrec variable_properties :: "gvariable \<Rightarrow> properties option" where
  "variable_properties (GFree v) = Some \<lparr>has_free_variables = True, required_binders = 0\<rparr>"
| "variable_properties (GBound i) =
     map_option (\<lambda>n. \<lparr>has_free_variables = False, required_binders = n\<rparr>) (checked_add i 1)"

definition combine :: "properties \<Rightarrow> properties \<Rightarrow> properties" where
  "combine a b =
     \<lparr>has_free_variables = has_free_variables a \<or> has_free_variables b, required_binders = max (required_binders a) (required_binders b)\<rparr>"

definition combine_variables :: "gvariable \<Rightarrow> gvariable \<Rightarrow> properties option" where
  "combine_variables a b = Option.bind (variable_properties a) (\<lambda>p. map_option (combine p) (variable_properties b))"

primrec node_properties :: "'i gnode \<Rightarrow> properties option \<times> properties option \<Rightarrow> properties option" where
  "node_properties (GEqual a b) cs = combine_variables a b"
| "node_properties (GMember a b) cs = combine_variables a b"
| "node_properties (GNot _) cs = fst cs"
| "node_properties (GImplies _ _) cs = Option.bind (fst cs) (\<lambda>p. map_option (combine p) (snd cs))"
| "node_properties (GForAll _) cs =
     map_option (\<lambda>p. p\<lparr>required_binders := (if required_binders p = 0 then 0 else required_binders p - 1)\<rparr>) (fst cs)"

primrec graph_variable :: "variable \<Rightarrow> gvariable" where
  "graph_variable (Free v) = GFree v"
| "graph_variable (Bound i) = GBound (ucast i)"

text \<open>The fold calls \<open>emit\<close> on every node, children first and left to right; \<open>emit\<close> owns the store.\<close>

primrec fold_graph :: "('i gnode \<Rightarrow> 's \<Rightarrow> ('e, 'i \<times> 's) outcome) \<Rightarrow> node \<Rightarrow> 's \<Rightarrow> ('e, 'i \<times> 's) outcome" where
  "fold_graph emit (FEqual a b) s = emit (GEqual (graph_variable a) (graph_variable b)) s"
| "fold_graph emit (FMember a b) s = emit (GMember (graph_variable a) (graph_variable b)) s"
| "fold_graph emit (FNot a) s = and_then (fold_graph emit a s) (\<lambda>(i, s). emit (GNot i) s)"
| "fold_graph emit (FImplies a b) s =
     and_then (fold_graph emit a s) (\<lambda>(i, s). and_then (fold_graph emit b s) (\<lambda>(j, s). emit (GImplies i j) s))"
| "fold_graph emit (FForAll a) s = and_then (fold_graph emit a s) (\<lambda>(i, s). emit (GForAll i) s)"

primrec graph_node :: "node \<Rightarrow> node gnode" where
  "graph_node (FEqual a b) = GEqual (graph_variable a) (graph_variable b)"
| "graph_node (FMember a b) = GMember (graph_variable a) (graph_variable b)"
| "graph_node (FNot a) = GNot a"
| "graph_node (FImplies a b) = GImplies a b"
| "graph_node (FForAll a) = GForAll a"

section \<open>Recorded properties\<close>

text \<open>The number of enclosing binders that a formula needs.\<close>

primrec open_variable_height :: "variable \<Rightarrow> nat" where
  "open_variable_height (Free v) = 0"
| "open_variable_height (Bound i) = Suc (unat i)"

primrec open_height :: "node \<Rightarrow> nat" where
  "open_height (FEqual a b) = max (open_variable_height a) (open_variable_height b)"
| "open_height (FMember a b) = max (open_variable_height a) (open_variable_height b)"
| "open_height (FNot a) = open_height a"
| "open_height (FImplies a b) = max (open_height a) (open_height b)"
| "open_height (FForAll a) = open_height a - 1"

lemma var_below_open_height: "var_below n v \<longleftrightarrow> open_variable_height v \<le> n"
  by (cases v) (simp_all add: less_eq_Suc_le)

lemma closed_at_open_height: "closed_at n a \<longleftrightarrow> open_height a \<le> n"
proof (induction a arbitrary: n)
  case (FForAll a)
  then have "closed_at (Suc n) a \<longleftrightarrow> open_height a \<le> Suc n" by blast
  also have "\<dots> \<longleftrightarrow> open_height a - 1 \<le> n" by arith
  finally show ?case by simp
qed (simp_all only: closed_at.simps open_height.simps var_below_open_height max.bounded_iff)

lemma open_height_less: "open_height a \<le> 2 ^ 32"
proof -
  have v: "open_variable_height v \<le> 2 ^ 32" for v using unat_u32_less by (cases v) (simp_all add: less_eq_Suc_le)
  show ?thesis
  proof (induction a)
    case (FForAll a)
    then show ?case by simp
  qed (use v in \<open>simp_all del: power_numeral\<close>)
qed

lemma unat_u32_to_u64: "unat (ucast (w :: u32) :: u64) = unat w"
  using unat_u32_less [of w] by (simp add: unsigned_ucast_eq take_bit_nat_eq_self)

definition property_fold :: "properties gnode \<Rightarrow> unit \<Rightarrow> (unit, properties \<times> unit) outcome" where
  "property_fold n s = map_ok (\<lambda>p. (p, s)) (ok_or () (node_properties n (children n)))"

definition properties_of :: "node \<Rightarrow> properties" where
  "properties_of a = \<lparr>has_free_variables = (frees a \<noteq> {}), required_binders = of_nat (open_height a)\<rparr>"

lemma u64_of_nat: "n \<le> 2 ^ 32 \<Longrightarrow> unat (of_nat n :: u64) = n"
  by (simp add: unat_of_nat)

lemma u64_max: "m \<le> 2 ^ 32 \<Longrightarrow> n \<le> 2 ^ 32 \<Longrightarrow> max (of_nat m :: u64) (of_nat n) = of_nat (max m n)"
  by (auto simp: max_def word_le_nat_alt u64_of_nat)

lemma variable_properties_eq:
  "variable_properties (graph_variable v) =
     Some \<lparr>has_free_variables = (frees_of v \<noteq> {}), required_binders = of_nat (open_variable_height v)\<rparr>"
proof (cases v)
  case (Bound i)
  have "unat (ucast i :: u64) = unat i" by (rule unat_u32_to_u64)
  then have "checked_add (ucast i :: u64) 1 = Some (of_nat (Suc (unat i)))"
    using unat_u32_less [of i] by (simp add: checked_add_Some)
  then show ?thesis by (simp add: Bound)
qed simp

lemma combine_variables_eq:
  "combine_variables (graph_variable v) (graph_variable w) = Some \<lparr>has_free_variables = (frees_of v \<union> frees_of w \<noteq> {}),
     required_binders = of_nat (max (open_variable_height v) (open_variable_height w))\<rparr>"
proof -
  have "open_variable_height v \<le> 2 ^ 32" for v using unat_u32_less by (cases v) (simp_all add: less_eq_Suc_le)
  then show ?thesis by (simp add: combine_variables_def variable_properties_eq combine_def u64_max)
qed

lemma combine_properties: "combine (properties_of a) (properties_of b) = properties_of (FImplies a b)"
  using open_height_less [of a] open_height_less [of b] by (auto simp: combine_def properties_of_def u64_max)

lemma fold_properties: "fold_graph property_fold a () = Ok (properties_of a, ())"
proof (induction a)
  case (FForAll a)
  have "(if (of_nat (open_height a) :: u64) = 0 then 0 else of_nat (open_height a) - 1) = (of_nat (open_height a - 1) :: u64)"
  proof (cases "open_height a")
    case (Suc n)
    then have "unat (of_nat (open_height a) :: u64) \<noteq> 0" using u64_of_nat [OF open_height_less [of a]] by simp
    then have "(of_nat (open_height a) :: u64) \<noteq> 0" by (metis unsigned_0)
    with Suc show ?thesis by simp
  qed simp
  with FForAll show ?case by (auto simp: property_fold_def properties_of_def split: if_splits)
next
  case (FImplies a b)
  then show ?case by (simp add: property_fold_def combine_properties)
qed (simp_all add: property_fold_def combine_variables_eq properties_of_def)

text \<open>C38. The properties that a store records bottom-up never overflow and decide closedness: folding a formula
  yields the number of enclosing binders it needs, and the recorded value is closed exactly when the
  formula has no free variable and no index outside its binders.\<close>

theorem graph_properties_decide_closedness:
  "\<exists>p. fold_graph (\<lambda>n s. map_ok (\<lambda>p. (p, s)) (ok_or () (node_properties n (children n)))) a () = Ok (p, ()) \<and>
     (has_free_variables p \<longleftrightarrow> \<not> is_closed a) \<and> (\<forall>n. closed_at n a \<longleftrightarrow> unat (required_binders p) \<le> n) \<and>
     (closed p \<longleftrightarrow> is_closed a \<and> well_formed a)"
proof -
  have u: "unat (of_nat (open_height a) :: u64) = open_height a" by (rule u64_of_nat [OF open_height_less])
  then have "(of_nat (open_height a) :: u64) = 0 \<longleftrightarrow> open_height a = 0" by (simp only: word_unat_eq_iff unsigned_0)
  then have "closed (properties_of a) \<longleftrightarrow> is_closed a \<and> well_formed a"
    by (simp add: closed_def properties_of_def is_closed_iff well_formed_def closed_at_open_height)
  moreover have "\<forall>n. closed_at n a \<longleftrightarrow> unat (required_binders (properties_of a)) \<le> n"
    by (simp add: closed_at_open_height properties_of_def u)
  moreover have "has_free_variables (properties_of a) \<longleftrightarrow> \<not> is_closed a" by (simp add: properties_of_def is_closed_iff)
  ultimately show ?thesis using fold_properties [of a, unfolded property_fold_def] by blast
qed

section \<open>Transforms\<close>

text \<open>Binding and substitution of a tree, one node at a time: the children of the result are the results for the
  children, at the depth that the node gives them.\<close>

lemma transform_bind_variable:
  assumes "bind_variable (\<lambda>c. if c = x then Some 0 else None) d v = Some w"
  shows "transform_variable (Bind x) (graph_variable v) (ucast d) = graph_variable w"
  using assms by (cases v) (auto simp: bind_variable_def checked_add_def split: if_splits)

lemma transformed_bind:
  assumes "bind_free (\<lambda>c. if c = x then Some 0 else None) d a = Some b"
  shows "transformed (graph_node a) (Bind x) (ucast d) (children (graph_node b)) = Some (graph_node b)"
  using assms by (cases a) (auto simp: bind_eq_Some_conv transform_bind_variable)

lemma transformed_substitute:
  "transformed (graph_node a) (Substitute x y) (ucast d) (children (graph_node (substitute_free x y a))) =
     Some (graph_node (substitute_free x y a))"
proof -
  have "transform_variable (Substitute x y) (graph_variable v) k = graph_variable (map_free_variable (\<lambda>c. if c = x then y else c) v)" for v k
    by (cases v) auto
  moreover have "map_free_variable (\<lambda>c. c) v = v" for v by (cases v) auto
  ultimately show ?thesis by (cases a) (auto simp: substitute_free_def)
qed

lemma nested_depth_eq:
  assumes "unat d + 1 < 2 ^ 32"
  shows "nested_depth (graph_node (FForAll a)) (ucast d) = map_option ucast (checked_add (d :: u32) 1)"
proof -
  have d: "checked_add d 1 = Some (d + 1)" "unat (d + 1) = unat d + 1" using checked_add_one [OF assms] by simp_all
  have "unat (ucast d + 1 :: u64) = unat (ucast (d + 1) :: u64)"
    using assms by (simp only: unat_word_ariths unat_u32_to_u64 d(2)) simp
  then have "(ucast d + 1 :: u64) = ucast (d + 1)" by (simp only: word_unat_eq_iff)
  moreover have "checked_add (ucast d :: u64) 1 = Some (ucast d + 1)" using assms by (simp add: checked_add_Some unat_u32_to_u64)
  ultimately show ?thesis using d(1) by (simp add: nested_depth_def)
qed

end
