(* ===== verification/Formula_Source.thy ===== *)
theory Formula_Source
  imports Formula
begin

text \<open>
  The source presentation of a formula, \<open>naome-foundation/src/formula/source.rs\<close>, and the comparison of two
  formulas for a message, \<open>formula/comparison.rs\<close>. Text is a \<open>string\<close> whose characters are the bytes of the
  UTF-8 text. The renderer is generic in the trait \<open>fmt::Write\<close>: a writer takes the sink, and returns it with
  a flag that is \<open>False\<close> for \<open>fmt::Error\<close>; \<open>None\<close> is an arithmetic panic. It is shown to write one
  reference text, whole into a \<open>String\<close> and cut with an ellipsis into a \<open>LimitedSource\<close>.
\<close>

section \<open>Writers\<close>

type_synonym 's writer = "'s \<Rightarrow> ('s \<times> bool) option"

definition write_done :: "'s writer" where
  "write_done s = Some (s, True)"

definition write_then :: "'s writer \<Rightarrow> 's writer \<Rightarrow> 's writer" where
  "write_then v w s = Option.bind (v s) (\<lambda>(s', ok). if ok then w s' else Some (s', False))"

definition write_string :: "string \<Rightarrow> string writer" where
  "write_string text s = Some (s @ text, True)"

record limited_source =
  ls_text :: string
  ls_maximum :: nat

definition write_limited :: "string \<Rightarrow> limited_source writer" where
  "write_limited text s =
     (let available = ls_maximum s - length (ls_text s)
      in if length text > available then Some (s\<lparr>ls_text := ls_text s @ take available text\<rparr>, False)
         else Some (s\<lparr>ls_text := ls_text s @ text\<rparr>, True))"

text \<open>\<open>Display\<close> of an unsigned integer.\<close>

definition digit :: "nat \<Rightarrow> char" where
  "digit n = char_of (48 + n)"

fun decimal :: "nat \<Rightarrow> string" where
  "decimal n = (if n < 10 then [digit n] else decimal (n div 10) @ [digit (n mod 10)])"

declare decimal.simps [simp del]

section \<open>Rendering\<close>

definition render_name :: "(string \<Rightarrow> 's writer) \<Rightarrow> char \<Rightarrow> u32 \<Rightarrow> 's writer" where
  "render_name out prefix n = write_then (out [prefix]) (out (decimal (unat n)))"

primrec source_variable :: "(string \<Rightarrow> 's writer) \<Rightarrow> u32 \<Rightarrow> variable \<Rightarrow> 's writer" where
  "source_variable out depth (Free v) = render_name out (CHR ''f'') v"
| "source_variable out depth (Bound index) = (\<lambda>s.
     Option.bind (checked_sub depth 1) (\<lambda>last.
     Option.bind (checked_sub last index) (\<lambda>level. render_name out (CHR ''b'') level s)))"

definition render_atom :: "(string \<Rightarrow> 's writer) \<Rightarrow> u32 \<Rightarrow> string \<Rightarrow> variable \<Rightarrow> variable \<Rightarrow> 's writer" where
  "render_atom out depth operator left right =
     write_then (out operator) (write_then (source_variable out depth left) (write_then (out '', '')
       (write_then (source_variable out depth right) (out '')''))))"

primrec render :: "(string \<Rightarrow> 's writer) \<Rightarrow> node \<Rightarrow> u32 \<Rightarrow> 's writer" where
  "render out (FEqual left right) depth = render_atom out depth ''eq('' left right"
| "render out (FMember left right) depth = render_atom out depth ''mem('' left right"
| "render out (FNot body) depth = write_then (out ''not('') (write_then (render out body depth) (out '')''))"
| "render out (FImplies left right) depth =
     write_then (out ''imp('') (write_then (render out left depth) (write_then (out '', '')
       (write_then (render out right depth) (out '')''))))"
| "render out (FForAll body) depth =
     write_then (out ''all('') (write_then (render_name out (CHR ''b'') depth) (write_then (out '', '')
       (write_then (\<lambda>s. Option.bind (checked_add depth 1) (\<lambda>nested. render out body nested s)) (out '')''))))"

definition to_source :: "node \<Rightarrow> string option" where
  "to_source formula =
     Option.bind (render write_string formula 0 []) (\<lambda>(output, ok). if ok then Some output else None)"

definition to_source_with_limit :: "node \<Rightarrow> nat \<Rightarrow> string option" where
  "to_source_with_limit formula maximum_bytes =
     Option.bind (render write_limited formula 0 \<lparr>ls_text = [], ls_maximum = maximum_bytes\<rparr>) (\<lambda>(output, ok).
       if ok then Some (ls_text output)
       else Some (take (min (length (ls_text output)) (maximum_bytes - 3)) (ls_text output) @ take (min maximum_bytes 3) ''...''))"

section \<open>Comparison\<close>

datatype formula_path_segment = Negated | Antecedent | Consequent | Quantified | LeftVariable | RightVariable

fun path_segment_name :: "formula_path_segment \<Rightarrow> string" where
  "path_segment_name Negated = ''negated''"
| "path_segment_name Antecedent = ''antecedent''"
| "path_segment_name Consequent = ''consequent''"
| "path_segment_name Quantified = ''quantified''"
| "path_segment_name LeftVariable = ''left_variable''"
| "path_segment_name RightVariable = ''right_variable''"

record formula_mismatch =
  fm_expected :: string
  fm_actual :: string
  fm_path :: "formula_path_segment list"

definition atom_difference :: "variable \<times> variable \<Rightarrow> variable \<times> variable \<Rightarrow> formula_path_segment list \<Rightarrow> bool \<times> formula_path_segment list" where
  "atom_difference expected actual path =
     (if fst expected \<noteq> fst actual then (True, path @ [LeftVariable])
      else if snd expected \<noteq> snd actual then (True, path @ [RightVariable])
      else (False, path))"

text \<open>The loop over the children pushes an edge, descends, and pops the edge when the children agree.\<close>

definition pop_unless :: "bool \<times> 'a list \<Rightarrow> bool \<times> 'a list" where
  "pop_unless r = (if fst r then r else (False, butlast (snd r)))"

fun different :: "node \<Rightarrow> node \<Rightarrow> formula_path_segment list \<Rightarrow> bool \<times> formula_path_segment list" where
  "different (FEqual a b) (FEqual c d) path = atom_difference (a, b) (c, d) path"
| "different (FMember a b) (FMember c d) path = atom_difference (a, b) (c, d) path"
| "different (FNot a) (FNot b) path = pop_unless (different a b (path @ [Negated]))"
| "different (FForAll a) (FForAll b) path = pop_unless (different a b (path @ [Quantified]))"
| "different (FImplies a b) (FImplies c d) path =
     (let first = pop_unless (different a c (path @ [Antecedent]))
      in if fst first then first else pop_unless (different b d (snd first @ [Consequent])))"
| "different _ _ path = (True, path)"

definition mismatch_between :: "node \<Rightarrow> node \<Rightarrow> formula_mismatch option option" where
  "mismatch_between expected actual =
     (case different expected actual [] of
        (True, path) \<Rightarrow>
          Option.bind (to_source_with_limit expected 256) (\<lambda>e.
          map_option (\<lambda>a. Some \<lparr>fm_expected = e, fm_actual = a, fm_path = path\<rparr>) (to_source_with_limit actual 256))
      | (False, _) \<Rightarrow> Some None)"

section \<open>The reference text\<close>

text \<open>Depth and level as natural numbers: the name of a bound variable is the number of the binder, counted from the root.\<close>

primrec variable_text :: "nat \<Rightarrow> variable \<Rightarrow> string" where
  "variable_text depth (Free v) = CHR ''f'' # decimal (unat v)"
| "variable_text depth (Bound index) = CHR ''b'' # decimal (depth - 1 - unat index)"

primrec source_text :: "nat \<Rightarrow> node \<Rightarrow> string" where
  "source_text depth (FEqual left right) = ''eq('' @ variable_text depth left @ '', '' @ variable_text depth right @ '')''"
| "source_text depth (FMember left right) = ''mem('' @ variable_text depth left @ '', '' @ variable_text depth right @ '')''"
| "source_text depth (FNot body) = ''not('' @ source_text depth body @ '')''"
| "source_text depth (FImplies left right) = ''imp('' @ source_text depth left @ '', '' @ source_text depth right @ '')''"
| "source_text depth (FForAll body) = ''all('' @ (CHR ''b'' # decimal depth) @ '', '' @ source_text (Suc depth) body @ '')''"

section \<open>Sinks\<close>

text \<open>What the renderer needs of a sink: pieces may be written one by one or together.\<close>

locale text_sink =
  fixes out :: "string \<Rightarrow> 's writer"
  assumes out_append: "write_then (out a) (out b) = out (a @ b)"
begin

lemma render_name_text: "render_name out c n = out (c # decimal (unat n))"
  by (simp add: render_name_def out_append)

lemma source_variable_text: "var_below (unat depth) v \<Longrightarrow> source_variable out depth v = out (variable_text (unat depth) v)"
proof (cases v)
  case (Bound index)
  assume "var_below (unat depth) v"
  then have less: "unat index < unat depth" by (simp add: Bound)
  then have "1 \<le> unat depth" by simp
  then have one: "1 \<le> depth" by (simp add: word_le_nat_alt)
  then have u: "unat (depth - 1) = unat depth - 1" by (simp add: unat_sub)
  with less have "index \<le> depth - 1" by (simp add: word_le_nat_alt)
  then have "unat (depth - 1 - index) = unat depth - 1 - unat index" by (simp add: unat_sub u)
  with one \<open>index \<le> depth - 1\<close> show ?thesis by (simp add: Bound checked_sub_def render_name_text fun_eq_iff)
qed (simp add: render_name_text)

lemma render_text:
  "closed_at (unat depth) a \<Longrightarrow> unat depth + binders a < 2 ^ 32 \<Longrightarrow> render out a depth = out (source_text (unat depth) a)"
proof (induction a arbitrary: depth)
  case (FForAll body)
  then have n: "checked_add depth 1 = Some (depth + 1)" "unat (depth + 1) = Suc (unat depth)"
    using checked_add_one [of depth] by simp_all
  with FForAll have "render out body (depth + 1) = out (source_text (Suc (unat depth)) body)" by simp
  with n show ?case by (simp add: render_name_text out_append)
qed (simp_all add: render_atom_def source_variable_text out_append)

end

interpretation string_sink: text_sink write_string
  by unfold_locales (simp add: write_then_def write_string_def fun_eq_iff)

interpretation limited_sink: text_sink write_limited
proof unfold_locales
  show "write_then (write_limited a) (write_limited b) = write_limited (a @ b)" for a b
    by (auto simp: write_then_def write_limited_def Let_def fun_eq_iff)
qed

lemma to_source_text: "well_formed a \<Longrightarrow> binders a < 2 ^ 32 \<Longrightarrow> to_source a = Some (source_text 0 a)"
  using string_sink.render_text [of 0 a] by (simp add: to_source_def well_formed_def write_string_def)

lemma to_source_with_limit_text:
  assumes "well_formed a" "binders a < 2 ^ 32"
  shows "to_source_with_limit a n = Some (if length (source_text 0 a) \<le> n then source_text 0 a else take (n - 3) (source_text 0 a) @ take n ''...'')"
proof -
  have "render write_limited a 0 s = write_limited (source_text 0 a) s" for s
    using limited_sink.render_text [of 0 a] assms by (simp add: well_formed_def)
  then show ?thesis by (auto simp: to_source_with_limit_def write_limited_def min_def not_le)
qed

text \<open>A bounded preview of a formula never panics and never exceeds its limit: it is the whole source text
  when that fits, and otherwise the longest prefix that leaves room for the ellipsis, or as much of the
  ellipsis as fits.\<close>

theorem preview_is_bounded:
  assumes "well_formed a" "binders a < 2 ^ 32"
  shows "\<exists>text preview. to_source a = Some text \<and> to_source_with_limit a n = Some preview \<and> length preview \<le> n \<and>
    preview = (if length text \<le> n then text else take (n - 3) text @ take n ''...'')"
  using to_source_text [OF assms] to_source_with_limit_text [OF assms] by auto

section \<open>What a comparison reports\<close>

text \<open>The subformula that a path leads to; the last edge may name a variable of an atom.\<close>

fun follow :: "node \<Rightarrow> formula_path_segment list \<Rightarrow> (node \<times> formula_path_segment list) option" where
  "follow (FNot a) (Negated # p) = follow a p"
| "follow (FForAll a) (Quantified # p) = follow a p"
| "follow (FImplies a b) (Antecedent # p) = follow a p"
| "follow (FImplies a b) (Consequent # p) = follow b p"
| "follow a [] = Some (a, [])"
| "follow (FEqual x y) [s] = (if s \<in> {LeftVariable, RightVariable} then Some (FEqual x y, [s]) else None)"
| "follow (FMember x y) [s] = (if s \<in> {LeftVariable, RightVariable} then Some (FMember x y, [s]) else None)"
| "follow _ _ = None"

lemma different_result: "\<exists>p. different a b path = (a \<noteq> b, path @ p) \<and> (a = b \<longrightarrow> p = []) \<and>
    (a \<noteq> b \<longrightarrow> (\<exists>c d e. follow a p = Some (c, e) \<and> follow b p = Some (d, e) \<and> c \<noteq> d))"
proof (induction a b path rule: different.induct)
  case (3 a b path)
  then obtain p where p: "different a b (path @ [Negated]) = (a \<noteq> b, (path @ [Negated]) @ p)" "a = b \<longrightarrow> p = []"
    "a \<noteq> b \<longrightarrow> (\<exists>c d e. follow a p = Some (c, e) \<and> follow b p = Some (d, e) \<and> c \<noteq> d)" by blast
  then show ?case by (intro exI [of _ "if a = b then [] else Negated # p"]) (auto simp: pop_unless_def butlast_append)
next
  case (4 a b path)
  then obtain p where p: "different a b (path @ [Quantified]) = (a \<noteq> b, (path @ [Quantified]) @ p)" "a = b \<longrightarrow> p = []"
    "a \<noteq> b \<longrightarrow> (\<exists>c d e. follow a p = Some (c, e) \<and> follow b p = Some (d, e) \<and> c \<noteq> d)" by blast
  then show ?case by (intro exI [of _ "if a = b then [] else Quantified # p"]) (auto simp: pop_unless_def butlast_append)
next
  case (5 a b c d path)
  then obtain p where p: "different a c (path @ [Antecedent]) = (a \<noteq> c, (path @ [Antecedent]) @ p)" "a = c \<longrightarrow> p = []"
    "a \<noteq> c \<longrightarrow> (\<exists>x y e. follow a p = Some (x, e) \<and> follow c p = Some (y, e) \<and> x \<noteq> y)" by blast
  show ?case
  proof (cases "a = c")
    case False
    with p show ?thesis by (intro exI [of _ "Antecedent # p"]) (auto simp: pop_unless_def)
  next
    case True
    with p have first: "pop_unless (different a c (path @ [Antecedent])) = (False, path)" by (simp add: pop_unless_def)
    then obtain q where "different b d (path @ [Consequent]) = (b \<noteq> d, (path @ [Consequent]) @ q)" "b = d \<longrightarrow> q = []"
      "b \<noteq> d \<longrightarrow> (\<exists>x y e. follow b q = Some (x, e) \<and> follow d q = Some (y, e) \<and> x \<noteq> y)"
      using 5(2) [OF refl] by auto
    with True first show ?thesis
      by (intro exI [of _ "if b = d then [] else Consequent # q"]) (auto simp: pop_unless_def butlast_append)
  qed
qed (auto simp: atom_difference_def)

lemma mismatch_between_iff:
  assumes "well_formed a" "binders a < 2 ^ 32" "well_formed b" "binders b < 2 ^ 32"
  shows "(mismatch_between a b = Some None \<longleftrightarrow> a = b) \<and>
    (a \<noteq> b \<longrightarrow> (\<exists>m c d e. mismatch_between a b = Some (Some m) \<and> follow a (fm_path m) = Some (c, e) \<and> follow b (fm_path m) = Some (d, e) \<and> c \<noteq> d))"
  using different_result [of a b "[]"] to_source_with_limit_text [OF assms(1,2)] to_source_with_limit_text [OF assms(3,4)]
  by (auto simp: mismatch_between_def)

theorem preview_is_bounded_witness:
  "\<exists>preview. to_source_with_limit (FForAll (FNot (FMember (Bound 0) (Free 7)))) 10 = Some preview \<and> length preview \<le> 10"
  using preview_is_bounded [of "FForAll (FNot (FMember (Bound 0) (Free 7)))" 10] by (auto simp: well_formed_def)

end
