(* ===== verification/Source_Syntax.thy ===== *)
theory Source_Syntax
  imports Formula_Codec Formula_Source
begin

text \<open>
  The source vocabulary that every text parser of \<open>naome-authoring\<close> shares, \<open>syntax.rs\<close>: words, trivia, names,
  allocation of presentation variables, binder lists, and the arithmetic of expansions. A Rust \<open>&str\<close> is a
  \<open>string\<close> whose characters are the UTF-8 bytes; slicing outside a character boundary is a panic, and
  \<open>is_utf8\<close> is what the type guarantees. A function that moves \<open>offset\<close> takes it and returns it; where a
  caller drops the position on an error, the error carries no state.
\<close>

section \<open>Text\<close>

abbreviation byte_of :: "char \<Rightarrow> nat" where "byte_of c \<equiv> of_char c"

definition is_continuation :: "char \<Rightarrow> bool" where
  "is_continuation c \<longleftrightarrow> 128 \<le> byte_of c \<and> byte_of c < 192"

definition byte_between :: "nat \<Rightarrow> nat \<Rightarrow> char \<Rightarrow> bool" where
  "byte_between low high c \<longleftrightarrow> low \<le> byte_of c \<and> byte_of c \<le> high"

fun is_utf8 :: "string \<Rightarrow> bool" where
  "is_utf8 [] = True"
| "is_utf8 (a # s) =
     (let n = byte_of a
      in if n < 128 then is_utf8 s
         else if 194 \<le> n \<and> n \<le> 223 then (case s of b # s \<Rightarrow> is_continuation b \<and> is_utf8 s | _ \<Rightarrow> False)
         else if 224 \<le> n \<and> n \<le> 239 then
           (case s of
              b # c # s \<Rightarrow> byte_between (if n = 224 then 160 else 128) (if n = 237 then 159 else 191) b \<and> is_continuation c \<and> is_utf8 s
            | _ \<Rightarrow> False)
         else if 240 \<le> n \<and> n \<le> 244 then
           (case s of
              b # c # d # s \<Rightarrow> byte_between (if n = 240 then 144 else 128) (if n = 244 then 143 else 191) b \<and>
                is_continuation c \<and> is_continuation d \<and> is_utf8 s
            | _ \<Rightarrow> False)
         else False)"

definition is_char_boundary :: "string \<Rightarrow> nat \<Rightarrow> bool" where
  "is_char_boundary s i \<longleftrightarrow> i = 0 \<or> i = length s \<or> (i < length s \<and> \<not> is_continuation (s ! i))"

text \<open>\<open>&s[i..]\<close> and \<open>&s[i..j]\<close>.\<close>

definition str_from :: "string \<Rightarrow> nat \<Rightarrow> string option" where
  "str_from s i = (if is_char_boundary s i then Some (drop i s) else None)"

definition str_range :: "string \<Rightarrow> nat \<Rightarrow> nat \<Rightarrow> string option" where
  "str_range s i j = (if i \<le> j \<and> is_char_boundary s i \<and> is_char_boundary s j then Some (take (j - i) (drop i s)) else None)"

definition starts_with :: "string \<Rightarrow> string \<Rightarrow> bool" where
  "starts_with s p \<longleftrightarrow> take (length p) s = p"

definition is_ascii_alphabetic :: "char \<Rightarrow> bool" where
  "is_ascii_alphabetic c \<longleftrightarrow> byte_between 65 90 c \<or> byte_between 97 122 c"

definition is_ascii_alphanumeric :: "char \<Rightarrow> bool" where
  "is_ascii_alphanumeric c \<longleftrightarrow> is_ascii_alphabetic c \<or> byte_between 48 57 c"

section \<open>Words and trivia\<close>

definition word_at :: "string \<Rightarrow> nat \<Rightarrow> string \<Rightarrow> bool option" where
  "word_at source offset expected =
     map_option (\<lambda>remainder. starts_with remainder expected \<and>
         (case element_at remainder (length expected) of
            None \<Rightarrow> True
          | Some byte \<Rightarrow> \<not> is_ascii_alphanumeric byte \<and> byte \<noteq> CHR ''_''))
       (str_from source offset)"

text \<open>A loop that advances while the byte at the position satisfies a condition.\<close>

function skip_while :: "(char \<Rightarrow> bool) \<Rightarrow> string \<Rightarrow> nat \<Rightarrow> nat" where
  "skip_while p source offset =
     (if offset < length source \<and> p (source ! offset) then skip_while p source (Suc offset) else offset)"
  by auto
termination by (relation "measure (\<lambda>(_, source, offset). length source - offset)") auto

declare skip_while.simps [simp del]

definition is_blank :: "char \<Rightarrow> bool" where
  "is_blank c \<longleftrightarrow> c \<in> {CHR '' '', CHR 0x09, CHR 0x0D, CHR 0x0A}"

lemma skip_while_le: "offset \<le> skip_while p source offset"
  by (induction p source offset rule: skip_while.induct) (metis Suc_leD order.refl skip_while.simps)

function trivia :: "string \<Rightarrow> nat \<Rightarrow> nat" where
  "trivia source offset =
     (let offset = skip_while is_blank source offset
      in if element_at source offset \<noteq> Some (CHR ''#'') then offset
         else trivia source (skip_while (\<lambda>c. c \<noteq> CHR 0x0A) source offset))"
  by auto
termination
proof (relation "measure (\<lambda>(source, offset). length source - offset)")
  fix source offset and at
  assume at: "at = skip_while is_blank source offset" "\<not> element_at source at \<noteq> Some (CHR ''#'')"
  then have "at < length source" "source ! at = CHR ''#''" by auto
  then have "skip_while (\<lambda>c. c \<noteq> CHR 0x0A) source at = skip_while (\<lambda>c. c \<noteq> CHR 0x0A) source (Suc at)"
    by (simp add: skip_while.simps [of _ _ at])
  then have "Suc at \<le> skip_while (\<lambda>c. c \<noteq> CHR 0x0A) source at" using skip_while_le [of "Suc at"] by simp
  moreover have "offset \<le> at" unfolding at(1) by (rule skip_while_le)
  ultimately show "((source, skip_while (\<lambda>c. c \<noteq> CHR 0x0A) source at), source, offset) \<in> measure (\<lambda>(source, offset). length source - offset)"
    using \<open>at < length source\<close> by simp
qed auto

declare trivia.simps [simp del]

section \<open>Presentation variables\<close>

record variables =
  vs_named :: "string \<rightharpoonup> free_variable"
  vs_next :: u32

definition variables_default :: variables where
  "variables_default = \<lparr>vs_named = Map.empty, vs_next = 0\<rparr>"

definition vs_contains :: "variables \<Rightarrow> string \<Rightarrow> bool" where
  "vs_contains vs name \<longleftrightarrow> vs_named vs name \<noteq> None"

definition vs_fresh :: "variables \<Rightarrow> (free_variable \<times> variables) option" where
  "vs_fresh vs = map_option (\<lambda>n. (vs_next vs, vs\<lparr>vs_next := n\<rparr>)) (checked_add (vs_next vs) 1)"

definition vs_name :: "string \<Rightarrow> variables \<Rightarrow> (free_variable \<times> variables) option" where
  "vs_name name vs =
     (case vs_named vs name of
        Some variable \<Rightarrow> Some (variable, vs)
      | None \<Rightarrow> map_option (\<lambda>(variable, vs). (variable, vs\<lparr>vs_named := (vs_named vs)(name \<mapsto> variable)\<rparr>)) (vs_fresh vs))"

section \<open>Names and binder lists\<close>

definition is_name_start :: "char \<Rightarrow> bool" where
  "is_name_start c \<longleftrightarrow> is_ascii_alphabetic c \<or> c = CHR ''_''"

definition is_name_byte :: "char \<Rightarrow> bool" where
  "is_name_byte c \<longleftrightarrow> is_ascii_alphanumeric c \<or> c = CHR ''_''"

text \<open>The outer option is a panic, the inner one the \<open>None\<close> of the source.\<close>

definition name_at :: "string \<Rightarrow> nat \<Rightarrow> (string option \<times> nat) option" where
  "name_at source offset =
     (let start = trivia source offset
      in case element_at source start of
           None \<Rightarrow> Some (None, start)
         | Some byte \<Rightarrow>
             if \<not> is_name_start byte then Some (None, start)
             else let stop = skip_while is_name_byte source (start + 1)
                  in map_option (\<lambda>text. (Some text, stop)) (str_range source start stop))"

datatype binder_error = BinderName nat | BinderComma nat | BinderDepth | BinderOverflow

text \<open>The loop of \<open>binders\<close>; the first argument is the number of binders that are still allowed.\<close>

primrec binders_loop ::
  "nat \<Rightarrow> bool \<Rightarrow> string \<Rightarrow> nat \<Rightarrow> variables \<Rightarrow> free_variable list \<Rightarrow> (binder_error, free_variable list \<times> nat \<times> variables) outcome" where
  "binders_loop 0 is_list source offset vs found = Err BinderDepth"
| "binders_loop (Suc allowed) is_list source offset vs found =
     (let start = trivia source offset
      in and_then (expect (name_at source start)) (\<lambda>(name, offset).
         and_then (ok_or (BinderName start) name) (\<lambda>name.
         and_then (ok_or BinderOverflow (vs_name name vs)) (\<lambda>(variable, vs).
         let found = found @ [variable]
         in if \<not> is_list then Ok (found, offset, vs)
            else let offset = trivia source offset
                 in if element_at source offset = Some (CHR '']'') then Ok (found, offset + 1, vs)
                    else if element_at source offset \<noteq> Some (CHR '','') then Err (BinderComma offset)
                    else let offset = trivia source (offset + 1)
                         in if element_at source offset = Some (CHR '']'') then Ok (found, offset + 1, vs)
                            else binders_loop allowed is_list source offset vs found))))"

definition binder_list :: "string \<Rightarrow> nat \<Rightarrow> variables \<Rightarrow> (binder_error, free_variable list \<times> nat \<times> variables) outcome" where
  "binder_list source offset vs =
     (let offset = trivia source offset;
          is_list = (element_at source offset = Some (CHR ''[''));
          offset = (if is_list then offset + 1 else offset)
      in binders_loop FORMULA_MAX_DEPTH is_list source offset vs [])"

section \<open>Operators\<close>

datatype operator = OpEqual | OpMember | OpUnequal | OpNot | OpImplies | OpAll | OpExists | OpAnd | OpOr | OpIff

definition operator_parse :: "string \<Rightarrow> operator option" where
  "operator_parse name =
     (if name = ''eq'' then Some OpEqual
      else if name = ''mem'' then Some OpMember
      else if name = ''ne'' then Some OpUnequal
      else if name = ''not'' then Some OpNot
      else if name = ''imp'' then Some OpImplies
      else if name = ''all'' then Some OpAll
      else if name = ''ex'' then Some OpExists
      else if name = ''and'' then Some OpAnd
      else if name = ''or'' then Some OpOr
      else if name = ''iff'' then Some OpIff
      else None)"

fun operator_name :: "operator \<Rightarrow> string" where
  "operator_name OpEqual = ''eq''"
| "operator_name OpMember = ''mem''"
| "operator_name OpUnequal = ''ne''"
| "operator_name OpNot = ''not''"
| "operator_name OpImplies = ''imp''"
| "operator_name OpAll = ''all''"
| "operator_name OpExists = ''ex''"
| "operator_name OpAnd = ''and''"
| "operator_name OpOr = ''or''"
| "operator_name OpIff = ''iff''"

definition is_formula_operator :: "string \<Rightarrow> bool" where
  "is_formula_operator name \<longleftrightarrow> operator_parse name \<noteq> None"

definition is_reserved_binding_name :: "string \<Rightarrow> bool" where
  "is_reserved_binding_name name \<longleftrightarrow>
     is_formula_operator name \<or>
     name \<in> set [''defs'', ''refs'', ''let'', ''goal'', ''def'', ''relation'', ''function'', ''proof'', ''return'',
       ''parameters'', ''success'', ''simp'', ''frege'', ''contra'', ''dist'', ''vacuous'', ''inst'', ''mp'', ''refl'',
       ''subst'', ''axiom'', ''sep'', ''replace'', ''cite'', ''gen'']"

text \<open>Node count and depth of an expanded connective. The counts are \<open>usize\<close>, natural numbers here, so the
  checked additions succeed; the result is \<open>None\<close> for a word that is no binary connective.\<close>

definition binary_shape :: "string \<Rightarrow> nat \<times> nat \<Rightarrow> nat \<times> nat \<Rightarrow> (nat \<times> nat) option" where
  "binary_shape operator left right =
     (case (left, right) of
        ((ln, ld), (rn, rd)) \<Rightarrow>
          if operator = ''imp'' then Some (ln + rn + 1, max ld rd + 1)
          else if operator = ''and'' then Some (ln + rn + 3, max (ld + 2) (rd + 3))
          else if operator = ''or'' then Some (ln + rn + 2, max (ld + 2) (rd + 1))
          else if operator = ''iff'' then Some ((ln + rn) * 2 + 5, max ld rd + 4)
          else None)"

datatype binding_error = BindingName | BindingReserved | BindingDuplicate

definition binding_name :: "string \<Rightarrow> nat \<Rightarrow> (string \<Rightarrow> bool) \<Rightarrow> (binding_error, string \<times> nat) outcome" where
  "binding_name source offset duplicate =
     and_then (expect (name_at source offset)) (\<lambda>(name, offset).
     and_then (ok_or BindingName name) (\<lambda>name.
       if is_reserved_binding_name name then Err BindingReserved
       else if duplicate name then Err BindingDuplicate
       else Ok (name, offset)))"

section \<open>The formula grammar\<close>

text \<open>
  \<open>syntax/formula.rs\<close>: the grammar is generic in the trait \<open>FormulaBuilder\<close>, a record of its methods here; \<open>'s\<close> is
  the builder's state. The recursion has no structural measure, so \<open>parse_formula\<close> takes fuel and running out of it
  is \<open>Panic\<close>. The builders reject a depth beyond \<open>FORMULA_MAX_DEPTH\<close> before they descend, which bounds the
  recursion; that no run ends in \<open>Panic\<close> is proved for them.
\<close>

datatype 'f start = StartValue 'f | StartCall string nat

record ('s, 'f, 'e, 'm) formula_builder =
  fb_start :: "nat \<Rightarrow> 'm \<Rightarrow> 's \<Rightarrow> ('e, 'f start \<times> 's) outcome"
  fb_atom :: "operator \<Rightarrow> nat \<Rightarrow> nat \<Rightarrow> 'm \<Rightarrow> 's \<Rightarrow> ('e, 'f \<times> 's) outcome"
  fb_binders :: "nat \<Rightarrow> 's \<Rightarrow> ('e, free_variable list \<times> 's) outcome"
  fb_quantified_depth :: "operator \<Rightarrow> nat \<Rightarrow> nat \<Rightarrow> nat \<Rightarrow> 'm \<Rightarrow> 's \<Rightarrow> ('e, nat \<times> 's) outcome"
  fb_quantified :: "operator \<Rightarrow> free_variable list \<Rightarrow> 'f \<Rightarrow> nat \<Rightarrow> nat \<Rightarrow> 'm \<Rightarrow> 's \<Rightarrow> ('e, 'f \<times> 's) outcome"
  fb_negated :: "'f \<Rightarrow> nat \<Rightarrow> nat \<Rightarrow> 'm \<Rightarrow> 's \<Rightarrow> ('e, 'f \<times> 's) outcome"
  fb_binary :: "operator \<Rightarrow> 'f \<times> 'f \<Rightarrow> nat \<Rightarrow> nat \<Rightarrow> 'm \<Rightarrow> 's \<Rightarrow> ('e, 'f \<times> 's) outcome"
  fb_extension :: "string \<Rightarrow> nat \<Rightarrow> nat \<Rightarrow> 'm \<Rightarrow> 's \<Rightarrow> ('e, 'f \<times> 's) outcome"
  fb_comma :: "'s \<Rightarrow> ('e, 's) outcome"
  fb_finish :: "'f \<Rightarrow> nat \<Rightarrow> 's \<Rightarrow> ('e, 'f \<times> 's) outcome"

text \<open>The body of a call, with the recursive call as an argument.\<close>

definition parse_call ::
  "(nat \<Rightarrow> 's \<Rightarrow> ('e, 'f \<times> 's) outcome) \<Rightarrow> ('s, 'f, 'e, 'm) formula_builder \<Rightarrow> nat \<Rightarrow> 'm \<Rightarrow> string \<Rightarrow> nat \<Rightarrow> 's \<Rightarrow> ('e, 'f \<times> 's) outcome" where
  "parse_call parse builder depth mode name offset s =
     (case operator_parse name of
        None \<Rightarrow> fb_extension builder name offset depth mode s
      | Some op \<Rightarrow>
          if op \<in> {OpEqual, OpMember, OpUnequal} then fb_atom builder op offset depth mode s
          else if op \<in> {OpAll, OpExists} then
            and_then (fb_binders builder offset s) (\<lambda>(variables, s).
            and_then (fb_comma builder s) (\<lambda>s.
            and_then (fb_quantified_depth builder op (length variables) offset depth mode s) (\<lambda>(child_depth, s).
            and_then (parse child_depth s) (\<lambda>(body, s).
              fb_quantified builder op variables body offset depth mode s))))
          else if op = OpNot then
            and_then (parse (depth + 1) s) (\<lambda>(body, s).
              fb_negated builder body offset depth mode s)
          else
            and_then (parse (depth + 1) s) (\<lambda>(left, s).
            and_then (fb_comma builder s) (\<lambda>s.
            and_then (parse (depth + 1) s) (\<lambda>(right, s).
              fb_binary builder op (left, right) offset depth mode s))))"

primrec parse_formula ::
  "nat \<Rightarrow> ('s, 'f, 'e, 'm) formula_builder \<Rightarrow> 'm \<Rightarrow> nat \<Rightarrow> 's \<Rightarrow> ('e, 'f \<times> 's) outcome" where
  "parse_formula 0 builder mode depth s = Panic"
| "parse_formula (Suc fuel) builder mode depth s =
     and_then (fb_start builder depth mode s) (\<lambda>(begun, s).
     case begun of
       StartValue v \<Rightarrow> Ok (v, s)
     | StartCall name offset \<Rightarrow>
         and_then (parse_call (parse_formula fuel builder mode) builder depth mode name offset s) (\<lambda>(parsed, s).
           fb_finish builder parsed depth s))"

section \<open>Runs that do not panic\<close>

text \<open>A fallible step that returns: an error, or a value with the given property.\<close>

primrec safe :: "('a \<Rightarrow> bool) \<Rightarrow> ('e, 'a) outcome \<Rightarrow> bool" where
  "safe p (Ok x) = p x"
| "safe p (Err e) = True"
| "safe p Panic = False"

lemma safe_and_then: "safe p m \<Longrightarrow> (\<And>x. p x \<Longrightarrow> safe q (f x)) \<Longrightarrow> safe q (and_then m f)"
  by (cases m) simp_all

lemma safe_refuse: "safe p a \<Longrightarrow> safe p (if c then Err e else a)"
  by simp

lemma safe_mono: "safe p m \<Longrightarrow> (\<And>x. p x \<Longrightarrow> q x) \<Longrightarrow> safe q m"
  by (cases m) simp_all

lemma safe_map_err [simp]: "safe p (map_err f m) = safe p m"
  by (cases m) simp_all

lemma safe_map_ok [simp]: "safe p (map_ok f m) = safe (\<lambda>x. p (f x)) m"
  by (cases m) simp_all

lemma safe_expect: "m = Some x \<Longrightarrow> p x \<Longrightarrow> safe p (expect m)"
  by simp

lemma safe_ok_or: "(\<And>x. m = Some x \<Longrightarrow> p x) \<Longrightarrow> safe p (ok_or e m)"
  by (cases m) simp_all

lemma safe_iff: "safe p m \<longleftrightarrow> m \<noteq> Panic \<and> (\<forall>x. m = Ok x \<longrightarrow> p x)"
  by (cases m) simp_all

text \<open>
  What the grammar needs of a builder: no method panics in a state with the invariant, every method keeps it, a
  descent is within the depth limit, and the values have the properties that the constructors rely on, \<open>raw\<close> before
  and \<open>sound\<close> after the closing parenthesis. \<open>called\<close> is what \<open>start\<close> knows of a call and \<open>extension\<close> relies on.
\<close>

locale builder_safe =
  fixes builder :: "('s, 'f, 'e, 'm) formula_builder"
    and inv :: "'s \<Rightarrow> bool" and called :: "string \<Rightarrow> nat \<Rightarrow> 's \<Rightarrow> bool" and raw sound :: "'f \<Rightarrow> bool" and limit :: nat
  assumes start: "inv s \<Longrightarrow> 1 \<le> depth \<Longrightarrow> depth \<le> Suc limit \<Longrightarrow>
      safe (\<lambda>(r, s'). inv s' \<and> (case r of StartValue f \<Rightarrow> sound f | StartCall name offset \<Rightarrow> depth \<le> limit \<and> called name offset s')) (fb_start builder depth mode s)"
    and atom: "inv s \<Longrightarrow> 1 \<le> depth \<Longrightarrow> depth \<le> limit \<Longrightarrow> op \<in> {OpEqual, OpMember, OpUnequal} \<Longrightarrow>
      safe (\<lambda>(f, s'). inv s' \<and> raw f) (fb_atom builder op offset depth mode s)"
    and binders: "inv s \<Longrightarrow> safe (\<lambda>(vs, s'). inv s' \<and> vs \<noteq> [] \<and> length vs \<le> FORMULA_MAX_DEPTH) (fb_binders builder offset s)"
    and quantified_depth: "inv s \<Longrightarrow> 1 \<le> depth \<Longrightarrow> depth \<le> limit \<Longrightarrow> 0 < n \<Longrightarrow> n \<le> FORMULA_MAX_DEPTH \<Longrightarrow>
      safe (\<lambda>(d, s'). inv s' \<and> depth < d \<and> d \<le> limit) (fb_quantified_depth builder op n offset depth mode s)"
    and quantified: "inv s \<Longrightarrow> 1 \<le> depth \<Longrightarrow> depth \<le> limit \<Longrightarrow> sound f \<Longrightarrow> vs \<noteq> [] \<Longrightarrow> length vs \<le> FORMULA_MAX_DEPTH \<Longrightarrow>
      safe (\<lambda>(f, s'). inv s' \<and> raw f) (fb_quantified builder op vs f offset depth mode s)"
    and negated: "inv s \<Longrightarrow> 1 \<le> depth \<Longrightarrow> depth \<le> limit \<Longrightarrow> sound f \<Longrightarrow>
      safe (\<lambda>(f, s'). inv s' \<and> raw f) (fb_negated builder f offset depth mode s)"
    and binary: "inv s \<Longrightarrow> 1 \<le> depth \<Longrightarrow> depth \<le> limit \<Longrightarrow> sound f \<Longrightarrow> sound g \<Longrightarrow> op \<in> {OpImplies, OpAnd, OpOr, OpIff} \<Longrightarrow>
      safe (\<lambda>(f, s'). inv s' \<and> raw f) (fb_binary builder op (f, g) offset depth mode s)"
    and extension: "inv s \<Longrightarrow> called name offset s \<Longrightarrow> 1 \<le> depth \<Longrightarrow> depth \<le> limit \<Longrightarrow>
      safe (\<lambda>(f, s'). inv s' \<and> raw f) (fb_extension builder name offset depth mode s)"
    and comma: "inv s \<Longrightarrow> safe inv (fb_comma builder s)"
    and finish: "inv s \<Longrightarrow> 1 \<le> depth \<Longrightarrow> depth \<le> limit \<Longrightarrow> raw f \<Longrightarrow>
      safe (\<lambda>(f, s'). inv s' \<and> sound f) (fb_finish builder f depth s)"
begin

lemma parse_call_safe:
  assumes sub: "\<And>k t. inv t \<Longrightarrow> depth < k \<Longrightarrow> k \<le> Suc limit \<Longrightarrow> safe (\<lambda>(f, s'). inv s' \<and> sound f) (parse k t)"
    and s: "inv s" "called name offset s" and d: "1 \<le> depth" "depth \<le> limit"
  shows "safe (\<lambda>(f, s'). inv s' \<and> raw f) (parse_call parse builder depth mode name offset s)"
proof (cases "operator_parse name")
  case None
  then show ?thesis using extension [OF s d] by (simp add: parse_call_def)
next
  case (Some op)
  consider "op \<in> {OpEqual, OpMember, OpUnequal}" | "op \<in> {OpAll, OpExists}" | "op = OpNot" | "op \<in> {OpImplies, OpAnd, OpOr, OpIff}"
    by (cases op) auto
  then show ?thesis
  proof cases
    case 1
    then show ?thesis using atom [OF s(1) d] by (auto simp: parse_call_def Some)
  next
    case 2
    then have "parse_call parse builder depth mode name offset s = and_then (fb_binders builder offset s) (\<lambda>(variables, s).
            and_then (fb_comma builder s) (\<lambda>s.
            and_then (fb_quantified_depth builder op (length variables) offset depth mode s) (\<lambda>(child_depth, s).
            and_then (parse child_depth s) (\<lambda>(body, s). fb_quantified builder op variables body offset depth mode s))))"
      by (auto simp: parse_call_def Some)
    also have "safe (\<lambda>(f, s'). inv s' \<and> raw f) \<dots>"
      by (rule safe_and_then [OF binders [OF s(1)]]) (auto intro!: safe_and_then [OF comma] safe_and_then [OF quantified_depth]
          safe_and_then [OF sub] quantified d)
    finally show ?thesis .
  next
    case 3
    then have "parse_call parse builder depth mode name offset s =
        and_then (parse (depth + 1) s) (\<lambda>(body, s). fb_negated builder body offset depth mode s)" by (simp add: parse_call_def Some)
    also have "safe (\<lambda>(f, s'). inv s' \<and> raw f) \<dots>"
      by (rule safe_and_then [OF sub]) (auto intro!: negated s(1) d simp: d)
    finally show ?thesis .
  next
    case 4
    then have "parse_call parse builder depth mode name offset s =
        and_then (parse (depth + 1) s) (\<lambda>(left, s). and_then (fb_comma builder s) (\<lambda>s.
          and_then (parse (depth + 1) s) (\<lambda>(right, s). fb_binary builder op (left, right) offset depth mode s)))"
      by (auto simp: parse_call_def Some)
    also have "safe (\<lambda>(f, s'). inv s' \<and> raw f) \<dots>"
      by (rule safe_and_then [OF sub]) (use 4 in \<open>auto intro!: s(1) d safe_and_then [OF comma] safe_and_then [OF sub] binary simp: d\<close>)
    finally show ?thesis .
  qed
qed

lemma parse_safe:
  "inv s \<Longrightarrow> 1 \<le> depth \<Longrightarrow> depth \<le> Suc limit \<Longrightarrow> limit + 2 \<le> fuel + depth \<Longrightarrow>
     safe (\<lambda>(f, s'). inv s' \<and> sound f) (parse_formula fuel builder mode depth s)"
proof (induction fuel arbitrary: depth s)
  case (Suc fuel)
  have sub: "safe (\<lambda>(f, s'). inv s' \<and> sound f) (parse_formula fuel builder mode k t)" if "inv t" "depth < k" "k \<le> Suc limit" for k t
    using that Suc.prems by (intro Suc.IH) auto
  show ?case
    unfolding parse_formula.simps
    by (rule safe_and_then [OF start [OF Suc.prems(1-3)]])
      (use Suc.prems(2) in \<open>auto split: start.split intro!: safe_and_then [OF parse_call_safe] sub finish\<close>)
qed simp

end

section \<open>Positions in a text\<close>

text \<open>What the parsers use of UTF-8: a continuation byte follows a byte that is not ASCII. The flag says
  whether such a byte precedes.\<close>

primrec str_ok :: "bool \<Rightarrow> string \<Rightarrow> bool" where
  "str_ok high [] = True"
| "str_ok high (c # s) = ((is_continuation c \<longrightarrow> high) \<and> str_ok (128 \<le> byte_of c) s)"

definition position_ok :: "string \<Rightarrow> nat \<Rightarrow> bool" where
  "position_ok s i \<longleftrightarrow> i \<le> length s \<and> is_char_boundary s i"

lemma str_ok_mono: "str_ok False s \<Longrightarrow> str_ok h s"
  by (cases s) auto

lemma is_utf8_ok: "is_utf8 s \<Longrightarrow> str_ok False s"
proof (induction s rule: is_utf8.induct)
  case (2 a s)
  consider "byte_of a < 128" | "194 \<le> byte_of a" "byte_of a \<le> 223" | "224 \<le> byte_of a" "byte_of a \<le> 239" | "240 \<le> byte_of a" "byte_of a \<le> 244"
    using 2(5) by (auto simp: Let_def split: if_splits)
  then show ?case
  proof cases
    case 1
    then show ?thesis using 2 by (auto simp: Let_def is_continuation_def intro: str_ok_mono)
  next
    case 2
    with \<open>is_utf8 (a # s)\<close> "2.IH"(2) show ?thesis
      by (cases s) (auto simp: Let_def is_continuation_def intro: str_ok_mono)
  next
    case 3
    with \<open>is_utf8 (a # s)\<close> obtain b c t where s: "s = b # c # t" and bc: "128 \<le> byte_of b" "128 \<le> byte_of c" "is_utf8 t"
      by (auto simp: Let_def byte_between_def is_continuation_def split: list.splits if_splits)
    show ?thesis using 3 "2.IH"(3) [OF refl _ _ _ s refl] bc by (auto simp: s is_continuation_def intro: str_ok_mono)
  next
    case 4
    with \<open>is_utf8 (a # s)\<close> obtain b c d t where s: "s = b # c # d # t" and bc: "128 \<le> byte_of b" "128 \<le> byte_of c" "128 \<le> byte_of d" "is_utf8 t"
      by (auto simp: Let_def byte_between_def is_continuation_def split: list.splits if_splits)
    show ?thesis using 4 "2.IH"(4) [OF refl _ _ _ _ s refl refl] bc by (auto simp: s is_continuation_def intro: str_ok_mono)
  qed
qed simp

lemma str_ok_after_ascii: "str_ok h s \<Longrightarrow> Suc i < length s \<Longrightarrow> byte_of (s ! i) < 128 \<Longrightarrow> \<not> is_continuation (s ! Suc i)"
proof (induction s arbitrary: i h)
  case (Cons a s)
  then show ?case
  proof (cases i)
    case 0
    with Cons.prems show ?thesis by (cases s) auto
  qed (use Cons in auto)
qed simp

lemma position_ok_Suc: "str_ok False s \<Longrightarrow> i < length s \<Longrightarrow> byte_of (s ! i) < 128 \<Longrightarrow> position_ok s (Suc i)"
  using str_ok_after_ascii [of False s i] by (auto simp: position_ok_def is_char_boundary_def not_less_eq less_Suc_eq_le)

lemma position_ok_0 [simp]: "position_ok s 0"
  by (simp add: position_ok_def is_char_boundary_def)

lemma position_ok_le: "position_ok s i \<Longrightarrow> i \<le> length s"
  by (simp add: position_ok_def)

lemma position_ok_str_from: "position_ok s i \<Longrightarrow> str_from s i = Some (drop i s)"
  by (simp add: position_ok_def str_from_def)

lemma skip_while_ge: "offset \<le> length source \<Longrightarrow> skip_while p source offset \<le> length source"
  by (induction p source offset rule: skip_while.induct) (metis Suc_leI skip_while.simps)

lemma skip_while_stops: "skip_while p source offset < length source \<Longrightarrow> \<not> p (source ! skip_while p source offset)"
  by (induction p source offset rule: skip_while.induct) (metis skip_while.simps)

lemma skip_while_all: "offset \<le> i \<Longrightarrow> i < skip_while p source offset \<Longrightarrow> p (source ! i)"
proof (induction p source offset rule: skip_while.induct)
  case (1 p source offset)
  then show ?case
    by (cases "offset < length source \<and> p (source ! offset)"; cases "i = offset") (simp_all add: skip_while.simps [of p source offset])
qed

lemma skip_while_position:
  "str_ok False source \<Longrightarrow> (\<And>c. p c \<Longrightarrow> byte_of c < 128) \<Longrightarrow> position_ok source offset \<Longrightarrow> position_ok source (skip_while p source offset)"
proof (induction p source offset rule: skip_while.induct)
  case (1 p source offset)
  then show ?case
    by (cases "offset < length source \<and> p (source ! offset)") (auto simp: skip_while.simps [of p source offset] position_ok_Suc)
qed

lemma blank_ascii: "is_blank c \<Longrightarrow> byte_of c < 128"
  by (auto simp: is_blank_def)

lemma name_byte_ascii: "is_name_byte c \<Longrightarrow> byte_of c < 128" and name_start_byte: "is_name_start c \<Longrightarrow> is_name_byte c"
  by (auto simp: is_name_byte_def is_name_start_def is_ascii_alphanumeric_def is_ascii_alphabetic_def byte_between_def)

lemma newline_position:
  assumes "offset \<le> length source"
  shows "position_ok source (skip_while (\<lambda>c. c \<noteq> CHR 0x0A) source offset)"
proof (cases "skip_while (\<lambda>c. c \<noteq> CHR 0x0A) source offset < length source")
  case True
  with skip_while_stops [OF True] show ?thesis by (simp add: position_ok_def is_char_boundary_def is_continuation_def)
next
  case False
  with skip_while_ge [OF assms, of "\<lambda>c. c \<noteq> CHR 0x0A"] show ?thesis by (simp add: position_ok_def is_char_boundary_def)
qed

lemma trivia_spec:
  "str_ok False source \<Longrightarrow> position_ok source offset \<Longrightarrow> position_ok source (trivia source offset) \<and> offset \<le> trivia source offset"
proof (induction source offset rule: trivia.induct)
  case (1 source offset)
  let ?at = "skip_while is_blank source offset"
  have at: "position_ok source ?at" using 1(2,3) by (intro skip_while_position blank_ascii)
  note le = skip_while_le [of offset is_blank source] skip_while_le [of ?at "\<lambda>c. c \<noteq> CHR 0x0A" source]
  show ?case
  proof (cases "element_at source ?at = Some (CHR ''#'')")
    case True
    have "position_ok source (skip_while (\<lambda>c. c \<noteq> CHR 0x0A) source ?at)" using at by (intro newline_position position_ok_le)
    with 1(1) [OF refl] True 1(2) le show ?thesis by (subst (1 2) trivia.simps) (force simp: Let_def)
  next
    case False
    with at le show ?thesis by (subst (1 2) trivia.simps) (simp add: Let_def)
  qed
qed

lemmas trivia_position = trivia_spec [THEN conjunct1]
lemmas trivia_le = trivia_spec [THEN conjunct2]

lemma name_at_spec:
  assumes "str_ok False source" "position_ok source offset"
  obtains name stop where "name_at source offset = Some (name, stop)" "position_ok source stop" "offset \<le> stop" "name \<noteq> None \<Longrightarrow> offset < stop"
proof -
  let ?start = "trivia source offset"
  let ?stop = "skip_while is_name_byte source (?start + 1)"
  have start: "position_ok source ?start" "offset \<le> ?start" using trivia_spec [OF assms] by simp_all
  show thesis
  proof (cases "?start < length source \<and> is_name_start (source ! ?start)")
    case True
    then have "position_ok source (?start + 1)" using position_ok_Suc [OF assms(1), of ?start] name_byte_ascii name_start_byte by simp
    then have stop: "position_ok source ?stop" using assms(1) by (intro skip_while_position name_byte_ascii)
    have "?start + 1 \<le> ?stop" by (rule skip_while_le)
    moreover have "str_range source ?start ?stop \<noteq> None" using start stop calculation by (simp add: str_range_def position_ok_def)
    ultimately show thesis using that True start stop by (auto simp: name_at_def Let_def element_at_def)
  next
    case False
    then have "name_at source offset = Some (None, ?start)" by (auto simp: name_at_def Let_def element_at_def)
    with that start show thesis by simp
  qed
qed

lemma ascii_position:
  assumes "str_ok False source" "element_at source offset = Some c" "byte_of c < 128"
  shows "position_ok source (offset + 1)"
  using assms position_ok_Suc [of source offset] by simp

lemma vs_name_next: "vs_name name vs = Some (v, vs') \<Longrightarrow> unat (vs_next vs') \<le> Suc (unat (vs_next vs))"
  by (auto simp: vs_name_def vs_fresh_def dest: checked_add_unat split: option.splits)

lemma binders_loop_safe:
  "str_ok False src \<Longrightarrow> position_ok src offset \<Longrightarrow>
     safe (\<lambda>(found', offset', vs'). position_ok src offset' \<and> offset < offset' \<and> found' \<noteq> [] \<and> length found' \<le> length found + allowed \<and> unat (vs_next vs') \<le> unat (vs_next vs) + (offset' - offset))
       (binders_loop allowed is_list src offset vs found)"
proof (induction allowed arbitrary: offset vs found)
  case (Suc allowed)
  have start: "position_ok src (trivia src offset)" "offset \<le> trivia src offset" using Suc.prems by (simp_all add: trivia_spec)
  from Suc.prems(1) start(1) obtain name stop where n: "name_at src (trivia src offset) = Some (name, stop)" "position_ok src stop"
    "name \<noteq> None \<Longrightarrow> trivia src offset < stop" by (rule name_at_spec) blast
  show ?case
  proof (cases name)
    case (Some nm)
    then have stop: "offset < stop" using n(3) start by simp
    define after where "after = trivia src stop"
    have after: "position_ok src after" "stop \<le> after" using Suc.prems(1) n(2) by (simp_all add: after_def trivia_spec)
    define more where "more = trivia src (Suc after)"
    have close: "position_ok src (o' + 1)" if "element_at src o' = Some c" "c \<in> {CHR '']'', CHR '',''}" for o' c
      using that Suc.prems(1) by (intro ascii_position [of src o' c]) auto
    have more: "position_ok src more \<and> after + 1 \<le> more" if "element_at src after = Some (CHR '','')"
      using close [OF that] Suc.prems(1) by (simp add: more_def trivia_spec)
    show ?thesis
    proof (cases "vs_name nm vs")
      case (Some r)
      obtain v vs' where r: "r = (v, vs')" by (cases r)
      have nx: "unat (vs_next vs') \<le> Suc (unat (vs_next vs))" using Some r by (intro vs_name_next) simp
      have rec: "safe (\<lambda>(found', offset', w). position_ok src offset' \<and> offset < offset' \<and> found' \<noteq> [] \<and> length found' \<le> length found + Suc allowed \<and>
            unat (vs_next w) \<le> unat (vs_next vs) + (offset' - offset))
          (binders_loop allowed is_list src more vs' (found @ [v]))" if "element_at src after = Some (CHR '','')"
        using more [OF that] stop after nx by (intro safe_mono [OF Suc.IH [OF Suc.prems(1)]]) auto
      show ?thesis
        using stop after n(2) rec close more nx
        by (auto simp: n(1) \<open>name = Some nm\<close> Some r Let_def after_def [symmetric] more_def [symmetric])
    qed (simp add: n(1) \<open>name = Some nm\<close> Let_def)
  qed (simp add: n(1) Let_def)
qed simp

lemma binder_list_safe:
  assumes "str_ok False src" "position_ok src offset"
  shows "safe (\<lambda>(found, offset', vs'). position_ok src offset' \<and> offset < offset' \<and> found \<noteq> [] \<and> length found \<le> FORMULA_MAX_DEPTH \<and>
      unat (vs_next vs') \<le> unat (vs_next vs) + (offset' - offset))
    (binder_list src offset vs)"
proof -
  have t: "position_ok src (trivia src offset)" "offset \<le> trivia src offset" using assms by (simp_all add: trivia_spec)
  moreover have "position_ok src (trivia src offset + 1)" if "element_at src (trivia src offset) = Some (CHR ''['')"
    by (rule ascii_position [OF assms(1) that]) simp
  ultimately show ?thesis
    unfolding binder_list_def Let_def by (intro safe_mono [OF binders_loop_safe]) (auto simp: assms(1) split: if_splits)
qed

end
