(* ===== verification/Question_Target.thy ===== *)
theory Question_Target
  imports Formula_Codec Identity Semantics
begin

text \<open>
  Closed research targets, \<open>naome-proof/src/question.rs\<close>: a question is stored as a core without leading
  negations and the parity of those that were removed, so that a formula and its negation share one resolution
  identity. The two targets are shown to mean the question and its negation. An error from the codec is carried
  as such, not as its message.
\<close>

definition QUESTION_TARGET_MAX_NODES :: nat where "QUESTION_TARGET_MAX_NODES = 1024"
definition QUESTION_TARGET_MAX_DEPTH :: nat where "QUESTION_TARGET_MAX_DEPTH = 32"

datatype question_error =
    QTruncated
  | QTrailingBytes
  | QLimit string
  | QInvalid string
  | QOverflow
  | QMathematical formula_codec_error

record question_target =
  qt_formula :: node
  qt_core :: node
  qt_canonical_core :: bytes
  qt_negative_target :: node
  qt_negation_parity :: bool
  qt_resolution_id :: bytes

definition u64_to_be_bytes :: "u64 \<Rightarrow> bytes" where
  "u64_to_be_bytes w = map (\<lambda>i. ucast (drop_bit (8 * (7 - i)) w)) [0..<8]"

definition question_hash :: "hash \<Rightarrow> bytes \<Rightarrow> bytes list \<Rightarrow> bytes" where
  "question_hash sha256 domain parts =
     sha256 (domain @ concat (map (\<lambda>field. u64_to_be_bytes (of_nat (length field)) @ field) parts))"

definition target_from_formula :: "hash \<Rightarrow> node \<Rightarrow> (question_error, question_target) outcome" where
  "target_from_formula sha256 formula =
     (if \<not> is_closed formula then Err (QInvalid ''question has free variables'')
      else and_then (map_err QMathematical (encode_canonical formula)) (\<lambda>encoded.
        let (nodes, depth) = node_count_and_depth formula;
            leading = length (takeWhile (\<lambda>tag. tag = 2) encoded)
        in if nodes < leading \<or> depth < leading then Panic
           else let core_nodes = nodes - leading; core_depth = depth - leading
           in if QUESTION_TARGET_MAX_NODES < core_nodes + 1 then Err (QLimit ''question target nodes'')
           else if QUESTION_TARGET_MAX_DEPTH < core_depth + 1 then Err (QLimit ''question target depth'')
           else let canonical_core = drop leading encoded
           in and_then (map_err QMathematical (decode_canonical_with_node_limit canonical_core QUESTION_TARGET_MAX_NODES)) (\<lambda>(core, _).
             Ok \<lparr>qt_formula = formula, qt_core = core, qt_canonical_core = canonical_core, qt_negative_target = negate core,
               qt_negation_parity = (leading mod 2 \<noteq> 0),
               qt_resolution_id = question_hash sha256 (ascii ''naome:state:resolution:v1'' @ [0]) [FOUNDATION_ID, canonical_core]\<rparr>)))"

definition proved_target :: "question_target \<Rightarrow> node" where
  "proved_target t = (if qt_negation_parity t then qt_negative_target t else qt_core t)"

definition refuted_target :: "question_target \<Rightarrow> node" where
  "refuted_target t = (if qt_negation_parity t then qt_core t else qt_negative_target t)"

section \<open>Leading negations\<close>

fun leading_nots :: "node \<Rightarrow> nat" where
  "leading_nots (FNot a) = Suc (leading_nots a)"
| "leading_nots _ = 0"

fun not_core :: "node \<Rightarrow> node" where
  "not_core (FNot a) = not_core a"
| "not_core a = a"

lemma takeWhile_wire: "takeWhile (\<lambda>tag. tag = 2) (wire a) = replicate (leading_nots a) 2"
  by (induction a rule: leading_nots.induct) simp_all

lemma drop_wire: "drop (leading_nots a) (wire a) = wire (not_core a)"
  by (induction a rule: leading_nots.induct) simp_all

lemma core_shape:
  "node_count a = leading_nots a + node_count (not_core a)" "node_depth a = leading_nots a + node_depth (not_core a)"
  "frees (not_core a) = frees a" "closed_at n (not_core a) = closed_at n a"
  by (induction a rule: leading_nots.induct) simp_all

lemma sem_core: "sem E r bs a \<longleftrightarrow> (sem E r bs (not_core a) \<longleftrightarrow> even (leading_nots a))"
  by (induction a rule: leading_nots.induct) simp_all

definition target_ok :: "node \<Rightarrow> bool" where
  "target_ok a \<longleftrightarrow> is_closed a \<and> well_formed a \<and> wire_admitted FORMULA_MAX_NODES a \<and>
     node_count (not_core a) < QUESTION_TARGET_MAX_NODES \<and> node_depth (not_core a) < QUESTION_TARGET_MAX_DEPTH"

definition target_of :: "hash \<Rightarrow> node \<Rightarrow> question_target" where
  "target_of h a = \<lparr>qt_formula = a, qt_core = not_core a, qt_canonical_core = wire (not_core a), qt_negative_target = FNot (not_core a),
     qt_negation_parity = odd (leading_nots a),
     qt_resolution_id = question_hash h (ascii ''naome:state:resolution:v1'' @ [0]) [FOUNDATION_ID, wire (not_core a)]\<rparr>"

lemma target_from_formula_Ok:
  assumes "well_formed a"
  shows "target_from_formula h a = Ok t \<longleftrightarrow> target_ok a \<and> t = target_of h a" "target_from_formula h a \<noteq> Panic"
proof -
  let ?limits = "node_count (not_core a) < QUESTION_TARGET_MAX_NODES \<and> node_depth (not_core a) < QUESTION_TARGET_MAX_DEPTH"
  have core: "decode_canonical_with_node_limit (wire (not_core a)) QUESTION_TARGET_MAX_NODES = Ok (not_core a, node_count (not_core a))" if ?limits
    using assms that
    by (simp add: decode_canonical_with_node_limit_Ok well_formed_def core_shape(4) wire_admitted_def QUESTION_TARGET_MAX_NODES_def
        QUESTION_TARGET_MAX_DEPTH_def FORMULA_MAX_NODES_def)
  have len: "length (takeWhile (\<lambda>tag. tag = 2) (wire a)) = leading_nots a" by (simp add: takeWhile_wire)
  have sub: "node_count a - leading_nots a = node_count (not_core a)" "node_depth a - leading_nots a = node_depth (not_core a)"
    "\<not> node_count a < leading_nots a" "\<not> node_depth a < leading_nots a" using core_shape(1,2) [of a] by simp_all
  have run: "target_from_formula h a = (if ?limits then Ok (target_of h a)
      else if node_count (not_core a) < QUESTION_TARGET_MAX_NODES then Err (QLimit ''question target depth'') else Err (QLimit ''question target nodes''))"
    if "is_closed a" "encode_canonical a = Ok bs" for bs
  proof -
    have bs: "bs = wire a" using that(2) by (simp add: encode_canonical_Ok)
    show ?thesis
      using core that(1)
      by (simp add: target_from_formula_def that(2) bs len sub drop_wire Let_def case_prod_beta not_less_eq [symmetric] target_of_def negate_def odd_iff_mod_2_eq_one)
  qed
  have bad: "\<exists>e. target_from_formula h a = Err e" if "\<not> is_closed a \<or> (\<forall>bs. encode_canonical a \<noteq> Ok bs)"
    using that encode_canonical_not_Panic [of a] by (cases "encode_canonical a") (auto simp: target_from_formula_def)
  show "target_from_formula h a = Ok t \<longleftrightarrow> target_ok a \<and> t = target_of h a" "target_from_formula h a \<noteq> Panic"
  proof (atomize (full), cases "is_closed a \<and> wire_admitted FORMULA_MAX_NODES a")
    case True
    then show "(target_from_formula h a = Ok t) = (target_ok a \<and> t = target_of h a) \<and> target_from_formula h a \<noteq> Panic"
      using run [of "wire a"] assms by (auto simp: encode_canonical_Ok target_ok_def)
  next
    case False
    then obtain e where "target_from_formula h a = Err e" using bad by (auto simp: encode_canonical_Ok)
    with False show "(target_from_formula h a = Ok t) = (target_ok a \<and> t = target_of h a) \<and> target_from_formula h a \<noteq> Panic"
      by (auto simp: target_ok_def)
  qed
qed

lemma target_meaning:
  "sem E r bs (proved_target (target_of h a)) \<longleftrightarrow> sem E r bs a" "sem E r bs (refuted_target (target_of h a)) \<longleftrightarrow> \<not> sem E r bs a"
  using sem_core [of E r bs a] by (auto simp: proved_target_def refuted_target_def target_of_def)

lemma target_shared_with_negation: "qt_resolution_id (target_of h (FNot a)) = qt_resolution_id (target_of h a)"
  "proved_target (target_of h (FNot a)) = refuted_target (target_of h a)" "refuted_target (target_of h (FNot a)) = proved_target (target_of h a)"
  by (simp_all add: target_of_def proved_target_def refuted_target_def)

end
