(* ===== verification/Question_Parser.thy ===== *)
theory Question_Parser
  imports Source_Syntax Question_Target
begin

text \<open>
  The question language, \<open>naome-authoring/src/question.rs\<close>: a bounded parser for closed obligations with optional
  formula bindings, built on the grammar of \<open>Source_Syntax\<close>. \<open>token_offset\<close> only places a diagnostic and is left out, as is
  the diagnostic itself: an error is the \<open>QuestionError\<close>. Bindings are a map from names to parsed formulas.
\<close>

definition QUESTION_SOURCE_MAX_BYTES :: nat where "QUESTION_SOURCE_MAX_BYTES = 16384"

record parsed =
  pr_formula :: node
  pr_nodes :: nat
  pr_depth :: nat

record question_parser =
  qp_source :: string
  qp_offset :: nat
  qp_variables :: variables
  qp_bindings :: "string \<rightharpoonup> parsed"
  qp_binding_nodes :: nat
  qp_maximum_nodes :: nat

section \<open>Tokens\<close>

definition q_bounded :: "question_parser \<Rightarrow> nat \<Rightarrow> nat \<Rightarrow> (question_error, unit) outcome" where
  "q_bounded p nodes depth =
     (if qp_maximum_nodes p < nodes then Err (QLimit ''question expansion nodes'')
      else if FORMULA_MAX_DEPTH < depth then Err (QLimit ''question expansion depth'')
      else Ok ())"

text \<open>\<open>bounded(nodes, source_depth - 1 + depth)\<close>, where the subtraction panics below zero.\<close>

definition q_bounded_at :: "question_parser \<Rightarrow> nat \<Rightarrow> nat \<Rightarrow> nat \<Rightarrow> (question_error, unit) outcome" where
  "q_bounded_at p nodes source_depth depth = (if source_depth = 0 then Panic else q_bounded p nodes (source_depth - 1 + depth))"

definition q_trivia :: "question_parser \<Rightarrow> question_parser" where
  "q_trivia p = p\<lparr>qp_offset := trivia (qp_source p) (qp_offset p)\<rparr>"

definition q_byte :: "question_parser \<Rightarrow> char option" where
  "q_byte p = element_at (qp_source p) (qp_offset p)"

definition q_name :: "question_parser \<Rightarrow> (question_error, string \<times> question_parser) outcome" where
  "q_name p =
     (let p = q_trivia p
      in and_then (expect (name_at (qp_source p) (qp_offset p))) (\<lambda>(name, offset).
         map_ok (\<lambda>name. (name, p\<lparr>qp_offset := offset\<rparr>)) (ok_or (QInvalid ''question expected name'') name)))"

definition q_word :: "string \<Rightarrow> question_parser \<Rightarrow> (question_error, question_parser) outcome" where
  "q_word expected p =
     and_then (q_name p) (\<lambda>(name, p). if name \<noteq> expected then Err (QInvalid ''question unexpected field'') else Ok p)"

definition q_literal :: "string \<Rightarrow> question_parser \<Rightarrow> (question_error, question_parser) outcome" where
  "q_literal expected p =
     (let p = q_trivia p
      in and_then (expect (str_from (qp_source p) (qp_offset p))) (\<lambda>remainder.
         if \<not> starts_with remainder expected then Err (QInvalid ''question unsupported success policy'')
         else Ok (p\<lparr>qp_offset := qp_offset p + length expected\<rparr>)))"

definition q_punctuation :: "char \<Rightarrow> question_parser \<Rightarrow> (question_error, question_parser) outcome" where
  "q_punctuation expected p =
     (let p = q_trivia p
      in if q_byte p \<noteq> Some expected then Err (QInvalid ''question punctuation'')
         else Ok (p\<lparr>qp_offset := qp_offset p + 1\<rparr>))"

definition q_variable :: "question_parser \<Rightarrow> (question_error, free_variable \<times> question_parser) outcome" where
  "q_variable p =
     and_then (q_name p) (\<lambda>(name, p).
     map_ok (\<lambda>(variable, variables). (variable, p\<lparr>qp_variables := variables\<rparr>)) (ok_or QOverflow (vs_name name (qp_variables p))))"

definition q_peek_word :: "string \<Rightarrow> question_parser \<Rightarrow> (question_error, bool \<times> question_parser) outcome" where
  "q_peek_word expected p =
     (let p = q_trivia p
      in map_ok (\<lambda>found. (found, p)) (expect (word_at (qp_source p) (qp_offset p) expected)))"

section \<open>The formula builder\<close>

definition q_start :: "nat \<Rightarrow> unit \<Rightarrow> question_parser \<Rightarrow> (question_error, parsed start \<times> question_parser) outcome" where
  "q_start depth mode p =
     and_then (q_bounded p 0 depth) (\<lambda>_.
     let operator_offset = qp_offset (q_trivia p)
     in and_then (q_name p) (\<lambda>(operator, p).
     let name_end = qp_offset p; p = q_trivia p
     in if q_byte p \<noteq> Some (CHR ''('')
        then let p = p\<lparr>qp_offset := name_end\<rparr>
          in and_then (ok_or (QInvalid ''question unknown formula binding'') (qp_bindings p operator)) (\<lambda>binding.
             and_then (q_bounded_at p (pr_nodes binding) depth (pr_depth binding)) (\<lambda>_.
               Ok (StartValue binding, p)))
        else map_ok (\<lambda>p. (StartCall operator operator_offset, p)) (q_punctuation (CHR ''('') p)))"

definition q_atom :: "operator \<Rightarrow> nat \<Rightarrow> nat \<Rightarrow> unit \<Rightarrow> question_parser \<Rightarrow> (question_error, parsed \<times> question_parser) outcome" where
  "q_atom op offset depth mode p =
     and_then (q_variable p) (\<lambda>(left, p).
     and_then (q_punctuation (CHR '','') p) (\<lambda>p.
     and_then (q_variable p) (\<lambda>(right, p).
     let formula = (if op = OpMember then member left right else equal left right)
     in Ok (if op = OpUnequal then \<lparr>pr_formula = negate formula, pr_nodes = 2, pr_depth = 2\<rparr>
            else \<lparr>pr_formula = formula, pr_nodes = 1, pr_depth = 1\<rparr>, p))))"

primrec q_binder_error :: "binder_error \<Rightarrow> question_error" where
  "q_binder_error (BinderName offset) = QInvalid ''question expected name''"
| "q_binder_error (BinderComma offset) = QInvalid ''question punctuation''"
| "q_binder_error BinderDepth = QLimit ''question expansion depth''"
| "q_binder_error BinderOverflow = QOverflow"

definition q_binders :: "nat \<Rightarrow> question_parser \<Rightarrow> (question_error, free_variable list \<times> question_parser) outcome" where
  "q_binders offset p =
     map_ok (\<lambda>(found, offset, variables). (found, p\<lparr>qp_offset := offset, qp_variables := variables\<rparr>))
       (map_err q_binder_error (binder_list (qp_source p) (qp_offset p) (qp_variables p)))"

definition q_extra :: "operator \<Rightarrow> nat \<Rightarrow> nat" where
  "q_extra op count = count * (if op = OpExists then 3 else 1)"

definition q_quantified_depth :: "operator \<Rightarrow> nat \<Rightarrow> nat \<Rightarrow> nat \<Rightarrow> unit \<Rightarrow> question_parser \<Rightarrow> (question_error, nat \<times> question_parser) outcome" where
  "q_quantified_depth op count offset depth mode p =
     (let extra = q_extra op count
      in map_ok (\<lambda>_. (depth + extra, p)) (q_bounded p (extra + 1) (depth + extra)))"

text \<open>The loop that wraps the body, innermost binder last in the list first.\<close>

primrec wrap_quantifiers :: "bool \<Rightarrow> free_variable list \<Rightarrow> node \<Rightarrow> node option" where
  "wrap_quantifiers existential [] formula = Some formula"
| "wrap_quantifiers existential (v # vs) formula =
     Option.bind (wrap_quantifiers existential vs formula) (\<lambda>body. if existential then exists_formula v body else for_all v body)"

definition q_quantified ::
  "operator \<Rightarrow> free_variable list \<Rightarrow> parsed \<Rightarrow> nat \<Rightarrow> nat \<Rightarrow> unit \<Rightarrow> question_parser \<Rightarrow> (question_error, parsed \<times> question_parser) outcome" where
  "q_quantified op variables body offset source_depth mode p =
     (let extra = q_extra op (length variables); nodes = pr_nodes body + extra; depth = pr_depth body + extra
      in and_then (q_bounded_at p nodes source_depth depth) (\<lambda>_.
         map_ok (\<lambda>formula. (\<lparr>pr_formula = formula, pr_nodes = nodes, pr_depth = depth\<rparr>, p))
           (expect (wrap_quantifiers (op = OpExists) variables (pr_formula body)))))"

definition q_negated :: "parsed \<Rightarrow> nat \<Rightarrow> nat \<Rightarrow> unit \<Rightarrow> question_parser \<Rightarrow> (question_error, parsed \<times> question_parser) outcome" where
  "q_negated body offset source_depth mode p =
     (let nodes = pr_nodes body + 1; depth = pr_depth body + 1
      in map_ok (\<lambda>_. (\<lparr>pr_formula = negate (pr_formula body), pr_nodes = nodes, pr_depth = depth\<rparr>, p))
           (q_bounded_at p nodes source_depth depth))"

definition q_connective :: "operator \<Rightarrow> node \<Rightarrow> node \<Rightarrow> node option" where
  "q_connective op left right =
     (case op of
        OpImplies \<Rightarrow> Some (implies left right)
      | OpAnd \<Rightarrow> Some (conjunction left right)
      | OpOr \<Rightarrow> Some (disjunction left right)
      | OpIff \<Rightarrow> Some (biconditional left right)
      | _ \<Rightarrow> None)"

definition q_binary :: "operator \<Rightarrow> parsed \<times> parsed \<Rightarrow> nat \<Rightarrow> nat \<Rightarrow> unit \<Rightarrow> question_parser \<Rightarrow> (question_error, parsed \<times> question_parser) outcome" where
  "q_binary op children offset source_depth mode p =
     (case children of (left, right) \<Rightarrow>
        and_then (ok_or QOverflow (binary_shape (operator_name op) (pr_nodes left, pr_depth left) (pr_nodes right, pr_depth right))) (\<lambda>(nodes, depth).
        and_then (q_bounded_at p nodes source_depth depth) (\<lambda>_.
        map_ok (\<lambda>formula. (\<lparr>pr_formula = formula, pr_nodes = nodes, pr_depth = depth\<rparr>, p))
          (expect (q_connective op (pr_formula left) (pr_formula right))))))"

definition q_extension :: "string \<Rightarrow> nat \<Rightarrow> nat \<Rightarrow> unit \<Rightarrow> question_parser \<Rightarrow> (question_error, parsed \<times> question_parser) outcome" where
  "q_extension name offset depth mode p = Err (QInvalid ''question unknown formula or unapproved reference'')"

definition q_finish :: "parsed \<Rightarrow> nat \<Rightarrow> question_parser \<Rightarrow> (question_error, parsed \<times> question_parser) outcome" where
  "q_finish parsed depth p =
     and_then (q_bounded_at p (pr_nodes parsed) depth (pr_depth parsed)) (\<lambda>_.
     let p = q_trivia p;
         p = (if q_byte p = Some (CHR '','') then p\<lparr>qp_offset := qp_offset p + 1\<rparr> else p)
     in map_ok (\<lambda>p. (parsed, p)) (q_punctuation (CHR '')'') p))"

definition question_builder :: "(question_parser, parsed, question_error, unit) formula_builder" where
  "question_builder =
     \<lparr>fb_start = q_start, fb_atom = q_atom, fb_binders = q_binders, fb_quantified_depth = q_quantified_depth,
      fb_quantified = q_quantified, fb_negated = q_negated, fb_binary = q_binary, fb_extension = q_extension,
      fb_comma = q_punctuation (CHR '',''), fb_finish = q_finish\<rparr>"

text \<open>The recursion of the grammar ends at the depth limit, one call beyond it at most.\<close>

definition q_formula :: "nat \<Rightarrow> question_parser \<Rightarrow> (question_error, parsed \<times> question_parser) outcome" where
  "q_formula depth p = parse_formula (FORMULA_MAX_DEPTH + 1) question_builder () depth p"

section \<open>Compilation\<close>

primrec q_binding_error :: "binding_error \<Rightarrow> question_error" where
  "q_binding_error BindingName = QInvalid ''question expected name''"
| "q_binding_error BindingReserved = QInvalid ''question reserved formula binding''"
| "q_binding_error BindingDuplicate = QInvalid ''question duplicate formula binding''"

definition q_binding :: "question_parser \<Rightarrow> (question_error, question_parser) outcome" where
  "q_binding p =
     (let p = q_trivia p
      in and_then (map_err q_binding_error (binding_name (qp_source p) (qp_offset p) (\<lambda>name. qp_bindings p name \<noteq> None))) (\<lambda>(name, offset).
         and_then (q_punctuation (CHR ''='') (p\<lparr>qp_offset := offset\<rparr>)) (\<lambda>p.
         let parse_allowance = qp_maximum_nodes p
         in if QUESTION_TARGET_MAX_NODES < qp_binding_nodes p then Panic
            else and_then (q_formula 1 (p\<lparr>qp_maximum_nodes := QUESTION_TARGET_MAX_NODES - qp_binding_nodes p\<rparr>)) (\<lambda>(parsed, p).
              Ok (p\<lparr>qp_binding_nodes := qp_binding_nodes p + pr_nodes parsed, qp_maximum_nodes := parse_allowance,
                    qp_bindings := (qp_bindings p)(name \<mapsto> parsed)\<rparr>)))))"

text \<open>Every binding consumes source, so the length of the source bounds the number of iterations.\<close>

primrec q_bindings_loop :: "nat \<Rightarrow> question_parser \<Rightarrow> (question_error, question_parser) outcome" where
  "q_bindings_loop 0 p = Panic"
| "q_bindings_loop (Suc fuel) p =
     and_then (q_binding p) (\<lambda>p.
     and_then (q_peek_word ''goal'' p) (\<lambda>(found, p).
       if found then Ok p else q_bindings_loop fuel p))"

definition formula_bindings :: "question_parser \<Rightarrow> (question_error, question_parser) outcome" where
  "formula_bindings p =
     and_then (q_word ''let'' p) (\<lambda>p.
     and_then (q_punctuation (CHR '':'') p) (\<lambda>p.
       q_bindings_loop (length (qp_source p) + 1) p))"

definition q_parser_new :: "string \<Rightarrow> question_parser" where
  "q_parser_new source =
     \<lparr>qp_source = source, qp_offset = 0, qp_variables = variables_default, qp_bindings = Map.empty, qp_binding_nodes = 0,
      qp_maximum_nodes = QUESTION_TARGET_MAX_NODES + length source\<rparr>"

definition parse_question :: "string \<Rightarrow> (question_error, parsed) outcome" where
  "parse_question source =
     and_then (q_peek_word ''let'' (q_parser_new source)) (\<lambda>(found, p).
     and_then (if found then formula_bindings p else Ok p) (\<lambda>p.
     and_then (q_word ''goal'' p) (\<lambda>p.
     and_then (q_punctuation (CHR ''='') p) (\<lambda>p.
     and_then (q_formula 1 (q_trivia p)) (\<lambda>(parsed, p).
     let p = q_trivia p
     in and_then
          (if qp_offset p < length source
           then and_then (q_word ''success'' p) (\<lambda>p. and_then (q_punctuation (CHR ''='') p) (\<lambda>p. q_literal (CHR 0x22 # ''resolve'' @ [CHR 0x22]) p))
           else Ok p) (\<lambda>p.
          if qp_offset (q_trivia p) \<noteq> length source then Err (QInvalid ''question trailing source'') else Ok parsed))))))"

record compiled_question =
  cq_source :: string
  cq_source_hash :: bytes
  cq_target :: question_target

definition question_from_parts :: "hash \<Rightarrow> string \<Rightarrow> node \<Rightarrow> (question_error, compiled_question) outcome" where
  "question_from_parts sha256 source formula =
     map_ok (\<lambda>target. \<lparr>cq_source = source,
         cq_source_hash = question_hash sha256 (ascii ''naome:state:question-source:v1'' @ [0]) [ascii source], cq_target = target\<rparr>)
       (target_from_formula sha256 formula)"

definition question_compile :: "hash \<Rightarrow> string \<Rightarrow> (question_error, compiled_question) outcome" where
  "question_compile sha256 source =
     (if QUESTION_SOURCE_MAX_BYTES < length source then Err (QLimit ''question source bytes'')
      else and_then (parse_question source) (\<lambda>parsed.
        if \<not> is_closed (pr_formula parsed) then Err (QInvalid ''question has free variables'')
        else question_from_parts sha256 source (pr_formula parsed)))"

definition question_from_formula :: "hash \<Rightarrow> node \<Rightarrow> (question_error, compiled_question) outcome" where
  "question_from_formula sha256 formula =
     and_then (expect (to_source formula)) (\<lambda>text.
     let source = ''goal = '' @ text
     in if QUESTION_SOURCE_MAX_BYTES < length source then Err (QLimit ''question source bytes'')
        else question_from_parts sha256 source formula)"

datatype question_outcome = Proved | Refuted

definition classify_conclusion :: "compiled_question \<Rightarrow> node \<Rightarrow> (question_error, question_outcome) outcome" where
  "classify_conclusion q conclusion =
     (if conclusion = proved_target (cq_target q) then Ok Proved
      else if conclusion = refuted_target (cq_target q) then Ok Refuted
      else Err (QInvalid ''proof conclusion does not match a question target''))"

section \<open>The byte form\<close>

definition text_of :: "bytes \<Rightarrow> string" where
  "text_of bs = map (\<lambda>b. char_of (unat b)) bs"

definition question_to_canonical_bytes :: "compiled_question \<Rightarrow> (question_error, bytes) outcome" where
  "question_to_canonical_bytes q =
     map_ok (\<lambda>n. 1 # u32_to_be_bytes n @ ascii (cq_source q)) (ok_or (QLimit ''question source bytes'') (u32_try_from (length (cq_source q))))"

definition question_from_canonical_bytes :: "hash \<Rightarrow> bytes \<Rightarrow> (question_error, compiled_question) outcome" where
  "question_from_canonical_bytes sha256 bs =
     (if QUESTION_SOURCE_MAX_BYTES + 5 < length bs then Err (QLimit ''encoded question bytes'')
      else and_then (ok_or QTruncated (element_at bs 0)) (\<lambda>version.
        if version \<noteq> 1 then Err (QInvalid ''question codec version'')
        else and_then (ok_or QTruncated (case drop 1 bs of a # b # c # d # _ \<Rightarrow> Some (u32_from_be_bytes a b c d) | _ \<Rightarrow> None)) (\<lambda>length_field.
          let n = unat length_field
          in if QUESTION_SOURCE_MAX_BYTES < n then Err (QLimit ''question source bytes'')
             else and_then (ok_or QTruncated (if 5 + n \<le> length bs then Some (take n (drop 5 bs)) else None)) (\<lambda>encoded.
               let source = text_of encoded
               in if \<not> is_utf8 source then Err (QInvalid ''UTF-8'')
                  else if length bs \<noteq> 5 + n then Err QTrailingBytes
                  else question_compile sha256 source))))"

end
