(* ===== verification/Checked_Context.thy ===== *)
theory Checked_Context
  imports Set_Fingerprint Definition_Certificate Proof_Certificate Calculus
begin

text \<open>
  The interface between the checker and the contexts it reads, \<open>naome-checker/src/context.rs\<close>: the
  operations of the trait \<open>ContextView\<close> that the checker and the registration rules call, as a record of
  functions. The trait is sealed; its implementations are the resident \<open>ArtifactState\<close>, modelled in
  \<open>Artifact_State\<close>, and the disk-backed contexts, which are not modelled. \<open>location\<close> fields serve only
  the disk-backed contexts and are left out. The bounded read cache that wraps a view during one check
  returns what the view returns and is not modelled.

  The locale \<open>sound_context\<close> states what a checked context promises: whatever formula it hands out for
  a registered proof or statement is provable, and reading never panics.
\<close>

record proof_header =
  ph_derivation :: derivation_id
  ph_statement :: statement_id
  ph_length :: nat

record statement_header =
  sh_proof :: proof_id
  sh_length :: nat

text \<open>The structural indexes, and an ascending bucket of one of them whose entries may fail to load.\<close>

datatype bucket_kind = Outgoing | Deductions | Instances

type_synonym statement_cursor = "(context_error, statement_id) outcome list"

record context_view =
  cv_snapshot_id :: bytes
  cv_contains_artifact :: "artifact_id \<Rightarrow> (context_error, bool) outcome"
  cv_proof_header :: "proof_id \<Rightarrow> (context_error, proof_header option) outcome"
  cv_statement_header :: "statement_id \<Rightarrow> (context_error, statement_header option) outcome"
  cv_statement_formula :: "statement_id \<Rightarrow> nat \<Rightarrow> (context_error, node option) outcome"
  cv_bucket :: "bucket_kind \<Rightarrow> statement_id \<Rightarrow> (context_error, statement_cursor) outcome"
  cv_definition_certificate :: "definition_id \<Rightarrow> (context_error, definition_certificate option) outcome"
  cv_resolve_definition :: definition_resolver

text \<open>The provided methods of the trait.\<close>

definition cv_proof_formula :: "context_view \<Rightarrow> proof_header \<Rightarrow> nat \<Rightarrow> (context_error, node option) outcome" where
  "cv_proof_formula v header maximum = cv_statement_formula v (ph_statement header) maximum"

definition cv_statement_formula_from_header ::
  "context_view \<Rightarrow> statement_id \<Rightarrow> statement_header \<Rightarrow> nat \<Rightarrow> (context_error, node option) outcome" where
  "cv_statement_formula_from_header v i header maximum = cv_statement_formula v i maximum"

definition cv_definition_kind :: "context_view \<Rightarrow> definition_id \<Rightarrow> (context_error, definition_kind option) outcome" where
  "cv_definition_kind v i = map_ok (map_option dc_kind) (cv_definition_certificate v i)"

primrec context_error_of_access :: "definition_access_error \<Rightarrow> context_error" where
  "context_error_of_access (Storage message) = ContextStorage message"
| "context_error_of_access Corrupt = ContextCorrupt"
| "context_error_of_access Limit = ContextLimit"

primrec access_error_of_context :: "context_error \<Rightarrow> definition_access_error" where
  "access_error_of_context (ContextStorage message) = Storage message"
| "access_error_of_context ContextCorrupt = Corrupt"
| "access_error_of_context ContextLimit = Limit"

lemma access_error_round_trip [simp]:
  "context_error_of_access (access_error_of_context e) = e" "access_error_of_context (context_error_of_access d) = d"
  by (cases e, simp_all) (cases d, simp_all)

section \<open>What a context promises\<close>

locale sound_context =
  fixes v :: context_view
  assumes statement_provable: "cv_statement_formula v i n = Ok (Some a) \<Longrightarrow> provable zfc_axioms a"
    and statement_admitted: "cv_statement_formula v i n = Ok (Some a) \<Longrightarrow> wire_admitted FORMULA_MAX_NODES a"
    and header_not_Panic: "cv_proof_header v p \<noteq> Panic"
    and formula_not_Panic: "cv_statement_formula v i n \<noteq> Panic"
    and resolve_not_Panic: "cv_resolve_definition v d \<noteq> Panic"
    and header_keys: "cv_proof_header v p = Ok (Some header) \<Longrightarrow> key_ok (ph_derivation header)"
begin

lemma proof_formula_provable: "cv_proof_formula v header n = Ok (Some a) \<Longrightarrow> provable zfc_axioms a"
  by (simp add: cv_proof_formula_def statement_provable)

lemma proof_formula_admitted: "cv_proof_formula v header n = Ok (Some a) \<Longrightarrow> wire_admitted FORMULA_MAX_NODES a"
  unfolding cv_proof_formula_def by (rule statement_admitted)

lemma proof_formula_not_Panic: "cv_proof_formula v header n \<noteq> Panic"
  by (simp add: cv_proof_formula_def formula_not_Panic)

end

end
