(* ===== verification/Checker.thy ===== *)
theory Checker
  imports Checked_Context Certificate_Codec
begin

text \<open>
  The proof checker, \<open>naome-checker/src/lib.rs\<close>: reconstruction of every step through the rules of the
  foundation, the cumulative work budget, the release of formulas at their last use, derivation
  identities, and the closed conclusion. A failure carries the \<open>CheckErrorKind\<close> of the source without the
  formula comparison and the diagnostic evidence that the source attaches to it. \<open>Option::take\<close> and the
  release loop are the updates of the list \<open>results\<close>.
\<close>

section \<open>Errors and intermediate results\<close>

datatype check_error =
    ContextAccess u32 context_error
  | UnknownProofReference u32 proof_id
  | DefinitionExpansionFailed u32 definition_expansion_error
  | LogicFailed u32 logic_error
  | SchemaFailed u32 schema_error
  | DerivedFormula u32 formula_codec_error
  | FormulaWorkLimitExceeded u32 nat nat
  | OpenConclusion u32

record derived_step =
  ds_formula :: node
  ds_precharged_length :: "nat option"
  ds_referenced_derivation_id :: "derivation_id option"

record checked_step =
  cs_formula :: node
  cs_canonical_length :: nat

datatype identity_mode = OmitDerivation | Derive

definition CHECKER_MAX_FORMULA_WORK_BYTES :: nat where
  "CHECKER_MAX_FORMULA_WORK_BYTES = CERTIFICATE_MAX_BYTES"

section \<open>Identities\<close>

definition derivation_id_of :: "hash \<Rightarrow> proof_step \<Rightarrow> bytes \<Rightarrow> derivation_id list \<Rightarrow> derivation_id option" where
  "derivation_id_of sha256 step canonical_result inputs =
     Option.bind (framed FOUNDATION_ID) (\<lambda>foundation.
       map_option
         (\<lambda>result. sha256 (ascii ''naome:derivation-node'' @ [0] @ foundation @ [canonical_tag step] @ result @ concat inputs))
         (framed canonical_result))"

definition statement_id_of :: "hash \<Rightarrow> bytes \<Rightarrow> statement_id option" where
  "statement_id_of sha256 canonical_conclusion = of_canonical_formula sha256 canonical_conclusion"

definition proof_id_of :: "hash \<Rightarrow> statement_id \<Rightarrow> bytes \<Rightarrow> proof_id option" where
  "proof_id_of sha256 statement canonical_bytes = of_canonical_certificate sha256 statement canonical_bytes"

section \<open>Last uses\<close>

fun mark_uses :: "u32 \<Rightarrow> u32 list \<Rightarrow> u32 option list \<Rightarrow> u32 option list option" where
  "mark_uses position [] uses = Some uses"
| "mark_uses position (reference # references) uses =
     (if unat reference < length uses then mark_uses position references (uses[unat reference := Some position]) else None)"

fun last_uses_from :: "nat \<Rightarrow> proof_step list \<Rightarrow> u32 option list \<Rightarrow> u32 option list option" where
  "last_uses_from position [] uses = Some uses"
| "last_uses_from position (step # steps) uses =
     Option.bind (u32_try_from position) (\<lambda>p.
       Option.bind (mark_uses p (local_references step) uses) (last_uses_from (Suc position) steps))"

definition last_uses :: "proof_step list \<Rightarrow> u32 option list option" where
  "last_uses steps = last_uses_from 0 steps (replicate (length steps) None)"

section \<open>One step\<close>

definition preflight_schema_depth :: "u32 \<Rightarrow> nat \<Rightarrow> (check_error, unit) outcome" where
  "preflight_schema_depth step parameter_count =
     (if FORMULA_MAX_DEPTH \<le> parameter_count then Err (DerivedFormula step (DepthLimitExceeded FORMULA_MAX_DEPTH)) else Ok ())"

definition charge_formula_work :: "u32 \<Rightarrow> nat \<Rightarrow> nat \<Rightarrow> (check_error, nat) outcome" where
  "charge_formula_work step amount remaining =
     (if remaining < amount
      then Err (FormulaWorkLimitExceeded step ((CHECKER_MAX_FORMULA_WORK_BYTES - remaining) + amount) CHECKER_MAX_FORMULA_WORK_BYTES)
      else Ok (remaining - amount))"

definition result_at :: "checked_step option list \<Rightarrow> u32 \<Rightarrow> checked_step option" where
  "result_at results reference = Option.bind (element_at results (unat reference)) (\<lambda>r. r)"

definition expansion_failure :: "u32 \<Rightarrow> definition_expansion_error \<Rightarrow> check_error" where
  "expansion_failure step source =
     (case source of
        Access access \<Rightarrow> ContextAccess step (context_error_of_access access)
      | _ \<Rightarrow> DefinitionExpansionFailed step source)"

definition primitive_formula :: "u32 \<Rightarrow> proof_formula \<Rightarrow> context_view \<Rightarrow> (check_error, node) outcome" where
  "primitive_formula step formula artifact_state =
     (case as_primitive formula of
        Some formula \<Rightarrow> Ok formula
      | None \<Rightarrow>
          and_then (expect (as_defined formula)) (\<lambda>defined.
            map_err (expansion_failure step)
              (map_ok fst (expand_with_node_limit defined (cv_resolve_definition artifact_state) FORMULA_MAX_NODES))))"

definition primitive_separation :: "u32 \<Rightarrow> proof_separation \<Rightarrow> context_view \<Rightarrow> (check_error, separation) outcome" where
  "primitive_separation step schema artifact_state =
     map_ok (\<lambda>predicate. \<lparr>sep_predicate = predicate, sep_element = ps_element schema, sep_source = ps_source schema,
         sep_result = ps_result schema, sep_parameters = ps_parameters schema\<rparr>)
       (primitive_formula step (ps_predicate schema) artifact_state)"

definition primitive_replacement :: "u32 \<Rightarrow> proof_replacement \<Rightarrow> context_view \<Rightarrow> (check_error, replacement) outcome" where
  "primitive_replacement step schema artifact_state =
     map_ok (\<lambda>predicate. \<lparr>rep_predicate = predicate, rep_input = pr_input schema, rep_output = pr_output schema,
         rep_uniqueness_witness = pr_uniqueness_witness schema, rep_source = pr_source schema,
         rep_result = pr_result schema, rep_parameters = pr_parameters schema\<rparr>)
       (primitive_formula step (pr_predicate schema) artifact_state)"

text \<open>A rule that only reads its own fields: its formula, no reference, no charge yet.\<close>

definition local_step ::
  "checked_step option list \<Rightarrow> nat \<Rightarrow> node \<Rightarrow> derived_step \<times> checked_step option list \<times> nat" where
  "local_step results remaining formula =
     (\<lparr>ds_formula = formula, ds_precharged_length = None, ds_referenced_derivation_id = None\<rparr>, results, remaining)"

definition derive_reference ::
  "u32 \<Rightarrow> proof_id \<Rightarrow> checked_step option list \<Rightarrow> context_view \<Rightarrow> nat \<Rightarrow>
     (check_error, derived_step \<times> checked_step option list \<times> nat) outcome" where
  "derive_reference step proof_id results artifact_state remaining =
     and_then (map_err (ContextAccess step) (cv_proof_header artifact_state proof_id)) (\<lambda>found.
     and_then (ok_or (UnknownProofReference step proof_id) found) (\<lambda>header.
     and_then (charge_formula_work step (ph_length header) remaining) (\<lambda>remaining.
     and_then (map_err (ContextAccess step) (cv_proof_formula artifact_state header (ph_length header))) (\<lambda>found.
     and_then (ok_or (ContextAccess step ContextCorrupt) found) (\<lambda>formula.
       Ok (\<lparr>ds_formula = formula, ds_precharged_length = Some (ph_length header),
            ds_referenced_derivation_id = Some (ph_derivation header)\<rparr>, results, remaining))))))"

definition derive_modus_ponens ::
  "u32 \<Rightarrow> u32 \<Rightarrow> u32 \<Rightarrow> checked_step option list \<Rightarrow> nat \<Rightarrow>
     (check_error, derived_step \<times> checked_step option list \<times> nat) outcome" where
  "derive_modus_ponens step premise implication results remaining =
     and_then (expect (result_at results premise)) (\<lambda>premise.
     and_then (expect (result_at results implication)) (\<lambda>implication.
     and_then (charge_formula_work step (cs_canonical_length premise + cs_canonical_length implication) remaining) (\<lambda>remaining.
       map_ok (local_step results remaining)
         (map_err (LogicFailed step) (modus_ponens (cs_formula premise) (cs_formula implication))))))"

definition derive_generalization ::
  "u32 \<Rightarrow> u32 \<Rightarrow> free_variable \<Rightarrow> checked_step option list \<Rightarrow> u32 option list \<Rightarrow> nat \<Rightarrow>
     (check_error, derived_step \<times> checked_step option list \<times> nat) outcome" where
  "derive_generalization step premise variable results uses remaining =
     and_then (expect (result_at results premise)) (\<lambda>premise_step.
     and_then (charge_formula_work step (cs_canonical_length premise_step) remaining) (\<lambda>remaining.
     and_then (expect (element_at uses (unat premise))) (\<lambda>use.
       let results = (if use = Some step then results[unat premise := None] else results)
       in map_ok (local_step results remaining) (expect (generalization variable (cs_formula premise_step))))))"

primrec derive_step ::
  "u32 \<Rightarrow> proof_step \<Rightarrow> checked_step option list \<Rightarrow> u32 option list \<Rightarrow> context_view \<Rightarrow> nat \<Rightarrow>
     (check_error, derived_step \<times> checked_step option list \<times> nat) outcome" where
  "derive_step step (SimplificationStep antecedent consequent) results uses artifact_state remaining =
     and_then (primitive_formula step antecedent artifact_state) (\<lambda>a.
     and_then (primitive_formula step consequent artifact_state) (\<lambda>b.
       map_ok (local_step results remaining) (expect (simplification a b))))"
| "derive_step step (FregeStep first second third) results uses artifact_state remaining =
     and_then (primitive_formula step first artifact_state) (\<lambda>a.
     and_then (primitive_formula step second artifact_state) (\<lambda>b.
     and_then (primitive_formula step third artifact_state) (\<lambda>c.
       map_ok (local_step results remaining) (expect (frege a b c)))))"
| "derive_step step (ContrapositionStep antecedent consequent) results uses artifact_state remaining =
     and_then (primitive_formula step antecedent artifact_state) (\<lambda>a.
     and_then (primitive_formula step consequent artifact_state) (\<lambda>b.
       map_ok (local_step results remaining) (expect (classical_contraposition a b))))"
| "derive_step step (DistributionStep variable antecedent consequent) results uses artifact_state remaining =
     and_then (primitive_formula step antecedent artifact_state) (\<lambda>a.
     and_then (primitive_formula step consequent artifact_state) (\<lambda>b.
       map_ok (local_step results remaining) (expect (universal_distribution variable a b))))"
| "derive_step step (VacuousStep formula) results uses artifact_state remaining =
     and_then (primitive_formula step formula artifact_state) (\<lambda>a.
       map_ok (local_step results remaining) (expect (vacuous_universal a)))"
| "derive_step step (InstantiationStep variable replacement_variable body) results uses artifact_state remaining =
     and_then (primitive_formula step body artifact_state) (\<lambda>a.
       map_ok (local_step results remaining) (expect (universal_instantiation variable replacement_variable a)))"
| "derive_step step (ReflexivityStep variable) results uses artifact_state remaining =
     Ok (local_step results remaining (equality_reflexivity variable))"
| "derive_step step (SubstitutionStep from to body) results uses artifact_state remaining =
     and_then (primitive_formula step body artifact_state) (\<lambda>a.
       map_ok (local_step results remaining) (expect (equality_substitution from to a)))"
| "derive_step step (ZfcAxiomStep axiom) results uses artifact_state remaining =
     map_ok (local_step results remaining) (expect (zfc_formula axiom))"
| "derive_step step (SeparationStep schema) results uses artifact_state remaining =
     and_then (preflight_schema_depth step (length (ps_parameters schema))) (\<lambda>_.
     and_then (primitive_separation step schema artifact_state) (\<lambda>schema.
       map_ok (local_step results remaining) (map_err (SchemaFailed step) (separation_formula schema))))"
| "derive_step step (ReplacementStep schema) results uses artifact_state remaining =
     and_then (preflight_schema_depth step (length (pr_parameters schema))) (\<lambda>_.
     and_then (primitive_replacement step schema artifact_state) (\<lambda>schema.
       map_ok (local_step results remaining) (map_err (SchemaFailed step) (replacement_formula schema))))"
| "derive_step step (ProofReference proof_id) results uses artifact_state remaining =
     derive_reference step proof_id results artifact_state remaining"
| "derive_step step (ModusPonensStep premise implication) results uses artifact_state remaining =
     derive_modus_ponens step premise implication results remaining"
| "derive_step step (GeneralizationStep premise variable) results uses artifact_state remaining =
     derive_generalization step premise variable results uses remaining"

section \<open>The loop\<close>

record check_state =
  ck_results :: "checked_step option list"
  ck_derivation_ids :: "derivation_id list option"
  ck_remaining :: nat
  ck_conclusion :: "bytes option"

definition derivation_inputs :: "proof_step \<Rightarrow> derivation_id list \<Rightarrow> derivation_id list option" where
  "derivation_inputs step ids =
     (if \<forall>r\<in>set (local_references step). unat r < length ids
      then Some (map (\<lambda>r. ids ! unat r) (local_references step)) else None)"

text \<open>The formulas whose last use is this step are released.\<close>

fun release :: "u32 \<Rightarrow> u32 option list \<Rightarrow> u32 list \<Rightarrow> checked_step option list \<Rightarrow> checked_step option list option" where
  "release position uses [] results = Some results"
| "release position uses (reference # references) results =
     (if unat reference < length uses
      then if uses ! unat reference = Some position
        then if unat reference < length results
          then release position uses references (results[unat reference := None]) else None
        else release position uses references results
      else None)"

definition mode_encoding :: "identity_mode \<Rightarrow> node \<Rightarrow> (formula_codec_error, bytes) outcome" where
  "mode_encoding mode formula =
     (case mode of OmitDerivation \<Rightarrow> encode_canonical formula | Derive \<Rightarrow> encode_free_variable_normalized formula)"

definition next_derivation_ids ::
  "hash \<Rightarrow> proof_step \<Rightarrow> derived_step \<Rightarrow> bytes option \<Rightarrow> (derivation_id list \<times> derivation_id list) option \<Rightarrow> derivation_id list option option" where
  "next_derivation_ids sha256 step derived canonical ids =
     (case ids of
        None \<Rightarrow> Some None
      | Some (derivation_ids, inputs) \<Rightarrow>
          (case ds_referenced_derivation_id derived of
             Some i \<Rightarrow> Some (Some (derivation_ids @ [i]))
           | None \<Rightarrow>
               Option.bind canonical (\<lambda>canonical.
                 map_option (\<lambda>i. Some (derivation_ids @ [i])) (derivation_id_of sha256 step canonical inputs))))"

definition step_inputs :: "proof_step \<Rightarrow> derivation_id list option \<Rightarrow> (derivation_id list \<times> derivation_id list) option option" where
  "step_inputs step derivation_ids =
     (case derivation_ids of
        None \<Rightarrow> Some None
      | Some ids \<Rightarrow> map_option (\<lambda>inputs. Some (ids, inputs)) (derivation_inputs step ids))"

definition step_encoding :: "identity_mode \<Rightarrow> u32 \<Rightarrow> u32 \<Rightarrow> derived_step \<Rightarrow> (check_error, bytes option) outcome" where
  "step_encoding mode final_step position derived =
     (if ds_precharged_length derived = None \<or> position = final_step
      then map_ok Some (map_err (DerivedFormula position) (mode_encoding mode (ds_formula derived)))
      else Ok None)"

definition step_charge :: "u32 \<Rightarrow> derived_step \<Rightarrow> bytes option \<Rightarrow> nat \<Rightarrow> (check_error, nat \<times> nat) outcome" where
  "step_charge position derived canonical remaining =
     (case ds_precharged_length derived of
        Some n \<Rightarrow> Ok (n, remaining)
      | None \<Rightarrow> and_then (expect canonical) (\<lambda>bs.
          map_ok (\<lambda>remaining. (length bs, remaining)) (charge_formula_work position (length bs) remaining)))"

definition check_step ::
  "hash \<Rightarrow> context_view \<Rightarrow> identity_mode \<Rightarrow> u32 \<Rightarrow> u32 option list \<Rightarrow> nat \<Rightarrow> proof_step \<Rightarrow> check_state \<Rightarrow>
     (check_error, check_state) outcome" where
  "check_step sha256 artifact_state mode final_step uses index step st =
     and_then (expect (u32_try_from index)) (\<lambda>position.
     and_then (derive_step position step (ck_results st) uses artifact_state (ck_remaining st)) (\<lambda>(derived, results, remaining).
     and_then (expect (step_inputs step (ck_derivation_ids st))) (\<lambda>ids.
     and_then (expect (release position uses (local_references step) results)) (\<lambda>results.
     and_then (step_encoding mode final_step position derived) (\<lambda>canonical.
     and_then (step_charge position derived canonical remaining) (\<lambda>(canonical_length, remaining).
     and_then (expect (next_derivation_ids sha256 step derived canonical ids)) (\<lambda>derivation_ids.
     and_then (expect (element_at uses index)) (\<lambda>use.
     let retain = position = final_step \<or> use \<noteq> None
     in Ok \<lparr>ck_results = results @ [if retain then Some \<lparr>cs_formula = ds_formula derived, cs_canonical_length = canonical_length\<rparr> else None],
            ck_derivation_ids = derivation_ids, ck_remaining = remaining,
            ck_conclusion = (if position = final_step then canonical else ck_conclusion st)\<rparr>))))))))"

primrec check_steps ::
  "hash \<Rightarrow> context_view \<Rightarrow> identity_mode \<Rightarrow> u32 \<Rightarrow> u32 option list \<Rightarrow> nat \<Rightarrow> proof_step list \<Rightarrow> check_state \<Rightarrow>
     (check_error, check_state) outcome" where
  "check_steps sha256 artifact_state mode final_step uses index [] st = Ok st"
| "check_steps sha256 artifact_state mode final_step uses index (step # steps) st =
     and_then (check_step sha256 artifact_state mode final_step uses index step st)
       (check_steps sha256 artifact_state mode final_step uses (Suc index) steps)"

definition check_start :: "identity_mode \<Rightarrow> check_state" where
  "check_start mode =
     \<lparr>ck_results = [], ck_derivation_ids = (case mode of OmitDerivation \<Rightarrow> None | Derive \<Rightarrow> Some []),
      ck_remaining = CHECKER_MAX_FORMULA_WORK_BYTES, ck_conclusion = None\<rparr>"

definition check_with_canonical_conclusion ::
  "hash \<Rightarrow> proof_certificate \<Rightarrow> context_view \<Rightarrow> identity_mode \<Rightarrow> (check_error, node \<times> bytes \<times> derivation_id option) outcome" where
  "check_with_canonical_conclusion sha256 certificate artifact_state mode =
     (let steps = cert_steps certificate
      in and_then (expect (if steps = [] then None else u32_try_from (length steps - 1))) (\<lambda>final_step.
         and_then (expect (last_uses steps)) (\<lambda>uses.
         and_then (check_steps sha256 artifact_state mode final_step uses 0 steps (check_start mode)) (\<lambda>st.
         and_then (expect (if ck_results st = [] then None else last (ck_results st))) (\<lambda>conclusion.
         and_then (charge_formula_work final_step (cs_canonical_length conclusion) (ck_remaining st)) (\<lambda>_.
           if \<not> is_closed (cs_formula conclusion) then Err (OpenConclusion final_step)
           else map_ok (\<lambda>canonical. (cs_formula conclusion, canonical,
               Option.bind (ck_derivation_ids st) (\<lambda>ids. if ids = [] then None else Some (last ids))))
             (expect (ck_conclusion st))))))))"

end
