(* ===== verification/Checker_Soundness.thy ===== *)
theory Checker_Soundness
  imports Checker
begin

text \<open>
  What the checker of \<open>Checker\<close> guarantees over any context that keeps the promises of the locale
  \<open>sound_context\<close>: an accepted certificate has a conclusion that the calculus derives from the axioms of
  ZFC, the conclusion is closed and within the codec limits, its bytes are canonical, and a structurally
  valid certificate never makes the checker panic.
\<close>

section \<open>Steps that need no context\<close>

lemma primitive_formula_Ok:
  assumes "primitive_formula step f view = Ok a" "pf_ok f"
  shows "well_formed a" and "pf_admitted FORMULA_MAX_NODES f \<Longrightarrow> wire_admitted FORMULA_MAX_NODES a"
  using assms expand_with_node_limit_Ok(1,2)
  by (cases f; fastforce simp: primitive_formula_def as_primitive_def as_defined_def)+

lemma charge_formula_work_Ok [simp]:
  "charge_formula_work step amount remaining = Ok r \<longleftrightarrow> amount \<le> remaining \<and> r = remaining - amount"
  by (auto simp: charge_formula_work_def)

lemma charge_formula_work_not_Panic [simp]: "charge_formula_work step amount remaining \<noteq> Panic"
  by (simp add: charge_formula_work_def)

lemma preflight_not_Panic [simp]: "preflight_schema_depth step n \<noteq> Panic"
  by (simp add: preflight_schema_depth_def)

lemma preflight_Ok [simp]: "preflight_schema_depth step n = Ok u \<longleftrightarrow> n < 256"
  by (auto simp: preflight_schema_depth_def FORMULA_MAX_DEPTH_def)

lemma local_step_eq [simp]:
  "local_step results remaining a = (d, results', remaining') \<longleftrightarrow>
     d = \<lparr>ds_formula = a, ds_precharged_length = None, ds_referenced_derivation_id = None\<rparr> \<and> results' = results \<and> remaining' = remaining"
  "(d, results', remaining') = local_step results remaining a \<longleftrightarrow>
     d = \<lparr>ds_formula = a, ds_precharged_length = None, ds_referenced_derivation_id = None\<rparr> \<and> results' = results \<and> remaining' = remaining"
  by (auto simp: local_step_def)

lemma result_at_Some: "result_at results r = Some cs \<Longrightarrow> Some cs \<in> set results"
  by (auto simp: result_at_def bind_eq_Some_conv) (metis nth_mem)

text \<open>The results that a step may leave behind: none that was not there, some released.\<close>

definition keeps :: "checked_step option list \<Rightarrow> checked_step option list \<Rightarrow> bool" where
  "keeps results results' \<longleftrightarrow> length results' = length results \<and>
     (\<forall>i<length results. results' ! i = results ! i \<or> results' ! i = None)"

lemma keeps_refl [simp]: "keeps results results"
  by (simp add: keeps_def)

lemma keeps_trans: "keeps a b \<Longrightarrow> keeps b c \<Longrightarrow> keeps a c"
  by (auto simp: keeps_def) (metis option.distinct(1))

lemma keeps_update [simp]: "keeps results (results[i := None])"
  by (cases "i < length results") (auto simp: keeps_def nth_list_update)

lemma keeps_member: "keeps results results' \<Longrightarrow> Some cs \<in> set results' \<Longrightarrow> Some cs \<in> set results"
  by (auto simp: keeps_def in_set_conv_nth) (metis option.distinct(1))

lemma release_keeps: "release p uses rs results = Some results' \<Longrightarrow> keeps results results'"
  by (induction p uses rs results rule: release.induct) (auto split: if_splits intro: keeps_trans [OF keeps_update])

lemma derive_step_keeps: "derive_step p s results uses view rem = Ok (d, results', rem') \<Longrightarrow> keeps results results'"
  by (cases s) (auto simp: derive_reference_def derive_modus_ponens_def derive_generalization_def Let_def split: if_splits)

lemma derive_reference_Ok:
  "derive_reference p q results view rem = Ok (d, results', rem') \<longleftrightarrow> (\<exists>header a. cv_proof_header view q = Ok (Some header) \<and>
     ph_length header \<le> rem \<and> cv_proof_formula view header (ph_length header) = Ok (Some a) \<and>
     d = \<lparr>ds_formula = a, ds_precharged_length = Some (ph_length header), ds_referenced_derivation_id = Some (ph_derivation header)\<rparr> \<and>
     results' = results \<and> rem' = rem - ph_length header)"
  by (auto simp: derive_reference_def)

lemma derive_step_reference:
  "derive_step p s results uses view rem = Ok (d, results', rem') \<Longrightarrow> ds_precharged_length d \<noteq> None \<Longrightarrow> \<exists>q. s = ProofReference q"
  by (cases s) (auto simp: derive_modus_ponens_def derive_generalization_def Let_def split: if_splits)

section \<open>Soundness\<close>

text \<open>Every retained formula is provable and within the codec limits.\<close>

definition all_provable :: "checked_step option list \<Rightarrow> bool" where
  "all_provable results \<longleftrightarrow> (\<forall>cs. Some cs \<in> set results \<longrightarrow>
     provable zfc_axioms (cs_formula cs) \<and> wire_admitted FORMULA_MAX_NODES (cs_formula cs))"

lemma all_provable_keeps: "all_provable results \<Longrightarrow> keeps results results' \<Longrightarrow> all_provable results'"
  unfolding all_provable_def using keeps_member by blast

context sound_context
begin

lemma derive_step_provable:
  assumes "derive_step p s results uses v rem = Ok (d, results', rem')" "step_ok s" "all_provable results"
  shows "provable zfc_axioms (ds_formula d)"
proof -
  note wf = primitive_formula_Ok(1)
  have axiom: "provable zfc_axioms a" if "a \<in> zfc_axioms" for a
    using that zfc_axioms_well_formed [OF that] by (rule provable_premise)
  show ?thesis
  proof (cases s)
    case (SimplificationStep a b)
    with assms show ?thesis by (auto elim!: provable_simplification [rotated 2] dest: wf)
  next
    case (FregeStep a b c)
    with assms show ?thesis by (auto elim!: provable_frege [rotated 3] dest: wf)
  next
    case (ContrapositionStep a b)
    with assms show ?thesis by (auto elim!: provable_contraposition [rotated 2] dest: wf)
  next
    case (DistributionStep x a b)
    with assms show ?thesis by (auto elim!: provable_distribution [rotated 2] dest: wf)
  next
    case (VacuousStep a)
    with assms show ?thesis by (auto elim!: provable_vacuous [rotated 1] dest: wf)
  next
    case (InstantiationStep x y a)
    with assms show ?thesis by (auto elim!: provable_instantiation [rotated 1] dest: wf)
  next
    case (ReflexivityStep x)
    with assms show ?thesis by (auto simp: local_step_def intro: provable_reflexivity)
  next
    case (SubstitutionStep x y a)
    with assms show ?thesis by (auto elim!: provable_substitution [rotated 1] dest: wf)
  next
    case (ZfcAxiomStep ax)
    with assms show ?thesis by (auto intro!: axiom dest: zfc_fixed)
  next
    case (SeparationStep sch)
    with assms(1) obtain a where a: "primitive_formula p (ps_predicate sch) v = Ok a"
      "separation_formula \<lparr>sep_predicate = a, sep_element = ps_element sch, sep_source = ps_source sch,
         sep_result = ps_result sch, sep_parameters = ps_parameters sch\<rparr> = Ok (ds_formula d)"
      by (auto simp: primitive_separation_def)
    have "well_formed a" using wf [OF a(1)] assms(2) SeparationStep by simp
    with a(2) show ?thesis by (intro axiom zfc_separation) auto
  next
    case (ReplacementStep sch)
    with assms(1) obtain a where a: "primitive_formula p (pr_predicate sch) v = Ok a"
      "replacement_formula \<lparr>rep_predicate = a, rep_input = pr_input sch, rep_output = pr_output sch,
         rep_uniqueness_witness = pr_uniqueness_witness sch, rep_source = pr_source sch,
         rep_result = pr_result sch, rep_parameters = pr_parameters sch\<rparr> = Ok (ds_formula d)"
      by (auto simp: primitive_replacement_def)
    have "well_formed a" using wf [OF a(1)] assms(2) ReplacementStep by simp
    with a(2) show ?thesis by (intro axiom zfc_replacement) auto
  next
    case (ProofReference i)
    with assms show ?thesis by (auto simp: derive_reference_def dest: proof_formula_provable)
  next
    case (ModusPonensStep i j)
    with assms show ?thesis
      by (auto simp: derive_modus_ponens_def all_provable_def dest!: result_at_Some intro: provable_modus_ponens)
  next
    case (GeneralizationStep i x)
    with assms show ?thesis
      by (auto simp: derive_generalization_def all_provable_def Let_def dest!: result_at_Some intro: provable_generalization split: if_splits)
  qed
qed

lemma derive_step_precharged:
  assumes "derive_step p s results uses v rem = Ok (d, results', rem')" "ds_precharged_length d \<noteq> None"
  shows "wire_admitted FORMULA_MAX_NODES (ds_formula d)"
proof -
  obtain q where "s = ProofReference q" using derive_step_reference [OF assms] by blast
  with assms(1) have "\<exists>header. cv_proof_formula v header (ph_length header) = Ok (Some (ds_formula d))"
    by (auto simp: derive_reference_Ok)
  then show ?thesis using proof_formula_admitted by blast
qed

lemma mode_encoding_Ok:
  assumes "mode_encoding mode a = Ok bs"
  shows "wire_admitted FORMULA_MAX_NODES a" "length bs = length (wire a)" "is_closed a \<Longrightarrow> bs = wire a"
proof -
  consider "encode_canonical a = Ok bs" | "encode_free_variable_normalized a = Ok bs"
    using assms by (cases mode) (simp_all add: mode_encoding_def)
  then have "wire_admitted FORMULA_MAX_NODES a \<and> length bs = length (wire a) \<and> (frees a = {} \<longrightarrow> bs = wire a)"
  proof cases
    case 1
    then show ?thesis by (simp add: encode_canonical_Ok)
  next
    case 2
    with encode_free_variable_normalized_iff [of a] have "wire_admitted FORMULA_MAX_NODES a" by blast
    with encode_free_variable_normalized_bytes [OF 2] show ?thesis by blast
  qed
  then show "wire_admitted FORMULA_MAX_NODES a" "length bs = length (wire a)" "is_closed a \<Longrightarrow> bs = wire a"
    by (simp_all add: is_closed_iff)
qed

text \<open>The facts about one iteration that every invariant of the loop rests on.\<close>

lemma check_stepE:
  assumes "check_step h v mode final uses i s st = Ok st'"
  obtains p d results1 rem1 results2 canonical n rem2 where
    "u32_try_from i = Some p" "derive_step p s (ck_results st) uses v (ck_remaining st) = Ok (d, results1, rem1)"
    "release p uses (local_references s) results1 = Some results2" "i < length uses"
    "(ds_precharged_length d = None \<or> p = final) \<longrightarrow> (\<exists>bs. canonical = Some bs \<and> mode_encoding mode (ds_formula d) = Ok bs)"
    "ds_precharged_length d = None \<longrightarrow> (\<exists>bs. canonical = Some bs \<and> n = length bs \<and> n \<le> rem1 \<and> rem2 = rem1 - n)"
    "ds_precharged_length d \<noteq> None \<longrightarrow> ds_precharged_length d = Some n \<and> rem2 = rem1"
    "ck_results st' = results2 @ [if p = final \<or> uses ! i \<noteq> None
       then Some \<lparr>cs_formula = ds_formula d, cs_canonical_length = n\<rparr> else None]"
    "ck_remaining st' = rem2" "ck_conclusion st' = (if p = final then canonical else ck_conclusion st)"
    "ck_derivation_ids st = None \<longrightarrow> ck_derivation_ids st' = None"
    "\<forall>ids. ck_derivation_ids st = Some ids \<longrightarrow> (\<exists>x. ck_derivation_ids st' = Some (ids @ [x]) \<and>
       (ds_referenced_derivation_id d = Some x \<or> ds_referenced_derivation_id d = None \<and>
         (\<exists>bs inputs. canonical = Some bs \<and> derivation_id_of h s bs inputs = Some x)))"
proof -
  from assms obtain p d results1 rem1 ids results2 canonical n rem2 nids where
    1: "u32_try_from i = Some p" "derive_step p s (ck_results st) uses v (ck_remaining st) = Ok (d, results1, rem1)"
      "release p uses (local_references s) results1 = Some results2" "i < length uses" and
    2: "step_inputs s (ck_derivation_ids st) = Some ids" "step_encoding mode final p d = Ok canonical"
      "step_charge p d canonical rem1 = Ok (n, rem2)" "next_derivation_ids h s d canonical ids = Some nids" and
    3: "st' = \<lparr>ck_results = results2 @ [if p = final \<or> uses ! i \<noteq> None
         then Some \<lparr>cs_formula = ds_formula d, cs_canonical_length = n\<rparr> else None],
       ck_derivation_ids = nids, ck_remaining = rem2, ck_conclusion = (if p = final then canonical else ck_conclusion st)\<rparr>"
    by (auto simp: check_step_def Let_def)
  have c: "(ds_precharged_length d = None \<or> p = final) \<longrightarrow> (\<exists>bs. canonical = Some bs \<and> mode_encoding mode (ds_formula d) = Ok bs)"
    using 2(2) by (auto simp: step_encoding_def)
  show thesis
  proof (rule that [OF 1 c])
    show "ds_precharged_length d = None \<longrightarrow> (\<exists>bs. canonical = Some bs \<and> n = length bs \<and> n \<le> rem1 \<and> rem2 = rem1 - n)"
      "ds_precharged_length d \<noteq> None \<longrightarrow> ds_precharged_length d = Some n \<and> rem2 = rem1"
      using 2(3) by (auto simp: step_charge_def)
    show "ck_derivation_ids st = None \<longrightarrow> ck_derivation_ids st' = None"
      "\<forall>ids. ck_derivation_ids st = Some ids \<longrightarrow> (\<exists>x. ck_derivation_ids st' = Some (ids @ [x]) \<and>
         (ds_referenced_derivation_id d = Some x \<or> ds_referenced_derivation_id d = None \<and>
           (\<exists>bs inputs. canonical = Some bs \<and> derivation_id_of h s bs inputs = Some x)))"
      using 2(1,4) by (auto simp: 3 step_inputs_def next_derivation_ids_def bind_eq_Some_conv split: option.splits) blast
  qed (simp_all add: 3)
qed

lemma check_step_all_provable:
  assumes "check_step h v mode final uses i s st = Ok st'" "step_ok s" "all_provable (ck_results st)"
  shows "all_provable (ck_results st')"
  using assms(1)
proof (rule check_stepE)
  fix p d results1 rem1 results2 canonical n rem2
  assume d: "derive_step p s (ck_results st) uses v (ck_remaining st) = Ok (d, results1, rem1)"
    and r: "release p uses (local_references s) results1 = Some results2"
    and c: "(ds_precharged_length d = None \<or> p = final) \<longrightarrow> (\<exists>bs. canonical = Some bs \<and> mode_encoding mode (ds_formula d) = Ok bs)"
    and st': "ck_results st' = results2 @ [if p = final \<or> uses ! i \<noteq> None
       then Some \<lparr>cs_formula = ds_formula d, cs_canonical_length = n\<rparr> else None]"
  have "all_provable results2"
    using assms(3) keeps_trans [OF derive_step_keeps [OF d] release_keeps [OF r]] by (rule all_provable_keeps)
  moreover have "wire_admitted FORMULA_MAX_NODES (ds_formula d)"
    using c derive_step_precharged [OF d] mode_encoding_Ok(1) by blast
  ultimately show ?thesis
    using derive_step_provable [OF d assms(2,3)] by (auto simp: all_provable_def st')
qed

lemma check_steps_all_provable:
  "check_steps h v mode final uses i ss st = Ok st' \<Longrightarrow> \<forall>s\<in>set ss. step_ok s \<Longrightarrow> all_provable (ck_results st) \<Longrightarrow>
     all_provable (ck_results st')"
  by (induction ss arbitrary: i st) (auto intro: check_step_all_provable)

lemma check_steps_append:
  "check_steps h v mode final uses i (ss @ ts) st =
     and_then (check_steps h v mode final uses i ss st) (check_steps h v mode final uses (i + length ss) ts)"
  by (induction ss arbitrary: i st) (auto simp: and_then_assoc intro: and_then_cong)

lemma check_steps_conclusion:
  assumes "check_steps h v mode final uses 0 ss st0 = Ok st" "ss \<noteq> []" "u32_try_from (length ss - 1) = Some final"
  obtains a n bs where "ck_results st \<noteq> []" "last (ck_results st) = Some \<lparr>cs_formula = a, cs_canonical_length = n\<rparr>"
    "ck_conclusion st = Some bs" "mode_encoding mode a = Ok bs"
proof -
  obtain ts s where ss: "ss = ts @ [s]" using assms(2) by (metis rev_exhaust)
  with assms(1) obtain st1 where "check_step h v mode final uses (length ts) s st1 = Ok st"
    by (auto simp: check_steps_append)
  then show thesis
  proof (rule check_stepE)
    fix p d results1 rem1 results2 canonical n rem2
    assume p: "u32_try_from (length ts) = Some p"
      and c: "(ds_precharged_length d = None \<or> p = final) \<longrightarrow> (\<exists>bs. canonical = Some bs \<and> mode_encoding mode (ds_formula d) = Ok bs)"
      and st: "ck_results st = results2 @ [if p = final \<or> uses ! length ts \<noteq> None
         then Some \<lparr>cs_formula = ds_formula d, cs_canonical_length = n\<rparr> else None]"
         "ck_conclusion st = (if p = final then canonical else ck_conclusion st1)"
    have "p = final" using p assms(3) ss by simp
    with c st show thesis by (auto intro: that)
  qed
qed

lemma check_sound:
  assumes "check_with_canonical_conclusion h cert v mode = Ok (a, bs, d)" "\<forall>s\<in>set (cert_steps cert). step_ok s"
  shows "provable zfc_axioms a" "is_closed a" "wire_admitted FORMULA_MAX_NODES a" "bs = wire a"
proof -
  from assms(1) obtain final uses st c where
    f: "cert_steps cert \<noteq> []" "u32_try_from (length (cert_steps cert) - 1) = Some final" and
    st: "check_steps h v mode final uses 0 (cert_steps cert) (check_start mode) = Ok st" and
    c: "last (ck_results st) = Some c" "ck_results st \<noteq> []" "is_closed (cs_formula c)" "a = cs_formula c" "ck_conclusion st = Some bs"
    by (auto simp: check_with_canonical_conclusion_def Let_def split: if_splits)
  have "all_provable (ck_results (check_start mode))" by (simp add: check_start_def all_provable_def)
  from check_steps_all_provable [OF st assms(2) this] c(1,2)
  show "provable zfc_axioms a" "wire_admitted FORMULA_MAX_NODES a"
    using last_in_set [OF c(2)] by (auto simp: all_provable_def c(4))
  show "is_closed a" using c by simp
  from st f obtain b n bs' where "last (ck_results st) = Some \<lparr>cs_formula = b, cs_canonical_length = n\<rparr>"
    "ck_conclusion st = Some bs'" "mode_encoding mode b = Ok bs'" by (rule check_steps_conclusion)
  with c mode_encoding_Ok(3) [of mode b bs'] show "bs = wire a" by auto
qed

end

section \<open>No panic\<close>

text \<open>The last uses of a certificate: each reference of a step is used last at that step or later.\<close>

definition uses_ok :: "proof_step list \<Rightarrow> u32 option list \<Rightarrow> bool" where
  "uses_ok ss uses \<longleftrightarrow> length uses = length ss \<and>
     (\<forall>k<length ss. \<forall>r\<in>set (local_references (ss ! k)). \<exists>q. uses ! unat r = Some q \<and> k \<le> unat q)"

lemma mark_uses_Some:
  "\<forall>r\<in>set rs. unat r < length uses \<Longrightarrow>
     \<exists>uses'. mark_uses p rs uses = Some uses' \<and> length uses' = length uses \<and>
       (\<forall>j<length uses. uses' ! j = (if j \<in> unat ` set rs then Some p else uses ! j))"
proof (induction rs arbitrary: uses)
  case (Cons r rs)
  from Cons.IH [of "uses[unat r := Some p]"] Cons.prems obtain uses' where
    u: "mark_uses p rs (uses[unat r := Some p]) = Some uses'" "length uses' = length uses"
       "\<forall>j<length uses. uses' ! j = (if j \<in> unat ` set rs then Some p else uses[unat r := Some p] ! j)" by auto
  with Cons.prems show ?case by (auto simp: nth_list_update)
qed simp

lemma last_uses_from_Some:
  "i + length ss \<le> length uses \<Longrightarrow> length uses \<le> 2 ^ 32 \<Longrightarrow> steps_earlier i ss \<Longrightarrow>
     \<exists>uses'. last_uses_from i ss uses = Some uses' \<and> length uses' = length uses \<and>
       (\<forall>j<length uses. \<forall>q. uses ! j = Some q \<and> unat q < i \<longrightarrow> (\<exists>q'. uses' ! j = Some q' \<and> unat q \<le> unat q')) \<and>
       (\<forall>k<length ss. \<forall>r\<in>set (local_references (ss ! k)). \<exists>q. uses' ! unat r = Some q \<and> i + k \<le> unat q)"
proof (induction ss arbitrary: i uses)
  case (Cons s ss)
  have p: "u32_try_from i = Some (of_nat i)" "unat (of_nat i :: u32) = i"
    using Cons.prems by (auto simp: u32_try_from_Some unat_u32_of_nat)
  have "\<forall>r\<in>set (local_references s). unat r < length uses"
    using Cons.prems by (fastforce simp: refs_earlier_def)
  then obtain u1 where u1: "mark_uses (of_nat i) (local_references s) uses = Some u1" "length u1 = length uses"
    "\<forall>j<length uses. u1 ! j = (if j \<in> unat ` set (local_references s) then Some (of_nat i) else uses ! j)"
    using mark_uses_Some by blast
  from Cons.IH [of "Suc i" u1] Cons.prems u1(2) obtain u2 where
    u2: "last_uses_from (Suc i) ss u1 = Some u2" "length u2 = length uses"
      "\<forall>j<length uses. \<forall>q. u1 ! j = Some q \<and> unat q < Suc i \<longrightarrow> (\<exists>q'. u2 ! j = Some q' \<and> unat q \<le> unat q')"
      "\<forall>k<length ss. \<forall>r\<in>set (local_references (ss ! k)). \<exists>q. u2 ! unat r = Some q \<and> Suc i + k \<le> unat q" by auto
  have old: "\<exists>q'. u2 ! j = Some q' \<and> unat q \<le> unat q'" if "j < length uses" "uses ! j = Some q" "unat q < i" for j q
  proof (cases "j \<in> unat ` set (local_references s)")
    case True
    with u1(3) that(1) have "u1 ! j = Some (of_nat i)" by simp
    with u2(3) that(1) p(2) obtain q' where "u2 ! j = Some q'" "i \<le> unat q'" by fastforce
    with that(3) show ?thesis by auto
  next
    case False
    with u1(3) that have "u1 ! j = Some q" by simp
    with u2(3) that(1,3) show ?thesis by auto
  qed
  have new: "\<exists>q. u2 ! unat r = Some q \<and> i \<le> unat q" if "r \<in> set (local_references s)" for r
  proof -
    have "unat r < length uses" using Cons.prems that by (fastforce simp: refs_earlier_def)
    with u1(3) that have "u1 ! unat r = Some (of_nat i)" by auto
    with u2(3) \<open>unat r < length uses\<close> p(2) show ?thesis by fastforce
  qed
  have "\<exists>q. u2 ! unat r = Some q \<and> i + k \<le> unat q" if "k < Suc (length ss)" "r \<in> set (local_references ((s # ss) ! k))" for k r
    using that new u2(4) by (cases k) auto
  with p(1) u1 u2 old show ?case by auto
qed simp

lemma last_uses_ok:
  assumes "length ss \<le> 2 ^ 32" "steps_earlier 0 ss"
  obtains uses where "last_uses ss = Some uses" "uses_ok ss uses"
  using last_uses_from_Some [of 0 ss "replicate (length ss) None"] assms
  by (auto simp: last_uses_def uses_ok_def)

text \<open>The results that later steps still refer to are retained.\<close>

definition available :: "nat \<Rightarrow> u32 option list \<Rightarrow> checked_step option list \<Rightarrow> bool" where
  "available i uses results \<longleftrightarrow> length results = i \<and>
     (\<forall>r<i. \<forall>q. uses ! r = Some q \<and> i \<le> unat q \<longrightarrow> results ! r \<noteq> None)"

definition only_released :: "u32 \<Rightarrow> u32 option list \<Rightarrow> checked_step option list \<Rightarrow> checked_step option list \<Rightarrow> bool" where
  "only_released p uses results results' \<longleftrightarrow> length results' = length results \<and>
     (\<forall>j<length results. results' ! j = results ! j \<or> uses ! j = Some p)"

lemma only_released_trans: "only_released p uses a b \<Longrightarrow> only_released p uses b c \<Longrightarrow> only_released p uses a c"
  unfolding only_released_def by metis

lemma only_released_update: "uses ! j = Some p \<Longrightarrow> only_released p uses results (results[j := None])"
  unfolding only_released_def by (metis length_list_update nth_list_update_neq)

lemma only_released_refl [simp]: "only_released p uses results results"
  by (simp add: only_released_def)

lemma release_only: "release p uses rs results = Some results' \<Longrightarrow> only_released p uses results results'"
  by (induction p uses rs results rule: release.induct)
     (auto split: if_splits intro: only_released_trans [OF only_released_update])

lemma derive_step_only:
  "derive_step p s results uses view rem = Ok (d, results', rem') \<Longrightarrow> only_released p uses results results'"
  by (cases s) (auto simp: derive_reference_Ok derive_modus_ponens_def derive_generalization_def Let_def
      intro: only_released_update split: if_splits)

lemma release_Some:
  "\<forall>r\<in>set rs. unat r < length uses \<and> unat r < length results \<Longrightarrow> \<exists>results'. release p uses rs results = Some results'"
  by (induction p uses rs results rule: release.induct) auto

lemma available_step:
  assumes "available i uses results" "only_released p uses results results'" "unat p = i" "uses ! i \<noteq> None \<longrightarrow> e \<noteq> None"
  shows "available (Suc i) uses (results' @ [e])"
  unfolding available_def
proof (intro conjI allI impI)
  show "length (results' @ [e]) = Suc i" using assms(1,2) by (simp add: available_def only_released_def)
  fix r q assume r: "r < Suc i" and q: "uses ! r = Some q \<and> Suc i \<le> unat q"
  show "(results' @ [e]) ! r \<noteq> None"
  proof (cases "r = i")
    case True
    with assms q show ?thesis by (auto simp: available_def only_released_def nth_append)
  next
    case False
    with r have "r < i" by simp
    moreover from q assms(3) have "uses ! r \<noteq> Some p" by auto
    ultimately show ?thesis using assms(1,2) q by (auto simp: available_def only_released_def nth_append)
  qed
qed

lemma binders_le_depth: "binders a \<le> node_depth a"
  by (induction a) auto

lemma admitted_binders: "wire_admitted limit a \<Longrightarrow> binders a \<le> 256"
  using binders_le_depth [of a] by (simp add: wire_admitted_def)

lemma derive_step_precharged_iff:
  "derive_step p s results uses view rem = Ok (d, results', rem') \<Longrightarrow>
     ds_precharged_length d = None \<longleftrightarrow> ds_referenced_derivation_id d = None"
  by (cases s) (auto simp: derive_reference_Ok derive_modus_ponens_def derive_generalization_def Let_def split: if_splits)

definition ids_ok :: "nat \<Rightarrow> identity_mode \<Rightarrow> derivation_id list option \<Rightarrow> bool" where
  "ids_ok i mode ids \<longleftrightarrow>
     (case ids of None \<Rightarrow> mode = OmitDerivation | Some xs \<Rightarrow> mode = Derive \<and> length xs = i \<and> (\<forall>x\<in>set xs. key_ok x))"

context sound_context
begin

lemma primitive_formula_not_Panic [simp]: "primitive_formula p f v \<noteq> Panic"
  using expand_with_node_limit_not_Panic [of "cv_resolve_definition v"] resolve_not_Panic
  by (cases f) (auto simp: primitive_formula_def as_primitive_def as_defined_def)

lemma derive_step_not_Panic:
  assumes "step_ok s" "\<forall>f\<in>set (step_formulas s). pf_admitted FORMULA_MAX_NODES f" "all_provable results"
    "\<forall>r\<in>set (local_references s). result_at results r \<noteq> None \<and> unat r < length uses"
  shows "derive_step p s results uses v rem \<noteq> Panic"
proof -
  have b: "binders a \<le> 256" if "primitive_formula p f v = Ok a" "f \<in> set (step_formulas s)" "\<forall>f\<in>set (step_formulas s). pf_ok f" for a f
    using admitted_binders primitive_formula_Ok(2) [OF that(1)] that(2,3) assms(2) by blast
  have small: "n < 2 ^ 32" if "n \<le> 600" for n :: nat using that by simp
  show ?thesis
  proof (cases s)
    case (SimplificationStep f g)
    have "simplification a c \<noteq> None" if "primitive_formula p f v = Ok a" "primitive_formula p g v = Ok c" for a c
      using logic_axioms_Some(1) [of a c] b that SimplificationStep assms(1) small by fastforce
    with SimplificationStep show ?thesis by auto
  next
    case (FregeStep f g k)
    have "frege a c e \<noteq> None" if "primitive_formula p f v = Ok a" "primitive_formula p g v = Ok c" "primitive_formula p k v = Ok e" for a c e
      using logic_axioms_Some(2) [of a c e] b that FregeStep assms(1) small by fastforce
    with FregeStep show ?thesis by auto
  next
    case (ContrapositionStep f g)
    have "classical_contraposition a c \<noteq> None" if "primitive_formula p f v = Ok a" "primitive_formula p g v = Ok c" for a c
      using logic_axioms_Some(3) [of a c] b that ContrapositionStep assms(1) small by fastforce
    with ContrapositionStep show ?thesis by auto
  next
    case (DistributionStep x f g)
    have "universal_distribution x a c \<noteq> None" if "primitive_formula p f v = Ok a" "primitive_formula p g v = Ok c" for a c
      using logic_axioms_Some(4) [of a c x] b that DistributionStep assms(1) small by fastforce
    with DistributionStep show ?thesis by auto
  next
    case (VacuousStep f)
    then show ?thesis using b assms(1) logic_axioms_Some(5) by auto
  next
    case (InstantiationStep x y f)
    then show ?thesis using b assms(1) logic_axioms_Some(6) by auto
  next
    case (SubstitutionStep x y f)
    then show ?thesis using b assms(1) logic_axioms_Some(7) by auto
  next
    case (ZfcAxiomStep ax)
    then show ?thesis by (simp add: zfc_formula_tree)
  next
    case (SeparationStep sch)
    have "separation_formula x \<noteq> Panic" if "primitive_separation p sch v = Ok x" "length (ps_parameters sch) < 256" for x
      using that b SeparationStep assms(1)
      by (intro separation_formula_not_Panic) (fastforce simp: primitive_separation_def intro!: small)
    with SeparationStep show ?thesis by (auto simp: primitive_separation_def)
  next
    case (ReplacementStep sch)
    have "replacement_formula x \<noteq> Panic" if "primitive_replacement p sch v = Ok x" "length (pr_parameters sch) < 256" for x
      using that b ReplacementStep assms(1)
      by (intro replacement_formula_not_Panic) (fastforce simp: primitive_replacement_def intro!: small)
    with ReplacementStep show ?thesis by (auto simp: primitive_replacement_def)
  next
    case (ProofReference q)
    then show ?thesis by (auto simp: derive_reference_def header_not_Panic proof_formula_not_Panic)
  next
    case (ModusPonensStep i j)
    with assms(4) show ?thesis by (auto simp: derive_modus_ponens_def)
  next
    case (GeneralizationStep i x)
    have "generalization x (cs_formula cs) \<noteq> None" if "result_at results i = Some cs" for cs
      using for_all_Some [of "cs_formula cs" x] result_at_Some [OF that] assms(3) admitted_binders small
      by (fastforce simp: generalization_def all_provable_def)
    with assms(4) GeneralizationStep show ?thesis by (auto simp: derive_generalization_def Let_def)
  qed auto
qed

lemma derive_step_key:
  "derive_step p s results uses v rem = Ok (d, results', rem') \<Longrightarrow> ds_referenced_derivation_id d = Some i \<Longrightarrow> key_ok i"
  by (cases s) (auto simp: derive_reference_Ok derive_modus_ponens_def derive_generalization_def Let_def
      dest: header_keys split: if_splits)

lemma mode_encoding_not_Panic [simp]: "mode_encoding mode a \<noteq> Panic"
  by (cases mode) (simp_all add: mode_encoding_def encode_free_variable_normalized_not_Panic)

lemma derivation_id_of_Some:
  assumes "mode_encoding mode a = Ok bs"
  shows "\<exists>i. derivation_id_of h s bs inputs = Some i \<and> (digest_ok h \<longrightarrow> key_ok i)"
proof -
  have "length bs \<le> FORMULA_MAX_BYTES"
    using mode_encoding_Ok(1,2) [OF assms] length_wire_limit [of a] by (simp add: wire_admitted_def)
  then have "framed bs \<noteq> None" "framed FOUNDATION_ID \<noteq> None" by (simp_all add: framed_None FORMULA_MAX_BYTES_def)
  then show ?thesis by (auto simp: derivation_id_of_def)
qed

text \<open>The loop invariant: provable results, those still needed retained, and one identity per step.\<close>

definition loop_ok :: "hash \<Rightarrow> identity_mode \<Rightarrow> u32 option list \<Rightarrow> nat \<Rightarrow> check_state \<Rightarrow> bool" where
  "loop_ok h mode uses i st \<longleftrightarrow> all_provable (ck_results st) \<and> available i uses (ck_results st) \<and>
     ids_ok i mode (ck_derivation_ids st)"

lemma check_step_loop_ok:
  assumes "check_step h v mode final uses i s st = Ok st'" "step_ok s" "loop_ok h mode uses i st" "digest_ok h" "i < 2 ^ 32"
  shows "loop_ok h mode uses (Suc i) st'"
proof -
  have "all_provable (ck_results st')"
    using check_step_all_provable [OF assms(1,2)] assms(3) by (simp add: loop_ok_def)
  moreover have "available (Suc i) uses (ck_results st')"
    using assms(1)
  proof (rule check_stepE)
    fix p d results1 rem1 results2 canonical n rem2
    assume p: "u32_try_from i = Some p" and d: "derive_step p s (ck_results st) uses v (ck_remaining st) = Ok (d, results1, rem1)"
      and r: "release p uses (local_references s) results1 = Some results2"
      and st': "ck_results st' = results2 @ [if p = final \<or> uses ! i \<noteq> None
         then Some \<lparr>cs_formula = ds_formula d, cs_canonical_length = n\<rparr> else None]"
    show ?thesis
      unfolding st'
      by (rule available_step [OF _ only_released_trans [OF derive_step_only [OF d] release_only [OF r]] u32_try_from_unat [OF p]])
        (use assms(3) in \<open>simp_all add: loop_ok_def\<close>)
  qed
  moreover have "ids_ok (Suc i) mode (ck_derivation_ids st')"
  proof (cases "ck_derivation_ids st")
    case None
    from assms(1) have "ck_derivation_ids st' = None" by (rule check_stepE) (use None in blast)
    with None assms(3) show ?thesis by (simp add: loop_ok_def ids_ok_def)
  next
    case (Some ids)
    from assms(1) have "\<exists>x. ck_derivation_ids st' = Some (ids @ [x]) \<and> key_ok x"
    proof (rule check_stepE)
      fix p d results1 rem1 canonical
      assume d: "derive_step p s (ck_results st) uses v (ck_remaining st) = Ok (d, results1, rem1)"
        and c: "(ds_precharged_length d = None \<or> p = final) \<longrightarrow> (\<exists>bs. canonical = Some bs \<and> mode_encoding mode (ds_formula d) = Ok bs)"
        and ids: "\<forall>ids. ck_derivation_ids st = Some ids \<longrightarrow> (\<exists>x. ck_derivation_ids st' = Some (ids @ [x]) \<and>
           (ds_referenced_derivation_id d = Some x \<or> ds_referenced_derivation_id d = None \<and>
             (\<exists>bs inputs. canonical = Some bs \<and> derivation_id_of h s bs inputs = Some x)))"
      from ids Some obtain x where x: "ck_derivation_ids st' = Some (ids @ [x])"
        "ds_referenced_derivation_id d = Some x \<or> ds_referenced_derivation_id d = None \<and>
           (\<exists>bs inputs. canonical = Some bs \<and> derivation_id_of h s bs inputs = Some x)" by blast
      from x(2) have "key_ok x"
      proof
        assume "ds_referenced_derivation_id d = Some x"
        with derive_step_key [OF d] show ?thesis by simp
      next
        assume new: "ds_referenced_derivation_id d = None \<and>
           (\<exists>bs inputs. canonical = Some bs \<and> derivation_id_of h s bs inputs = Some x)"
        then have "ds_precharged_length d = None" using derive_step_precharged_iff [OF d] by simp
        with c new obtain bs inputs where "mode_encoding mode (ds_formula d) = Ok bs" "derivation_id_of h s bs inputs = Some x" by auto
        with derivation_id_of_Some [of mode "ds_formula d" bs h s inputs] assms(4) show ?thesis by auto
      qed
      with x(1) show ?thesis by blast
    qed
    with Some assms(3) show ?thesis by (auto simp: loop_ok_def ids_ok_def)
  qed
  ultimately show ?thesis by (simp add: loop_ok_def)
qed

lemma check_step_not_Panic:
  assumes "step_ok s" "\<forall>f\<in>set (step_formulas s). pf_admitted FORMULA_MAX_NODES f" "loop_ok h mode uses i st"
    "i < length uses" "length uses \<le> 2 ^ 32" "refs_earlier i s"
    "\<forall>r\<in>set (local_references s). \<exists>q. uses ! unat r = Some q \<and> i \<le> unat q"
  shows "check_step h v mode final uses i s st \<noteq> Panic"
proof
  assume panic: "check_step h v mode final uses i s st = Panic"
  have p: "u32_try_from i = Some (of_nat i)" using assms(4,5) by (simp add: u32_try_from_Some)
  have refs: "\<forall>r\<in>set (local_references s). result_at (ck_results st) r \<noteq> None \<and> unat r < length uses \<and> unat r < i"
    using assms(3,4,6,7) by (fastforce simp: refs_earlier_def result_at_def loop_ok_def available_def element_at_def)
  have "derive_step (of_nat i) s (ck_results st) uses v (ck_remaining st) \<noteq> Panic"
    using assms(1-3) refs by (intro derive_step_not_Panic) (auto simp: loop_ok_def)
  moreover have "step_inputs s (ck_derivation_ids st) \<noteq> None"
    using assms(3) refs by (auto simp: step_inputs_def derivation_inputs_def loop_ok_def ids_ok_def split: option.splits)
  ultimately obtain d results1 rem1 ids where d: "derive_step (of_nat i) s (ck_results st) uses v (ck_remaining st) = Ok (d, results1, rem1)"
    and ids: "step_inputs s (ck_derivation_ids st) = Some ids"
    using panic p by (auto simp: check_step_def)
  have "length results1 = i"
    using derive_step_only [OF d] assms(3) by (simp add: only_released_def loop_ok_def available_def)
  with refs obtain results2 where r: "release (of_nat i) uses (local_references s) results1 = Some results2"
    using release_Some [of "local_references s" uses results1] by fastforce
  have charge: "step_charge (of_nat i) d canonical rem1 \<noteq> Panic" if "step_encoding mode final (of_nat i) d = Ok canonical" for canonical
    using that by (auto simp: step_charge_def step_encoding_def split: option.splits if_splits)
  have ids_next: "next_derivation_ids h s d canonical ids \<noteq> None" if "step_encoding mode final (of_nat i) d = Ok canonical" for canonical
  proof (cases "ds_referenced_derivation_id d")
    case None
    then have "ds_precharged_length d = None" using derive_step_precharged_iff [OF d] by simp
    with that obtain bs where "canonical = Some bs" "mode_encoding mode (ds_formula d) = Ok bs" by (auto simp: step_encoding_def)
    with derivation_id_of_Some None show ?thesis
      by (fastforce simp: next_derivation_ids_def split: option.splits)
  qed (simp add: next_derivation_ids_def split: option.splits)
  have "step_encoding mode final (of_nat i) d \<noteq> Panic" by (simp add: step_encoding_def)
  with panic p d ids r charge ids_next assms(4) show False by (auto simp: check_step_def Let_def)
qed

lemma check_steps_not_Panic:
  "loop_ok h mode uses i st \<Longrightarrow> digest_ok h \<Longrightarrow> \<forall>s\<in>set ss. step_ok s \<and> (\<forall>f\<in>set (step_formulas s). pf_admitted FORMULA_MAX_NODES f) \<Longrightarrow>
     i + length ss \<le> length uses \<Longrightarrow> length uses < 2 ^ 32 \<Longrightarrow> steps_earlier i ss \<Longrightarrow>
     \<forall>k<length ss. \<forall>r\<in>set (local_references (ss ! k)). \<exists>q. uses ! unat r = Some q \<and> i + k \<le> unat q \<Longrightarrow>
     check_steps h v mode final uses i ss st \<noteq> Panic \<and>
     (\<forall>st'. check_steps h v mode final uses i ss st = Ok st' \<longrightarrow> loop_ok h mode uses (i + length ss) st')"
proof (induction ss arbitrary: i st)
  case (Cons s ss)
  have now: "check_step h v mode final uses i s st \<noteq> Panic"
    using Cons.prems by (intro check_step_not_Panic) (auto dest: spec [of _ 0])
  have later: "check_steps h v mode final uses (Suc i) ss st1 \<noteq> Panic \<and>
      (\<forall>st'. check_steps h v mode final uses (Suc i) ss st1 = Ok st' \<longrightarrow> loop_ok h mode uses (Suc i + length ss) st')"
    if "check_step h v mode final uses i s st = Ok st1" for st1
  proof (rule Cons.IH)
    show "loop_ok h mode uses (Suc i) st1"
      using that Cons.prems by (intro check_step_loop_ok) auto
    show "\<forall>k<length ss. \<forall>r\<in>set (local_references (ss ! k)). \<exists>q. uses ! unat r = Some q \<and> Suc i + k \<le> unat q"
      using Cons.prems(7) by fastforce
  qed (use Cons.prems in auto)
  from now later show ?case by auto
qed simp

lemma check_not_Panic:
  assumes "cert_ok cert" "digest_ok h"
  shows "check_with_canonical_conclusion h cert v mode \<noteq> Panic"
    and "check_with_canonical_conclusion h cert v mode = Ok (a, bs, d) \<Longrightarrow>
      (case mode of OmitDerivation \<Rightarrow> d = None | Derive \<Rightarrow> \<exists>i. d = Some i \<and> key_ok i)"
proof -
  let ?ss = "cert_steps cert"
  have ss: "?ss \<noteq> []" "length ?ss \<le> 65536" "steps_earlier 0 ?ss" "\<forall>s\<in>set ?ss. step_ok s"
    "\<forall>s\<in>set ?ss. \<forall>f\<in>set (step_formulas s). pf_admitted FORMULA_MAX_NODES f"
    using assms(1) by (auto simp: cert_ok_def steps_encodable_def formulas_fit_def all_formulas_def)
  obtain uses where uses: "last_uses ?ss = Some uses" "uses_ok ?ss uses"
    using last_uses_ok [of ?ss] ss(2,3) by auto
  have final: "u32_try_from (length ?ss - 1) = Some (of_nat (length ?ss - 1))" using ss(2) by (simp add: u32_try_from_Some)
  let ?final = "of_nat (length ?ss - 1) :: u32"
  have start: "loop_ok h mode uses 0 (check_start mode)"
    by (cases mode) (simp_all add: loop_ok_def check_start_def all_provable_def available_def ids_ok_def)
  have run: "check_steps h v mode ?final uses 0 ?ss (check_start mode) \<noteq> Panic"
    "check_steps h v mode ?final uses 0 ?ss (check_start mode) = Ok st \<Longrightarrow> loop_ok h mode uses (length ?ss) st" for st
    using check_steps_not_Panic [OF start assms(2), of ?ss ?final] ss uses(2) by (auto simp: uses_ok_def)
  show "check_with_canonical_conclusion h cert v mode \<noteq> Panic"
  proof
    assume panic: "check_with_canonical_conclusion h cert v mode = Panic"
    then obtain st where st: "check_steps h v mode ?final uses 0 ?ss (check_start mode) = Ok st"
      using run(1) final uses(1) ss(1) by (auto simp: check_with_canonical_conclusion_def Let_def)
    obtain b n bs where "ck_results st \<noteq> []" "last (ck_results st) = Some \<lparr>cs_formula = b, cs_canonical_length = n\<rparr>"
      "ck_conclusion st = Some bs" using st ss(1) final by (rule check_steps_conclusion)
    with panic st final uses(1) ss(1) show False
      by (auto simp: check_with_canonical_conclusion_def Let_def split: if_splits)
  qed
  assume ok: "check_with_canonical_conclusion h cert v mode = Ok (a, bs, d)"
  then obtain st where st: "check_steps h v mode ?final uses 0 ?ss (check_start mode) = Ok st"
    and d: "d = Option.bind (ck_derivation_ids st) (\<lambda>ids. if ids = [] then None else Some (last ids))"
    using final uses(1) ss(1) by (auto simp: check_with_canonical_conclusion_def Let_def split: if_splits)
  from run(2) [OF st] ss(1) show "case mode of OmitDerivation \<Rightarrow> d = None | Derive \<Rightarrow> \<exists>i. d = Some i \<and> key_ok i"
    by (cases "ck_derivation_ids st") (auto simp: loop_ok_def ids_ok_def d)
qed

end

end
