(* ===== verification/Normal_Form.thy ===== *)
theory Normal_Form
  imports Certificate_Codec
begin

text \<open>
  The root-proof normal form of a certificate, \<open>naome-proof/src/normal_form.rs\<close> and the type
  \<open>ProofNormalForm\<close> of \<open>naome-proof/src/lib.rs\<close>: a depth-first traversal from the last step over an explicit
  stack drops the unreachable steps, merges equal ones, renumbers the free variables by first occurrence
  and emits the steps dependency first. \<open>None\<close> stands for a panic or a loop that does not return; that a
  structurally valid certificate always has a normal form is proved. The cache of the canonical bytes is left out:
  it holds what \<open>to_canonical_bytes\<close> returns.
\<close>

section \<open>State and option together\<close>

definition run_then :: "('s \<Rightarrow> ('a \<times> 's) option) \<Rightarrow> ('a \<Rightarrow> 's \<Rightarrow> ('b \<times> 's) option) \<Rightarrow> 's \<Rightarrow> ('b \<times> 's) option" where
  "run_then m f s = Option.bind (m s) (\<lambda>(x, s'). f x s')"

definition run_return :: "'a \<Rightarrow> 's \<Rightarrow> ('a \<times> 's) option" where
  "run_return x s = Some (x, s)"

definition run_lift :: "'a option \<Rightarrow> 's \<Rightarrow> ('a \<times> 's) option" where
  "run_lift m s = map_option (\<lambda>x. (x, s)) m"

primrec run_list :: "('a \<Rightarrow> 's \<Rightarrow> ('b \<times> 's) option) \<Rightarrow> 'a list \<Rightarrow> 's \<Rightarrow> ('b list \<times> 's) option" where
  "run_list f [] = run_return []"
| "run_list f (x # xs) = run_then (f x) (\<lambda>y. run_then (run_list f xs) (\<lambda>ys. run_return (y # ys)))"

section \<open>Renumbering variables\<close>

record variable_normalizer =
  vn_normalized :: "free_variable \<rightharpoonup> free_variable"
  vn_next_identifier :: u32

definition vn_default :: variable_normalizer where
  "vn_default = \<lparr>vn_normalized = Map.empty, vn_next_identifier = 0\<rparr>"

definition vn_variable :: "free_variable \<Rightarrow> variable_normalizer \<Rightarrow> (free_variable \<times> variable_normalizer) option" where
  "vn_variable v vn =
     (case vn_normalized vn v of
        Some w \<Rightarrow> Some (w, vn)
      | None \<Rightarrow>
          map_option (\<lambda>following. (vn_next_identifier vn,
              \<lparr>vn_normalized = (vn_normalized vn)(v \<mapsto> vn_next_identifier vn), vn_next_identifier = following\<rparr>))
            (checked_add (vn_next_identifier vn) 1))"

primrec d_map_free_variables_mut ::
  "(free_variable \<Rightarrow> 's \<Rightarrow> (free_variable \<times> 's) option) \<Rightarrow> dnode \<Rightarrow> 's \<Rightarrow> (dnode \<times> 's) option" where
  "d_map_free_variables_mut f (DEqual left right) =
     run_then (map_free_variable_mut f left) (\<lambda>l. run_then (map_free_variable_mut f right) (\<lambda>r. run_return (DEqual l r)))"
| "d_map_free_variables_mut f (DMember left right) =
     run_then (map_free_variable_mut f left) (\<lambda>l. run_then (map_free_variable_mut f right) (\<lambda>r. run_return (DMember l r)))"
| "d_map_free_variables_mut f (DRelation definition_id arguments) =
     run_then (run_list (map_free_variable_mut f) arguments) (\<lambda>vs. run_return (DRelation definition_id vs))"
| "d_map_free_variables_mut f (DNot formula) =
     run_then (d_map_free_variables_mut f formula) (\<lambda>g. run_return (DNot g))"
| "d_map_free_variables_mut f (DForAll formula) =
     run_then (d_map_free_variables_mut f formula) (\<lambda>g. run_return (DForAll g))"
| "d_map_free_variables_mut f (DImplies antecedent consequent) =
     run_then (d_map_free_variables_mut f antecedent) (\<lambda>a.
       run_then (d_map_free_variables_mut f consequent) (\<lambda>c. run_return (DImplies a c)))"

primrec pf_map_free_variables_mut ::
  "(free_variable \<Rightarrow> 's \<Rightarrow> (free_variable \<times> 's) option) \<Rightarrow> proof_formula \<Rightarrow> 's \<Rightarrow> (proof_formula \<times> 's) option" where
  "pf_map_free_variables_mut f (Primitive formula) =
     run_then (map_free_variables_mut f formula) (\<lambda>g. run_return (Primitive g))"
| "pf_map_free_variables_mut f (Defined formula) =
     run_then (d_map_free_variables_mut f formula) (\<lambda>g. run_return (Defined g))"

definition vn_formula :: "proof_formula \<Rightarrow> variable_normalizer \<Rightarrow> (proof_formula \<times> variable_normalizer) option" where
  "vn_formula = pf_map_free_variables_mut vn_variable"

definition vn_variables :: "free_variable list \<Rightarrow> variable_normalizer \<Rightarrow> (free_variable list \<times> variable_normalizer) option" where
  "vn_variables = run_list vn_variable"

section \<open>One step\<close>

definition UNNORMALIZED_STEP :: u32 where "UNNORMALIZED_STEP = 0xFFFFFFFF"

definition normalized_reference :: "u32 \<Rightarrow> u32 list \<Rightarrow> u32 option" where
  "normalized_reference reference normalized_indices =
     Option.bind (element_at normalized_indices (unat reference)) (\<lambda>normalized.
       if normalized = UNNORMALIZED_STEP then None else Some normalized)"

primrec normalize_step ::
  "proof_step \<Rightarrow> u32 list \<Rightarrow> variable_normalizer \<Rightarrow> (proof_step \<times> variable_normalizer) option" where
  "normalize_step (SimplificationStep antecedent consequent) indices =
     run_then (vn_formula antecedent) (\<lambda>a. run_then (vn_formula consequent) (\<lambda>b. run_return (SimplificationStep a b)))"
| "normalize_step (FregeStep first second third) indices =
     run_then (vn_formula first) (\<lambda>a. run_then (vn_formula second) (\<lambda>b. run_then (vn_formula third) (\<lambda>c.
       run_return (FregeStep a b c))))"
| "normalize_step (ContrapositionStep antecedent consequent) indices =
     run_then (vn_formula antecedent) (\<lambda>a. run_then (vn_formula consequent) (\<lambda>b. run_return (ContrapositionStep a b)))"
| "normalize_step (DistributionStep variable antecedent consequent) indices =
     run_then (vn_variable variable) (\<lambda>v. run_then (vn_formula antecedent) (\<lambda>a. run_then (vn_formula consequent) (\<lambda>b.
       run_return (DistributionStep v a b))))"
| "normalize_step (VacuousStep formula) indices =
     run_then (vn_formula formula) (\<lambda>a. run_return (VacuousStep a))"
| "normalize_step (InstantiationStep variable replacement_variable body) indices =
     run_then (vn_variable variable) (\<lambda>v. run_then (vn_variable replacement_variable) (\<lambda>w. run_then (vn_formula body) (\<lambda>a.
       run_return (InstantiationStep v w a))))"
| "normalize_step (ReflexivityStep variable) indices =
     run_then (vn_variable variable) (\<lambda>v. run_return (ReflexivityStep v))"
| "normalize_step (SubstitutionStep from to body) indices =
     run_then (vn_variable from) (\<lambda>v. run_then (vn_variable to) (\<lambda>w. run_then (vn_formula body) (\<lambda>a.
       run_return (SubstitutionStep v w a))))"
| "normalize_step (ZfcAxiomStep axiom) indices = run_return (ZfcAxiomStep axiom)"
| "normalize_step (SeparationStep instance) indices =
     run_then (vn_formula (ps_predicate instance)) (\<lambda>predicate.
     run_then (vn_variable (ps_element instance)) (\<lambda>element.
     run_then (vn_variable (ps_source instance)) (\<lambda>source.
     run_then (vn_variable (ps_result instance)) (\<lambda>result.
     run_then (vn_variables (ps_parameters instance)) (\<lambda>parameters.
       run_return (SeparationStep \<lparr>ps_predicate = predicate, ps_element = element, ps_source = source,
         ps_result = result, ps_parameters = parameters\<rparr>))))))"
| "normalize_step (ReplacementStep instance) indices =
     run_then (vn_formula (pr_predicate instance)) (\<lambda>predicate.
     run_then (vn_variable (pr_input instance)) (\<lambda>input.
     run_then (vn_variable (pr_output instance)) (\<lambda>output.
     run_then (vn_variable (pr_uniqueness_witness instance)) (\<lambda>uniqueness_witness.
     run_then (vn_variable (pr_source instance)) (\<lambda>source.
     run_then (vn_variable (pr_result instance)) (\<lambda>result.
     run_then (vn_variables (pr_parameters instance)) (\<lambda>parameters.
       run_return (ReplacementStep \<lparr>pr_predicate = predicate, pr_input = input, pr_output = output,
         pr_uniqueness_witness = uniqueness_witness, pr_source = source, pr_result = result,
         pr_parameters = parameters\<rparr>))))))))"
| "normalize_step (ProofReference proof_id) indices = run_return (ProofReference proof_id)"
| "normalize_step (ModusPonensStep premise implication) indices =
     run_then (run_lift (normalized_reference premise indices)) (\<lambda>p.
     run_then (run_lift (normalized_reference implication indices)) (\<lambda>i. run_return (ModusPonensStep p i)))"
| "normalize_step (GeneralizationStep premise variable) indices =
     run_then (run_lift (normalized_reference premise indices)) (\<lambda>p.
     run_then (vn_variable variable) (\<lambda>v. run_return (GeneralizationStep p v)))"

section \<open>The traversal\<close>

datatype visit = Enter nat | Exit nat

record normalizer =
  nz_source :: "proof_step option list"
  nz_indices :: "u32 list"
  nz_steps :: "proof_step list"
  nz_interned :: "bytes \<rightharpoonup> u32"
  nz_variables :: variable_normalizer

definition encode_step :: "proof_step \<Rightarrow> (proof_certificate_error, bytes) outcome" where
  "encode_step step =
     map_ok fst (encode_step_with_formula_budget vec_sink step ([], CERTIFICATE_MAX_FORMULA_NODES))"

definition intern_step :: "nat \<Rightarrow> bytes \<Rightarrow> proof_step \<Rightarrow> normalizer \<Rightarrow> normalizer option" where
  "intern_step position key step st =
     (case nz_interned st key of
        Some normalized \<Rightarrow> Some (st\<lparr>nz_indices := (nz_indices st)[position := normalized]\<rparr>)
      | None \<Rightarrow>
          map_option (\<lambda>index. st\<lparr>nz_indices := (nz_indices st)[position := index], nz_steps := nz_steps st @ [step],
              nz_interned := (nz_interned st)(key \<mapsto> index)\<rparr>)
            (u32_try_from (length (nz_steps st))))"

definition exit_step :: "nat \<Rightarrow> normalizer \<Rightarrow> normalizer option" where
  "exit_step position st =
     Option.bind (element_at (nz_source st) position) (\<lambda>taken.
     Option.bind taken (\<lambda>step.
     Option.bind (normalize_step step (nz_indices st) (nz_variables st)) (\<lambda>(step, variables).
     Option.bind (unwrap (encode_step step)) (\<lambda>key.
       intern_step position key step (st\<lparr>nz_source := (nz_source st)[position := None], nz_variables := variables\<rparr>)))))"

primrec visit_position :: "visit \<Rightarrow> nat" where
  "visit_position (Enter p) = p"
| "visit_position (Exit p) = p"

definition normalize_visit :: "visit \<Rightarrow> visit list \<Rightarrow> normalizer \<Rightarrow> (visit list \<times> normalizer) option" where
  "normalize_visit visit traversal st =
     Option.bind (element_at (nz_indices st) (visit_position visit)) (\<lambda>index.
       if index \<noteq> UNNORMALIZED_STEP then Some (traversal, st)
       else case visit of
         Enter position \<Rightarrow>
           Option.bind (element_at (nz_source st) position) (\<lambda>source.
             map_option (\<lambda>step. (map (\<lambda>r. Enter (unat r)) (local_references step) @ Exit position # traversal, st)) source)
       | Exit position \<Rightarrow> map_option (\<lambda>st. (traversal, st)) (exit_step position st))"

partial_function (option) normalize_loop :: "visit list \<Rightarrow> normalizer \<Rightarrow> normalizer option" where
  "normalize_loop traversal st =
     (case traversal of
        [] \<Rightarrow> Some st
      | visit # traversal \<Rightarrow>
          Option.bind (normalize_visit visit traversal st) (\<lambda>next. normalize_loop (fst next) (snd next)))"

definition normalizer_new :: "proof_step list \<Rightarrow> normalizer" where
  "normalizer_new steps =
     \<lparr>nz_source = map Some steps, nz_indices = replicate (length steps) UNNORMALIZED_STEP, nz_steps = [],
      nz_interned = Map.empty, nz_variables = vn_default\<rparr>"

definition normalize_with_step_origins ::
  "proof_certificate \<Rightarrow> (proof_certificate \<times> u32 list \<times> (free_variable \<rightharpoonup> free_variable)) option" where
  "normalize_with_step_origins certificate =
     (let steps = cert_steps certificate
      in if steps = [] then None
         else map_option (\<lambda>st. (\<lparr>cert_steps = nz_steps st\<rparr>, nz_indices st, vn_normalized (nz_variables st)))
           (normalize_loop [Enter (length steps - 1)] (normalizer_new steps)))"

definition normalize :: "proof_certificate \<Rightarrow> proof_certificate option" where
  "normalize certificate = map_option fst (normalize_with_step_origins certificate)"

record proof_normal_form =
  nf_certificate :: proof_certificate

definition into_unchecked_normal_form :: "proof_certificate \<Rightarrow> proof_normal_form option" where
  "into_unchecked_normal_form certificate = map_option (\<lambda>c. \<lparr>nf_certificate = c\<rparr>) (normalize certificate)"

definition nf_canonical_bytes :: "proof_normal_form \<Rightarrow> bytes option" where
  "nf_canonical_bytes nf = to_canonical_bytes (nf_certificate nf)"

definition with_matching_canonical_bytes :: "proof_normal_form \<Rightarrow> bytes \<Rightarrow> proof_normal_form option option" where
  "with_matching_canonical_bytes nf canonical_bytes =
     map_option (\<lambda>matches. if matches then Some nf else None)
       (steps_match_encoding (cert_steps (nf_certificate nf)) canonical_bytes)"

text \<open>Provenance of the steps: \<open>ProofStepOrigins::source_step\<close> and \<open>source_steps\<close> on the index vector.\<close>

fun position_of :: "u32 \<Rightarrow> u32 list \<Rightarrow> nat \<Rightarrow> nat option" where
  "position_of normalized [] position = None"
| "position_of normalized (candidate # candidates) position =
     (if candidate = normalized then Some position else position_of normalized candidates (Suc position))"

definition source_step :: "u32 list \<Rightarrow> u32 \<Rightarrow> u32 option option" where
  "source_step source_to_normalized normalized =
     (if normalized = UNNORMALIZED_STEP then Some None
      else case position_of normalized source_to_normalized 0 of
        None \<Rightarrow> Some None
      | Some source \<Rightarrow> map_option Some (u32_try_from source))"

definition source_steps :: "u32 list \<Rightarrow> u32 \<Rightarrow> u32 list" where
  "source_steps source_to_normalized normalized =
     map (\<lambda>(source, _). of_nat source)
       (filter (\<lambda>(_, index). index = normalized \<and> normalized \<noteq> UNNORMALIZED_STEP)
         (zip [0..<length source_to_normalized] source_to_normalized))"

section \<open>What renumbering computes\<close>

text \<open>The renumbering after a list of occurrences, and what it means that an operation visits them in order.\<close>

definition see_variable :: "free_variable \<Rightarrow> variable_normalizer \<Rightarrow> variable_normalizer" where
  "see_variable v vn =
     (case vn_normalized vn v of
        Some w \<Rightarrow> vn
      | None \<Rightarrow> \<lparr>vn_normalized = (vn_normalized vn)(v \<mapsto> vn_next_identifier vn), vn_next_identifier = vn_next_identifier vn + 1\<rparr>)"

definition see :: "free_variable list \<Rightarrow> variable_normalizer \<Rightarrow> variable_normalizer" where
  "see vs vn = fold see_variable vs vn"

definition vn_apply :: "variable_normalizer \<Rightarrow> free_variable \<Rightarrow> free_variable" where
  "vn_apply vn v = the (vn_normalized vn v)"

lemma see_simps [simp]: "see [] vn = vn" "see (vs @ ws) vn = see ws (see vs vn)" "see (v # vs) vn = see vs (see_variable v vn)"
  by (simp_all add: see_def)

lemma see_variable_dom [simp]: "dom (vn_normalized (see_variable v vn)) = insert v (dom (vn_normalized vn))"
  by (auto simp: see_variable_def split: option.splits)

lemma see_dom [simp]: "dom (vn_normalized (see vs vn)) = set vs \<union> dom (vn_normalized vn)"
  by (induction vs arbitrary: vn) auto

lemma see_variable_extends: "vn_normalized vn \<subseteq>\<^sub>m vn_normalized (see_variable v vn)"
  by (auto simp: see_variable_def map_le_def split: option.splits)

lemma see_extends: "vn_normalized vn \<subseteq>\<^sub>m vn_normalized (see vs vn)"
proof (induction vs arbitrary: vn)
  case (Cons v vs)
  show ?case using map_le_trans [OF see_variable_extends Cons] by simp
qed simp

lemma see_variable_next:
  "unat (vn_next_identifier vn) + 1 < 2 ^ 32 \<Longrightarrow> unat (vn_next_identifier (see_variable v vn)) \<le> unat (vn_next_identifier vn) + 1"
  using unat_u32_of_nat [of "unat (vn_next_identifier vn) + 1"]
  by (auto simp: see_variable_def add.commute split: option.splits)

lemma see_next:
  "unat (vn_next_identifier vn) + length vs < 2 ^ 32 \<Longrightarrow> unat (vn_next_identifier (see vs vn)) \<le> unat (vn_next_identifier vn) + length vs"
proof (induction vs arbitrary: vn)
  case (Cons v vs)
  then have *: "unat (vn_next_identifier (see_variable v vn)) \<le> unat (vn_next_identifier vn) + 1" by (intro see_variable_next) simp
  then have "unat (vn_next_identifier (see vs (see_variable v vn))) \<le> unat (vn_next_identifier (see_variable v vn)) + length vs"
    using Cons.prems by (intro Cons.IH) simp
  with * show ?case by simp
qed simp

lemma vn_apply_stable: "v \<in> dom (vn_normalized vn) \<Longrightarrow> vn_normalized vn \<subseteq>\<^sub>m vn_normalized vn' \<Longrightarrow> vn_apply vn' v = vn_apply vn v"
  by (simp add: vn_apply_def map_le_def)

definition runs :: "free_variable list \<Rightarrow> ((free_variable \<Rightarrow> free_variable) \<Rightarrow> 'a) \<Rightarrow>
    (variable_normalizer \<Rightarrow> ('a \<times> variable_normalizer) option) \<Rightarrow> bool" where
  "runs vs g op \<longleftrightarrow> (\<forall>\<rho> \<rho>'. (\<forall>v\<in>set vs. \<rho> v = \<rho>' v) \<longrightarrow> g \<rho> = g \<rho>') \<and>
     (\<forall>vn. unat (vn_next_identifier vn) + length vs < 2 ^ 32 \<longrightarrow> op vn = Some (g (vn_apply (see vs vn)), see vs vn))"

lemma runsD: "runs vs g op \<Longrightarrow> unat (vn_next_identifier vn) + length vs < 2 ^ 32 \<Longrightarrow> op vn = Some (g (vn_apply (see vs vn)), see vs vn)"
  by (simp add: runs_def)

lemma runs_cong: "runs vs g op \<Longrightarrow> vs = vs' \<Longrightarrow> (\<And>\<rho>. g \<rho> = g' \<rho>) \<Longrightarrow> runs vs' g' op"
  by (simp add: runs_def)

lemma runs_return: "runs [] (\<lambda>_. x) (run_return x)"
  by (simp add: runs_def run_return_def)

lemma runs_lift: "m = Some x \<Longrightarrow> runs [] (\<lambda>_. x) (run_lift m)"
  by (simp add: runs_def run_lift_def)

lemma runs_then:
  assumes "runs vs g m" "\<And>x. runs ws (g' x) (f x)"
  shows "runs (vs @ ws) (\<lambda>\<rho>. g' (g \<rho>) \<rho>) (run_then m f)"
  unfolding runs_def
proof (intro conjI allI impI)
  fix \<rho> \<rho>' :: "free_variable \<Rightarrow> free_variable" assume *: "\<forall>v\<in>set (vs @ ws). \<rho> v = \<rho>' v"
  then have "g \<rho> = g \<rho>'" using assms(1) unfolding runs_def by (metis UnCI set_append)
  moreover have "g' x \<rho> = g' x \<rho>'" for x using assms(2) * unfolding runs_def by (metis UnCI set_append)
  ultimately show "g' (g \<rho>) \<rho> = g' (g \<rho>') \<rho>'" by simp
next
  fix vn :: variable_normalizer assume n: "unat (vn_next_identifier vn) + length (vs @ ws) < 2 ^ 32"
  let ?vn = "see vs vn"
  have "m vn = Some (g (vn_apply ?vn), ?vn)" using n by (intro runsD [OF assms(1)]) simp
  moreover have "f x ?vn = Some (g' x (vn_apply (see ws ?vn)), see ws ?vn)" for x
    using n see_next [of vn vs] by (intro runsD [OF assms(2)]) simp
  moreover have "\<forall>v\<in>set vs. vn_apply (see ws ?vn) v = vn_apply ?vn v"
    using see_extends by (intro ballI vn_apply_stable) auto
  then have "g (vn_apply (see ws ?vn)) = g (vn_apply ?vn)" using assms(1) by (simp add: runs_def)
  ultimately show "run_then m f vn = Some (g' (g (vn_apply (see (vs @ ws) vn))) (vn_apply (see (vs @ ws) vn)), see (vs @ ws) vn)"
    by (simp add: run_then_def)
qed

lemma runs_list:
  assumes "\<And>x. x \<in> set xs \<Longrightarrow> runs (k x) (\<lambda>\<rho>. g \<rho> x) (f x)"
  shows "runs (concat (map k xs)) (\<lambda>\<rho>. map (g \<rho>) xs) (run_list f xs)"
  using assms
proof (induction xs)
  case Nil
  show ?case by (simp add: runs_return)
next
  case (Cons x xs)
  have "runs (k x @ concat (map k xs) @ []) (\<lambda>\<rho>. g \<rho> x # map (g \<rho>) xs) (run_list f (x # xs))"
    unfolding run_list.simps by (rule runs_then, rule Cons.prems, simp, rule runs_then, rule Cons.IH, rule Cons.prems, simp, rule runs_return)
  then show ?case by (simp add: runs_cong)
qed

lemma runs_variable: "runs [v] (\<lambda>\<rho>. \<rho> v) (vn_variable v)"
proof -
  have "vn_variable v vn = Some (vn_apply (see_variable v vn) v, see_variable v vn)" if "unat (vn_next_identifier vn) + 1 < 2 ^ 32" for vn
    using that by (auto simp: vn_variable_def see_variable_def vn_apply_def checked_add_Some split: option.splits)
  then show ?thesis by (simp add: runs_def)
qed

lemma runs_variables: "runs vs (\<lambda>\<rho>. map \<rho> vs) (vn_variables vs)"
  using runs_list [of vs "\<lambda>v. [v]" "\<lambda>\<rho>. \<rho>" vn_variable] by (simp add: runs_variable vn_variables_def)

section \<open>Occurrences of variables\<close>

primrec variable_occurrences :: "variable \<Rightarrow> free_variable list" where
  "variable_occurrences (Free v) = [v]"
| "variable_occurrences (Bound i) = []"

primrec occurrences :: "node \<Rightarrow> free_variable list" where
  "occurrences (FEqual l r) = variable_occurrences l @ variable_occurrences r"
| "occurrences (FMember l r) = variable_occurrences l @ variable_occurrences r"
| "occurrences (FNot a) = occurrences a"
| "occurrences (FImplies a b) = occurrences a @ occurrences b"
| "occurrences (FForAll a) = occurrences a"

primrec d_occurrences :: "dnode \<Rightarrow> free_variable list" where
  "d_occurrences (DEqual l r) = variable_occurrences l @ variable_occurrences r"
| "d_occurrences (DMember l r) = variable_occurrences l @ variable_occurrences r"
| "d_occurrences (DRelation i vs) = concat (map variable_occurrences vs)"
| "d_occurrences (DNot a) = d_occurrences a"
| "d_occurrences (DForAll a) = d_occurrences a"
| "d_occurrences (DImplies a b) = d_occurrences a @ d_occurrences b"

primrec pf_occurrences :: "proof_formula \<Rightarrow> free_variable list" where
  "pf_occurrences (Primitive a) = occurrences a"
| "pf_occurrences (Defined d) = d_occurrences d"

primrec step_occurrences :: "proof_step \<Rightarrow> free_variable list" where
  "step_occurrences (SimplificationStep a b) = pf_occurrences a @ pf_occurrences b"
| "step_occurrences (FregeStep a b c) = pf_occurrences a @ pf_occurrences b @ pf_occurrences c"
| "step_occurrences (ContrapositionStep a b) = pf_occurrences a @ pf_occurrences b"
| "step_occurrences (DistributionStep v a b) = v # pf_occurrences a @ pf_occurrences b"
| "step_occurrences (VacuousStep a) = pf_occurrences a"
| "step_occurrences (InstantiationStep v w a) = v # w # pf_occurrences a"
| "step_occurrences (ReflexivityStep v) = [v]"
| "step_occurrences (SubstitutionStep v w a) = v # w # pf_occurrences a"
| "step_occurrences (ZfcAxiomStep ax) = []"
| "step_occurrences (SeparationStep s) = pf_occurrences (ps_predicate s) @ [ps_element s, ps_source s, ps_result s] @ ps_parameters s"
| "step_occurrences (ReplacementStep s) = pf_occurrences (pr_predicate s) @
     [pr_input s, pr_output s, pr_uniqueness_witness s, pr_source s, pr_result s] @ pr_parameters s"
| "step_occurrences (ProofReference i) = []"
| "step_occurrences (ModusPonensStep p i) = []"
| "step_occurrences (GeneralizationStep p v) = [v]"

text \<open>A step with its variables renamed and its references redirected.\<close>

primrec rename_step :: "(free_variable \<Rightarrow> free_variable) \<Rightarrow> (u32 \<Rightarrow> u32) \<Rightarrow> proof_step \<Rightarrow> proof_step" where
  "rename_step \<rho> ix (SimplificationStep a b) = SimplificationStep (pf_map_free_variables \<rho> a) (pf_map_free_variables \<rho> b)"
| "rename_step \<rho> ix (FregeStep a b c) =
     FregeStep (pf_map_free_variables \<rho> a) (pf_map_free_variables \<rho> b) (pf_map_free_variables \<rho> c)"
| "rename_step \<rho> ix (ContrapositionStep a b) = ContrapositionStep (pf_map_free_variables \<rho> a) (pf_map_free_variables \<rho> b)"
| "rename_step \<rho> ix (DistributionStep v a b) = DistributionStep (\<rho> v) (pf_map_free_variables \<rho> a) (pf_map_free_variables \<rho> b)"
| "rename_step \<rho> ix (VacuousStep a) = VacuousStep (pf_map_free_variables \<rho> a)"
| "rename_step \<rho> ix (InstantiationStep v w a) = InstantiationStep (\<rho> v) (\<rho> w) (pf_map_free_variables \<rho> a)"
| "rename_step \<rho> ix (ReflexivityStep v) = ReflexivityStep (\<rho> v)"
| "rename_step \<rho> ix (SubstitutionStep v w a) = SubstitutionStep (\<rho> v) (\<rho> w) (pf_map_free_variables \<rho> a)"
| "rename_step \<rho> ix (ZfcAxiomStep ax) = ZfcAxiomStep ax"
| "rename_step \<rho> ix (SeparationStep s) = SeparationStep \<lparr>ps_predicate = pf_map_free_variables \<rho> (ps_predicate s),
     ps_element = \<rho> (ps_element s), ps_source = \<rho> (ps_source s), ps_result = \<rho> (ps_result s), ps_parameters = map \<rho> (ps_parameters s)\<rparr>"
| "rename_step \<rho> ix (ReplacementStep s) = ReplacementStep \<lparr>pr_predicate = pf_map_free_variables \<rho> (pr_predicate s),
     pr_input = \<rho> (pr_input s), pr_output = \<rho> (pr_output s), pr_uniqueness_witness = \<rho> (pr_uniqueness_witness s),
     pr_source = \<rho> (pr_source s), pr_result = \<rho> (pr_result s), pr_parameters = map \<rho> (pr_parameters s)\<rparr>"
| "rename_step \<rho> ix (ProofReference i) = ProofReference i"
| "rename_step \<rho> ix (ModusPonensStep p i) = ModusPonensStep (ix p) (ix i)"
| "rename_step \<rho> ix (GeneralizationStep p v) = GeneralizationStep (ix p) (\<rho> v)"

lemma runs_free_variable: "runs (variable_occurrences v) (\<lambda>\<rho>. map_free_variable \<rho> v) (map_free_variable_mut vn_variable v)"
proof (cases v)
  case (Free w)
  have "map_free_variable_mut vn_variable v = run_then (vn_variable w) (\<lambda>x. run_return (Free x))"
    by (rule ext) (simp add: Free run_then_def run_return_def map_option_case split: option.split)
  moreover have "runs ([w] @ []) (\<lambda>\<rho>. Free (\<rho> w)) (run_then (vn_variable w) (\<lambda>x. run_return (Free x)))"
    by (rule runs_then [OF runs_variable runs_return])
  ultimately show ?thesis by (simp add: Free)
next
  case (Bound i)
  moreover have "map_free_variable_mut vn_variable (Bound i) = run_return (Bound i)" by (rule ext) (simp add: run_return_def)
  ultimately show ?thesis by (simp add: runs_return)
qed

lemma bind_Some_map_option: "Option.bind m (\<lambda>(x, s). Some (h x, s)) = map_option (\<lambda>(x, s). (h x, s)) m"
  by (cases m) auto

lemma map_free_variables_mut_run:
  "map_free_variables_mut f (FEqual l r) =
     run_then (map_free_variable_mut f l) (\<lambda>l. run_then (map_free_variable_mut f r) (\<lambda>r. run_return (FEqual l r)))"
  "map_free_variables_mut f (FMember l r) =
     run_then (map_free_variable_mut f l) (\<lambda>l. run_then (map_free_variable_mut f r) (\<lambda>r. run_return (FMember l r)))"
  "map_free_variables_mut f (FNot a) = run_then (map_free_variables_mut f a) (\<lambda>a. run_return (FNot a))"
  "map_free_variables_mut f (FForAll a) = run_then (map_free_variables_mut f a) (\<lambda>a. run_return (FForAll a))"
  "map_free_variables_mut f (FImplies a b) =
     run_then (map_free_variables_mut f a) (\<lambda>a. run_then (map_free_variables_mut f b) (\<lambda>b. run_return (FImplies a b)))"
  by (rule ext; simp add: run_then_def run_return_def bind_Some_map_option)+

lemma runs_formula_node: "runs (occurrences a) (\<lambda>\<rho>. map_free_variables \<rho> a) (map_free_variables_mut vn_variable a)"
  by (induction a; simp only: map_free_variables_mut_run)
    (rule runs_cong, (rule runs_then runs_free_variable runs_return | assumption | (simp; fail))+)+

lemma runs_defined_node: "runs (d_occurrences a) (\<lambda>\<rho>. d_map_free_variables \<rho> a) (d_map_free_variables_mut vn_variable a)"
  by (induction a; simp only: d_map_free_variables_mut.simps)
    (rule runs_cong, (rule runs_then runs_list runs_free_variable runs_return | assumption | (simp; fail))+)+

lemma runs_formula: "runs (pf_occurrences f) (\<lambda>\<rho>. pf_map_free_variables \<rho> f) (vn_formula f)"
  by (cases f; simp only: vn_formula_def pf_map_free_variables_mut.simps)
    (rule runs_cong, (rule runs_then runs_formula_node runs_defined_node runs_return | (simp; fail))+)+

lemma normalize_step_runs:
  assumes "\<forall>r\<in>set (local_references s). normalized_reference r indices = Some (ix r)"
  shows "runs (step_occurrences s) (\<lambda>\<rho>. rename_step \<rho> ix s) (normalize_step s indices)"
  using assms
  by (cases s; simp only: normalize_step.simps)
    (rule runs_cong, (rule runs_then runs_formula runs_variable runs_variables runs_return
        runs_lift [of "normalized_reference r indices" "ix r" for r] | (simp; fail))+)+

section \<open>Renaming keeps the shape of a step\<close>

lemma wire_variable_occurrences: "length (variable_occurrences v) \<le> 1"
  by (cases v) simp_all

lemma sum_variable_occurrences: "(\<Sum>v\<leftarrow>vs. length (variable_occurrences v)) \<le> length vs"
proof (induction vs)
  case (Cons v vs)
  then show ?case using wire_variable_occurrences [of v] by simp
qed simp

lemma length_occurrences: "length (occurrences a) \<le> length (wire a)"
proof (induction a)
  case (FEqual l r)
  show ?case using wire_variable_occurrences [of l] wire_variable_occurrences [of r] by simp
next
  case (FMember l r)
  show ?case using wire_variable_occurrences [of l] wire_variable_occurrences [of r] by simp
qed simp_all

lemma length_wire_variables [simp]: "length (concat (map wire_variable vs)) = 5 * length vs"
  by (induction vs) simp_all

lemma length_d_occurrences: "length (d_occurrences d) \<le> length (d_wire d)"
proof (induction d)
  case (DEqual l r)
  show ?case using wire_variable_occurrences [of l] wire_variable_occurrences [of r] by simp
next
  case (DMember l r)
  show ?case using wire_variable_occurrences [of l] wire_variable_occurrences [of r] by simp
next
  case (DRelation i vs)
  have "length (d_occurrences (DRelation i vs)) = (\<Sum>v\<leftarrow>vs. length (variable_occurrences v))"
    by (simp add: length_concat comp_def)
  with sum_variable_occurrences [of vs] show ?case by simp
qed simp_all

lemma length_pf_occurrences: "length (pf_occurrences f) \<le> length (formula_wire f)"
  using length_occurrences length_d_occurrences by (cases f) (simp_all add: formula_wire_def trans_le_add2)

lemma length_step_occurrences: "length (step_occurrences s) \<le> length (step_wire s)"
proof -
  have "\<forall>f\<in>set (step_formulas s). length (pf_occurrences f) \<le> length (formula_wire f)" by (simp add: length_pf_occurrences)
  then show ?thesis by (cases s) (auto simp: step_wire_def variables_wire_def)
qed

lemma length_wire_map_variables [simp]: "length (concat (map (wire_variable \<circ> map_free_variable \<rho>) vs)) = 5 * length vs"
  by (induction vs) simp_all

lemma d_map_free_variables_shape [simp]:
  "length (d_wire (d_map_free_variables \<rho> d)) = length (d_wire d)" "d_node_count (d_map_free_variables \<rho> d) = d_node_count d"
  "d_node_depth (d_map_free_variables \<rho> d) = d_node_depth d" "contains_definition (d_map_free_variables \<rho> d) = contains_definition d"
  by (induction d) simp_all

lemma map_free_variables_shape [simp]:
  "node_count (map_free_variables \<rho> a) = node_count a" "node_depth (map_free_variables \<rho> a) = node_depth a"
  by (induction a) simp_all

lemma d_map_free_variables_closed_at [simp]: "d_closed_at n (d_map_free_variables \<rho> d) = d_closed_at n d"
  by (induction d arbitrary: n) simp_all

lemma pf_map_free_variables_shape [simp]:
  "length (formula_wire (pf_map_free_variables \<rho> f)) = length (formula_wire f)"
  "pf_node_count (pf_map_free_variables \<rho> f) = pf_node_count f"
  "pf_admitted n (pf_map_free_variables \<rho> f) = pf_admitted n f" "pf_ok (pf_map_free_variables \<rho> f) = pf_ok f"
  by (cases f; simp add: formula_wire_def wire_admitted_def d_wire_admitted_def d_well_formed_def well_formed_def)+

lemma length_concat_u32_map [simp]: "length (concat (map (u32_to_be_bytes \<circ> \<rho>) vs)) = 4 * length vs"
  by (induction vs) simp_all

lemma length_step_wire_rename [simp]: "length (step_wire (rename_step \<rho> ix s)) = length (step_wire s)"
  by (cases s) (simp_all add: step_wire_def variables_wire_def)

lemma step_formulas_rename [simp]: "step_formulas (rename_step \<rho> ix s) = map (pf_map_free_variables \<rho>) (step_formulas s)"
  by (cases s) simp_all

lemma local_references_rename [simp]: "local_references (rename_step \<rho> ix s) = map ix (local_references s)"
  by (cases s) simp_all

lemma step_ok_rename [simp]: "step_ok (rename_step \<rho> ix s) = step_ok s"
  by (cases s) simp_all

lemma rename_step_cong:
  assumes "\<And>v. v \<in> set (step_occurrences s) \<Longrightarrow> \<rho> v = \<rho>' v" "\<And>r. r \<in> set (local_references s) \<Longrightarrow> ix r = ix' r"
  shows "rename_step \<rho> ix s = rename_step \<rho>' ix' s"
proof -
  have "\<forall>f\<in>set (step_formulas s). pf_map_free_variables \<rho> f = pf_map_free_variables \<rho>' f"
  proof
    fix f assume "f \<in> set (step_formulas s)"
    then have "set (pf_occurrences f) \<subseteq> set (step_occurrences s)" by (cases s) auto
    then have "\<forall>v\<in>set (pf_occurrences f). \<rho> v = \<rho>' v" using assms(1) by blast
    with runs_formula [of f] show "pf_map_free_variables \<rho> f = pf_map_free_variables \<rho>' f" unfolding runs_def by blast
  qed
  with assms show ?thesis by (cases s) simp_all
qed

end
