(* ===== verification/Normalization.thy ===== *)
theory Normalization
  imports Normal_Form
begin

text \<open>
  What normalization guarantees. The loop over an explicit stack is compared with the recursive descent
  that it implements: entering a step returns with that step and all it refers to normalized. By induction
  on the position of the step every run keeps an invariant, from which follow that the loop returns, that
  the normal form is a structurally valid certificate, that it holds no duplicate and no unreachable step,
  and that each of its steps is a source step under one injective renaming of the free variables.
\<close>

section \<open>The invariant of the traversal\<close>

definition processed :: "normalizer \<Rightarrow> nat set" where
  "processed st = {p. p < length (nz_indices st) \<and> nz_indices st ! p \<noteq> UNNORMALIZED_STEP}"

definition index_of :: "normalizer \<Rightarrow> u32 \<Rightarrow> u32" where
  "index_of st r = nz_indices st ! unat r"

definition image_of :: "normalizer \<Rightarrow> proof_step \<Rightarrow> proof_step" where
  "image_of st s = rename_step (vn_apply (nz_variables st)) (index_of st) s"

definition covers :: "normalizer \<Rightarrow> proof_step \<Rightarrow> bool" where
  "covers st s \<longleftrightarrow> set (step_occurrences s) \<subseteq> dom (vn_normalized (nz_variables st)) \<and>
     (\<forall>r\<in>set (local_references s). unat r \<in> processed st)"

definition nz_shape :: "proof_step list \<Rightarrow> normalizer \<Rightarrow> bool" where
  "nz_shape ss st \<longleftrightarrow> length (nz_source st) = length ss \<and> length (nz_indices st) = length ss \<and>
     (\<forall>p<length ss. p \<notin> processed st \<longrightarrow> nz_source st ! p = Some (ss ! p))"

definition nz_images :: "proof_step list \<Rightarrow> normalizer \<Rightarrow> bool" where
  "nz_images ss st \<longleftrightarrow> (\<forall>p\<in>processed st. unat (nz_indices st ! p) < length (nz_steps st) \<and> covers st (ss ! p) \<and>
     nz_steps st ! unat (nz_indices st ! p) = image_of st (ss ! p))"

definition nz_covered :: "normalizer \<Rightarrow> bool" where
  "nz_covered st \<longleftrightarrow> (\<forall>k<length (nz_steps st). \<exists>p\<in>processed st. unat (nz_indices st ! p) = k)"

definition nz_table :: "normalizer \<Rightarrow> bool" where
  "nz_table st \<longleftrightarrow> (\<forall>k<length (nz_steps st). \<exists>i. nz_interned st (step_wire (nz_steps st ! k)) = Some i \<and> unat i = k) \<and>
     (\<forall>key i. nz_interned st key = Some i \<longrightarrow> unat i < length (nz_steps st) \<and> step_wire (nz_steps st ! unat i) = key)"

definition vn_ok :: "variable_normalizer \<Rightarrow> bool" where
  "vn_ok vn \<longleftrightarrow> inj_on (vn_apply vn) (dom (vn_normalized vn)) \<and> (\<forall>v w. vn_normalized vn v = Some w \<longrightarrow> w < vn_next_identifier vn)"

definition nz_bound :: "proof_step list \<Rightarrow> normalizer \<Rightarrow> bool" where
  "nz_bound ss st \<longleftrightarrow> unat (vn_next_identifier (nz_variables st)) \<le> (\<Sum>p\<in>processed st. length (step_wire (ss ! p)))"

definition nz_ok :: "proof_step list \<Rightarrow> normalizer \<Rightarrow> bool" where
  "nz_ok ss st \<longleftrightarrow> nz_shape ss st \<and> nz_images ss st \<and> nz_covered st \<and> nz_table st \<and>
     steps_earlier 0 (nz_steps st) \<and> vn_ok (nz_variables st) \<and> nz_bound ss st"

definition nz_le :: "normalizer \<Rightarrow> normalizer \<Rightarrow> bool" where
  "nz_le st st' \<longleftrightarrow> (\<forall>p\<in>processed st. p \<in> processed st' \<and> nz_indices st' ! p = nz_indices st ! p) \<and>
     (\<exists>new. nz_steps st' = nz_steps st @ new)"

definition steps_valid :: "proof_step list \<Rightarrow> bool" where
  "steps_valid ss \<longleftrightarrow> cert_ok \<lparr>cert_steps = ss\<rparr>"

lemma nz_le_refl [simp]: "nz_le st st"
  by (simp add: nz_le_def)

lemma nz_le_trans: "nz_le st st1 \<Longrightarrow> nz_le st1 st2 \<Longrightarrow> nz_le st st2"
  by (auto simp: nz_le_def)

lemma finite_processed [simp]: "finite (processed st)"
  by (simp add: processed_def)

section \<open>Limits of the source\<close>

lemma length_steps_wire: "length (steps_wire ss) = (\<Sum>p<length ss. length (step_wire (ss ! p)))"
  by (simp add: steps_wire_def length_concat comp_def sum_list_sum_nth atLeast0LessThan)

lemma steps_valid_bounds:
  assumes "steps_valid ss"
  shows "length (steps_wire ss) \<le> 4194300" "length ss \<le> 65536" "steps_earlier 0 ss" "ss \<noteq> []" "\<forall>s\<in>set ss. step_ok s"
    "formulas_fit FORMULA_MAX_NODES (all_formulas ss)"
  using assms by (auto simp: steps_valid_def cert_ok_def steps_encodable_def certificate_wire_def CERTIFICATE_MAX_BYTES_def)

lemma all_formulas_split: "p < length ss \<Longrightarrow> formulas_fit n (all_formulas ss) \<Longrightarrow> formulas_fit n (step_formulas (ss ! p))"
proof (induction ss arbitrary: p n)
  case (Cons s ss)
  show ?case
  proof (cases p)
    case (Suc q)
    with Cons have "formulas_fit (n - formulas_cost (step_formulas s)) (step_formulas (ss ! q))" by simp
    then show ?thesis using Suc by (auto simp: formulas_fit_def)
  qed (use Cons.prems in simp)
qed simp

lemma formulas_fit_rename [simp]: "formulas_fit n (map (pf_map_free_variables \<rho>) fs) = formulas_fit n fs"
  by (simp add: formulas_fit_def formulas_cost_def comp_def)

lemma encode_step_rename:
  assumes "steps_valid ss" "p < length ss"
  shows "encode_step (rename_step \<rho> ix (ss ! p)) = Ok (step_wire (rename_step \<rho> ix (ss ! p)))"
proof -
  have "length (step_wire (ss ! p)) \<le> length (steps_wire ss)"
    unfolding length_steps_wire using assms(2) by (intro member_le_sum) auto
  then have len: "length (step_wire (ss ! p)) \<le> CERTIFICATE_MAX_BYTES"
    using steps_valid_bounds(1) [OF assms(1)] by (simp add: CERTIFICATE_MAX_BYTES_def)
  have "formulas_fit FORMULA_MAX_NODES (step_formulas (ss ! p))"
    using assms(2) steps_valid_bounds(6) [OF assms(1)] by (rule all_formulas_split)
  with len show ?thesis
    by (simp add: encode_step_def encode_step_fits CERTIFICATE_MAX_FORMULA_NODES_def)
qed

lemma nz_shape_processed: "nz_shape ss st \<Longrightarrow> processed st \<subseteq> {..<length ss}"
  by (auto simp: nz_shape_def processed_def)

lemma processed_weight:
  assumes "nz_shape ss st" "p < length ss" "p \<notin> processed st"
  shows "(\<Sum>q\<in>processed st. length (step_wire (ss ! q))) + length (step_wire (ss ! p)) \<le> length (steps_wire ss)"
proof -
  have "(\<Sum>q\<in>insert p (processed st). length (step_wire (ss ! q))) \<le> length (steps_wire ss)"
    unfolding length_steps_wire using assms(2) nz_shape_processed [OF assms(1)] by (intro sum_mono2) auto
  with assms(3) show ?thesis by simp
qed

lemma length_nz_steps: "nz_covered st \<Longrightarrow> nz_shape ss st \<Longrightarrow> length (nz_steps st) \<le> length ss"
proof -
  assume "nz_covered st" "nz_shape ss st"
  then have "{..<length (nz_steps st)} \<subseteq> (\<lambda>p. unat (nz_indices st ! p)) ` {..<length ss}"
    using nz_shape_processed by (fastforce simp: nz_covered_def)
  then have "card {..<length (nz_steps st)} \<le> card {..<length ss}" by (rule surj_card_le [rotated]) simp
  then show ?thesis by simp
qed

lemma vn_ok_see_variable:
  assumes "vn_ok vn" "unat (vn_next_identifier vn) + 1 < 2 ^ 32"
  shows "vn_ok (see_variable v vn)"
proof (cases "vn_normalized vn v")
  case None
  have less: "vn_next_identifier vn < vn_next_identifier vn + 1"
    using assms(2) unat_u32_of_nat [of "unat (vn_next_identifier vn) + 1"] by (simp add: word_less_nat_alt add.commute)
  let ?m = "(vn_normalized vn)(v \<mapsto> vn_next_identifier vn)"
  have "inj_on (\<lambda>w. the (?m w)) (insert v (dom (vn_normalized vn)))"
    using assms(1) None unfolding vn_ok_def vn_apply_def inj_on_def dom_def by (auto) (metis order_less_irrefl)+
  moreover have "\<forall>u w. ?m u = Some w \<longrightarrow> w < vn_next_identifier vn + 1"
    using assms(1) less unfolding vn_ok_def by (auto dest: order_less_trans)
  ultimately show ?thesis using None by (simp add: vn_ok_def see_variable_def vn_apply_def [abs_def])
qed (use assms in \<open>simp add: see_variable_def\<close>)

lemma vn_ok_see: "vn_ok vn \<Longrightarrow> unat (vn_next_identifier vn) + length vs < 2 ^ 32 \<Longrightarrow> vn_ok (see vs vn)"
proof (induction vs arbitrary: vn)
  case (Cons v vs)
  moreover have "unat (vn_next_identifier (see_variable v vn)) \<le> unat (vn_next_identifier vn) + 1"
    using Cons.prems by (intro see_variable_next) simp
  ultimately show ?case by (simp add: vn_ok_see_variable)
qed simp

section \<open>Leaving a step\<close>

lemma unat_max: "unat UNNORMALIZED_STEP = 4294967295"
  by (simp add: UNNORMALIZED_STEP_def)

lemma index_neq_max: "n \<le> 65536 \<Longrightarrow> (of_nat n :: u32) \<noteq> UNNORMALIZED_STEP"
  using unat_max unat_u32_of_nat [of n] by auto

lemma normalized_reference_processed:
  "unat r \<in> processed st \<Longrightarrow> normalized_reference r (nz_indices st) = Some (index_of st r)"
  by (simp add: normalized_reference_def processed_def index_of_def element_at_def)

lemma step_wire_inject: "step_fits n s \<Longrightarrow> step_fits n s' \<Longrightarrow> step_wire s = step_wire s' \<Longrightarrow> s = s'"
proof -
  assume fits: "step_fits n s" "step_fits n s'" and same: "step_wire s = step_wire s'"
  have at: "at_bytes (cursor_new (step_wire s)) (step_wire s @ [])" "at_bytes (cursor_new (step_wire s)) (step_wire s' @ [])"
    by (simp_all add: at_bytes_def same)
  from decode_step_wire [OF at(1) fits(1)] decode_step_wire [OF at(2) fits(2)] show "s = s'" by auto
qed

lemma step_fits_rename:
  assumes "steps_valid ss" "p < length ss"
  shows "step_fits FORMULA_MAX_NODES (rename_step \<rho> ix (ss ! p))"
proof -
  have "length (step_wire (ss ! p)) \<le> length (steps_wire ss)"
    unfolding length_steps_wire using assms(2) by (intro member_le_sum) auto
  with steps_valid_bounds [OF assms(1)] all_formulas_split [OF assms(2)] assms(2) show ?thesis
    by (simp add: step_fits_def CERTIFICATE_MAX_BYTES_def)
qed

text \<open>The state after the step at \<open>p\<close> has got the index \<open>i\<close>.\<close>

definition left_with :: "proof_step list \<Rightarrow> nat \<Rightarrow> normalizer \<Rightarrow> nat \<Rightarrow> normalizer \<Rightarrow> bool" where
  "left_with ss p st i st' \<longleftrightarrow>
     nz_source st' = (nz_source st)[p := None] \<and> nz_indices st' = (nz_indices st)[p := of_nat i] \<and>
     nz_variables st' = see (step_occurrences (ss ! p)) (nz_variables st) \<and>
     i < length (nz_steps st') \<and> i < 65536 \<and>
     nz_steps st' ! i = rename_step (vn_apply (nz_variables st')) (index_of st) (ss ! p) \<and>
     (nz_steps st' = nz_steps st \<and> nz_interned st' = nz_interned st \<or>
      i = length (nz_steps st) \<and> nz_steps st' = nz_steps st @ [nz_steps st' ! i] \<and>
      nz_interned st (step_wire (nz_steps st' ! i)) = None \<and>
      nz_interned st' = (nz_interned st)(step_wire (nz_steps st' ! i) \<mapsto> of_nat i))"

lemma variables_in_range:
  assumes "steps_valid ss" "nz_ok ss st" "p < length ss" "p \<notin> processed st"
  shows "unat (vn_next_identifier (nz_variables st)) + length (step_wire (ss ! p)) \<le> 4194300"
    and "unat (vn_next_identifier (nz_variables st)) + length (step_occurrences (ss ! p)) < 2 ^ 32"
proof -
  have "(\<Sum>q\<in>processed st. length (step_wire (ss ! q))) + length (step_wire (ss ! p)) \<le> 4194300"
    using processed_weight [of ss st p] steps_valid_bounds(1) [OF assms(1)] assms(2-4) by (simp add: nz_ok_def)
  then show *: "unat (vn_next_identifier (nz_variables st)) + length (step_wire (ss ! p)) \<le> 4194300"
    using assms(2) by (simp add: nz_ok_def nz_bound_def)
  show "unat (vn_next_identifier (nz_variables st)) + length (step_occurrences (ss ! p)) < 2 ^ 32"
    using * length_step_occurrences [of "ss ! p"] by simp
qed

lemma exit_step_left:
  assumes "steps_valid ss" "nz_ok ss st" "p < length ss" "p \<notin> processed st" "\<forall>r\<in>set (local_references (ss ! p)). unat r \<in> processed st"
  obtains i st' where "exit_step p st = Some st'" "left_with ss p st i st'"
proof -
  let ?vn = "see (step_occurrences (ss ! p)) (nz_variables st)"
  let ?s = "rename_step (vn_apply ?vn) (index_of st) (ss ! p)"
  let ?st = "st\<lparr>nz_source := (nz_source st)[p := None], nz_variables := ?vn\<rparr>"
  have small: "length (nz_steps st) < 65536"
  proof -
    have "processed st \<subset> {..<length ss}" using assms(2-4) nz_shape_processed [of ss st] by (auto simp: nz_ok_def)
    then have "card (processed st) < length ss" using psubset_card_mono [of "{..<length ss}" "processed st"] by simp
    moreover have "{..<length (nz_steps st)} \<subseteq> (\<lambda>p. unat (nz_indices st ! p)) ` processed st"
      using assms(2) by (auto simp: nz_ok_def nz_covered_def)
    then have "card {..<length (nz_steps st)} \<le> card (processed st)" by (rule surj_card_le [rotated]) simp
    ultimately show ?thesis using steps_valid_bounds(2) [OF assms(1)] by simp
  qed
  have run: "normalize_step (ss ! p) (nz_indices st) (nz_variables st) = Some (?s, ?vn)"
  proof (rule runsD [OF normalize_step_runs])
    show "\<forall>r\<in>set (local_references (ss ! p)). normalized_reference r (nz_indices st) = Some (index_of st r)"
      using assms(5) normalized_reference_processed by blast
  qed (rule variables_in_range(2) [OF assms(1-4)])
  have "exit_step p st = intern_step p (step_wire ?s) ?s ?st"
    using assms(2-4) run encode_step_rename [OF assms(1,3)] by (simp add: exit_step_def nz_ok_def nz_shape_def element_at_def)
  moreover have "\<exists>i st'. intern_step p (step_wire ?s) ?s ?st = Some st' \<and> left_with ss p st i st'"
  proof (cases "nz_interned st (step_wire ?s)")
    case None
    have "u32_try_from (length (nz_steps st)) = Some (of_nat (length (nz_steps st)))" using small by (simp add: u32_try_from_Some)
    then have "left_with ss p st (length (nz_steps st)) (the (intern_step p (step_wire ?s) ?s ?st))" "intern_step p (step_wire ?s) ?s ?st \<noteq> None"
      using None small by (simp_all add: intern_step_def left_with_def)
    then show ?thesis by auto
  next
    case (Some i)
    have same: "unat i < length (nz_steps st)" "step_wire (nz_steps st ! unat i) = step_wire ?s"
      using assms(2) Some by (auto simp: nz_ok_def nz_table_def)
    have "\<exists>q\<in>processed st. unat (nz_indices st ! q) = unat i" using assms(2) same(1) by (simp add: nz_ok_def nz_covered_def)
    then obtain q where "q \<in> processed st" "unat (nz_indices st ! q) = unat i" by blast
    then have q: "q < length ss" "nz_steps st ! unat i = image_of st (ss ! q)"
      using assms(2) nz_shape_processed [of ss st] by (auto simp: nz_ok_def nz_images_def)
    have "step_fits FORMULA_MAX_NODES (nz_steps st ! unat i)"
      unfolding q(2) image_of_def using assms(1) q(1) by (rule step_fits_rename)
    then have "nz_steps st ! unat i = ?s"
      using step_fits_rename [OF assms(1,3)] same(2) by (rule step_wire_inject)
    then have "left_with ss p st (unat i) (the (intern_step p (step_wire ?s) ?s ?st))" "intern_step p (step_wire ?s) ?s ?st \<noteq> None"
      using Some small same by (simp_all add: intern_step_def left_with_def)
    then show ?thesis by auto
  qed
  ultimately show ?thesis using that by auto
qed

lemma left_with_processed:
  assumes "left_with ss p st i st'" "nz_shape ss st" "p < length ss"
  shows "processed st' = insert p (processed st)"
  using assms index_neq_max [of i] by (auto simp: left_with_def nz_shape_def processed_def nth_list_update)

text \<open>What leaving a step keeps: the images of the steps processed before.\<close>

lemma left_with_image:
  assumes "left_with ss p st i st'" "nz_shape ss st" "p < length ss" "p \<notin> processed st" "covers st s"
  shows "covers st' s" and "image_of st' s = image_of st s"
proof -
  have vn: "nz_variables st' = see (step_occurrences (ss ! p)) (nz_variables st)" using assms(1) by (simp add: left_with_def)
  have refs: "unat r \<in> processed st" if "r \<in> set (local_references s)" for r using that assms(5) by (simp add: covers_def)
  show "covers st' s"
    using assms(5) left_with_processed [OF assms(1-3)] by (auto simp: covers_def vn)
  show "image_of st' s = image_of st s"
    unfolding image_of_def
  proof (rule rename_step_cong)
    fix v assume "v \<in> set (step_occurrences s)"
    with assms(5) have "v \<in> dom (vn_normalized (nz_variables st))" by (auto simp: covers_def)
    then show "vn_apply (nz_variables st') v = vn_apply (nz_variables st) v" unfolding vn by (rule vn_apply_stable) (rule see_extends)
  next
    fix r assume "r \<in> set (local_references s)"
    then have "unat r \<noteq> p" using refs assms(4) by auto
    then show "index_of st' r = index_of st r" using assms(1) by (simp add: index_of_def left_with_def)
  qed
qed

lemma left_with_self:
  assumes "left_with ss p st i st'" "nz_shape ss st" "p < length ss" "p \<notin> processed st"
    "\<forall>r\<in>set (local_references (ss ! p)). unat r \<in> processed st"
  shows "covers st' (ss ! p)" and "nz_steps st' ! i = image_of st' (ss ! p)"
proof -
  have vn: "nz_variables st' = see (step_occurrences (ss ! p)) (nz_variables st)" using assms(1) by (simp add: left_with_def)
  show "covers st' (ss ! p)" using assms(5) left_with_processed [OF assms(1-3)] by (auto simp: covers_def vn)
  have "index_of st' r = index_of st r" if "r \<in> set (local_references (ss ! p))" for r
  proof -
    have "unat r \<noteq> p" using that assms(4,5) by auto
    then show ?thesis using assms(1) by (simp add: index_of_def left_with_def)
  qed
  then show "nz_steps st' ! i = image_of st' (ss ! p)"
    using assms(1) rename_step_cong [of "ss ! p" "vn_apply (nz_variables st')" "vn_apply (nz_variables st')" "index_of st" "index_of st'"]
    by (simp add: left_with_def image_of_def)
qed

lemma left_with_le:
  assumes "left_with ss p st i st'" "nz_shape ss st" "p < length ss" "p \<notin> processed st"
  shows "nz_le st st'"
  unfolding nz_le_def
proof (intro conjI ballI)
  fix q assume "q \<in> processed st"
  then show "q \<in> processed st'" "nz_indices st' ! q = nz_indices st ! q"
    using left_with_processed [OF assms(1-3)] assms(1,4) by (auto simp: left_with_def) (metis nth_list_update_neq)+
qed (use assms(1) in \<open>auto simp: left_with_def\<close>)

lemma left_with_nth: "left_with ss p st i st' \<Longrightarrow> k < length (nz_steps st) \<Longrightarrow> nz_steps st' ! k = nz_steps st ! k"
  by (auto simp: left_with_def nth_append)

lemma left_with_length: "left_with ss p st i st' \<Longrightarrow> length (nz_steps st) \<le> length (nz_steps st')"
  by (auto simp: left_with_def)

lemma left_with_images:
  assumes "left_with ss p st i st'" "nz_shape ss st" "p < length ss" "p \<notin> processed st" "nz_images ss st"
    "\<forall>r\<in>set (local_references (ss ! p)). unat r \<in> processed st"
  shows "nz_images ss st'"
  unfolding nz_images_def
proof
  fix q assume q: "q \<in> processed st'"
  have i: "unat (of_nat i :: u32) = i" "i < length (nz_steps st')" using assms(1) by (simp_all add: left_with_def unat_u32_of_nat)
  show "unat (nz_indices st' ! q) < length (nz_steps st') \<and> covers st' (ss ! q) \<and> nz_steps st' ! unat (nz_indices st' ! q) = image_of st' (ss ! q)"
  proof (cases "q = p")
    case True
    then have "nz_indices st' ! q = of_nat i" using assms(1-3) by (simp add: left_with_def nz_shape_def)
    with True i left_with_self [OF assms(1-4,6)] show ?thesis by simp
  next
    case False
    with q left_with_processed [OF assms(1-3)] have q': "q \<in> processed st" by simp
    then have "covers st (ss ! q)" "unat (nz_indices st ! q) < length (nz_steps st)"
      "nz_steps st ! unat (nz_indices st ! q) = image_of st (ss ! q)" using assms(5) by (auto simp: nz_images_def)
    moreover have "nz_indices st' ! q = nz_indices st ! q" using False assms(1) by (simp add: left_with_def)
    ultimately show ?thesis
      using left_with_image [OF assms(1-4)] left_with_nth [OF assms(1)] left_with_length [OF assms(1)] by simp
  qed
qed

lemma left_with_covered:
  assumes "left_with ss p st i st'" "nz_shape ss st" "p < length ss" "p \<notin> processed st" "nz_covered st"
  shows "nz_covered st'"
  unfolding nz_covered_def
proof (intro allI impI)
  fix k assume k: "k < length (nz_steps st')"
  show "\<exists>q\<in>processed st'. unat (nz_indices st' ! q) = k"
  proof (cases "k < length (nz_steps st)")
    case True
    with assms(5) obtain q where "q \<in> processed st" "unat (nz_indices st ! q) = k" by (auto simp: nz_covered_def)
    with left_with_le [OF assms(1-4)] show ?thesis unfolding nz_le_def by metis
  next
    case False
    with k assms(1) have "k = i" by (auto simp: left_with_def)
    moreover have "nz_indices st' ! p = of_nat i" "i < 65536" using assms(1-3) by (simp_all add: left_with_def nz_shape_def)
    ultimately show ?thesis using left_with_processed [OF assms(1-3)] by (intro bexI [of _ p]) (simp_all add: unat_u32_of_nat)
  qed
qed

lemma left_with_table:
  assumes "left_with ss p st i st'" "nz_table st"
  shows "nz_table st'"
proof (cases "nz_steps st' = nz_steps st \<and> nz_interned st' = nz_interned st")
  case False
  with assms(1) have new: "i = length (nz_steps st)" "length (nz_steps st') = Suc i" "nz_interned st (step_wire (nz_steps st' ! i)) = None"
    "nz_interned st' = (nz_interned st)(step_wire (nz_steps st' ! i) \<mapsto> of_nat i)" "i < 65536"
    by (auto simp: left_with_def)
  have old: "nz_steps st' ! k = nz_steps st ! k" if "k < i" for k using that left_with_nth [OF assms(1)] new(1) by simp
  show ?thesis
    unfolding nz_table_def
  proof (intro conjI allI impI)
    fix k assume "k < length (nz_steps st')"
    then show "\<exists>j. nz_interned st' (step_wire (nz_steps st' ! k)) = Some j \<and> unat j = k"
    proof (cases "k = i")
      case False
      with new(2) \<open>k < length (nz_steps st')\<close> have k: "k < length (nz_steps st)" using new(1) by simp
      with assms(2) obtain j where j: "nz_interned st (step_wire (nz_steps st ! k)) = Some j" "unat j = k" by (auto simp: nz_table_def)
      with new(3) have "step_wire (nz_steps st ! k) \<noteq> step_wire (nz_steps st' ! i)" by auto
      with j k new(1,4) old show ?thesis by simp
    qed (use new in \<open>simp add: unat_u32_of_nat\<close>)
  next
    fix key j assume "nz_interned st' key = Some j"
    then show "unat j < length (nz_steps st')" "step_wire (nz_steps st' ! unat j) = key"
      using assms(2) new old by (auto simp: nz_table_def unat_u32_of_nat less_Suc_eq split: if_splits)
  qed
qed (use assms(2) in \<open>simp add: nz_table_def\<close>)

lemma left_with_earlier:
  assumes "left_with ss p st i st'" "steps_earlier 0 (nz_steps st)" "nz_images ss st"
    "\<forall>r\<in>set (local_references (ss ! p)). unat r \<in> processed st"
  shows "steps_earlier 0 (nz_steps st')"
proof (cases "nz_steps st' = nz_steps st")
  case False
  with assms(1) have new: "length (nz_steps st') = Suc (length (nz_steps st))"
    "local_references (nz_steps st' ! length (nz_steps st)) = map (index_of st) (local_references (ss ! p))"
    by (auto simp: left_with_def)
  have "refs_earlier k (nz_steps st' ! k)" if "k < length (nz_steps st')" for k
  proof (cases "k < length (nz_steps st)")
    case True
    with assms(2) left_with_nth [OF assms(1)] show ?thesis by (simp add: steps_earlier_def)
  next
    case False
    with that new(1) have "k = length (nz_steps st)" by simp
    with new(2) assms(3,4) show ?thesis by (auto simp: refs_earlier_def index_of_def nz_images_def)
  qed
  then show ?thesis by (simp add: steps_earlier_def)
qed (use assms(2) in simp)

lemma left_with_ok:
  assumes "steps_valid ss" "nz_ok ss st" "p < length ss" "p \<notin> processed st"
    "\<forall>r\<in>set (local_references (ss ! p)). unat r \<in> processed st" "left_with ss p st i st'"
  shows "nz_ok ss st'"
proof -
  have shape: "nz_shape ss st" using assms(2) by (simp add: nz_ok_def)
  have "nz_shape ss st'"
    using assms(3,6) shape left_with_processed [OF assms(6) shape assms(3)] by (simp add: nz_shape_def left_with_def)
  moreover have vn: "nz_variables st' = see (step_occurrences (ss ! p)) (nz_variables st)" using assms(6) by (simp add: left_with_def)
  have "vn_ok (nz_variables st')"
    unfolding vn using assms(2) variables_in_range(2) [OF assms(1-4)] by (intro vn_ok_see) (simp_all add: nz_ok_def)
  moreover have "nz_bound ss st'"
    using see_next [OF variables_in_range(2) [OF assms(1-4)]] length_step_occurrences [of "ss ! p"] assms(2,4)
    by (simp add: nz_bound_def vn left_with_processed [OF assms(6) shape assms(3)] nz_ok_def)
  ultimately show ?thesis
    using assms left_with_images [OF assms(6) shape assms(3,4)] left_with_covered [OF assms(6) shape assms(3,4)]
      left_with_table [OF assms(6)] left_with_earlier [OF assms(6)] by (simp add: nz_ok_def)
qed

section \<open>The descent\<close>

text \<open>Reachability over the references of a list of steps.\<close>

inductive reaches :: "proof_step list \<Rightarrow> nat \<Rightarrow> nat \<Rightarrow> bool" for steps where
  here: "reaches steps i i"
| there: "i < length steps \<Longrightarrow> r \<in> set (local_references (steps ! i)) \<Longrightarrow> reaches steps (unat r) j \<Longrightarrow> reaches steps i j"

lemma reaches_append: "reaches steps i j \<Longrightarrow> reaches (steps @ later) i j"
  by (induction rule: reaches.induct) (auto intro: here there simp: nth_append)

lemma nz_le_reaches: "nz_le st st' \<Longrightarrow> reaches (nz_steps st) i j \<Longrightarrow> reaches (nz_steps st') i j"
  by (auto simp: nz_le_def intro: reaches_append)

text \<open>From \<open>st\<close>, the steps at the positions \<open>rs\<close> are normalized and nothing at \<open>p\<close> or above; whatever was
  emitted is reachable from them, and the step emitted last is one of them.\<close>

definition descended :: "proof_step list \<Rightarrow> nat \<Rightarrow> nat set \<Rightarrow> normalizer \<Rightarrow> normalizer \<Rightarrow> bool" where
  "descended ss p rs st st' \<longleftrightarrow> nz_ok ss st' \<and> nz_le st st' \<and> rs \<subseteq> processed st' \<and>
     (\<forall>q<length ss. p \<le> q \<longrightarrow> nz_indices st' ! q = nz_indices st ! q) \<and>
     (nz_steps st' \<noteq> nz_steps st \<longrightarrow> (\<exists>r\<in>rs. Suc (unat (nz_indices st' ! r)) = length (nz_steps st'))) \<and>
     (\<forall>k<length (nz_steps st'). length (nz_steps st) \<le> k \<longrightarrow> (\<exists>r\<in>rs. reaches (nz_steps st') (unat (nz_indices st' ! r)) k))"

lemma descended_refl: "nz_ok ss st \<Longrightarrow> rs \<subseteq> processed st \<Longrightarrow> descended ss p rs st st"
  by (simp add: descended_def)

lemma descended_le: "descended ss p rs st st' \<Longrightarrow> p \<le> p' \<Longrightarrow> descended ss p' rs st st'"
  by (simp add: descended_def)

lemma descended_trans:
  assumes "descended ss p rs st st1" "descended ss p rs' st1 st2"
  shows "descended ss p (rs \<union> rs') st st2"
proof -
  have le: "nz_le st st1" "nz_le st1 st2" and ok: "nz_ok ss st2" and proc: "rs \<subseteq> processed st1" "rs' \<subseteq> processed st2"
    using assms by (auto simp: descended_def)
  then have same: "nz_indices st2 ! r = nz_indices st1 ! r" "r \<in> processed st2" if "r \<in> rs" for r
    using that by (auto simp: nz_le_def)
  have last: "\<exists>r\<in>rs \<union> rs'. Suc (unat (nz_indices st2 ! r)) = length (nz_steps st2)" if "nz_steps st2 \<noteq> nz_steps st"
  proof (cases "nz_steps st2 = nz_steps st1")
    case True
    with that assms(1) obtain r where "r \<in> rs" "Suc (unat (nz_indices st1 ! r)) = length (nz_steps st1)" by (auto simp: descended_def)
    with same True show ?thesis by (intro bexI [of _ r]) auto
  next
    case False
    with assms(2) show ?thesis by (auto simp: descended_def)
  qed
  have "\<exists>r\<in>rs \<union> rs'. reaches (nz_steps st2) (unat (nz_indices st2 ! r)) k"
    if "k < length (nz_steps st2)" "length (nz_steps st) \<le> k" for k
  proof (cases "k < length (nz_steps st1)")
    case True
    with that(2) assms(1) obtain r where "r \<in> rs" "reaches (nz_steps st1) (unat (nz_indices st1 ! r)) k" by (auto simp: descended_def)
    with same nz_le_reaches [OF le(2)] show ?thesis by (intro bexI [of _ r]) auto
  next
    case False
    with that assms(2) show ?thesis by (auto simp: descended_def)
  qed
  with last same proc ok nz_le_trans [OF le] assms show ?thesis by (auto simp: descended_def)
qed

lemma normalize_loop_Nil: "normalize_loop [] st = Some st"
  by (simp add: normalize_loop.simps)

lemma normalize_loop_Cons:
  "normalize_loop (visit # rest) st = Option.bind (normalize_visit visit rest st) (\<lambda>x. normalize_loop (fst x) (snd x))"
  by (subst normalize_loop.simps) simp

lemma loop_processed:
  "p \<in> processed st \<Longrightarrow> normalize_loop (Enter p # rest) st = normalize_loop rest st"
  by (simp add: normalize_loop_Cons normalize_visit_def processed_def element_at_def)

lemma loop_enter:
  "nz_shape ss st \<Longrightarrow> p < length ss \<Longrightarrow> p \<notin> processed st \<Longrightarrow>
     normalize_loop (Enter p # rest) st = normalize_loop (map (\<lambda>r. Enter (unat r)) (local_references (ss ! p)) @ Exit p # rest) st"
  by (simp add: normalize_loop_Cons normalize_visit_def element_at_def nz_shape_def) (simp add: processed_def)

lemma loop_exit:
  "nz_shape ss st \<Longrightarrow> p < length ss \<Longrightarrow> p \<notin> processed st \<Longrightarrow> exit_step p st = Some st' \<Longrightarrow>
     normalize_loop (Exit p # rest) st = normalize_loop rest st'"
  by (simp add: normalize_loop_Cons normalize_visit_def element_at_def nz_shape_def processed_def)

lemma loop_children:
  assumes "\<And>r st. r \<in> set rs \<Longrightarrow> nz_ok ss st \<Longrightarrow>
      \<exists>st'. (\<forall>rest. normalize_loop (Enter (unat r) # rest) st = normalize_loop rest st') \<and> descended ss p {unat r} st st'"
    and "nz_ok ss st"
  shows "\<exists>st'. (\<forall>rest. normalize_loop (map (\<lambda>r. Enter (unat r)) rs @ rest) st = normalize_loop rest st') \<and>
      descended ss p (unat ` set rs) st st'"
  using assms
proof (induction rs arbitrary: st)
  case Nil
  then show ?case by (auto intro: descended_refl)
next
  case (Cons r rs)
  obtain st1 where st1: "\<And>rest. normalize_loop (Enter (unat r) # rest) st = normalize_loop rest st1" "descended ss p {unat r} st st1"
    using Cons.prems by (meson list.set_intros(1))
  have "nz_ok ss st1" using st1(2) by (simp add: descended_def)
  then obtain st2 where st2: "\<And>rest. normalize_loop (map (\<lambda>r. Enter (unat r)) rs @ rest) st1 = normalize_loop rest st2"
    "descended ss p (unat ` set rs) st1 st2"
    using Cons.IH Cons.prems(1) by (meson list.set_intros(2))
  from descended_trans [OF st1(2) st2(2)] st1(1) st2(1) show ?case by (intro exI [of _ st2]) simp
qed

lemma descended_exit:
  assumes "steps_valid ss" "p < length ss" "p \<notin> processed st" "nz_ok ss st"
    "descended ss p (unat ` set (local_references (ss ! p))) st st1" "left_with ss p st1 i st'" "p \<notin> processed st1"
  shows "descended ss (Suc p) {p} st st'"
proof -
  let ?refs = "local_references (ss ! p)"
  have ok1: "nz_ok ss st1" and le: "nz_le st st1" and refs: "\<forall>r\<in>set ?refs. unat r \<in> processed st1"
    using assms(5) by (auto simp: descended_def)
  have shape: "nz_shape ss st1" using ok1 by (simp add: nz_ok_def)
  have ok': "nz_ok ss st'" by (rule left_with_ok [OF assms(1) ok1 assms(2,7) refs assms(6)])
  have le': "nz_le st1 st'" by (rule left_with_le [OF assms(6) shape assms(2,7)])
  have index: "nz_indices st' ! p = of_nat i" "unat (nz_indices st' ! p) = i" "i < length (nz_steps st')"
    "nz_steps st' ! i = image_of st' (ss ! p)"
    using assms(2,6) shape left_with_self(2) [OF assms(6) shape assms(2,7) refs] by (simp_all add: left_with_def nz_shape_def unat_u32_of_nat)
  have child: "unat (nz_indices st' ! unat r) < i" if "r \<in> set ?refs" for r
    using ok' that index(3,4) by (auto simp: nz_ok_def steps_earlier_def refs_earlier_def image_of_def index_of_def dest: spec [of _ i])
  have kept: "nz_indices st' ! unat r = nz_indices st1 ! unat r" if "r \<in> set ?refs" for r
    using le' refs that by (auto simp: nz_le_def)
  have fresh: "nz_steps st1 = nz_steps st \<and> nz_steps st' = nz_steps st \<or> Suc i = length (nz_steps st')"
  proof (cases "nz_steps st' = nz_steps st1")
    case True
    then show ?thesis using assms(5) child kept index(3) by (fastforce simp: descended_def)
  next
    case False
    with assms(6) have "i = length (nz_steps st1)" "nz_steps st' = nz_steps st1 @ [nz_steps st' ! i]" by (auto simp: left_with_def)
    then show ?thesis by (metis length_append_singleton)
  qed
  have "reaches (nz_steps st') i k" if k: "k < length (nz_steps st')" "length (nz_steps st) \<le> k" for k
  proof (cases "k < length (nz_steps st1)")
    case True
    with k(2) assms(5) obtain r where r: "r \<in> set ?refs" "reaches (nz_steps st1) (unat (nz_indices st1 ! unat r)) k"
      by (auto simp: descended_def)
    then have "reaches (nz_steps st') (unat (index_of st' r)) k" using nz_le_reaches [OF le'] kept by (simp add: index_of_def)
    with r(1) index(3,4) show ?thesis by (intro reaches.there [of i _ "index_of st' r"]) (simp_all add: image_of_def)
  next
    case False
    with k(1) assms(6) have "k = i" by (auto simp: left_with_def)
    then show ?thesis by (simp add: here)
  qed
  moreover have "nz_indices st' ! q = nz_indices st ! q" if "q < length ss" "Suc p \<le> q" for q
    using assms(5,6) that by (simp add: descended_def left_with_def)
  moreover have "p \<in> processed st'" using left_with_processed [OF assms(6) shape assms(2)] by simp
  ultimately show ?thesis using ok' nz_le_trans [OF le le'] fresh index by (auto simp: descended_def)
qed

lemma loop_descends:
  "steps_valid ss \<Longrightarrow> p < length ss \<Longrightarrow> nz_ok ss st \<Longrightarrow>
     \<exists>st'. (\<forall>rest. normalize_loop (Enter p # rest) st = normalize_loop rest st') \<and> descended ss (Suc p) {p} st st'"
proof (induction p arbitrary: st rule: less_induct)
  case (less p)
  show ?case
  proof (cases "p \<in> processed st")
    case True
    with less.prems(3) show ?thesis by (auto simp: loop_processed intro: descended_refl)
  next
    case False
    let ?refs = "local_references (ss ! p)"
    have shape: "nz_shape ss st" using less.prems(3) by (simp add: nz_ok_def)
    have small: "unat r < p" if "r \<in> set ?refs" for r
      using steps_valid_bounds(3) [OF less.prems(1)] less.prems(2) that by (auto simp: steps_earlier_def refs_earlier_def)
    have "\<exists>st'. (\<forall>rest. normalize_loop (Enter (unat r) # rest) s = normalize_loop rest st') \<and> descended ss p {unat r} s st'"
      if "r \<in> set ?refs" "nz_ok ss s" for r s
      using less.IH [OF small [OF that(1)] less.prems(1) _ that(2)] small [OF that(1)] less.prems(2) descended_le
      by (meson Suc_leI less_trans)
    then obtain st1 where st1: "\<And>rest. normalize_loop (map (\<lambda>r. Enter (unat r)) ?refs @ rest) st = normalize_loop rest st1"
      "descended ss p (unat ` set ?refs) st st1"
      using loop_children [of ?refs ss p st] less.prems(3) by blast
    have out: "p \<notin> processed st1"
      using False st1(2) less.prems(2) shape by (auto simp: descended_def nz_ok_def nz_shape_def processed_def)
    have ok1: "nz_ok ss st1" "\<forall>r\<in>set ?refs. unat r \<in> processed st1" using st1(2) by (auto simp: descended_def)
    obtain i st' where st': "exit_step p st1 = Some st'" "left_with ss p st1 i st'"
      using exit_step_left [OF less.prems(1) ok1(1) less.prems(2) out ok1(2)] by blast
    have "normalize_loop (Enter p # rest) st = normalize_loop rest st'" for rest
      using loop_enter [OF shape less.prems(2) False] st1(1) loop_exit [OF _ less.prems(2) out st'(1)] ok1(1) by (simp add: nz_ok_def)
    with descended_exit [OF less.prems(1,2) False less.prems(3) st1(2) st'(2) out] show ?thesis by blast
  qed
qed

section \<open>The result\<close>

lemma processed_new [simp]: "processed (normalizer_new ss) = {}"
  by (auto simp: processed_def normalizer_new_def)

lemma nz_ok_new: "nz_ok ss (normalizer_new ss)"
  by (simp add: nz_ok_def nz_shape_def nz_images_def nz_covered_def nz_table_def vn_ok_def nz_bound_def)
    (simp add: normalizer_new_def vn_default_def)

lemma normalize_loop_Some:
  assumes "cert_ok cert"
  obtains st where "normalize_loop [Enter (length (cert_steps cert) - 1)] (normalizer_new (cert_steps cert)) = Some st"
    "descended (cert_steps cert) (length (cert_steps cert)) {length (cert_steps cert) - 1} (normalizer_new (cert_steps cert)) st"
proof -
  let ?ss = "cert_steps cert"
  have valid: "steps_valid ?ss" using assms by (simp add: steps_valid_def cert_ok_def)
  then have "?ss \<noteq> []" by (rule steps_valid_bounds(4))
  then obtain st where "normalize_loop [Enter (length ?ss - 1)] (normalizer_new ?ss) = normalize_loop [] st"
    "descended ?ss (Suc (length ?ss - 1)) {length ?ss - 1} (normalizer_new ?ss) st"
    using loop_descends [OF valid _ nz_ok_new, of "length ?ss - 1"] by auto
  with \<open>?ss \<noteq> []\<close> that show thesis by (simp add: normalize_loop_Nil)
qed

text \<open>Measures of the emitted steps are bounded by the same measures of the source.\<close>

lemma nz_steps_sum:
  assumes "nz_ok ss st" "\<And>\<rho> ix s. w (rename_step \<rho> ix s) = w s"
  shows "(\<Sum>k<length (nz_steps st). w (nz_steps st ! k)) \<le> (\<Sum>p<length ss. w (ss ! p) :: nat)"
proof -
  have "\<forall>k<length (nz_steps st). \<exists>p\<in>processed st. unat (nz_indices st ! p) = k" using assms(1) by (simp add: nz_ok_def nz_covered_def)
  then obtain g where g: "g k \<in> processed st" "unat (nz_indices st ! g k) = k" if "k < length (nz_steps st)" for k by metis
  have inj: "inj_on g {..<length (nz_steps st)}" using g by (metis inj_onI lessThan_iff)
  have "(\<Sum>k<length (nz_steps st). w (nz_steps st ! k)) = (\<Sum>k<length (nz_steps st). w (ss ! g k))"
  proof (rule sum.cong)
    fix k assume "k \<in> {..<length (nz_steps st)}"
    with g [of k] assms(1) have "nz_steps st ! k = image_of st (ss ! g k)" by (auto simp: nz_ok_def nz_images_def)
    with assms(2) show "w (nz_steps st ! k) = w (ss ! g k)" by (simp add: image_of_def)
  qed simp
  also have "\<dots> = (\<Sum>p\<in>g ` {..<length (nz_steps st)}. w (ss ! p))" using inj by (simp add: sum.reindex)
  also have "\<dots> \<le> (\<Sum>p<length ss. w (ss ! p))"
    using g(1) assms(1) nz_shape_processed [of ss st] by (intro sum_mono2) (auto simp: nz_ok_def)
  finally show ?thesis .
qed

lemma formulas_cost_all: "formulas_cost (all_formulas ss) = (\<Sum>p<length ss. formulas_cost (step_formulas (ss ! p)))"
proof (induction ss)
  case (Cons s ss)
  then show ?case by (simp add: sum.lessThan_Suc_shift del: sum.lessThan_Suc)
qed simp

lemma nz_steps_image:
  assumes "nz_ok ss st" "s \<in> set (nz_steps st)"
  obtains p where "p < length ss" "p \<in> processed st" "s = image_of st (ss ! p)"
proof -
  obtain k where k: "k < length (nz_steps st)" "s = nz_steps st ! k" using assms(2) by (metis in_set_conv_nth)
  then obtain p where "p \<in> processed st" "unat (nz_indices st ! p) = k" using assms(1) by (auto simp: nz_ok_def nz_covered_def)
  with k(2) assms(1) nz_shape_processed [of ss st] that show thesis by (auto simp: nz_ok_def nz_images_def)
qed

lemma nz_steps_valid:
  assumes "steps_valid ss" "nz_ok ss st" "nz_steps st \<noteq> []"
  shows "cert_ok \<lparr>cert_steps = nz_steps st\<rparr>"
proof -
  have "step_ok s" if s: "s \<in> set (nz_steps st)" for s
    using assms(2) s by (rule nz_steps_image) (use steps_valid_bounds(5) [OF assms(1)] in \<open>simp add: image_of_def\<close>)
  moreover have "pf_admitted FORMULA_MAX_NODES f" if s: "s \<in> set (nz_steps st)" "f \<in> set (step_formulas s)" for s f
    using assms(2) s(1)
  proof (rule nz_steps_image)
    fix p assume "p < length ss" "s = image_of st (ss ! p)"
    with all_formulas_split [of p ss FORMULA_MAX_NODES] steps_valid_bounds(6) [OF assms(1)] s(2)
    show ?thesis by (auto simp: image_of_def formulas_fit_def)
  qed
  moreover have "formulas_cost (all_formulas (nz_steps st)) \<le> FORMULA_MAX_NODES"
    using nz_steps_sum [OF assms(2), of "\<lambda>s. formulas_cost (step_formulas s)"] steps_valid_bounds(6) [OF assms(1)]
    by (simp add: formulas_cost_all formulas_fit_def) (simp add: formulas_cost_def comp_def)
  moreover have "length (steps_wire (nz_steps st)) \<le> length (steps_wire ss)"
    using nz_steps_sum [OF assms(2), of "\<lambda>s. length (step_wire s)"] by (simp add: length_steps_wire)
  moreover have "length (nz_steps st) \<le> length ss" using assms(2) by (intro length_nz_steps) (simp_all add: nz_ok_def)
  ultimately show ?thesis
    using assms(2,3) steps_valid_bounds(1,2) [OF assms(1)]
    by (auto simp: cert_ok_def steps_encodable_def formulas_fit_def all_formulas_def certificate_wire_def CERTIFICATE_MAX_BYTES_def nz_ok_def)
qed

lemma nz_steps_distinct:
  assumes "nz_ok ss st"
  shows "distinct (nz_steps st)"
  unfolding distinct_conv_nth
proof (intro allI impI notI)
  fix i j assume *: "i < length (nz_steps st)" "j < length (nz_steps st)" "i \<noteq> j" "nz_steps st ! i = nz_steps st ! j"
  have table: "\<exists>a. nz_interned st (step_wire (nz_steps st ! k)) = Some a \<and> unat a = k" if "k < length (nz_steps st)" for k
    using assms that by (simp add: nz_ok_def nz_table_def)
  from table [OF *(1)] table [OF *(2)] *(3,4) show False by (metis option.inject)
qed

lemma nz_ok_image:
  assumes "nz_ok ss st" "p \<in> processed st"
  shows "unat (nz_indices st ! p) < length (nz_steps st)" "nz_steps st ! unat (nz_indices st ! p) = image_of st (ss ! p)"
  using bspec [OF assms(1) [unfolded nz_ok_def nz_images_def, THEN conjunct2, THEN conjunct1] assms(2)] by blast+

lemma normalize_with_step_origins_Some:
  assumes "cert_ok cert"
  obtains st where "normalize_with_step_origins cert = Some (\<lparr>cert_steps = nz_steps st\<rparr>, nz_indices st, vn_normalized (nz_variables st))"
    "nz_ok (cert_steps cert) st" "unat (nz_indices st ! (length (cert_steps cert) - 1)) = length (nz_steps st) - 1" "nz_steps st \<noteq> []"
    "\<forall>k<length (nz_steps st). reaches (nz_steps st) (length (nz_steps st) - 1) k"
proof -
  let ?ss = "cert_steps cert"
  have ne: "?ss \<noteq> []" using assms by (simp add: cert_ok_def)
  obtain st where st: "normalize_loop [Enter (length ?ss - 1)] (normalizer_new ?ss) = Some st"
    "descended ?ss (length ?ss) {length ?ss - 1} (normalizer_new ?ss) st" using assms by (rule normalize_loop_Some)
  have ok: "nz_ok ?ss st" and root: "length ?ss - 1 \<in> processed st" using st(2) by (auto simp: descended_def)
  have steps: "nz_steps st \<noteq> []"
  proof
    assume "nz_steps st = []"
    with nz_ok_image [OF ok root] show False by simp
  qed
  moreover have new: "nz_steps (normalizer_new ?ss) = []" by (simp add: normalizer_new_def)
  ultimately have "Suc (unat (nz_indices st ! (length ?ss - 1))) = length (nz_steps st)"
    using st(2) unfolding descended_def by auto
  then have last: "unat (nz_indices st ! (length ?ss - 1)) = length (nz_steps st) - 1" by simp
  have "\<forall>k<length (nz_steps st). reaches (nz_steps st) (length (nz_steps st) - 1) k"
    using st(2) unfolding descended_def new last [symmetric] by simp
  with st(1) ne ok last steps that show thesis by (simp add: normalize_with_step_origins_def Let_def)
qed

lemma normalize_valid:
  assumes "cert_ok cert"
  shows "\<exists>nf. normalize cert = Some nf \<and> cert_ok nf \<and> length (cert_steps nf) \<le> length (cert_steps cert)"
proof -
  have valid: "steps_valid (cert_steps cert)" using assms by (simp add: steps_valid_def cert_ok_def)
  obtain st where st: "normalize_with_step_origins cert = Some (\<lparr>cert_steps = nz_steps st\<rparr>, nz_indices st, vn_normalized (nz_variables st))"
    "nz_ok (cert_steps cert) st" "nz_steps st \<noteq> []" using assms by (rule normalize_with_step_origins_Some)
  then have "length (nz_steps st) \<le> length (cert_steps cert)" by (intro length_nz_steps) (simp_all add: nz_ok_def)
  with nz_steps_valid [OF valid st(2,3)] st(1) show ?thesis by (simp add: normalize_def)
qed

section \<open>Properties\<close>

text \<open>C36. Normalization of a structurally valid certificate returns, without a panic, a structurally valid
  certificate with at most as many steps.\<close>

theorem normalization_returns:
  assumes "cert_ok cert"
  shows "\<exists>nf. normalize cert = Some nf \<and> cert_ok nf \<and> length (cert_steps nf) \<le> length (cert_steps cert)"
  using assms by (rule normalize_valid)

text \<open>C37. The normal form is the root proof of the certificate: no two of its steps are equal, its last step
  is the image of the last source step, every step is reachable from the last one, and under one injective
  renaming of the free variables each normalized source step is the step at its index, with its references
  redirected to the indices of the steps it cites.\<close>

theorem normal_form_is_the_root_proof:
  assumes "cert_ok cert" "normalize_with_step_origins cert = Some (nf, origins, variables)"
  shows "distinct (cert_steps nf) \<and> inj_on variables (dom variables) \<and>
    unat (origins ! (length (cert_steps cert) - 1)) = length (cert_steps nf) - 1 \<and>
    (\<forall>k<length (cert_steps nf). reaches (cert_steps nf) (length (cert_steps nf) - 1) k) \<and>
    (\<forall>p<length (cert_steps cert). origins ! p \<noteq> UNNORMALIZED_STEP \<longrightarrow>
       unat (origins ! p) < length (cert_steps nf) \<and>
       cert_steps nf ! unat (origins ! p) =
         rename_step (\<lambda>v. the (variables v)) (\<lambda>r. origins ! unat r) (cert_steps cert ! p))"
proof -
  obtain st where st: "normalize_with_step_origins cert = Some (\<lparr>cert_steps = nz_steps st\<rparr>, nz_indices st, vn_normalized (nz_variables st))"
    "nz_ok (cert_steps cert) st" "unat (nz_indices st ! (length (cert_steps cert) - 1)) = length (nz_steps st) - 1" "nz_steps st \<noteq> []"
    "\<forall>k<length (nz_steps st). reaches (nz_steps st) (length (nz_steps st) - 1) k"
    using assms(1) by (rule normalize_with_step_origins_Some)
  have result: "cert_steps nf = nz_steps st" "origins = nz_indices st" "variables = vn_normalized (nz_variables st)"
    using assms(2) st(1) by auto
  have "inj_on variables (dom variables)"
    using st(2) unfolding result nz_ok_def vn_ok_def vn_apply_def by (auto simp: inj_on_def)
  moreover have "unat (origins ! p) < length (nz_steps st) \<and> nz_steps st ! unat (origins ! p) =
      rename_step (\<lambda>v. the (variables v)) (\<lambda>r. origins ! unat r) (cert_steps cert ! p)"
    if "p < length (cert_steps cert)" "origins ! p \<noteq> UNNORMALIZED_STEP" for p
  proof -
    have "p \<in> processed st" using that st(2) by (simp add: result processed_def nz_ok_def nz_shape_def)
    from nz_ok_image [OF st(2) this] show ?thesis
      by (simp add: result image_of_def index_of_def [abs_def] vn_apply_def [abs_def])
  qed
  ultimately show ?thesis using nz_steps_distinct [OF st(2)] st(3,5) by (simp add: result)
qed

lemma small_certificate: "cert_ok \<lparr>cert_steps = [ZfcAxiomStep Choice, ReflexivityStep 7, GeneralizationStep 1 7]\<rparr>"
  by (simp add: cert_ok_def steps_encodable_def certificate_wire_def step_wire_def refs_earlier_def CERTIFICATE_MAX_BYTES_def)

theorem normalization_returns_witness:
  "\<exists>nf. normalize \<lparr>cert_steps = [ZfcAxiomStep Choice, ReflexivityStep 7, GeneralizationStep 1 7]\<rparr> = Some nf \<and> cert_ok nf \<and>
     length (cert_steps nf) \<le> 3"
  using normalization_returns [OF small_certificate] by (simp add: numeral_3_eq_3)

lemma small_normal_form:
  "normalize_with_step_origins \<lparr>cert_steps = [ZfcAxiomStep Choice, ReflexivityStep 7, GeneralizationStep 1 7]\<rparr> =
     Some (\<lparr>cert_steps = [ReflexivityStep 0, GeneralizationStep 0 0]\<rparr>, [UNNORMALIZED_STEP, 0, 1], [7 \<mapsto> 0])"
  by (simp add: normalize_with_step_origins_def normalizer_new_def normalize_loop_Cons normalize_loop_Nil
      normalize_visit_def exit_step_def intern_step_def element_at_def run_then_def run_return_def run_lift_def vn_variable_def vn_default_def
      checked_add_def normalized_reference_def encode_step_def encode_step_with_formula_budget_def UNNORMALIZED_STEP_def u32_try_from_def
      u32_to_be_bytes_def)

theorem normal_form_is_the_root_proof_witness:
  "distinct [ReflexivityStep 0, GeneralizationStep 0 0] \<and>
   [ReflexivityStep 0, GeneralizationStep 0 0] ! 1 = rename_step (\<lambda>v. the ([7 \<mapsto> 0] v)) (\<lambda>r. [UNNORMALIZED_STEP, 0, 1] ! unat r)
     (GeneralizationStep 1 7)"
  using normal_form_is_the_root_proof [OF small_certificate small_normal_form] by (auto simp: UNNORMALIZED_STEP_def dest: spec [of _ 2])

end
