(* ===== verification/Checked_Artifacts.thy ===== *)
theory Checked_Artifacts
  imports Checker_Soundness Normalization "HOL-Library.List_Lexorder"
begin

text \<open>
  The entry points of the checker, \<open>naome-checker/src/lib.rs\<close>: normal forms become checked proofs with their
  content identities, and definition certificates become checked definitions. A function definition is
  accepted only when the context holds the statement that its graph is total and unique; the obligation is
  built here and its meaning is proved.
\<close>

section \<open>Checked proofs\<close>

record checked_proof =
  cp_normal_form :: proof_normal_form
  cp_conclusion :: node
  cp_statement_id :: statement_id
  cp_derivation_id :: derivation_id
  cp_proof_id :: proof_id
  cp_canonical_conclusion_length :: nat
  cp_context_snapshot :: bytes

definition check_normal_form_with_resolver ::
  "hash \<Rightarrow> proof_normal_form \<Rightarrow> context_view \<Rightarrow> (check_error, checked_proof) outcome" where
  "check_normal_form_with_resolver sha256 normal_form artifact_state =
     and_then (check_with_canonical_conclusion sha256 (nf_certificate normal_form) artifact_state Derive)
       (\<lambda>(conclusion, canonical_conclusion, derivation_id).
     and_then (expect derivation_id) (\<lambda>derivation_id.
     and_then (expect (statement_id_of sha256 canonical_conclusion)) (\<lambda>statement_id.
     and_then (expect (Option.bind (nf_canonical_bytes normal_form) (proof_id_of sha256 statement_id))) (\<lambda>proof_id.
       Ok \<lparr>cp_normal_form = normal_form, cp_conclusion = conclusion, cp_statement_id = statement_id,
           cp_derivation_id = derivation_id, cp_proof_id = proof_id,
           cp_canonical_conclusion_length = length canonical_conclusion,
           cp_context_snapshot = cv_snapshot_id artifact_state\<rparr>))))"

definition check_normal_form_with_state ::
  "hash \<Rightarrow> proof_normal_form \<Rightarrow> context_view \<Rightarrow> (check_error, checked_proof) outcome" where
  "check_normal_form_with_state sha256 normal_form artifact_state =
     check_normal_form_with_resolver sha256 normal_form artifact_state"

definition normalize_and_check_with_state ::
  "hash \<Rightarrow> proof_certificate \<Rightarrow> context_view \<Rightarrow> (check_error, checked_proof) outcome" where
  "normalize_and_check_with_state sha256 certificate artifact_state =
     and_then (expect (into_unchecked_normal_form certificate)) (\<lambda>normal_form.
       check_normal_form_with_state sha256 normal_form artifact_state)"

definition cp_artifact_id :: "hash \<Rightarrow> checked_proof \<Rightarrow> artifact_id" where
  "cp_artifact_id sha256 proof = from_proof_id sha256 (cp_proof_id proof)"

fun step_proof_reference :: "proof_step \<Rightarrow> proof_id list" where
  "step_proof_reference (ProofReference proof_id) = [proof_id]"
| "step_proof_reference _ = []"

text \<open>\<open>sort_unstable\<close> and \<open>dedup\<close> over the byte order of the identities.\<close>

definition direct_artifact_dependencies :: "hash \<Rightarrow> checked_proof \<Rightarrow> artifact_id list" where
  "direct_artifact_dependencies sha256 proof =
     remdups_adj (sort (concat (map
       (\<lambda>step. map (from_proof_id sha256) (step_proof_reference step) @
               map (from_definition_id sha256) (step_definition_references step))
       (cert_steps (nf_certificate (cp_normal_form proof))))))"

section \<open>Function obligations\<close>

definition FUNCTION_OBLIGATION_FIXED_NODES :: nat where "FUNCTION_OBLIGATION_FIXED_NODES = 9"
definition FUNCTION_OBLIGATION_FIXED_DEPTH :: u32 where "FUNCTION_OBLIGATION_FIXED_DEPTH = 8"

definition maximum_function_body_nodes :: "u32 \<Rightarrow> nat option" where
  "maximum_function_body_nodes input_arity =
     (let obligation_overhead = unat input_arity + FUNCTION_OBLIGATION_FIXED_NODES
      in if FORMULA_MAX_NODES < obligation_overhead then None else Some ((FORMULA_MAX_NODES - obligation_overhead) div 2))"

definition maximum_function_body_depth :: "u32 \<Rightarrow> u32 option" where
  "maximum_function_body_depth input_arity =
     Option.bind (checked_add input_arity FUNCTION_OBLIGATION_FIXED_DEPTH) (\<lambda>overhead.
     Option.bind (checked_sub (of_nat FORMULA_MAX_DEPTH) overhead) (\<lambda>maximum.
       if 0 < maximum then Some maximum else None))"

primrec close_inputs :: "nat \<Rightarrow> node \<Rightarrow> node option" where
  "close_inputs 0 obligation = Some obligation"
| "close_inputs (Suc identifier) obligation =
     Option.bind (for_all (of_nat identifier) obligation) (close_inputs identifier)"

definition function_obligation :: "u32 \<Rightarrow> node \<Rightarrow> node option" where
  "function_obligation input_arity body =
     Option.bind (checked_add input_arity 1) (\<lambda>uniqueness_witness.
     Option.bind (for_all uniqueness_witness
         (implies (substitute_free input_arity uniqueness_witness body) (equal uniqueness_witness input_arity))) (\<lambda>uniqueness.
     Option.bind (exists_formula input_arity (conjunction body uniqueness)) (close_inputs (unat input_arity))))"

section \<open>Checked definitions\<close>

datatype definition_check_error =
    DefContextAccess context_error
  | DefExpansion definition_expansion_error
  | DefCanonicalBody defined_formula_codec_error
  | DefCertificate definition_certificate_error
  | DefUnknownObligationStatement statement_id
  | DefObligationConclusionMismatch statement_id
  | DefObligationFormula formula_codec_error

record checked_definition_obligation =
  ob_statement_id :: statement_id
  ob_conclusion :: node

record checked_definition =
  cd_certificate :: definition_certificate
  cd_definition_id :: definition_id
  cd_obligation :: "checked_definition_obligation option"

fun body_limit_error :: "defined_formula_codec_error \<Rightarrow> definition_check_error" where
  "body_limit_error (DNodeLimitExceeded m) = DefObligationFormula (NodeLimitExceeded FORMULA_MAX_NODES)"
| "body_limit_error (DDepthLimitExceeded m) = DefObligationFormula (DepthLimitExceeded FORMULA_MAX_DEPTH)"
| "body_limit_error source = DefCanonicalBody source"

definition obligation_body :: "u32 \<Rightarrow> dnode \<Rightarrow> (definition_check_error, node) outcome" where
  "obligation_body input_arity body =
     and_then (expect (maximum_function_body_nodes input_arity)) (\<lambda>maximum_body_nodes.
     case maximum_function_body_depth input_arity of
       None \<Rightarrow> Err (DefObligationFormula (DepthLimitExceeded FORMULA_MAX_DEPTH))
     | Some maximum_body_depth \<Rightarrow>
         and_then (map_err body_limit_error (d_encode_canonical_with_limits body maximum_body_nodes (unat maximum_body_depth))) (\<lambda>(body_bytes, _).
           map_err (\<lambda>source. DefCanonicalBody (DPrimitive source)) (decode_canonical body_bytes)))"

definition check_obligation ::
  "hash \<Rightarrow> u32 \<Rightarrow> dnode \<Rightarrow> context_view \<Rightarrow> (definition_check_error, checked_definition_obligation) outcome" where
  "check_obligation sha256 input_arity body artifact_state =
     and_then (obligation_body input_arity body) (\<lambda>body.
     and_then (expect (function_obligation input_arity body)) (\<lambda>conclusion.
     and_then (map_err DefObligationFormula (encode_canonical conclusion)) (\<lambda>canonical.
     and_then (expect (statement_id_of sha256 canonical)) (\<lambda>statement_id.
     and_then (map_err DefContextAccess (cv_statement_formula artifact_state statement_id CHECKER_MAX_FORMULA_WORK_BYTES)) (\<lambda>found.
     and_then (ok_or (DefUnknownObligationStatement statement_id) found) (\<lambda>selected.
       if selected \<noteq> conclusion then Err (DefObligationConclusionMismatch statement_id)
       else Ok \<lparr>ob_statement_id = statement_id, ob_conclusion = conclusion\<rparr>))))))"

definition check_definition_with_state ::
  "hash \<Rightarrow> definition_certificate \<Rightarrow> context_view \<Rightarrow> (definition_check_error, checked_definition) outcome" where
  "check_definition_with_state sha256 certificate artifact_state =
     map_ok (\<lambda>obligation. \<lparr>cd_certificate = certificate, cd_definition_id = dc_id certificate, cd_obligation = obligation\<rparr>)
       (case dc_kind certificate of
          RelationKind arity \<Rightarrow> Ok None
        | FunctionKind input_arity \<Rightarrow> map_ok Some (check_obligation sha256 input_arity (dc_body certificate) artifact_state))"

definition normalize_and_check_definition_with_state ::
  "hash \<Rightarrow> definition_kind \<Rightarrow> dnode \<Rightarrow> context_view \<Rightarrow> (definition_check_error, checked_definition) outcome" where
  "normalize_and_check_definition_with_state sha256 kind body artifact_state =
     and_then (map_err DefExpansion (map_ok fst (expand_with_node_limit body (cv_resolve_definition artifact_state) FORMULA_MAX_NODES))) (\<lambda>expanded_body.
     and_then (map_err DefCanonicalBody (from_primitive expanded_body)) (\<lambda>expanded_body.
     and_then (map_err DefCertificate (definition_new sha256 kind expanded_body)) (\<lambda>certificate.
       check_definition_with_state sha256 certificate artifact_state)))"

definition obligation_statement_id :: "checked_definition \<Rightarrow> statement_id option" where
  "obligation_statement_id definition = map_option ob_statement_id (cd_obligation definition)"

section \<open>What the obligation says\<close>

lemma bind_free_size: "bind_free f d a = Some c \<Longrightarrow> node_count c = node_count a \<and> node_depth c = node_depth a"
  by (induction a arbitrary: c d) (auto simp: bind_eq_Some_conv)

lemma node_size_for_all: "for_all x a = Some b \<Longrightarrow> node_count b = node_count a + 1 \<and> node_depth b = node_depth a + 1"
  by (auto simp: for_all_def dest: bind_free_size)

lemma node_size_substitute [simp]:
  "node_count (substitute_free x y a) = node_count a" "node_depth (substitute_free x y a) = node_depth a"
  by (simp_all add: substitute_free_def)

text \<open>Assigning the first inputs.\<close>

definition inputs :: "nat \<Rightarrow> 'd list \<Rightarrow> 'd assignment \<Rightarrow> 'd assignment" where
  "inputs n xs r = (\<lambda>v. if unat v < n then xs ! unat v else r v)"

lemma inputs_append:
  fixes r :: "'d assignment"
  assumes "length xs = n" "n < 2 ^ 32"
  shows "(inputs n xs r)(of_nat n := d) = inputs (Suc n) (xs @ [d]) r"
proof
  fix v :: u32
  have "v = of_nat n \<longleftrightarrow> unat v = n" using assms(2) unat_u32_of_nat by auto
  with assms(1) show "((inputs n xs r)(of_nat n := d)) v = inputs (Suc n) (xs @ [d]) r v" by (auto simp: inputs_def nth_append)
qed

lemma all_lists_Suc: "(\<forall>xs. length xs = Suc n \<longrightarrow> P xs) \<longleftrightarrow> (\<forall>xs. length xs = n \<longrightarrow> (\<forall>d. P (xs @ [d])))"
  by (metis length_append_singleton length_Suc_conv_rev)

lemma close_inputs_size:
  "close_inputs n a = Some b \<Longrightarrow> node_count b = node_count a + n \<and> node_depth b = node_depth a + n"
  by (induction n arbitrary: a) (auto simp: bind_eq_Some_conv dest!: node_size_for_all)

lemma close_inputs_well_formed: "close_inputs n a = Some b \<Longrightarrow> well_formed a \<Longrightarrow> well_formed b"
  by (induction n arbitrary: a) (auto simp: bind_eq_Some_conv dest: for_all_well_formed)

lemma close_inputs_Some: "binders a + n < 2 ^ 32 \<Longrightarrow> \<exists>b. close_inputs n a = Some b"
proof (induction n arbitrary: a)
  case (Suc n)
  obtain c where "for_all (of_nat n) a = Some c" using Suc.prems for_all_Some [of a "of_nat n"] by auto
  with Suc.IH [of c] Suc.prems show ?case by (simp add: binders_for_all)
qed simp

lemma sem_close_inputs:
  "close_inputs n a = Some b \<Longrightarrow> well_formed a \<Longrightarrow> n < 2 ^ 32 \<Longrightarrow>
     sem E r [] b \<longleftrightarrow> (\<forall>xs. length xs = n \<longrightarrow> sem E (inputs n xs r) [] a)"
proof (induction n arbitrary: a)
  case 0
  then show ?case by (simp add: inputs_def)
next
  case (Suc n)
  then obtain c where c: "for_all (of_nat n) a = Some c" "close_inputs n c = Some b" by (auto simp: bind_eq_Some_conv)
  have "sem E r [] b \<longleftrightarrow> (\<forall>xs. length xs = n \<longrightarrow> sem E (inputs n xs r) [] c)"
    using Suc.IH [OF c(2)] Suc.prems for_all_well_formed [OF c(1)] by simp
  also have "\<dots> \<longleftrightarrow> (\<forall>xs. length xs = n \<longrightarrow> (\<forall>d. sem E (inputs (Suc n) (xs @ [d]) r) [] a))"
    using Suc.prems by (auto simp: sem_for_all [OF c(1)] inputs_append)
  finally show ?case by (simp only: all_lists_Suc)
qed

lemma function_obligationE:
  assumes "function_obligation n body = Some b" "well_formed body"
  obtains u e where "unat n + 1 < 2 ^ 32" "for_all (n + 1) (implies (substitute_free n (n + 1) body) (equal (n + 1) n)) = Some u"
    "exists_formula n (conjunction body u) = Some e" "close_inputs (unat n) e = Some b" "well_formed u" "well_formed e"
proof -
  obtain w u e where *: "checked_add n 1 = Some w" "for_all w (implies (substitute_free n w body) (equal w n)) = Some u"
    "exists_formula n (conjunction body u) = Some e" "close_inputs (unat n) e = Some b"
    using assms(1) by (auto simp: function_obligation_def bind_eq_Some_conv)
  have u: "well_formed u" using for_all_well_formed [OF *(2)] assms(2) by simp
  have "well_formed e" using exists_well_formed [OF *(3)] assms(2) u by simp
  with * u that show thesis by (auto simp: checked_add_Some)
qed

lemma sem_function_obligation:
  fixes E :: "'d universe"
  assumes "function_obligation n body = Some b" "well_formed body" "frees body \<subseteq> {v. unat v \<le> unat n}"
  shows "sem E r [] b \<longleftrightarrow> (\<forall>xs. length xs = unat n \<longrightarrow> (\<exists>!y. sem E (formals (xs @ [y])) [] body))"
proof -
  obtain u e where o: "unat n + 1 < 2 ^ 32" "for_all (n + 1) (implies (substitute_free n (n + 1) body) (equal (n + 1) n)) = Some u"
    "exists_formula n (conjunction body u) = Some e" "close_inputs (unat n) e = Some b" "well_formed u" "well_formed e"
    using assms(1,2) by (rule function_obligationE)
  have next_n: "unat (n + 1) = unat n + 1" using o(1) unat_u32_of_nat [of "unat n + 1"] by (simp add: add.commute)
  have fresh: "n + 1 \<notin> frees body" "n + 1 \<noteq> n" using assms(3) next_n by auto
  have u: "sem E s [] u \<longleftrightarrow> (\<forall>d. sem E (s(n := d)) [] body \<longrightarrow> d = s n)" for s
  proof -
    have "sem E ((s(n + 1 := d))(n := d)) [] body = sem E (s(n := d)) [] body" for d
      by (rule sem_cong) (use fresh in auto)
    with fresh(2) show ?thesis by (simp add: sem_for_all [OF o(2)] assms(2) sem_substitute_free)
  qed
  have e: "sem E s [] e \<longleftrightarrow> (\<exists>!y. sem E (s(n := y)) [] body)" for s
    by (auto simp: sem_exists [OF o(3)] assms(2) o(5) u)
  have inst: "sem E ((inputs (unat n) xs r)(n := y)) [] body = sem E (formals (xs @ [y])) [] body" if "length xs = unat n" for xs y
  proof (rule sem_cong)
    fix v assume "v \<in> frees body"
    then have "unat v \<le> unat n" using assms(3) by auto
    then have "unat v < unat n \<or> v = n" by (metis le_neq_implies_less word_unat_eq_iff)
    with that show "((inputs (unat n) xs r)(n := y)) v = formals (xs @ [y]) v" by (auto simp: inputs_def formals_def nth_append)
  qed
  have "sem E r [] b \<longleftrightarrow> (\<forall>xs. length xs = unat n \<longrightarrow> (\<exists>!y. sem E ((inputs (unat n) xs r)(n := y)) [] body))"
    using sem_close_inputs [OF o(4,6), of E r] o(1) e by simp
  also have "\<dots> \<longleftrightarrow> (\<forall>xs. length xs = unat n \<longrightarrow> (\<exists>!y. sem E (formals (xs @ [y])) [] body))"
    by (intro iff_allI imp_cong refl) (simp only: inst)
  finally show ?thesis .
qed

lemma function_obligation_size:
  assumes "function_obligation n body = Some b" "well_formed body"
  shows "node_count b = 2 * node_count body + unat n + 9" "node_depth b = node_depth body + unat n + 8"
proof -
  obtain u e where o: "for_all (n + 1) (implies (substitute_free n (n + 1) body) (equal (n + 1) n)) = Some u"
    "exists_formula n (conjunction body u) = Some e" "close_inputs (unat n) e = Some b"
    using assms by (rule function_obligationE)
  have pos: "1 \<le> node_depth body" using node_depth_pos [of body] by linarith
  have "node_count u = node_count body + 3" "node_depth u = node_depth body + 2"
    using node_size_for_all [OF o(1)] pos by (simp_all add: implies_def equal_def max_def)
  moreover obtain c where c: "for_all n (negate (conjunction body u)) = Some c" "e = negate c"
    using o(2) by (auto simp: exists_formula_def)
  ultimately have "node_count e = 2 * node_count body + 9" "node_depth e = node_depth body + 8"
    using node_size_for_all [OF c(1)] c(2) pos by (simp_all add: negate_def conjunction_def implies_def max_def)
  with close_inputs_size [OF o(3)]
  show "node_count b = 2 * node_count body + unat n + 9" "node_depth b = node_depth body + unat n + 8" by simp_all
qed

lemma function_obligation_closed:
  assumes "function_obligation n body = Some b" "well_formed body" "frees body \<subseteq> {v. unat v \<le> unat n}"
  shows "is_closed b"
proof -
  obtain u e where o: "unat n + 1 < 2 ^ 32" "for_all (n + 1) (implies (substitute_free n (n + 1) body) (equal (n + 1) n)) = Some u"
    "exists_formula n (conjunction body u) = Some e" "close_inputs (unat n) e = Some b"
    using assms(1,2) by (rule function_obligationE)
  have sub: "frees (substitute_free n (n + 1) body) \<subseteq> frees body \<union> {n + 1}" by (auto simp: substitute_free_def)
  have "frees u \<subseteq> frees body \<union> {n}" using frees_for_all [OF o(2)] sub by (auto simp: implies_def equal_def)
  moreover obtain c where c: "for_all n (negate (conjunction body u)) = Some c" "e = negate c"
    using o(3) by (auto simp: exists_formula_def)
  ultimately have "frees e \<subseteq> frees body - {n}"
    using frees_for_all [OF c(1)] c(2) by (auto simp: negate_def conjunction_def implies_def)
  moreover have "unat v < unat n" if "unat v \<le> unat n" "v \<noteq> n" for v using that by (metis le_neq_implies_less word_unat_eq_iff)
  ultimately have e: "frees e \<subseteq> {v. unat v < unat n}" using assms(3) by blast
  have "close_inputs k a = Some b \<Longrightarrow> frees a \<subseteq> {v. unat v < k} \<Longrightarrow> k < 2 ^ 32 \<Longrightarrow> frees b = {}" for k a
  proof (induction k arbitrary: a)
    case (Suc k)
    then obtain c where c: "for_all (of_nat k) a = Some c" "close_inputs k c = Some b" by (auto simp: bind_eq_Some_conv)
    have "v = of_nat k" if "unat v = k" for v :: u32 using that by auto
    then have "frees c \<subseteq> {v. unat v < k}" using frees_for_all [OF c(1)] Suc.prems(2) by (auto simp: less_Suc_eq)
    with Suc.IH [OF c(2)] Suc.prems(3) show ?case by simp
  qed auto
  from this [OF o(4) e] o(1) show ?thesis by (simp add: is_closed_iff)
qed

section \<open>The preflight limits\<close>

lemma maximum_function_body_depth_Some:
  assumes "maximum_function_body_depth n = Some m"
  shows "unat m + unat n + 8 = 256"
proof -
  obtain k where k: "checked_add n 8 = Some k" "k \<le> 256" "m = 256 - k"
    using assms by (auto simp: maximum_function_body_depth_def bind_eq_Some_conv checked_sub_def FUNCTION_OBLIGATION_FIXED_DEPTH_def
        FORMULA_MAX_DEPTH_def split: if_splits)
  have "unat k = unat n + 8" using checked_add_unat [OF k(1)] by simp
  moreover have "unat m = 256 - unat k" unfolding k(3) using k(2) by (simp add: unat_sub)
  moreover have "unat k \<le> 256" using k(2) by (simp add: word_le_nat_alt)
  ultimately show ?thesis by simp
qed

lemma maximum_function_body_nodes_Some:
  "maximum_function_body_nodes n = Some m \<longleftrightarrow> unat n + 9 \<le> 65536 \<and> m = (65536 - (unat n + 9)) div 2"
  by (auto simp: maximum_function_body_nodes_def Let_def FORMULA_MAX_NODES_def FUNCTION_OBLIGATION_FIXED_NODES_def)

text \<open>Within the limits the obligation always has an encoding.\<close>

lemma obligation_bodyE:
  assumes "obligation_body n body = Ok a"
  obtains m k where "maximum_function_body_nodes n = Some k" "maximum_function_body_depth n = Some m"
    "d_wire_admitted k (unat m) body" "decode_canonical (d_wire body) = Ok a"
  using assms by (auto simp: obligation_body_def d_encode_canonical_with_limits_def d_encode_with_limits_Ok split: option.splits)

lemma obligation_body_Ok:
  assumes "obligation_body n body = Ok a"
  shows "well_formed a" "body = lift_node a" "wire_admitted FORMULA_MAX_NODES a"
    and "function_obligation n a = Some b \<Longrightarrow> wire_admitted FORMULA_MAX_NODES b"
proof -
  obtain m k where k: "maximum_function_body_nodes n = Some k" "maximum_function_body_depth n = Some m"
    "d_wire_admitted k (unat m) body" "decode_canonical (d_wire body) = Ok a" using assms by (rule obligation_bodyE)
  show a: "well_formed a" "wire_admitted FORMULA_MAX_NODES a" using k(4) by (simp_all add: decode_canonical_Ok)
  show l: "body = lift_node a" using k(4) pf_wire_of_lift by (simp add: decode_canonical_Ok)
  assume b: "function_obligation n a = Some b"
  have "node_count a \<le> k" "node_depth a \<le> unat m" using k(3) by (simp_all add: l d_wire_admitted_def)
  with function_obligation_size [OF b a(1)] maximum_function_body_depth_Some [OF k(2)] k(1)
  show "wire_admitted FORMULA_MAX_NODES b" by (simp add: wire_admitted_def FORMULA_MAX_NODES_def maximum_function_body_nodes_Some)
qed

lemma function_obligation_Some:
  assumes "obligation_body n body = Ok a"
  shows "\<exists>b. function_obligation n a = Some b"
proof -
  obtain m where m: "maximum_function_body_depth n = Some m" using assms by (rule obligation_bodyE)
  have n: "unat n \<le> 248" using maximum_function_body_depth_Some [OF m] by simp
  then have 1: "checked_add n 1 = Some (n + 1)" by (simp add: checked_add_Some)
  have small: "binders a \<le> 256"
    using binders_le_depth [of a] obligation_body_Ok(3) [OF assms] by (simp add: wire_admitted_def)
  let ?u = "implies (substitute_free n (n + 1) a) (equal (n + 1) n)"
  obtain u where u: "for_all (n + 1) ?u = Some u"
    using for_all_Some [of ?u "n + 1"] small by (auto simp: implies_def equal_def)
  have "binders u \<le> 257" using binders_for_all [OF u] small by (simp add: implies_def equal_def)
  then obtain c where c: "for_all n (negate (conjunction a u)) = Some c"
    using for_all_Some [of "negate (conjunction a u)" n] small by (auto simp: negate_def conjunction_def implies_def)
  have "binders (negate c) \<le> 258"
    using binders_for_all [OF c] \<open>binders u \<le> 257\<close> small by (simp add: negate_def conjunction_def implies_def)
  then obtain b where "close_inputs (unat n) (negate c) = Some b" using close_inputs_Some [of "negate c" "unat n"] n by auto
  with 1 u c show ?thesis by (simp add: function_obligation_def exists_formula_def)
qed

section \<open>What a checked value carries\<close>

definition checked_proof_ok :: "hash \<Rightarrow> checked_proof \<Rightarrow> bool" where
  "checked_proof_ok h cp \<longleftrightarrow>
     cert_ok (nf_certificate (cp_normal_form cp)) \<and>
     provable zfc_axioms (cp_conclusion cp) \<and> is_closed (cp_conclusion cp) \<and> wire_admitted FORMULA_MAX_NODES (cp_conclusion cp) \<and>
     of_canonical_formula h (wire (cp_conclusion cp)) = Some (cp_statement_id cp) \<and>
     of_canonical_certificate h (cp_statement_id cp) (certificate_wire (cert_steps (nf_certificate (cp_normal_form cp)))) = Some (cp_proof_id cp) \<and>
     cp_canonical_conclusion_length cp = length (wire (cp_conclusion cp)) \<and>
     key_ok (cp_statement_id cp) \<and> key_ok (cp_derivation_id cp) \<and> key_ok (cp_proof_id cp)"

definition checked_definition_ok :: "hash \<Rightarrow> checked_definition \<Rightarrow> bool" where
  "checked_definition_ok h cd \<longleftrightarrow>
     certificate_ok h (cd_certificate cd) \<and> cd_definition_id cd = dc_id (cd_certificate cd) \<and>
     (case dc_kind (cd_certificate cd) of
        RelationKind arity \<Rightarrow> cd_obligation cd = None
      | FunctionKind n \<Rightarrow> \<exists>a ob. cd_obligation cd = Some ob \<and> dc_body (cd_certificate cd) = lift_node a \<and> well_formed a \<and>
          function_obligation n a = Some (ob_conclusion ob) \<and> provable zfc_axioms (ob_conclusion ob) \<and>
          wire_admitted FORMULA_MAX_NODES (ob_conclusion ob) \<and>
          of_canonical_formula h (wire (ob_conclusion ob)) = Some (ob_statement_id ob))"

lemma statement_id_Some:
  assumes "wire_admitted FORMULA_MAX_NODES a" "digest_ok h"
  obtains i where "of_canonical_formula h (wire a) = Some i" "key_ok i"
proof -
  have "length (wire a) < 2 ^ 32" using length_wire_limit [of a] assms(1) by (simp add: wire_admitted_def FORMULA_MAX_BYTES_def)
  with scoped_hash_Some [of "wire a" h] assms(2) that show thesis unfolding of_canonical_formula_def by blast
qed

lemma proof_id_Some:
  assumes "cert_ok cert" "digest_ok h"
  obtains i where "of_canonical_certificate h s (certificate_wire (cert_steps cert)) = Some i" "key_ok i"
proof -
  have "length (certificate_wire (cert_steps cert)) < 2 ^ 32"
    using assms(1) by (simp add: cert_ok_def steps_encodable_def CERTIFICATE_MAX_BYTES_def)
  with scoped_hash_Some [of "certificate_wire (cert_steps cert)" h] assms(2) that show thesis unfolding of_canonical_certificate_def by blast
qed

context sound_context
begin

lemma check_normal_form_not_Panic:
  assumes "cert_ok (nf_certificate nf)" "digest_ok h"
  shows "check_normal_form_with_state h nf v \<noteq> Panic"
proof
  assume "check_normal_form_with_state h nf v = Panic"
  then obtain a bs d where run: "check_with_canonical_conclusion h (nf_certificate nf) v Derive = Ok (a, bs, d)"
    and "d = None \<or> statement_id_of h bs = None \<or> (\<exists>s. Option.bind (nf_canonical_bytes nf) (proof_id_of h s) = None)"
    using check_not_Panic(1) [OF assms, of Derive]
    by (auto simp: check_normal_form_with_state_def check_normal_form_with_resolver_def)
  moreover have "\<forall>s\<in>set (cert_steps (nf_certificate nf)). step_ok s" using assms(1) by (simp add: cert_ok_def)
  note sound = check_sound [OF run this]
  obtain i where "statement_id_of h bs = Some i"
    using statement_id_Some [OF sound(3) assms(2)] sound(4) by (auto simp: statement_id_of_def)
  moreover have "nf_canonical_bytes nf = Some (certificate_wire (cert_steps (nf_certificate nf)))"
    unfolding nf_canonical_bytes_def by (rule to_canonical_bytes_ok [OF assms(1)])
  moreover have "proof_id_of h s (certificate_wire (cert_steps (nf_certificate nf))) \<noteq> None" for s
    using assms by (rule proof_id_Some [of _ _ s]) (simp add: proof_id_of_def)
  ultimately show False using check_not_Panic(2) [OF assms run] by auto
qed

lemma check_normal_form_sound:
  assumes "check_normal_form_with_state h nf v = Ok cp" "cert_ok (nf_certificate nf)" "digest_ok h"
  shows "checked_proof_ok h cp" "cp_normal_form cp = nf"
proof -
  obtain a bs d s p where run: "check_with_canonical_conclusion h (nf_certificate nf) v Derive = Ok (a, bs, Some d)"
    and ids: "statement_id_of h bs = Some s" "Option.bind (nf_canonical_bytes nf) (proof_id_of h s) = Some p"
    and cp: "cp = \<lparr>cp_normal_form = nf, cp_conclusion = a, cp_statement_id = s, cp_derivation_id = d, cp_proof_id = p,
       cp_canonical_conclusion_length = length bs, cp_context_snapshot = cv_snapshot_id v\<rparr>"
    using assms(1) by (auto simp: check_normal_form_with_state_def check_normal_form_with_resolver_def)
  have ok: "\<forall>s\<in>set (cert_steps (nf_certificate nf)). step_ok s" using assms(2) by (simp add: cert_ok_def)
  note sound = check_sound [OF run ok]
  have "of_canonical_formula h (wire a) = Some s" using ids(1) sound(4) by (simp add: statement_id_of_def)
  moreover have "of_canonical_certificate h s (certificate_wire (cert_steps (nf_certificate nf))) = Some p"
    using ids(2) to_canonical_bytes_ok [OF assms(2)] by (simp add: nf_canonical_bytes_def proof_id_of_def)
  moreover have "key_ok d" using check_not_Panic(2) [OF assms(2,3) run] by simp
  ultimately show "checked_proof_ok h cp"
    using assms(2,3) sound statement_id_Some [OF sound(3) assms(3)] proof_id_Some [OF assms(2,3)]
    unfolding checked_proof_ok_def cp by simp (metis option.inject)
  show "cp_normal_form cp = nf" by (simp add: cp)
qed

lemma check_obligation_Ok:
  assumes "check_obligation h n body v = Ok ob"
  obtains a where "body = lift_node a" "well_formed a" "function_obligation n a = Some (ob_conclusion ob)"
    "provable zfc_axioms (ob_conclusion ob)" "wire_admitted FORMULA_MAX_NODES (ob_conclusion ob)"
    "of_canonical_formula h (wire (ob_conclusion ob)) = Some (ob_statement_id ob)"
proof -
  obtain a where a: "obligation_body n body = Ok a" "function_obligation n a = Some (ob_conclusion ob)"
    "statement_id_of h (wire (ob_conclusion ob)) = Some (ob_statement_id ob)" "wire_admitted FORMULA_MAX_NODES (ob_conclusion ob)"
    "cv_statement_formula v (ob_statement_id ob) CHECKER_MAX_FORMULA_WORK_BYTES = Ok (Some (ob_conclusion ob))"
    using assms by (auto simp: check_obligation_def encode_canonical_Ok split: if_splits)
  with obligation_body_Ok(1,2) [OF a(1)] statement_provable [OF a(5)] that show thesis by (simp add: statement_id_of_def)
qed

lemma check_obligation_not_Panic: "digest_ok h \<Longrightarrow> check_obligation h n body v \<noteq> Panic \<or> unat n + 9 > 65536"
proof (rule ccontr)
  assume h: "digest_ok h" and "\<not> (check_obligation h n body v \<noteq> Panic \<or> unat n + 9 > 65536)"
  then have panic: "check_obligation h n body v = Panic" and n: "unat n + 9 \<le> 65536" by auto
  have "obligation_body n body \<noteq> Panic"
    using n by (auto simp: obligation_body_def maximum_function_body_nodes_def Let_def FORMULA_MAX_NODES_def FUNCTION_OBLIGATION_FIXED_NODES_def
        d_encode_canonical_with_limits_def d_encode_with_limits_def d_encode_node_not_Panic split: option.splits)
  with panic obtain a where a: "obligation_body n body = Ok a" by (auto simp: check_obligation_def)
  then obtain b where b: "function_obligation n a = Some b" using function_obligation_Some by blast
  obtain i where "statement_id_of h (wire b) = Some i"
    using statement_id_Some [OF obligation_body_Ok(4) [OF a b] h] by (auto simp: statement_id_of_def)
  with panic a b show False by (auto simp: check_obligation_def encode_canonical_Ok formula_not_Panic split: if_splits)
qed

lemma check_definition_sound:
  assumes "check_definition_with_state h c v = Ok cd" "certificate_ok h c"
  shows "checked_definition_ok h cd" "cd_certificate cd = c"
proof -
  show c: "cd_certificate cd = c" using assms(1) by (auto simp: check_definition_with_state_def)
  show "checked_definition_ok h cd"
  proof (cases "dc_kind c")
    case (RelationKind arity)
    with assms c show ?thesis by (auto simp: checked_definition_ok_def check_definition_with_state_def)
  next
    case (FunctionKind n)
    then obtain ob where ob: "check_obligation h n (dc_body c) v = Ok ob" "cd_obligation cd = Some ob" "cd_definition_id cd = dc_id c"
      using assms(1) by (auto simp: check_definition_with_state_def)
    from ob(1) obtain a where "dc_body c = lift_node a" "well_formed a" "function_obligation n a = Some (ob_conclusion ob)"
      "provable zfc_axioms (ob_conclusion ob)" "wire_admitted FORMULA_MAX_NODES (ob_conclusion ob)"
      "of_canonical_formula h (wire (ob_conclusion ob)) = Some (ob_statement_id ob)" by (rule check_obligation_Ok)
    with FunctionKind ob assms(2) c show ?thesis by (auto simp: checked_definition_ok_def)
  qed
qed

lemma check_definition_not_Panic:
  assumes "certificate_ok h c" "digest_ok h"
  shows "check_definition_with_state h c v \<noteq> Panic"
proof (cases "dc_kind c")
  case (FunctionKind n)
  then have "unat n + 9 \<le> 65536" using assms(1) by (simp add: certificate_ok_iff definition_ok_def kind_ok_def graph_arity_def)
  with check_obligation_not_Panic [OF assms(2), of n "dc_body c"] FunctionKind show ?thesis
    by (auto simp: check_definition_with_state_def)
qed (simp add: check_definition_with_state_def)

end

lemma set_d_free_variables_lift: "set (d_free_variables (lift_node a)) = frees a"
proof -
  have "set (d_collect_free_variables (lift_node a) xs) = frees a \<union> set xs" for xs
    by (induction a arbitrary: xs) auto
  then show ?thesis by (simp add: d_free_variables_def)
qed

text \<open>The obligation of a function certificate says that its graph is total and unique.\<close>

lemma function_obligation_meaning:
  fixes E :: "'d universe"
  assumes "certificate_ok h c" "dc_kind c = FunctionKind n" "dc_body c = lift_node a" "well_formed a" "function_obligation n a = Some b"
  shows "valid_in E b \<longleftrightarrow> (\<forall>xs. length xs = unat n \<longrightarrow> (\<exists>!y. definition_meaning E c (xs @ [y])))"
proof -
  have "set (d_free_variables (lift_node a)) = {v. unat v < unat n + 1}"
    using assms(1-3) by (simp add: certificate_ok_iff definition_ok_def graph_arity_def)
  then have "frees a \<subseteq> {v. unat v \<le> unat n}" by (simp add: set_d_free_variables_lift less_Suc_eq_le)
  from sem_function_obligation [OF assms(5,4) this, of E] assms(3) show ?thesis by (simp add: valid_in_def definition_meaning_def)
qed

section \<open>Properties\<close>

text \<open>C9. Checking a function definition succeeds only when the context holds the statement that its graph is total and
  unique: the returned obligation is the identity of a formula that the context returned, and that
  formula is true in a structure exactly when for all inputs there is exactly one output in the
  defined graph.\<close>

theorem function_definitions_need_total_uniqueness:
  assumes "certificate_ok h c" "dc_kind c = FunctionKind n" "check_definition_with_state h c v = Ok cd"
  shows "\<exists>b s. obligation_statement_id cd = Some s \<and> of_canonical_formula h (wire b) = Some s \<and> is_closed b \<and>
    cv_statement_formula v s CHECKER_MAX_FORMULA_WORK_BYTES = Ok (Some b) \<and>
    (\<forall>E :: 'd universe. valid_in E b \<longleftrightarrow> (\<forall>xs. length xs = unat n \<longrightarrow> (\<exists>!y. definition_meaning E c (xs @ [y]))))"
proof -
  obtain ob a where ob: "cd_obligation cd = Some ob" "obligation_body n (dc_body c) = Ok a" "function_obligation n a = Some (ob_conclusion ob)"
    "statement_id_of h (wire (ob_conclusion ob)) = Some (ob_statement_id ob)"
    "cv_statement_formula v (ob_statement_id ob) CHECKER_MAX_FORMULA_WORK_BYTES = Ok (Some (ob_conclusion ob))"
    using assms(2,3) by (auto simp: check_definition_with_state_def check_obligation_def encode_canonical_Ok split: if_splits)
  note a = obligation_body_Ok [OF ob(2)]
  have "set (d_free_variables (lift_node a)) = {v. unat v < unat n + 1}"
    using assms(1,2) a(2) by (simp add: certificate_ok_iff definition_ok_def graph_arity_def)
  then have "is_closed (ob_conclusion ob)"
    by (intro function_obligation_closed [OF ob(3) a(1)]) (simp add: set_d_free_variables_lift less_Suc_eq_le)
  moreover have "\<forall>E :: 'd universe. valid_in E (ob_conclusion ob) \<longleftrightarrow> (\<forall>xs. length xs = unat n \<longrightarrow> (\<exists>!y. definition_meaning E c (xs @ [y])))"
    by (intro allI function_obligation_meaning [OF assms(1,2) a(2,1) ob(3)])
  ultimately show ?thesis using ob(1,4,5) unfolding statement_id_of_def
    by (intro exI [of _ "ob_conclusion ob"] exI [of _ "ob_statement_id ob"] conjI) (simp_all add: obligation_statement_id_def)
qed

text \<open>C13. The limits applied to the body of a function before its obligation is built are exact: with them the obligation
  always fits the limits of a formula, and a body that exceeds them would have an obligation that does
  not fit.\<close>

theorem obligation_preflight_is_exact:
  assumes "well_formed body" "function_obligation n body = Some b"
  shows "wire_admitted FORMULA_MAX_NODES b \<longleftrightarrow>
    (\<exists>nodes depth. maximum_function_body_nodes n = Some nodes \<and> maximum_function_body_depth n = Some depth \<and>
       node_count body \<le> nodes \<and> node_depth body \<le> unat depth)"
proof -
  have size: "node_count b = 2 * node_count body + unat n + 9" "node_depth b = node_depth body + unat n + 8"
    using function_obligation_size [OF assms(2,1)] .
  have pos: "1 \<le> node_depth body" using node_depth_pos [of body] by linarith
  have depth: "(\<exists>d. maximum_function_body_depth n = Some d \<and> node_depth body \<le> unat d) \<longleftrightarrow> node_depth b \<le> 256"
  proof
    assume "\<exists>d. maximum_function_body_depth n = Some d \<and> node_depth body \<le> unat d"
    then show "node_depth b \<le> 256" using maximum_function_body_depth_Some size(2) by fastforce
  next
    assume fits: "node_depth b \<le> 256"
    then have n: "unat n + 8 < 256" using size(2) pos by simp
    then have k: "checked_add n 8 = Some (n + 8)" "unat (n + 8) = unat n + 8"
      by (simp_all add: checked_add_Some unat_word_ariths)
    then have le: "n + 8 \<le> 256" "unat (256 - (n + 8)) = 256 - (unat n + 8)"
      using n by (simp_all add: word_le_nat_alt unat_sub)
    then have "0 < 256 - (n + 8)" using n by (simp add: word_less_nat_alt)
    with k le have "maximum_function_body_depth n = Some (256 - (n + 8))"
      by (simp add: maximum_function_body_depth_def checked_sub_def FUNCTION_OBLIGATION_FIXED_DEPTH_def FORMULA_MAX_DEPTH_def)
    with le(2) fits size(2) show "\<exists>d. maximum_function_body_depth n = Some d \<and> node_depth body \<le> unat d" by auto
  qed
  have "(\<exists>m. maximum_function_body_nodes n = Some m \<and> node_count body \<le> m) \<longleftrightarrow> node_count b \<le> 65536"
    using size(1) by (auto simp: maximum_function_body_nodes_Some)
  with depth show ?thesis unfolding wire_admitted_def FORMULA_MAX_NODES_def by auto
qed

lemma strict_sorted_remdups_adj: "sorted xs \<Longrightarrow> sorted_wrt (<) (remdups_adj xs)"
proof (induction xs rule: remdups_adj.induct)
  case (3 x y xs)
  then show ?case by (auto simp: order_less_le)
qed simp_all

text \<open>The direct dependencies of a checked proof are, in strictly ascending order, exactly the artifacts that the
  steps of its normal form cite as proofs or use as definitions.\<close>

theorem direct_dependencies_are_the_citations:
  "sorted_wrt (<) (direct_artifact_dependencies h cp) \<and>
   set (direct_artifact_dependencies h cp) =
     {from_proof_id h p | p. ProofReference p \<in> set (cert_steps (nf_certificate (cp_normal_form cp)))} \<union>
     {from_definition_id h d | d step. step \<in> set (cert_steps (nf_certificate (cp_normal_form cp))) \<and> d \<in> set (step_definition_references step)}"
proof
  show "sorted_wrt (<) (direct_artifact_dependencies h cp)"
    unfolding direct_artifact_dependencies_def by (rule strict_sorted_remdups_adj) simp
  have "p \<in> set (step_proof_reference step) \<longleftrightarrow> step = ProofReference p" for p step by (cases step) auto
  then show "set (direct_artifact_dependencies h cp) =
     {from_proof_id h p | p. ProofReference p \<in> set (cert_steps (nf_certificate (cp_normal_form cp)))} \<union>
     {from_definition_id h d | d step. step \<in> set (cert_steps (nf_certificate (cp_normal_form cp))) \<and> d \<in> set (step_definition_references step)}"
    unfolding direct_artifact_dependencies_def by auto
qed

section \<open>The graph of the identity\<close>

definition identity_obligation :: node where
  "identity_obligation = FForAll (FNot (FForAll (FNot (FNot (FImplies (FEqual (Bound 1) (Bound 0))
     (FNot (FForAll (FImplies (FEqual (Bound 2) (Bound 0)) (FEqual (Bound 0) (Bound 1))))))))))"

definition identity_graph :: "hash \<Rightarrow> definition_certificate" where
  "identity_graph h = dc_of h (FunctionKind 1) (DEqual (Free 0) (Free 1))"

definition identity_view :: context_view where
  "identity_view = \<lparr>cv_snapshot_id = [], cv_contains_artifact = (\<lambda>i. Ok False), cv_proof_header = (\<lambda>i. Ok None),
     cv_statement_header = (\<lambda>i. Ok None), cv_statement_formula = (\<lambda>s n. Ok (Some identity_obligation)), cv_bucket = (\<lambda>k t. Ok []),
     cv_definition_certificate = (\<lambda>i. Ok None), cv_resolve_definition = (\<lambda>i. Ok None)\<rparr>"

lemma identity_obligation: "function_obligation 1 (FEqual (Free 0) (Free 1)) = Some identity_obligation"
  by (simp add: identity_obligation_def function_obligation_def checked_add_def for_all_def exists_formula_def implies_def equal_def
      conjunction_def negate_def substitute_free_def bind_variable_def)

lemma identity_graph_ok: "certificate_ok h (identity_graph h)"
proof -
  have "{v :: u32. unat v < 2} = {0, 1}" by (auto simp: less_2_cases_iff unat_eq_0) (metis One_nat_def unsigned_1 word_unat_eq_iff)
  then show ?thesis
    by (simp add: certificate_ok_iff identity_graph_def dc_of_def definition_ok_def kind_ok_def graph_arity_def d_wire_admitted_def
        d_free_variables_def FORMULA_MAX_NODES_def FORMULA_MAX_BYTES_def d_well_formed_def set_insort_insert numeral_2_eq_2 insert_commute)
qed

lemma identity_body: "obligation_body 1 (DEqual (Free 0) (Free 1)) = Ok (FEqual (Free 0) (Free 1))"
  by (simp add: obligation_body_def d_encode_canonical_with_limits_def d_encode_with_limits_Ok maximum_function_body_nodes_def
      maximum_function_body_depth_def Let_def FUNCTION_OBLIGATION_FIXED_NODES_def FUNCTION_OBLIGATION_FIXED_DEPTH_def FORMULA_MAX_NODES_def
      FORMULA_MAX_DEPTH_def checked_add_def checked_sub_def d_wire_admitted_def decode_canonical_Ok FORMULA_MAX_BYTES_def wire_admitted_def
      well_formed_def)

lemma identity_checked:
  "\<exists>cd. check_definition_with_state (\<lambda>_. replicate 32 0) (identity_graph (\<lambda>_. replicate 32 0)) identity_view = Ok cd"
  by (simp add: check_definition_with_state_def identity_graph_def dc_of_def check_obligation_def identity_body identity_obligation
      identity_view_def encode_canonical_Ok identity_obligation_def wire_admitted_def FORMULA_MAX_NODES_def statement_id_of_def
      of_canonical_formula_def scoped_hash_def u32_try_from_def)

theorem function_definitions_need_total_uniqueness_witness:
  "\<exists>cd b s. check_definition_with_state (\<lambda>_. replicate 32 0) (identity_graph (\<lambda>_. replicate 32 0)) identity_view = Ok cd \<and>
     obligation_statement_id cd = Some s \<and> is_closed b \<and>
     (\<forall>E :: bool universe. valid_in E b \<longleftrightarrow>
        (\<forall>xs. length xs = 1 \<longrightarrow> (\<exists>!y. definition_meaning E (identity_graph (\<lambda>_. replicate 32 0)) (xs @ [y]))))"
proof -
  obtain cd where cd: "check_definition_with_state (\<lambda>_. replicate 32 0) (identity_graph (\<lambda>_. replicate 32 0)) identity_view = Ok cd"
    using identity_checked by blast
  have kind: "dc_kind (identity_graph (\<lambda>_. replicate 32 0)) = FunctionKind 1" by (simp add: identity_graph_def dc_of_def)
  from function_definitions_need_total_uniqueness [OF identity_graph_ok kind cd, where 'd = bool] cd show ?thesis by auto
qed

theorem obligation_preflight_is_exact_witness:
  "wire_admitted FORMULA_MAX_NODES identity_obligation"
proof -
  have "maximum_function_body_nodes 1 = Some 32763" "maximum_function_body_depth 1 = Some 247"
    by (simp_all add: maximum_function_body_nodes_def maximum_function_body_depth_def Let_def FUNCTION_OBLIGATION_FIXED_NODES_def
        FUNCTION_OBLIGATION_FIXED_DEPTH_def FORMULA_MAX_NODES_def FORMULA_MAX_DEPTH_def checked_add_def checked_sub_def)
  with obligation_preflight_is_exact [OF _ identity_obligation] show ?thesis by (simp add: well_formed_def)
qed

end
