(* ===== verification/Knowledge_Index.thy ===== *)
theory Knowledge_Index
  imports Checked_Artifacts Question_Target
begin

text \<open>
  The structural index of checked knowledge, \<open>naome-checker/src/question/index.rs\<close>, with the pattern keys of
  \<open>question/instantiation.rs\<close> that it stores: artifact membership, the least proof of every statement, and
  three families of buckets from a statement to the checked statements that mention it as an antecedent,
  as a consequent of their implication spine, or as an instance.
\<close>

section \<open>Opening universal statements\<close>

definition MAX_INSTANTIATIONS :: nat where "MAX_INSTANTIATIONS = QUESTION_TARGET_MAX_DEPTH"
definition MAXIMUM_FORMULA_NODES :: nat where "MAXIMUM_FORMULA_NODES = 1024"

text \<open>The loop that counts down to an identifier not in use; \<open>None\<close> is the failed subtraction below zero.\<close>

function next_fresh :: "free_variable list \<Rightarrow> u32 \<Rightarrow> u32 option" where
  "next_fresh taken identifier =
     (if identifier \<in> set taken
      then if identifier = 0 then None else next_fresh taken (identifier - 1)
      else Some identifier)"
  by pat_completeness auto
termination
  by (relation "measure (\<lambda>(taken, identifier). unat identifier)") (auto simp: unat_minus_one unat_gt_0)

declare next_fresh.simps [simp del]

primrec open_loop ::
  "nat \<Rightarrow> free_variable list \<Rightarrow> node \<Rightarrow> free_variable list \<Rightarrow> u32 \<Rightarrow> (node \<times> free_variable list) option" where
  "open_loop 0 excluded current variables identifier = Some (current, variables)"
| "open_loop (Suc n) excluded current variables identifier =
     Option.bind (next_fresh (excluded @ free_variables current) identifier) (\<lambda>identifier.
       case open_outer_universal current identifier of
         None \<Rightarrow> Some (current, variables)
       | Some body \<Rightarrow>
           Option.bind (checked_sub identifier 1) (open_loop n excluded body (variables @ [identifier])))"

definition open_universals :: "node \<Rightarrow> free_variable list \<Rightarrow> (node \<times> free_variable list) option option" where
  "open_universals formula excluded =
     map_option (\<lambda>(current, variables). if variables = [] then None else Some (current, variables))
       (open_loop MAX_INSTANTIATIONS excluded formula [] 0xFFFFFFFF)"

definition bytes_key :: "hash \<Rightarrow> bytes \<Rightarrow> statement_id" where
  "bytes_key sha256 bs = sha256 (ascii ''naome:question:universal-pattern'' @ [0] @ bs)"

definition wildcard :: "node \<Rightarrow> node" where
  "wildcard formula = map_free_variables (\<lambda>_. 0) formula"

definition pattern_key :: "hash \<Rightarrow> node \<Rightarrow> statement_id option" where
  "pattern_key sha256 formula = map_option (bytes_key sha256) (unwrap (encode_canonical (wildcard formula)))"

definition pattern_projections :: "hash \<Rightarrow> node \<Rightarrow> statement_id list option" where
  "pattern_projections sha256 formula =
     Option.bind (open_universals formula []) (\<lambda>found.
       case found of
         None \<Rightarrow> Some []
       | Some (opened, _) \<Rightarrow>
           Option.bind (unwrap (encode_canonical (wildcard opened))) (\<lambda>bs.
           map_option (\<lambda>parts. bytes_key sha256 bs #
               (case parts of None \<Rightarrow> [] | Some parts \<Rightarrow> map (bytes_key sha256) (ci_consequent_slices parts)))
             (unwrap (canonical_implication_of (wildcard opened)))))"

section \<open>Instances with one variable\<close>

record universal_instance =
  ui_formula :: node
  ui_steps :: "proof_step list"

primrec universal_levels :: "u32 list \<Rightarrow> node \<Rightarrow> proof_step list \<Rightarrow> universal_instance list option" where
  "universal_levels [] current steps = Some []"
| "universal_levels (level # levels) current steps =
     (let fresh = 2 + level
      in case open_outer_universal current fresh of
           None \<Rightarrow> Some []
         | Some body \<Rightarrow>
             let current = substitute_free fresh 0 body;
                 steps' = steps @ [InstantiationStep fresh 0 (Primitive body),
                   ModusPonensStep (of_nat (length steps - 1)) (of_nat (length steps))]
             in Option.bind (generalization 0 current) (\<lambda>closed.
                  map_option (\<lambda>rest. \<lparr>ui_formula = current, ui_steps = steps'\<rparr> #
                      \<lparr>ui_formula = closed, ui_steps = steps' @ [GeneralizationStep (of_nat (length steps' - 1)) 0]\<rparr> # rest)
                    (universal_levels levels current steps')))"

definition universal_instances :: "proof_id \<Rightarrow> node \<Rightarrow> universal_instance list option" where
  "universal_instances proof_id premise = universal_levels [0, 1] premise [ProofReference proof_id]"

section \<open>Projections of a statement\<close>

definition implication_projections :: "hash \<Rightarrow> node \<Rightarrow> (bucket_kind \<times> statement_id) list option" where
  "implication_projections sha256 formula =
     Option.bind (unwrap (canonical_implication_of formula)) (\<lambda>found.
       case found of
         None \<Rightarrow> Some []
       | Some parts \<Rightarrow>
           Option.bind (statement_id_of sha256 (ci_antecedent parts)) (\<lambda>antecedent.
           map_option (\<lambda>consequents. (Outgoing, antecedent) # map (Pair Deductions) consequents)
             (those (map (statement_id_of sha256) (ci_consequent_slices parts)))))"

primrec instance_projections :: "hash \<Rightarrow> universal_instance list \<Rightarrow> (bucket_kind \<times> statement_id) list option" where
  "instance_projections sha256 [] = Some []"
| "instance_projections sha256 (i # is) =
     (case encode_canonical_with_node_limit (ui_formula i) (MAXIMUM_FORMULA_NODES + 1) of
        Ok (bs, _) \<Rightarrow>
          Option.bind (statement_id_of sha256 bs) (\<lambda>s. map_option (\<lambda>rest. (Instances, s) # rest) (instance_projections sha256 is))
      | Err _ \<Rightarrow> instance_projections sha256 is
      | Panic \<Rightarrow> None)"

definition projections :: "hash \<Rightarrow> proof_id \<Rightarrow> node \<Rightarrow> (bucket_kind \<times> statement_id) list option" where
  "projections sha256 proof_id formula =
     Option.bind (implication_projections sha256 formula) (\<lambda>implications.
     Option.bind (universal_instances proof_id formula) (\<lambda>universals.
     Option.bind (instance_projections sha256 universals) (\<lambda>instances.
     map_option (\<lambda>patterns. implications @ instances @ map (Pair Instances) patterns) (pattern_projections sha256 formula))))"

section \<open>The index\<close>

type_synonym statements = "unit persistent_map"
type_synonym buckets = "statements persistent_map"

record knowledge_index =
  ki_artifacts :: "unit persistent_map"
  ki_witnesses :: "proof_id persistent_map"
  ki_outgoing :: buckets
  ki_deductions :: buckets
  ki_instances :: buckets

definition ki_new :: knowledge_index where
  "ki_new = \<lparr>ki_artifacts = pm_new, ki_witnesses = pm_new, ki_outgoing = pm_new, ki_deductions = pm_new, ki_instances = pm_new\<rparr>"

definition bucket_insert :: "hash \<Rightarrow> buckets \<Rightarrow> statement_id \<Rightarrow> statement_id \<Rightarrow> buckets option" where
  "bucket_insert sha256 index key statement =
     Option.bind (pm_insert sha256 (case pm_get index key of None \<Rightarrow> pm_new | Some bucket \<Rightarrow> bucket) statement ()) (\<lambda>(_, bucket).
       pm_set sha256 index key bucket)"

primrec ki_buckets :: "bucket_kind \<Rightarrow> knowledge_index \<Rightarrow> buckets" where
  "ki_buckets Outgoing ki = ki_outgoing ki"
| "ki_buckets Deductions ki = ki_deductions ki"
| "ki_buckets Instances ki = ki_instances ki"

primrec ki_set_buckets :: "bucket_kind \<Rightarrow> buckets \<Rightarrow> knowledge_index \<Rightarrow> knowledge_index" where
  "ki_set_buckets Outgoing b ki = ki\<lparr>ki_outgoing := b\<rparr>"
| "ki_set_buckets Deductions b ki = ki\<lparr>ki_deductions := b\<rparr>"
| "ki_set_buckets Instances b ki = ki\<lparr>ki_instances := b\<rparr>"

primrec insert_projections :: "hash \<Rightarrow> statement_id \<Rightarrow> (bucket_kind \<times> statement_id) list \<Rightarrow> knowledge_index \<Rightarrow> knowledge_index option" where
  "insert_projections sha256 statement [] ki = Some ki"
| "insert_projections sha256 statement (p # ps) ki =
     Option.bind (bucket_insert sha256 (ki_buckets (fst p) ki) (snd p) statement) (\<lambda>b.
       insert_projections sha256 statement ps (ki_set_buckets (fst p) b ki))"

definition ki_register_definition :: "hash \<Rightarrow> definition_id \<Rightarrow> knowledge_index \<Rightarrow> knowledge_index option" where
  "ki_register_definition sha256 definition_id ki =
     map_option (\<lambda>(_, artifacts). ki\<lparr>ki_artifacts := artifacts\<rparr>)
       (pm_insert sha256 (ki_artifacts ki) (from_definition_id sha256 definition_id) ())"

definition ki_register_proof :: "hash \<Rightarrow> proof_id \<Rightarrow> statement_id \<Rightarrow> node \<Rightarrow> knowledge_index \<Rightarrow> knowledge_index option" where
  "ki_register_proof sha256 proof statement formula ki =
     Option.bind (pm_insert sha256 (ki_artifacts ki) (from_proof_id sha256 proof) ()) (\<lambda>(_, artifacts).
     let ki = ki\<lparr>ki_artifacts := artifacts\<rparr>
     in case pm_get (ki_witnesses ki) statement of
          Some existing \<Rightarrow>
            if bytes_less proof existing
            then map_option (\<lambda>witnesses. ki\<lparr>ki_witnesses := witnesses\<rparr>) (pm_set sha256 (ki_witnesses ki) statement proof)
            else Some ki
        | None \<Rightarrow>
            Option.bind (pm_insert sha256 (ki_witnesses ki) statement proof) (\<lambda>(_, witnesses).
            Option.bind (projections sha256 proof formula) (\<lambda>ps.
              insert_projections sha256 statement ps (ki\<lparr>ki_witnesses := witnesses\<rparr>))))"

definition ki_contains_artifact :: "knowledge_index \<Rightarrow> artifact_id \<Rightarrow> bool" where
  "ki_contains_artifact ki artifact = pm_contains_key (ki_artifacts ki) artifact"

definition ki_witness :: "knowledge_index \<Rightarrow> statement_id \<Rightarrow> proof_id option" where
  "ki_witness ki statement = pm_get (ki_witnesses ki) statement"

definition bucket_entries :: "statements option \<Rightarrow> statement_id list" where
  "bucket_entries bucket = (case bucket of None \<Rightarrow> [] | Some bucket \<Rightarrow> map fst (pm_entries bucket))"

definition ki_bucket :: "bucket_kind \<Rightarrow> knowledge_index \<Rightarrow> statement_id \<Rightarrow> statement_id list" where
  "ki_bucket kind ki target = bucket_entries (pm_get (ki_buckets kind ki) target)"

section \<open>Projections never panic\<close>

lemma open_binder_size:
  "node_count (open_binder d v a) = node_count a" "node_depth (open_binder d v a) = node_depth a" "binders (open_binder d v a) = binders a"
  by (induction a arbitrary: d) simp_all

lemma open_outer_universalD:
  assumes "open_outer_universal a v = Some b"
  shows "node_count a = node_count b + 1" "node_depth a = node_depth b + 1" "binders a = binders b + 1"
  using assms by (auto simp: open_outer_universal_def open_binder_size split: if_splits node.splits)

lemma next_fresh_above:
  "i \<notin> set taken \<Longrightarrow> i \<le> n0 \<Longrightarrow>
     \<exists>j. next_fresh taken n0 = Some j \<and> j \<notin> set taken \<and> i \<le> j \<and> j \<le> n0"
proof (induction taken n0 rule: next_fresh.induct)
  case (1 taken n0)
  show ?case
  proof (cases "n0 \<in> set taken")
    case True
    with 1(2,3) have less: "i < n0" by (metis order_le_imp_less_or_eq)
    then have nz: "n0 \<noteq> 0" by (metis word_not_simps(1))
    have "i \<le> n0 - 1" "n0 - 1 \<le> n0"
      using less nz by (simp_all add: word_le_nat_alt word_less_nat_alt unat_minus_one)
    with 1 True nz obtain j where "next_fresh taken (n0 - 1) = Some j" "j \<notin> set taken" "i \<le> j" "j \<le> n0 - 1" by blast
    with True nz \<open>n0 - 1 \<le> n0\<close> show ?thesis by (subst next_fresh.simps) auto
  qed (use 1 in \<open>auto simp: next_fresh.simps\<close>)
qed

lemma next_fresh_Some:
  assumes "length taken \<le> unat n0"
  obtains j where "next_fresh taken n0 = Some j" "j \<notin> set taken" "unat n0 \<le> unat j + length taken"
proof -
  let ?I = "{unat n0 - length taken..unat n0}"
  have "\<not> ?I \<subseteq> unat ` set taken"
  proof
    assume "?I \<subseteq> unat ` set taken"
    then have "card ?I \<le> card (unat ` set taken)" by (intro card_mono) auto
    also have "\<dots> \<le> length taken" by (meson card_image_le card_length finite_set le_trans)
    finally show False using assms by simp
  qed
  then obtain n where "n \<in> ?I" "n \<notin> unat ` set taken" by blast
  then have n: "unat n0 - length taken \<le> n" "n \<le> unat n0" "n \<notin> unat ` set taken" by simp_all
  have "n < 2 ^ 32" using n(2) unsigned_less [of n0, where 'a = nat] by simp
  then have u: "unat (of_nat n :: u32) = n" by (rule unat_u32_of_nat)
  have "(of_nat n :: u32) \<notin> set taken" using n(3) u by (metis imageI)
  moreover have "of_nat n \<le> n0" using u n(2) by (simp add: word_le_nat_alt)
  ultimately obtain j where j: "next_fresh taken n0 = Some j" "j \<notin> set taken" "of_nat n \<le> j"
    using next_fresh_above by blast
  have "n \<le> unat j" using j(3) u by (simp add: word_le_nat_alt)
  with j n(1) that show thesis by simp
qed

lemma length_free_variables: "length (free_variables a) \<le> 2 * node_count a"
proof -
  have "card (frees a) \<le> 2 * node_count a"
  proof (induction a)
    case (FImplies a b)
    then show ?case using card_Un_le [of "frees a" "frees b"] by simp
  next
    case (FEqual l r)
    show ?case by (cases l; cases r) (simp_all add: card_insert_if)
  next
    case (FMember l r)
    show ?case by (cases l; cases r) (simp_all add: card_insert_if)
  qed simp_all
  moreover have "distinct (free_variables a)" using collect_free_variables_sorted [of "[]" a] by (simp add: free_variables_def)
  ultimately show ?thesis by (simp add: distinct_card [symmetric])
qed

lemma open_loop_Some:
  "n * (length excluded + 2 * node_count a + 1) \<le> unat n0 \<Longrightarrow>
     \<exists>b ws. open_loop n excluded a vs n0 = Some (b, vs @ ws) \<and> node_count b \<le> node_count a \<and> node_depth b \<le> node_depth a"
proof (induction n arbitrary: a vs n0)
  case (Suc n)
  let ?taken = "excluded @ free_variables a"
  have len: "length ?taken \<le> length excluded + 2 * node_count a" using length_free_variables [of a] by simp
  with Suc.prems have "length ?taken \<le> unat n0" by simp
  then obtain j where j: "next_fresh ?taken n0 = Some j" "unat n0 \<le> unat j + length ?taken" by (rule next_fresh_Some)
  show ?case
  proof (cases "open_outer_universal a j")
    case None
    with j show ?thesis by simp
  next
    case (Some b)
    note size = open_outer_universalD [OF Some]
    have room: "n * (length excluded + 2 * node_count a + 1) + 1 \<le> unat j" using Suc.prems j(2) len by simp
    have j1: "1 \<le> j" using room by (simp add: word_le_nat_alt)
    then have sub: "checked_sub j 1 = Some (j - 1)" "unat (j - 1) = unat j - 1" by (simp_all add: checked_sub_def unat_sub)
    have "n * (length excluded + 2 * node_count b + 1) \<le> n * (length excluded + 2 * node_count a + 1)" using size(1) by simp
    also have "\<dots> \<le> unat (j - 1)" using room sub(2) by simp
    finally obtain c ws where c: "open_loop n excluded b (vs @ [j]) (j - 1) = Some (c, (vs @ [j]) @ ws)" "node_count c \<le> node_count b" "node_depth c \<le> node_depth b"
      using Suc.IH by blast
    with j(1) Some sub(1) size show ?thesis by (intro exI [of _ c] exI [of _ "j # ws"]) simp
  qed
qed simp

lemma open_universals_Some:
  assumes "wire_admitted FORMULA_MAX_NODES a"
  obtains found where "open_universals a [] = Some found" "\<forall>b vs. found = Some (b, vs) \<longrightarrow> wire_admitted FORMULA_MAX_NODES b"
proof -
  have "MAX_INSTANTIATIONS * (length ([] :: free_variable list) + 2 * node_count a + 1) \<le> unat (0xFFFFFFFF :: u32)"
    using assms by (simp add: wire_admitted_def MAX_INSTANTIATIONS_def QUESTION_TARGET_MAX_DEPTH_def FORMULA_MAX_NODES_def)
  from open_loop_Some [OF this] obtain b ws where b: "open_loop MAX_INSTANTIATIONS [] a [] 0xFFFFFFFF = Some (b, ws)"
    "node_count b \<le> node_count a" "node_depth b \<le> node_depth a" by fastforce
  with assms that show thesis by (auto simp: open_universals_def wire_admitted_def)
qed

lemma wildcard_size [simp]: "node_count (wildcard a) = node_count a" "node_depth (wildcard a) = node_depth a"
  by (simp_all add: wildcard_def)

lemma canonical_implication_of_Some:
  assumes "wire_admitted FORMULA_MAX_NODES a"
  obtains parts where "canonical_implication_of a = Ok parts"
proof (cases "\<exists>l r. a = FImplies l r")
  case True
  then obtain l r where "a = FImplies l r" by blast
  moreover have "encode_canonical a = Ok (wire a)" using assms by (simp add: encode_canonical_Ok)
  moreover have "spine_offsets (FImplies l r) 0 \<noteq> []" by (simp add: Let_def)
  ultimately show thesis using that by (simp add: canonical_implication_of_def Let_def)
next
  case False
  then show thesis using that by (cases a) (auto simp: canonical_implication_of_def)
qed

lemma pattern_projections_Some:
  assumes "wire_admitted FORMULA_MAX_NODES a" "digest_ok h"
  shows "\<exists>ps. pattern_projections h a = Some ps \<and> (\<forall>s\<in>set ps. key_ok s)"
proof -
  have key: "key_ok (bytes_key h bs)" for bs using assms(2) by (simp add: bytes_key_def)
  obtain found where found: "open_universals a [] = Some found" "\<forall>b vs. found = Some (b, vs) \<longrightarrow> wire_admitted FORMULA_MAX_NODES b"
    using assms(1) by (rule open_universals_Some)
  show ?thesis
  proof (cases found)
    case (Some bv)
    obtain b vs where bv: "bv = (b, vs)" by (cases bv)
    have adm: "wire_admitted FORMULA_MAX_NODES (wildcard b)" using found(2) Some bv by (simp add: wire_admitted_def)
    then obtain parts where parts: "canonical_implication_of (wildcard b) = Ok parts" by (rule canonical_implication_of_Some)
    have enc: "encode_canonical (wildcard b) = Ok (wire (wildcard b))" using adm by (simp add: encode_canonical_Ok)
    show ?thesis using found(1) Some bv parts enc key by (auto simp: pattern_projections_def split: option.splits)
  qed (use found(1) in \<open>simp add: pattern_projections_def\<close>)
qed

lemma statement_id_of_small: "length bs < 2 ^ 32 \<Longrightarrow> digest_ok h \<Longrightarrow> \<exists>i. statement_id_of h bs = Some i \<and> key_ok i"
  unfolding statement_id_of_def of_canonical_formula_def by (rule scoped_hash_Some)

lemma those_Some: "\<forall>x\<in>set xs. \<exists>y. x = Some y \<and> P y \<Longrightarrow> \<exists>ys. those xs = Some ys \<and> (\<forall>y\<in>set ys. P y)"
  by (induction xs) auto

lemma implication_projections_Some:
  assumes "wire_admitted FORMULA_MAX_NODES a" "digest_ok h"
  shows "\<exists>ps. implication_projections h a = Some ps \<and> (\<forall>s\<in>snd ` set ps. key_ok s)"
proof -
  obtain parts where parts: "canonical_implication_of a = Ok parts" using assms(1) by (rule canonical_implication_of_Some)
  show ?thesis
  proof (cases parts)
    case (Some ci)
    have "ci_bytes ci = wire a" using parts Some
      by (cases a) (auto simp: canonical_implication_of_def encode_canonical_Ok Let_def split: if_splits)
    moreover have "length (wire a) < 2 ^ 32"
      using length_wire_limit [of a] assms(1) by (simp add: wire_admitted_def FORMULA_MAX_BYTES_def)
    ultimately have short: "length (ci_antecedent ci) < 2 ^ 32" "\<forall>bs\<in>set (ci_consequent_slices ci). length bs < 2 ^ 32"
      by (auto simp: ci_antecedent_def ci_consequent_slices_def)
    obtain i where i: "statement_id_of h (ci_antecedent ci) = Some i" "key_ok i" using statement_id_of_small [OF short(1) assms(2)] by blast
    obtain ids where ids: "those (map (statement_id_of h) (ci_consequent_slices ci)) = Some ids" "\<forall>s\<in>set ids. key_ok s"
      using those_Some [of "map (statement_id_of h) (ci_consequent_slices ci)" key_ok] short(2) statement_id_of_small [OF _ assms(2)] by auto
    show ?thesis using parts Some i ids by (auto simp: implication_projections_def)
  qed (use parts in \<open>simp add: implication_projections_def\<close>)
qed

lemma universal_levels_Some: "binders a < 2 ^ 32 \<Longrightarrow> \<exists>us. universal_levels levels a steps = Some us"
proof (induction levels arbitrary: a steps)
  case (Cons level levels)
  show ?case
  proof (cases "open_outer_universal a (2 + level)")
    case (Some b)
    let ?b = "substitute_free (2 + level) 0 b"
    have small: "binders ?b < 2 ^ 32" using Cons.prems open_outer_universalD(3) [OF Some] by simp
    then obtain g where "generalization 0 ?b = Some g" using for_all_Some unfolding generalization_def by blast
    moreover obtain rest where "universal_levels levels ?b (steps @ [InstantiationStep (2 + level) 0 (Primitive b),
        ModusPonensStep (of_nat (length steps - 1)) (of_nat (length steps))]) = Some rest"
      using Cons.IH [OF small] by blast
    ultimately show ?thesis using Some by (simp add: Let_def)
  qed (simp add: Let_def)
qed simp

lemma instance_projections_Some: "digest_ok h \<Longrightarrow> \<exists>ps. instance_projections h us = Some ps \<and> (\<forall>s\<in>snd ` set ps. key_ok s)"
proof (induction us)
  case (Cons i us)
  then obtain ps where ps: "instance_projections h us = Some ps" "\<forall>s\<in>snd ` set ps. key_ok s" by blast
  show ?case
  proof (cases "encode_canonical_with_node_limit (ui_formula i) (MAXIMUM_FORMULA_NODES + 1)")
    case (Ok r)
    obtain bs u where r: "r = (bs, u)" by (cases r)
    have "length bs < 2 ^ 32"
      using Ok r length_wire_limit [of "ui_formula i"] by (auto simp: encode_canonical_with_node_limit_Ok wire_admitted_def FORMULA_MAX_BYTES_def)
    then obtain s where "statement_id_of h bs = Some s" "key_ok s" using statement_id_of_small Cons.prems by blast
    with ps Ok r show ?thesis by simp
  next
    case (Err e)
    with ps show ?thesis by simp
  next
    case Panic
    then show ?thesis by simp
  qed
qed simp

lemma projections_Some:
  assumes "wire_admitted FORMULA_MAX_NODES a" "digest_ok h"
  shows "\<exists>ps. projections h p a = Some ps \<and> (\<forall>s\<in>snd ` set ps. key_ok s)"
proof -
  have "binders a < 2 ^ 32" using binders_le_depth [of a] assms(1) by (simp add: wire_admitted_def)
  then obtain us where us: "universal_instances p a = Some us" using universal_levels_Some unfolding universal_instances_def by blast
  obtain i where i: "implication_projections h a = Some i" "\<forall>s\<in>snd ` set i. key_ok s" using implication_projections_Some [OF assms] by blast
  obtain j where j: "instance_projections h us = Some j" "\<forall>s\<in>snd ` set j. key_ok s" using instance_projections_Some [OF assms(2)] by blast
  obtain k where k: "pattern_projections h a = Some k" "\<forall>s\<in>set k. key_ok s" using pattern_projections_Some [OF assms] by blast
  from us i j k show ?thesis by (auto simp: projections_def)
qed

text \<open>Projections are functions of the statement alone; the proof only names the first step of the plans.\<close>

lemma universal_levels_formulas:
  "length steps = length steps' \<Longrightarrow>
     map_option (map ui_formula) (universal_levels levels a steps) = map_option (map ui_formula) (universal_levels levels a steps')"
proof (induction levels arbitrary: a steps steps')
  case (Cons level levels)
  show ?case
  proof (cases "open_outer_universal a (2 + level)")
    case (Some b)
    let ?b = "substitute_free (2 + level) 0 b"
    let ?more = "\<lambda>steps. steps @ [InstantiationStep (2 + level) 0 (Primitive b), ModusPonensStep (of_nat (length steps - 1)) (of_nat (length steps))]"
    have "map_option (map ui_formula) (universal_levels levels ?b (?more steps)) = map_option (map ui_formula) (universal_levels levels ?b (?more steps'))"
      using Cons.prems by (intro Cons.IH) simp
    with Some show ?thesis
      by (cases "generalization 0 ?b"; cases "universal_levels levels ?b (?more steps)"; cases "universal_levels levels ?b (?more steps')")
        (simp_all add: Let_def)
  qed (simp add: Let_def)
qed simp

lemma instance_projections_cong:
  "map ui_formula us = map ui_formula js \<Longrightarrow> instance_projections h us = instance_projections h js"
proof (induction us arbitrary: js)
  case (Cons i us)
  then obtain j js' where js: "js = j # js'" "ui_formula i = ui_formula j" "map ui_formula us = map ui_formula js'" by auto
  from Cons.IH [OF js(3)] js(1,2) show ?case by (simp split: outcome.split)
qed simp

lemma projections_independent: "projections h p a = projections h q a"
proof -
  have same: "map_option (map ui_formula) (universal_instances p a) = map_option (map ui_formula) (universal_instances q a)"
    unfolding universal_instances_def by (rule universal_levels_formulas) simp
  show ?thesis
  proof (cases "universal_instances p a")
    case None
    with same have "universal_instances q a = None" by simp
    with None show ?thesis by (simp add: projections_def)
  next
    case (Some us)
    with same obtain vs where vs: "universal_instances q a = Some vs" "map ui_formula us = map ui_formula vs"
      by (cases "universal_instances q a") auto
    from instance_projections_cong [OF vs(2)] have "instance_projections h us = instance_projections h vs" .
    with Some vs(1) show ?thesis by (simp add: projections_def)
  qed
qed

section \<open>What the index holds\<close>

definition bucket_set :: "buckets \<Rightarrow> statement_id \<Rightarrow> statement_id set" where
  "bucket_set b t = (case pm_get b t of None \<Rightarrow> {} | Some m \<Rightarrow> dom (pm_get m))"

definition buckets_ok :: "hash \<Rightarrow> buckets \<Rightarrow> bool" where
  "buckets_ok h b \<longleftrightarrow> pm_ok h b \<and> (\<forall>t m. pm_get b t = Some m \<longrightarrow> pm_ok h m)"

lemma bucket_insert_ok:
  assumes "buckets_ok h b" "key_ok t" "key_ok s"
  obtains b' where "bucket_insert h b t s = Some b'" "buckets_ok h b'" "bucket_set b' = (bucket_set b)(t := insert s (bucket_set b t))"
proof -
  let ?m = "case pm_get b t of None \<Rightarrow> pm_new | Some m \<Rightarrow> m"
  have m: "pm_ok h ?m" "dom (pm_get ?m) = bucket_set b t"
    using assms(1) pm.new_ok [of h] pm.get_new by (auto simp: buckets_ok_def bucket_set_def split: option.split)
  obtain m' where m': "pm_insert h ?m s () = Some (pm_get ?m s = None, m')" "pm_ok h m'"
    "pm_get m' = (if pm_get ?m s = None then (pm_get ?m)(s \<mapsto> ()) else pm_get ?m)"
    using m(1) assms(3) by (rule pm.insertE)
  have dom: "dom (pm_get m') = insert s (bucket_set b t)" using m' m(2) by (auto simp: dom_def split: if_splits)
  obtain b' where b': "pm_set h b t m' = Some b'" "pm_ok h b'" "pm_get b' = (pm_get b)(t \<mapsto> m')"
    using assms(1,2) unfolding buckets_ok_def by (metis pm.setE)
  have "bucket_insert h b t s = Some b'" using m'(1) b'(1) by (simp add: bucket_insert_def)
  moreover have "buckets_ok h b'" using assms(1) b' m'(2) by (auto simp: buckets_ok_def split: if_splits)
  moreover have "bucket_set b' = (bucket_set b)(t := insert s (bucket_set b t))"
    using b'(3) dom by (auto simp: fun_eq_iff bucket_set_def)
  ultimately show thesis by (rule that)
qed

lemma ki_buckets_set [simp]:
  "ki_buckets k (ki_set_buckets k' b ki) = (if k = k' then b else ki_buckets k ki)"
  "ki_artifacts (ki_set_buckets k' b ki) = ki_artifacts ki" "ki_witnesses (ki_set_buckets k' b ki) = ki_witnesses ki"
  by (cases k; cases k'; simp)+

lemma insert_projections_ok:
  assumes "\<forall>k. buckets_ok h (ki_buckets k ki)" "key_ok s" "\<forall>t\<in>snd ` set ps. key_ok t"
  shows "\<exists>ki'. insert_projections h s ps ki = Some ki' \<and> (\<forall>k. buckets_ok h (ki_buckets k ki')) \<and>
    ki_artifacts ki' = ki_artifacts ki \<and> ki_witnesses ki' = ki_witnesses ki \<and>
    (\<forall>k t. bucket_set (ki_buckets k ki') t = bucket_set (ki_buckets k ki) t \<union> (if (k, t) \<in> set ps then {s} else {}))"
  using assms(1,3)
proof (induction ps arbitrary: ki)
  case (Cons p ps)
  obtain k t where p: "p = (k, t)" by (cases p)
  have "buckets_ok h (ki_buckets k ki)" "key_ok t" using Cons.prems p by auto
  then obtain b where b: "bucket_insert h (ki_buckets k ki) t s = Some b" "buckets_ok h b"
    "bucket_set b = (bucket_set (ki_buckets k ki))(t := insert s (bucket_set (ki_buckets k ki) t))"
    using assms(2) by (rule bucket_insert_ok)
  have "\<forall>k'. buckets_ok h (ki_buckets k' (ki_set_buckets k b ki))" using Cons.prems(1) b(2) by simp
  moreover have "\<forall>t\<in>snd ` set ps. key_ok t" using Cons.prems(2) by simp
  ultimately obtain ki' where ki': "insert_projections h s ps (ki_set_buckets k b ki) = Some ki'" "\<forall>k. buckets_ok h (ki_buckets k ki')"
    "ki_artifacts ki' = ki_artifacts ki" "ki_witnesses ki' = ki_witnesses ki"
    "\<forall>k' t. bucket_set (ki_buckets k' ki') t = bucket_set (ki_buckets k' (ki_set_buckets k b ki)) t \<union> (if (k', t) \<in> set ps then {s} else {})"
    using Cons.IH [of "ki_set_buckets k b ki"] by (auto simp del: ki_buckets_set(1))
  then show ?case using b(1,3) p by (intro exI [of _ ki']) (auto split: if_splits)
qed simp

text \<open>The index of a set of proofs with their statements \<open>P\<close>, definitions \<open>D\<close> and conclusions \<open>F\<close>.\<close>

definition least_proof :: "(proof_id \<rightharpoonup> statement_id) \<Rightarrow> statement_id \<Rightarrow> proof_id \<Rightarrow> bool" where
  "least_proof P s p \<longleftrightarrow> P p = Some s \<and> (\<forall>q. P q = Some s \<longrightarrow> \<not> bytes_less q p)"

definition ki_ok :: "hash \<Rightarrow> (proof_id \<rightharpoonup> statement_id) \<Rightarrow> definition_id set \<Rightarrow> (statement_id \<rightharpoonup> node) \<Rightarrow> knowledge_index \<Rightarrow> bool" where
  "ki_ok h P D F ki \<longleftrightarrow>
     pm_ok h (ki_artifacts ki) \<and> pm_ok h (ki_witnesses ki) \<and> (\<forall>k. buckets_ok h (ki_buckets k ki)) \<and> dom F = ran P \<and>
     dom (pm_get (ki_artifacts ki)) = from_proof_id h ` dom P \<union> from_definition_id h ` D \<and>
     dom (pm_get (ki_witnesses ki)) = ran P \<and>
     (\<forall>s p. pm_get (ki_witnesses ki) s = Some p \<longrightarrow> least_proof P s p) \<and>
     (\<forall>k t s. s \<in> bucket_set (ki_buckets k ki) t \<longleftrightarrow> (\<exists>a ps. F s = Some a \<and> projections h [] a = Some ps \<and> (k, t) \<in> set ps))"

lemma ki_buckets_new [simp]: "ki_buckets k ki_new = pm_new"
  by (cases k) (simp_all add: ki_new_def)

lemma pm_get_empty [simp]: "pm_get pm_new = Map.empty"
  by (rule ext) (rule pm.get_new)

lemma ki_ok_new: "ki_ok h Map.empty {} Map.empty ki_new"
  by (simp add: ki_ok_def buckets_ok_def bucket_set_def) (simp add: ki_new_def)

lemma bytes_less_trans: "bytes_less xs ys \<Longrightarrow> bytes_less ys zs \<Longrightarrow> bytes_less xs zs"
proof (induction xs ys arbitrary: zs rule: bytes_less.induct)
  case (1 x xs y ys)
  then obtain z zs' where "zs = z # zs'" by (cases zs) auto
  with 1 show ?case by auto
next
  case (2 y ys)
  then show ?case by (cases zs) auto
qed auto

lemma bytes_less_linear: "bytes_less xs ys \<or> xs = ys \<or> bytes_less ys xs"
proof (induction xs ys rule: bytes_less.induct)
  case (1 x xs y ys)
  then show ?case using linorder_less_linear [of x y] by auto
next
  case (3 xs)
  then show ?case by (cases xs) simp_all
qed simp

lemma ki_register_definition_ok:
  assumes "ki_ok h P D F ki" "digest_ok h"
  obtains ki' where "ki_register_definition h d ki = Some ki'" "ki_ok h P (insert d D) F ki'"
proof -
  have "pm_ok h (ki_artifacts ki)" "key_ok (from_definition_id h d)" using assms by (simp_all add: ki_ok_def)
  then obtain m where m: "pm_insert h (ki_artifacts ki) (from_definition_id h d) () = Some (pm_get (ki_artifacts ki) (from_definition_id h d) = None, m)"
    "pm_ok h m" "pm_get m = (if pm_get (ki_artifacts ki) (from_definition_id h d) = None
       then (pm_get (ki_artifacts ki))(from_definition_id h d \<mapsto> ()) else pm_get (ki_artifacts ki))" by (rule pm.insertE)
  have dom: "dom (pm_get m) = insert (from_definition_id h d) (dom (pm_get (ki_artifacts ki)))" using m(3) by (auto split: if_splits)
  have "ki_buckets k (ki\<lparr>ki_artifacts := m\<rparr>) = ki_buckets k ki" for k by (cases k) simp_all
  then have "ki_ok h P (insert d D) F (ki\<lparr>ki_artifacts := m\<rparr>)" using assms(1) m(2) dom by (simp add: ki_ok_def)
  with m(1) that show thesis by (simp add: ki_register_definition_def)
qed

lemma least_proof_other: "least_proof P s' p' \<Longrightarrow> s' \<noteq> s \<Longrightarrow> P p = None \<Longrightarrow> least_proof (P(p \<mapsto> s)) s' p'"
  by (auto simp: least_proof_def)

lemma least_proof_same:
  "least_proof P s e \<Longrightarrow> P p = None \<Longrightarrow> least_proof (P(p \<mapsto> s)) s (if bytes_less p e then p else e)"
  using bytes_less_trans [of _ p e] bytes_less_irrefl [of p] by (auto simp: least_proof_def)

lemma least_proof_first: "s \<notin> ran P \<Longrightarrow> least_proof (P(p \<mapsto> s)) s p"
  using bytes_less_irrefl [of p] by (auto simp: least_proof_def ran_def)

lemma ki_register_proof_ok:
  assumes ki: "ki_ok h P D F ki" and h: "digest_ok h" and keys: "key_ok p" "key_ok s" and a: "wire_admitted FORMULA_MAX_NODES a"
    and new: "P p = None" and stmt: "F s = None \<or> F s = Some a"
  obtains ki' where "ki_register_proof h p s a ki = Some ki'" "ki_ok h (P(p \<mapsto> s)) D (F(s \<mapsto> a)) ki'"
proof -
  have "pm_ok h (ki_artifacts ki)" "key_ok (from_proof_id h p)" using ki h by (simp_all add: ki_ok_def)
  then obtain m where m: "pm_insert h (ki_artifacts ki) (from_proof_id h p) () = Some (pm_get (ki_artifacts ki) (from_proof_id h p) = None, m)"
    "pm_ok h m" "pm_get m = (if pm_get (ki_artifacts ki) (from_proof_id h p) = None
       then (pm_get (ki_artifacts ki))(from_proof_id h p \<mapsto> ()) else pm_get (ki_artifacts ki))" by (rule pm.insertE)
  have "dom (pm_get m) = insert (from_proof_id h p) (dom (pm_get (ki_artifacts ki)))" using m(3) by (auto split: if_splits)
  then have dom: "dom (pm_get m) = from_proof_id h ` dom (P(p \<mapsto> s)) \<union> from_definition_id h ` D" using ki by (simp add: ki_ok_def)
  have ran: "ran (P(p \<mapsto> s)) = insert s (ran P)" using new by (rule ran_map_upd)
  have w_ok: "pm_ok h (ki_witnesses ki)" and w_dom: "dom (pm_get (ki_witnesses ki)) = ran P" and F_dom: "dom F = ran P"
    and least: "\<forall>s p. pm_get (ki_witnesses ki) s = Some p \<longrightarrow> least_proof P s p"
    and b_ok: "\<forall>k. buckets_ok h (ki_buckets k ki)"
    and b_set: "\<forall>k t s. s \<in> bucket_set (ki_buckets k ki) t \<longleftrightarrow> (\<exists>a ps. F s = Some a \<and> projections h [] a = Some ps \<and> (k, t) \<in> set ps)"
    using ki by (simp_all add: ki_ok_def)
  have other: "least_proof (P(p \<mapsto> s)) s' p'" if "least_proof P s' p'" "s' \<noteq> s" for s' p'
    using that new by (rule least_proof_other)
  let ?ki = "ki\<lparr>ki_artifacts := m\<rparr>"
  have kept: "ki_buckets k (ki\<lparr>ki_artifacts := m, ki_witnesses := w\<rparr>) = ki_buckets k ki" "ki_buckets k ?ki = ki_buckets k ki" for k w
    by (cases k; simp)+
  show thesis
  proof (cases "pm_get (ki_witnesses ki) s")
    case (Some e)
    then have s: "s \<in> ran P" "least_proof P s e" using w_dom least by blast+
    then have F: "F(s \<mapsto> a) = F" using stmt F_dom by (auto simp: fun_eq_iff)
    have P: "dom F = ran (P(p \<mapsto> s))" "ran P = ran (P(p \<mapsto> s))" using F_dom s(1) ran by auto
    show thesis
    proof (cases "bytes_less p e")
      case True
      obtain w where w: "pm_set h (ki_witnesses ki) s p = Some w" "pm_ok h w" "pm_get w = (pm_get (ki_witnesses ki))(s \<mapsto> p)"
        using w_ok keys(2) by (rule pm.setE)
      have "\<forall>s' p'. pm_get w s' = Some p' \<longrightarrow> least_proof (P(p \<mapsto> s)) s' p'"
        using least_proof_same [OF s(2) new] other least True by (auto simp: w(3))
      moreover have "dom (pm_get w) = ran (P(p \<mapsto> s))" using w(3) w_dom ran by simp
      ultimately have "ki_ok h (P(p \<mapsto> s)) D (F(s \<mapsto> a)) (?ki\<lparr>ki_witnesses := w\<rparr>)"
        unfolding ki_ok_def F using m(2) w(2) b_ok b_set dom P(1) by (simp add: kept del: map_upd_Some_unfold fun_upd_apply)
      with m(1) Some True w(1) that show thesis by (simp add: ki_register_proof_def Let_def)
    next
      case False
      have "\<forall>s' p'. pm_get (ki_witnesses ki) s' = Some p' \<longrightarrow> least_proof (P(p \<mapsto> s)) s' p'"
        using least_proof_same [OF s(2) new] other least Some False by (metis option.inject)
      then have "ki_ok h (P(p \<mapsto> s)) D (F(s \<mapsto> a)) ?ki"
        unfolding ki_ok_def F using m(2) w_ok b_ok b_set dom P w_dom by (simp add: kept del: map_upd_Some_unfold fun_upd_apply)
      with m(1) Some False that show thesis by (simp add: ki_register_proof_def Let_def)
    qed
  next
    case None
    then have s: "s \<notin> ran P" "F s = None" using w_dom F_dom by blast+
    obtain w where w: "pm_insert h (ki_witnesses ki) s p = Some (pm_get (ki_witnesses ki) s = None, w)" "pm_ok h w"
      "pm_get w = (if pm_get (ki_witnesses ki) s = None then (pm_get (ki_witnesses ki))(s \<mapsto> p) else pm_get (ki_witnesses ki))"
      using w_ok keys(2) by (rule pm.insertE)
    obtain ps where ps: "projections h p a = Some ps" "\<forall>t\<in>snd ` set ps. key_ok t" using projections_Some [OF a h] by blast
    let ?kw = "?ki\<lparr>ki_witnesses := w\<rparr>"
    obtain ki' where ki': "insert_projections h s ps ?kw = Some ki'" "\<forall>k. buckets_ok h (ki_buckets k ki')"
      "ki_artifacts ki' = m" "ki_witnesses ki' = w"
      "\<forall>k t. bucket_set (ki_buckets k ki') t = bucket_set (ki_buckets k ki) t \<union> (if (k, t) \<in> set ps then {s} else {})"
      using insert_projections_ok [of h ?kw s ps] b_ok keys(2) ps(2) by (auto simp: kept)
    have "\<forall>s' p'. pm_get w s' = Some p' \<longrightarrow> least_proof (P(p \<mapsto> s)) s' p'"
      using least_proof_first [OF s(1)] other least None by (auto simp: w(3))
    moreover have "dom (pm_get w) = ran (P(p \<mapsto> s))" using w(3) w_dom ran None by simp
    moreover have "dom (F(s \<mapsto> a)) = ran (P(p \<mapsto> s))" using F_dom ran by simp
    moreover have "\<forall>k t s'. s' \<in> bucket_set (ki_buckets k ki') t \<longleftrightarrow>
        (\<exists>b qs. (F(s \<mapsto> a)) s' = Some b \<and> projections h [] b = Some qs \<and> (k, t) \<in> set qs)"
      using ki'(5) b_set s(2) ps(1) projections_independent [of h "[]" a p] by (auto split: if_splits)
    ultimately have "ki_ok h (P(p \<mapsto> s)) D (F(s \<mapsto> a)) ki'"
      unfolding ki_ok_def using m(2) w(2) ki'(2-4) dom by (simp del: map_upd_Some_unfold fun_upd_apply)
    with m(1) None w(1) ps(1) ki'(1) that show thesis by (simp add: ki_register_proof_def Let_def)
  qed
qed

end
