(* ===== verification/Artifact_State.thy ===== *)
theory Artifact_State
  imports Knowledge_Index
begin

text \<open>
  The resident context of checked artifacts, \<open>naome-checker/src/state.rs\<close>, and the registration rules of
  \<open>state/registration.rs\<close> that the resident and the disk-backed contexts share: four persistent maps (proof to
  derivation, derivation to statement, statement to conclusion, definition to certificate) with the structural
  index beside them. Reachable states are built from the empty one by registering values that the checker
  returned for some reachable state; every conclusion such a state hands out is a theorem of ZFC.
  \<open>debug_assert\<close> is modelled as in a build with debug assertions, as a panic.
\<close>

section \<open>State\<close>

record stored_statement =
  ss_conclusion :: node
  ss_canonical_length :: nat

record stored_definition =
  sd_certificate :: definition_certificate

record artifact_state =
  as_proofs :: "derivation_id persistent_map"
  as_derivations :: "statement_id persistent_map"
  as_statements :: "stored_statement persistent_map"
  as_definitions :: "stored_definition persistent_map"
  as_question_index :: knowledge_index

definition as_new :: artifact_state where
  "as_new = \<lparr>as_proofs = pm_new, as_derivations = pm_new, as_statements = pm_new, as_definitions = pm_new,
     as_question_index = ki_new\<rparr>"

definition as_snapshot_id :: "hash \<Rightarrow> artifact_state \<Rightarrow> bytes" where
  "as_snapshot_id sha256 st =
     sha256 (ascii ''naome:checked-artifact-snapshot:v1'' @ [0] @ pm_fingerprint (as_proofs st) @ pm_fingerprint (as_definitions st))"

definition contains_proof :: "artifact_state \<Rightarrow> proof_id \<Rightarrow> bool" where
  "contains_proof st proof_id = pm_contains_key (as_proofs st) proof_id"

definition contains_derivation :: "artifact_state \<Rightarrow> derivation_id \<Rightarrow> bool" where
  "contains_derivation st derivation_id = pm_contains_key (as_derivations st) derivation_id"

definition contains_statement :: "artifact_state \<Rightarrow> statement_id \<Rightarrow> bool" where
  "contains_statement st statement_id = pm_contains_key (as_statements st) statement_id"

definition as_contains_definition :: "artifact_state \<Rightarrow> definition_id \<Rightarrow> bool" where
  "as_contains_definition st definition_id = pm_contains_key (as_definitions st) definition_id"

definition proof_conclusions :: "artifact_state \<Rightarrow> (proof_id \<times> statement_id \<times> node \<times> nat) list option" where
  "proof_conclusions st =
     those (map (\<lambda>(proof_id, derivation_id).
       Option.bind (pm_get (as_derivations st) derivation_id) (\<lambda>statement_id.
       map_option (\<lambda>statement. (proof_id, statement_id, ss_conclusion statement, ss_canonical_length statement))
         (pm_get (as_statements st) statement_id))) (pm_entries (as_proofs st)))"

definition definition_ids :: "artifact_state \<Rightarrow> definition_id list" where
  "definition_ids st = map fst (pm_entries (as_definitions st))"

definition as_definition_kind :: "artifact_state \<Rightarrow> definition_id \<Rightarrow> definition_kind option" where
  "as_definition_kind st definition_id = map_option (\<lambda>d. dc_kind (sd_certificate d)) (pm_get (as_definitions st) definition_id)"

definition as_definition_certificate :: "artifact_state \<Rightarrow> definition_id \<Rightarrow> definition_certificate option" where
  "as_definition_certificate st i = map_option sd_certificate (pm_get (as_definitions st) i)"

text \<open>The outer option of \<open>resolve_proof\<close> is the failure of one of its two \<open>expect\<close>s.\<close>

definition resolve_proof :: "artifact_state \<Rightarrow> proof_id \<Rightarrow> proof_header option option" where
  "resolve_proof st proof_id =
     (case pm_get (as_proofs st) proof_id of
        None \<Rightarrow> Some None
      | Some derivation_id \<Rightarrow>
          Option.bind (pm_get (as_derivations st) derivation_id) (\<lambda>statement_id.
          map_option (\<lambda>statement. Some \<lparr>ph_derivation = derivation_id, ph_statement = statement_id,
              ph_length = ss_canonical_length statement\<rparr>)
            (pm_get (as_statements st) statement_id)))"

definition known_statement :: "artifact_state \<Rightarrow> statement_id \<Rightarrow> (proof_id \<times> node \<times> nat) option" where
  "known_statement st statement_id =
     Option.bind (pm_get (as_statements st) statement_id) (\<lambda>stored.
     map_option (\<lambda>witness. (witness, ss_conclusion stored, ss_canonical_length stored))
       (ki_witness (as_question_index st) statement_id))"

definition resolve_statement :: "artifact_state \<Rightarrow> statement_id \<Rightarrow> node option" where
  "resolve_statement st statement_id = map_option ss_conclusion (pm_get (as_statements st) statement_id)"

definition as_resolve_definition :: "artifact_state \<Rightarrow> definition_resolver" where
  "as_resolve_definition st definition_id =
     Ok (map_option (\<lambda>d. dc_resolution (sd_certificate d)) (pm_get (as_definitions st) definition_id))"

section \<open>The state as a context\<close>

definition as_statement_formula :: "artifact_state \<Rightarrow> statement_id \<Rightarrow> nat \<Rightarrow> (context_error, node option) outcome" where
  "as_statement_formula st i maximum =
     (case known_statement st i of
        None \<Rightarrow> Ok None
      | Some (_, _, len) \<Rightarrow> if maximum < len then Err ContextLimit else Ok (resolve_statement st i))"

definition state_view :: "hash \<Rightarrow> artifact_state \<Rightarrow> context_view" where
  "state_view sha256 st = \<lparr>
     cv_snapshot_id = as_snapshot_id sha256 st,
     cv_contains_artifact = (\<lambda>i. Ok (ki_contains_artifact (as_question_index st) i)),
     cv_proof_header = (\<lambda>i. expect (resolve_proof st i)),
     cv_statement_header = (\<lambda>i. Ok (map_option (\<lambda>(proof, _, len). \<lparr>sh_proof = proof, sh_length = len\<rparr>) (known_statement st i))),
     cv_statement_formula = as_statement_formula st,
     cv_bucket = (\<lambda>kind target. Ok (map Ok (ki_bucket kind (as_question_index st) target))),
     cv_definition_certificate = (\<lambda>i. Ok (as_definition_certificate st i)),
     cv_resolve_definition = as_resolve_definition st\<rparr>"

record registration_view =
  rv_context :: context_view
  rv_has_proof :: "proof_id \<Rightarrow> (context_error, bool) outcome"
  rv_derivation_statement :: "derivation_id \<Rightarrow> (context_error, statement_id option) outcome"

definition state_registration :: "hash \<Rightarrow> artifact_state \<Rightarrow> registration_view" where
  "state_registration sha256 st = \<lparr>
     rv_context = state_view sha256 st,
     rv_has_proof = (\<lambda>i. Ok (pm_contains_key (as_proofs st) i)),
     rv_derivation_statement = (\<lambda>i. Ok (pm_get (as_derivations st) i))\<rparr>"

section \<open>Registration rules\<close>

datatype artifact_state_error =
    StateContext context_error
  | DuplicateProof proof_id
  | DuplicateDerivation derivation_id
  | ProofIdentityCollision proof_id
  | DerivationIdentityCollision derivation_id
  | StatementIdentityCollision statement_id
  | DuplicateDefinition definition_id
  | DefinitionIdentityCollision definition_id
  | MissingProofDependency proof_id
  | MissingDefinitionDependency definition_id
  | MissingDefinitionObligation statement_id

definition same_statement :: "context_view \<Rightarrow> checked_proof \<Rightarrow> (artifact_state_error, unit) outcome" where
  "same_statement state proof =
     and_then (map_err StateContext (cv_statement_formula state (cp_statement_id proof) CHECKER_MAX_FORMULA_WORK_BYTES)) (\<lambda>found.
       case found of
         None \<Rightarrow> Ok ()
       | Some formula \<Rightarrow>
           if formula \<noteq> cp_conclusion proof then Err (StatementIdentityCollision (cp_statement_id proof)) else Ok ())"

primrec validate_definitions :: "context_view \<Rightarrow> definition_id list \<Rightarrow> (artifact_state_error, unit) outcome" where
  "validate_definitions state [] = Ok ()"
| "validate_definitions state (definition_id # rest) =
     and_then (map_err StateContext (cv_definition_kind state definition_id)) (\<lambda>found.
       if found = None then Err (MissingDefinitionDependency definition_id) else validate_definitions state rest)"

primrec validate_dependencies :: "registration_view \<Rightarrow> proof_step list \<Rightarrow> (artifact_state_error, unit) outcome" where
  "validate_dependencies state [] = Ok ()"
| "validate_dependencies state (step # steps) =
     and_then (case step of
         ProofReference proof_id \<Rightarrow>
           and_then (map_err StateContext (rv_has_proof state proof_id)) (\<lambda>found.
             if found then Ok () else Err (MissingProofDependency proof_id))
       | _ \<Rightarrow> Ok ()) (\<lambda>_.
     and_then (validate_definitions (rv_context state) (step_definition_references step)) (\<lambda>_.
       validate_dependencies state steps))"

definition validate_registration :: "registration_view \<Rightarrow> checked_proof \<Rightarrow> bool \<Rightarrow> (artifact_state_error, unit) outcome" where
  "validate_registration state proof aliases =
     and_then (map_err StateContext (cv_proof_header (rv_context state) (cp_proof_id proof))) (\<lambda>found.
     case found of
       Some header \<Rightarrow>
         if ph_derivation header \<noteq> cp_derivation_id proof \<or> ph_statement header \<noteq> cp_statement_id proof
         then Err (ProofIdentityCollision (cp_proof_id proof))
         else and_then (same_statement (rv_context state) proof) (\<lambda>_. Err (DuplicateProof (cp_proof_id proof)))
     | None \<Rightarrow>
         and_then (validate_dependencies state (cert_steps (nf_certificate (cp_normal_form proof)))) (\<lambda>_.
         and_then (map_err StateContext (rv_derivation_statement state (cp_derivation_id proof))) (\<lambda>found.
         case found of
           Some statement \<Rightarrow>
             if statement \<noteq> cp_statement_id proof then Err (DerivationIdentityCollision (cp_derivation_id proof))
             else and_then (same_statement (rv_context state) proof) (\<lambda>_.
               if aliases then Ok () else Err (DuplicateDerivation (cp_derivation_id proof)))
         | None \<Rightarrow> same_statement (rv_context state) proof)))"

definition validate_definition :: "context_view \<Rightarrow> checked_definition \<Rightarrow> (artifact_state_error, unit) outcome" where
  "validate_definition state cd =
     and_then (map_err StateContext (cv_definition_certificate state (cd_definition_id cd))) (\<lambda>found.
     case found of
       Some existing \<Rightarrow>
         if dc_kind existing = dc_kind (cd_certificate cd) \<and> dc_body existing = dc_body (cd_certificate cd)
         then Err (DuplicateDefinition (cd_definition_id cd))
         else Err (DefinitionIdentityCollision (cd_definition_id cd))
     | None \<Rightarrow>
         (case cd_obligation cd of
            None \<Rightarrow> Ok ()
          | Some obligation \<Rightarrow>
              and_then (map_err StateContext
                  (cv_statement_formula state (ob_statement_id obligation) CHECKER_MAX_FORMULA_WORK_BYTES)) (\<lambda>selected.
              case selected of
                None \<Rightarrow> Err (MissingDefinitionObligation (ob_statement_id obligation))
              | Some selected \<Rightarrow>
                  if selected \<noteq> ob_conclusion obligation then Err (StatementIdentityCollision (ob_statement_id obligation))
                  else Ok ())))"

section \<open>Registration\<close>

definition debug_insert :: "hash \<Rightarrow> 'v persistent_map \<Rightarrow> key256 \<Rightarrow> 'v \<Rightarrow> ('e, 'v persistent_map) outcome" where
  "debug_insert sha256 m key v =
     and_then (expect (pm_insert sha256 m key v)) (\<lambda>(inserted, m). if inserted then Ok m else Panic)"

definition validate_proof_registration :: "hash \<Rightarrow> artifact_state \<Rightarrow> checked_proof \<Rightarrow> (artifact_state_error, unit) outcome" where
  "validate_proof_registration sha256 st proof = validate_registration (state_registration sha256 st) proof False"

definition register_proof :: "hash \<Rightarrow> artifact_state \<Rightarrow> checked_proof \<Rightarrow> (artifact_state_error, bytes \<times> artifact_state) outcome" where
  "register_proof sha256 st proof =
     and_then (validate_proof_registration sha256 st proof) (\<lambda>_.
     and_then (expect (ki_register_proof sha256 (cp_proof_id proof) (cp_statement_id proof) (cp_conclusion proof) (as_question_index st))) (\<lambda>index.
     and_then (expect (pm_insert sha256 (as_statements st) (cp_statement_id proof)
         \<lparr>ss_conclusion = cp_conclusion proof, ss_canonical_length = cp_canonical_conclusion_length proof\<rparr>)) (\<lambda>(_, statements).
     and_then (debug_insert sha256 (as_derivations st) (cp_derivation_id proof) (cp_statement_id proof)) (\<lambda>derivations.
     and_then (debug_insert sha256 (as_proofs st) (cp_proof_id proof) (cp_derivation_id proof)) (\<lambda>proofs.
     and_then (expect (nf_canonical_bytes (cp_normal_form proof))) (\<lambda>bs.
       Ok (bs, st\<lparr>as_question_index := index, as_statements := statements, as_derivations := derivations, as_proofs := proofs\<rparr>)))))))"

definition register_proof_for_replication ::
  "hash \<Rightarrow> artifact_state \<Rightarrow> checked_proof \<Rightarrow> (artifact_state_error, bytes \<times> artifact_state) outcome" where
  "register_proof_for_replication sha256 st proof =
     (case validate_proof_registration sha256 st proof of
        Err (DuplicateDerivation _) \<Rightarrow>
          and_then (expect (ki_register_proof sha256 (cp_proof_id proof) (cp_statement_id proof) (cp_conclusion proof) (as_question_index st))) (\<lambda>index.
          and_then (debug_insert sha256 (as_proofs st) (cp_proof_id proof) (cp_derivation_id proof)) (\<lambda>proofs.
          and_then (expect (nf_canonical_bytes (cp_normal_form proof))) (\<lambda>bs.
            Ok (bs, st\<lparr>as_question_index := index, as_proofs := proofs\<rparr>))))
      | Err error \<Rightarrow> Err error
      | Ok _ \<Rightarrow> register_proof sha256 st proof
      | Panic \<Rightarrow> Panic)"

definition register_proof_for_verification ::
  "hash \<Rightarrow> artifact_state \<Rightarrow> checked_proof \<Rightarrow> (artifact_state_error, bytes \<times> artifact_state) outcome" where
  "register_proof_for_verification sha256 st proof = register_proof_for_replication sha256 st proof"

definition validate_definition_registration :: "hash \<Rightarrow> artifact_state \<Rightarrow> checked_definition \<Rightarrow> (artifact_state_error, unit) outcome" where
  "validate_definition_registration sha256 st cd = validate_definition (state_view sha256 st) cd"

definition register_definition :: "hash \<Rightarrow> artifact_state \<Rightarrow> checked_definition \<Rightarrow> (artifact_state_error, artifact_state) outcome" where
  "register_definition sha256 st cd =
     and_then (validate_definition_registration sha256 st cd) (\<lambda>_.
     and_then (expect (ki_register_definition sha256 (cd_definition_id cd) (as_question_index st))) (\<lambda>index.
     and_then (debug_insert sha256 (as_definitions st) (cd_definition_id cd) \<lparr>sd_certificate = cd_certificate cd\<rparr>) (\<lambda>definitions.
       Ok (st\<lparr>as_question_index := index, as_definitions := definitions\<rparr>))))"

section \<open>Checking without a context\<close>

definition check :: "hash \<Rightarrow> proof_certificate \<Rightarrow> (check_error, node) outcome" where
  "check sha256 certificate =
     map_ok fst (check_with_canonical_conclusion sha256 certificate (state_view sha256 as_new) OmitDerivation)"

definition normalize_and_check :: "hash \<Rightarrow> proof_certificate \<Rightarrow> (check_error, checked_proof) outcome" where
  "normalize_and_check sha256 certificate = normalize_and_check_with_state sha256 certificate (state_view sha256 as_new)"

end
