(* ===== verification/Artifact_Soundness.thy ===== *)
theory Artifact_Soundness
  imports Artifact_State
begin

text \<open>
  The invariant of the resident context and what it gives: every state reachable by registering checked values
  is a sound context for further checking, registration cannot panic, and its outcome is a function of the
  abstract contents of the state (which proof establishes which statement, which definitions are present).
\<close>

section \<open>Abstract contents and invariant\<close>

definition proof_statements :: "artifact_state \<Rightarrow> proof_id \<rightharpoonup> statement_id" where
  "proof_statements st p = Option.bind (pm_get (as_proofs st) p) (pm_get (as_derivations st))"

definition conclusions :: "artifact_state \<Rightarrow> statement_id \<rightharpoonup> node" where
  "conclusions st s = map_option ss_conclusion (pm_get (as_statements st) s)"

definition definitions :: "artifact_state \<Rightarrow> definition_id \<rightharpoonup> definition_certificate" where
  "definitions st d = map_option sd_certificate (pm_get (as_definitions st) d)"

definition statement_ok :: "hash \<Rightarrow> statement_id \<Rightarrow> stored_statement \<Rightarrow> bool" where
  "statement_ok h s ss \<longleftrightarrow>
     provable zfc_axioms (ss_conclusion ss) \<and> is_closed (ss_conclusion ss) \<and> wire_admitted FORMULA_MAX_NODES (ss_conclusion ss) \<and>
     ss_canonical_length ss = length (wire (ss_conclusion ss)) \<and> of_canonical_formula h (wire (ss_conclusion ss)) = Some s"

definition stored_ok :: "hash \<Rightarrow> (statement_id \<rightharpoonup> node) \<Rightarrow> definition_id \<Rightarrow> definition_certificate \<Rightarrow> bool" where
  "stored_ok h F d c \<longleftrightarrow> certificate_ok h c \<and> d = dc_id c \<and>
     (\<forall>n. dc_kind c = FunctionKind n \<longrightarrow>
        (\<exists>a b s. dc_body c = lift_node a \<and> well_formed a \<and> function_obligation n a = Some b \<and> F s = Some b))"

definition state_ok :: "hash \<Rightarrow> artifact_state \<Rightarrow> bool" where
  "state_ok h st \<longleftrightarrow>
     pm_ok h (as_proofs st) \<and> pm_ok h (as_derivations st) \<and> pm_ok h (as_statements st) \<and> pm_ok h (as_definitions st) \<and>
     (\<forall>p d. pm_get (as_proofs st) p = Some d \<longrightarrow> pm_get (as_derivations st) d \<noteq> None) \<and>
     (\<forall>d s. pm_get (as_derivations st) d = Some s \<longrightarrow> pm_get (as_statements st) s \<noteq> None) \<and>
     (\<forall>s ss. pm_get (as_statements st) s = Some ss \<longrightarrow> statement_ok h s ss) \<and>
     (\<forall>d c. definitions st d = Some c \<longrightarrow> stored_ok h (conclusions st) d c) \<and>
     ki_ok h (proof_statements st) (dom (definitions st)) (conclusions st) (as_question_index st)"

lemma state_ok_new: "state_ok h as_new"
proof -
  have "proof_statements as_new = Map.empty" "conclusions as_new = Map.empty" "definitions as_new = Map.empty"
    by (simp_all add: fun_eq_iff proof_statements_def conclusions_def definitions_def as_new_def)
  then show ?thesis using ki_ok_new [of h] by (simp add: state_ok_def) (simp add: as_new_def)
qed

lemma dom_definitions: "dom (definitions st) = dom (pm_get (as_definitions st))"
  by (auto simp: definitions_def)

lemma proof_statements_None: "state_ok h st \<Longrightarrow> proof_statements st p = None \<longleftrightarrow> pm_get (as_proofs st) p = None"
  by (cases "pm_get (as_proofs st) p") (auto simp: state_ok_def proof_statements_def)

lemma known_statement_iff:
  assumes "state_ok h st"
  shows "known_statement st s = None \<longleftrightarrow> conclusions st s = None"
proof -
  have "dom (pm_get (ki_witnesses (as_question_index st))) = dom (conclusions st)"
    using assms by (simp add: state_ok_def ki_ok_def)
  then have "ki_witness (as_question_index st) s = None \<longleftrightarrow> conclusions st s = None"
    unfolding ki_witness_def by (metis domIff)
  then show ?thesis by (auto simp: known_statement_def conclusions_def bind_eq_None_conv)
qed

lemma wire_within_work: "wire_admitted FORMULA_MAX_NODES a \<Longrightarrow> length (wire a) \<le> CHECKER_MAX_FORMULA_WORK_BYTES"
  using length_wire_limit [of a]
  by (simp add: wire_admitted_def FORMULA_MAX_BYTES_def CHECKER_MAX_FORMULA_WORK_BYTES_def CERTIFICATE_MAX_BYTES_def)

text \<open>What the view hands out is what the state holds, whenever the caller admits its length.\<close>

lemma as_statement_formula_eq:
  assumes "state_ok h st"
  shows "as_statement_formula st s n =
    (case conclusions st s of None \<Rightarrow> Ok None | Some a \<Rightarrow> if n < length (wire a) then Err ContextLimit else Ok (Some a))"
proof (cases "conclusions st s")
  case None
  with known_statement_iff [OF assms, of s] show ?thesis by (simp add: as_statement_formula_def)
next
  case (Some a)
  then obtain ss where ss: "pm_get (as_statements st) s = Some ss" "ss_conclusion ss = a" by (auto simp: conclusions_def)
  then have "ss_canonical_length ss = length (wire a)" using assms by (auto simp: state_ok_def statement_ok_def)
  moreover obtain w where "ki_witness (as_question_index st) s = Some w"
    using known_statement_iff [OF assms, of s] Some ss by (auto simp: known_statement_def)
  ultimately show ?thesis using Some ss by (simp add: as_statement_formula_def known_statement_def resolve_statement_def)
qed

lemma statement_formula_within_work:
  assumes "state_ok h st"
  shows "as_statement_formula st s CHECKER_MAX_FORMULA_WORK_BYTES = Ok (conclusions st s)"
proof (cases "conclusions st s")
  case (Some a)
  then have "wire_admitted FORMULA_MAX_NODES a" using assms by (auto simp: conclusions_def state_ok_def statement_ok_def)
  with wire_within_work Some as_statement_formula_eq [OF assms] show ?thesis by (simp add: not_less)
qed (simp add: as_statement_formula_eq [OF assms])

lemma resolve_proof_eq:
  assumes "state_ok h st"
  shows "resolve_proof st p =
    Some (case pm_get (as_proofs st) p of None \<Rightarrow> None
      | Some d \<Rightarrow> Some \<lparr>ph_derivation = d, ph_statement = the (proof_statements st p),
          ph_length = length (wire (the (conclusions st (the (proof_statements st p)))))\<rparr>)"
proof (cases "pm_get (as_proofs st) p")
  case (Some d)
  then obtain s ss where "pm_get (as_derivations st) d = Some s" "pm_get (as_statements st) s = Some ss"
    using assms by (fastforce simp: state_ok_def)
  moreover from this have "ss_canonical_length ss = length (wire (ss_conclusion ss))" using assms by (auto simp: state_ok_def statement_ok_def)
  ultimately show ?thesis using Some by (simp add: resolve_proof_def proof_statements_def conclusions_def)
qed (simp add: resolve_proof_def)

section \<open>The state is a sound context\<close>

locale checked_state =
  fixes h :: hash and st :: artifact_state
  assumes ok: "state_ok h st"

sublocale checked_state \<subseteq> sound_context "state_view h st"
proof
  fix i n a
  assume "cv_statement_formula (state_view h st) i n = Ok (Some a)"
  then have "conclusions st i = Some a"
    by (simp add: state_view_def as_statement_formula_eq [OF ok] split: option.splits if_splits)
  then obtain ss where "pm_get (as_statements st) i = Some ss" "ss_conclusion ss = a" by (auto simp: conclusions_def)
  then show "provable zfc_axioms a" "wire_admitted FORMULA_MAX_NODES a" using ok by (auto simp: state_ok_def statement_ok_def)
next
  fix p i n d
  show "cv_proof_header (state_view h st) p \<noteq> Panic" by (simp add: state_view_def resolve_proof_eq [OF ok])
  show "cv_statement_formula (state_view h st) i n \<noteq> Panic"
    by (simp add: state_view_def as_statement_formula_eq [OF ok] split: option.split)
  show "cv_resolve_definition (state_view h st) d \<noteq> Panic" by (simp add: state_view_def as_resolve_definition_def)
next
  fix p header
  assume "cv_proof_header (state_view h st) p = Ok (Some header)"
  then obtain d where "pm_get (as_proofs st) p = Some d" "ph_derivation header = d"
    by (auto simp: state_view_def resolve_proof_eq [OF ok] split: option.splits)
  then show "key_ok (ph_derivation header)" using ok by (fastforce simp: state_ok_def intro: pm_get_key_ok)
qed

interpretation empty_state: checked_state h as_new for h :: hash
  by unfold_locales (rule state_ok_new)

section \<open>Outcomes of validation\<close>

lemma same_statement_eq:
  assumes "state_ok h st"
  shows "same_statement (state_view h st) cp =
    (if conclusions st (cp_statement_id cp) \<in> {None, Some (cp_conclusion cp)} then Ok ()
     else Err (StatementIdentityCollision (cp_statement_id cp)))"
  by (simp add: same_statement_def state_view_def statement_formula_within_work [OF assms] split: option.split)

lemma contains_definition_iff: "as_contains_definition st d \<longleftrightarrow> definitions st d \<noteq> None"
  by (simp add: as_contains_definition_def pm_contains_key_def definitions_def)

lemma contains_proof_iff: "state_ok h st \<Longrightarrow> contains_proof st p \<longleftrightarrow> proof_statements st p \<noteq> None"
  by (simp add: contains_proof_def pm_contains_key_def proof_statements_None)

text \<open>
  What the steps of a certificate cite, in the order of the steps, and within a step the cited proof before the
  definitions of its formulas; each citation as the error that reports it when it is absent. The first absence is
  the first citation that the abstract contents do not hold.
\<close>

definition step_citations :: "proof_step \<Rightarrow> artifact_state_error list" where
  "step_citations step =
     map MissingProofDependency (step_proof_reference step) @ map MissingDefinitionDependency (step_definition_references step)"

definition citations :: "checked_proof \<Rightarrow> artifact_state_error list" where
  "citations cp = concat (map step_citations (cert_steps (nf_certificate (cp_normal_form cp))))"

definition absent_citation :: "artifact_state \<Rightarrow> artifact_state_error \<Rightarrow> bool" where
  "absent_citation st e \<longleftrightarrow>
     (case e of MissingProofDependency p \<Rightarrow> proof_statements st p = None
      | MissingDefinitionDependency d \<Rightarrow> definitions st d = None | _ \<Rightarrow> False)"

definition first_absence :: "artifact_state \<Rightarrow> checked_proof \<Rightarrow> artifact_state_error option" where
  "first_absence st cp = find (absent_citation st) (citations cp)"

definition refuse :: "'e option \<Rightarrow> ('e, unit) outcome" where
  "refuse e = (case e of None \<Rightarrow> Ok () | Some e \<Rightarrow> Err e)"

lemma refuse_simps [simp]: "refuse None = Ok ()" "refuse (Some e) = Err e" by (simp_all add: refuse_def)

lemma refuse_find_append: "refuse (find P (xs @ ys)) = and_then (refuse (find P xs)) (\<lambda>_. refuse (find P ys))"
  by (induction xs) simp_all

lemma first_absence_None: "first_absence st cp = None \<longleftrightarrow> (\<forall>e\<in>set (citations cp). \<not> absent_citation st e)"
  by (auto simp: first_absence_def find_None_iff)

lemma first_absence_not_duplicate [simp]: "first_absence st cp \<noteq> Some (DuplicateDerivation d)"
proof
  assume "first_absence st cp = Some (DuplicateDerivation d)"
  then have "absent_citation st (DuplicateDerivation d)" by (auto simp: first_absence_def find_Some_iff)
  then show False by (simp add: absent_citation_def)
qed

lemma validate_definitions_refuse:
  "validate_definitions (state_view h st) ds = refuse (find (absent_citation st) (map MissingDefinitionDependency ds))"
proof (induction ds)
  case (Cons d ds)
  have "cv_definition_kind (state_view h st) d = Ok (map_option dc_kind (definitions st d))"
    by (simp add: cv_definition_kind_def state_view_def as_definition_certificate_def definitions_def)
  with Cons.IH show ?case by (cases "definitions st d") (simp_all add: absent_citation_def)
qed simp

lemma validate_step_reference:
  assumes "state_ok h st"
  shows "(case step of
      ProofReference p \<Rightarrow> and_then (map_err StateContext (rv_has_proof (state_registration h st) p))
        (\<lambda>found. if found then Ok () else Err (MissingProofDependency p))
    | _ \<Rightarrow> Ok ()) = refuse (find (absent_citation st) (map MissingProofDependency (step_proof_reference step)))"
  using contains_proof_iff [OF assms]
  by (cases step) (simp_all add: state_registration_def contains_proof_def absent_citation_def)

declare validate_dependencies.simps(2) [simp del]

lemma validate_dependencies_refuse:
  assumes "state_ok h st"
  shows "validate_dependencies (state_registration h st) steps =
    refuse (find (absent_citation st) (concat (map step_citations steps)))"
proof (induction steps)
  case (Cons step steps)
  have view: "rv_context (state_registration h st) = state_view h st" by (simp add: state_registration_def)
  show ?case
    by (simp add: validate_dependencies.simps(2) view validate_step_reference [OF assms] validate_definitions_refuse
        Cons.IH step_citations_def refuse_find_append and_then_assoc)
qed simp

text \<open>The outcome of the proof rules, in the order in which the code applies them.\<close>

definition registration_outcome :: "artifact_state \<Rightarrow> checked_proof \<Rightarrow> (artifact_state_error, unit) outcome \<Rightarrow> bool" where
  "registration_outcome st cp r \<longleftrightarrow>
     (let known = proof_statements st (cp_proof_id cp); stored = conclusions st (cp_statement_id cp);
          derived = pm_get (as_derivations st) (cp_derivation_id cp);
          clash = stored \<notin> {None, Some (cp_conclusion cp)}
      in if known \<noteq> None then
           r = Err (if pm_get (as_proofs st) (cp_proof_id cp) \<noteq> Some (cp_derivation_id cp) \<or> known \<noteq> Some (cp_statement_id cp)
                    then ProofIdentityCollision (cp_proof_id cp)
                    else if clash then StatementIdentityCollision (cp_statement_id cp) else DuplicateProof (cp_proof_id cp))
         else if first_absence st cp \<noteq> None then r = Err (the (first_absence st cp))
         else if derived \<notin> {None, Some (cp_statement_id cp)} then r = Err (DerivationIdentityCollision (cp_derivation_id cp))
         else if clash then r = Err (StatementIdentityCollision (cp_statement_id cp))
         else if derived \<noteq> None then r = Err (DuplicateDerivation (cp_derivation_id cp))
         else r = Ok ())"

lemma validate_outcome:
  assumes "state_ok h st"
  shows "registration_outcome st cp (validate_proof_registration h st cp)"
proof -
  let ?p = "cp_proof_id cp"
  have rv: "rv_context (state_registration h st) = state_view h st"
    "rv_derivation_statement (state_registration h st) d = Ok (pm_get (as_derivations st) d)" for d
    by (simp_all add: state_registration_def)
  have header: "cv_proof_header (state_view h st) ?p = Ok (the (resolve_proof st ?p))"
    by (simp add: state_view_def resolve_proof_eq [OF assms])
  show ?thesis
  proof (cases "pm_get (as_proofs st) ?p")
    case (Some d)
    then have "proof_statements st ?p \<noteq> None" using proof_statements_None [OF assms, of ?p] by simp
    with Some show ?thesis
      by (auto simp: registration_outcome_def validate_proof_registration_def validate_registration_def rv header
          resolve_proof_eq [OF assms] same_statement_eq [OF assms])
  next
    case None
    then have new: "proof_statements st ?p = None" using proof_statements_None [OF assms, of ?p] by simp
    let ?steps = "cert_steps (nf_certificate (cp_normal_form cp))"
    have run: "validate_proof_registration h st cp =
        and_then (validate_dependencies (state_registration h st) ?steps) (\<lambda>_.
          case pm_get (as_derivations st) (cp_derivation_id cp) of
            Some statement \<Rightarrow>
              if statement \<noteq> cp_statement_id cp then Err (DerivationIdentityCollision (cp_derivation_id cp))
              else and_then (same_statement (state_view h st) cp) (\<lambda>_. Err (DuplicateDerivation (cp_derivation_id cp)))
          | None \<Rightarrow> same_statement (state_view h st) cp)"
      using None unfolding validate_proof_registration_def validate_registration_def rv by (simp add: header resolve_proof_eq [OF assms])
    have "validate_dependencies (state_registration h st) ?steps = refuse (first_absence st cp)"
      by (simp add: validate_dependencies_refuse [OF assms] first_absence_def citations_def)
    with new run show ?thesis
      by (cases "first_absence st cp")
        (auto simp: registration_outcome_def Let_def same_statement_eq [OF assms] split: option.split)
  qed
qed

section \<open>Registration keeps the invariant\<close>

lemma debug_insert_ok:
  assumes "pm_ok h m" "key_ok k" "pm_get m k = None"
  obtains m' where "debug_insert h m k v = Ok m'" "pm_ok h m'" "pm_get m' = (pm_get m)(k \<mapsto> v)"
  by (rule pm.insertE [OF assms(1,2), of v]) (use assms(3) that in \<open>auto simp: debug_insert_def\<close>)

lemma stored_ok_mono: "stored_ok h F d c \<Longrightarrow> F \<subseteq>\<^sub>m F' \<Longrightarrow> stored_ok h F' d c"
  unfolding stored_ok_def map_le_def by (metis domI)

lemma conclusions_extend:
  assumes "F s \<in> {None, Some a}"
  shows "F \<subseteq>\<^sub>m F(s \<mapsto> a)"
  using assms by (auto simp: map_le_def)

lemma nf_bytes_ok:
  "checked_proof_ok h cp \<Longrightarrow> nf_canonical_bytes (cp_normal_form cp) = Some (certificate_wire (cert_steps (nf_certificate (cp_normal_form cp))))"
  unfolding nf_canonical_bytes_def checked_proof_ok_def by (blast intro: to_canonical_bytes_ok)

text \<open>The effect of an accepted proof on the abstract contents: nothing present is replaced.\<close>

definition adds_proof :: "checked_proof \<Rightarrow> artifact_state \<Rightarrow> artifact_state \<Rightarrow> bool" where
  "adds_proof cp st st' \<longleftrightarrow>
     proof_statements st (cp_proof_id cp) = None \<and> conclusions st (cp_statement_id cp) \<in> {None, Some (cp_conclusion cp)} \<and>
     proof_statements st' = (proof_statements st)(cp_proof_id cp \<mapsto> cp_statement_id cp) \<and>
     conclusions st' = (conclusions st)(cp_statement_id cp \<mapsto> cp_conclusion cp) \<and>
     pm_get (as_proofs st') = (pm_get (as_proofs st))(cp_proof_id cp \<mapsto> cp_derivation_id cp) \<and>
     pm_get (as_derivations st') = (pm_get (as_derivations st))(cp_derivation_id cp \<mapsto> cp_statement_id cp) \<and>
     definitions st' = definitions st"

lemma index_register:
  assumes "state_ok h st" "checked_proof_ok h cp" "digest_ok h" "proof_statements st (cp_proof_id cp) = None"
    "conclusions st (cp_statement_id cp) \<in> {None, Some (cp_conclusion cp)}"
  obtains ki where "ki_register_proof h (cp_proof_id cp) (cp_statement_id cp) (cp_conclusion cp) (as_question_index st) = Some ki"
    "ki_ok h ((proof_statements st)(cp_proof_id cp \<mapsto> cp_statement_id cp)) (dom (definitions st))
       ((conclusions st)(cp_statement_id cp \<mapsto> cp_conclusion cp)) ki"
proof -
  have "ki_ok h (proof_statements st) (dom (definitions st)) (conclusions st) (as_question_index st)" using assms(1) by (simp add: state_ok_def)
  moreover have "key_ok (cp_proof_id cp)" "key_ok (cp_statement_id cp)" "wire_admitted FORMULA_MAX_NODES (cp_conclusion cp)"
    using assms(2) by (simp_all add: checked_proof_ok_def)
  moreover have "conclusions st (cp_statement_id cp) = None \<or> conclusions st (cp_statement_id cp) = Some (cp_conclusion cp)" using assms(5) by simp
  ultimately show thesis using ki_register_proof_ok assms(3,4) that by metis
qed

lemma statement_insert:
  assumes "state_ok h st" "checked_proof_ok h cp" "conclusions st (cp_statement_id cp) \<in> {None, Some (cp_conclusion cp)}"
  obtains b m where "pm_insert h (as_statements st) (cp_statement_id cp)
      \<lparr>ss_conclusion = cp_conclusion cp, ss_canonical_length = cp_canonical_conclusion_length cp\<rparr> = Some (b, m)" "pm_ok h m"
    "\<forall>s ss. pm_get m s = Some ss \<longrightarrow> statement_ok h s ss"
    "(\<lambda>s. map_option ss_conclusion (pm_get m s)) = (conclusions st)(cp_statement_id cp \<mapsto> cp_conclusion cp)"
proof -
  let ?s = "cp_statement_id cp"
  let ?ss = "\<lparr>ss_conclusion = cp_conclusion cp, ss_canonical_length = cp_canonical_conclusion_length cp\<rparr>"
  have "pm_ok h (as_statements st)" "key_ok ?s" using assms(1,2) by (simp_all add: state_ok_def checked_proof_ok_def)
  then obtain m where m: "pm_insert h (as_statements st) ?s ?ss = Some (pm_get (as_statements st) ?s = None, m)" "pm_ok h m"
    "pm_get m = (if pm_get (as_statements st) ?s = None then (pm_get (as_statements st))(?s \<mapsto> ?ss) else pm_get (as_statements st))"
    by (rule pm.insertE)
  have "statement_ok h ?s ?ss" using assms(2) by (simp add: checked_proof_ok_def statement_ok_def)
  then have "\<forall>s ss. pm_get m s = Some ss \<longrightarrow> statement_ok h s ss" using assms(1) m(3) by (auto simp: state_ok_def split: if_splits)
  moreover have "(\<lambda>s. map_option ss_conclusion (pm_get m s)) = (conclusions st)(?s \<mapsto> cp_conclusion cp)"
    using assms(3) m(3) by (auto simp: conclusions_def fun_eq_iff)
  ultimately show thesis using m(1,2) that by blast
qed

lemma register_proof_ok:
  assumes st: "state_ok h st" and cp: "checked_proof_ok h cp" and h: "digest_ok h" and valid: "validate_proof_registration h st cp = Ok ()"
  obtains st' where "register_proof h st cp = Ok (certificate_wire (cert_steps (nf_certificate (cp_normal_form cp))), st')"
    "state_ok h st'" "adds_proof cp st st'"
proof -
  let ?p = "cp_proof_id cp" and ?s = "cp_statement_id cp" and ?d = "cp_derivation_id cp"
  have new: "proof_statements st ?p = None" "pm_get (as_derivations st) ?d = None" "conclusions st ?s \<in> {None, Some (cp_conclusion cp)}"
    using validate_outcome [OF st, of cp] valid by (auto simp: registration_outcome_def Let_def split: if_splits)
  have p: "pm_get (as_proofs st) ?p = None" using new(1) proof_statements_None [OF st] by blast
  obtain ki where ki: "ki_register_proof h ?p ?s (cp_conclusion cp) (as_question_index st) = Some ki"
    "ki_ok h ((proof_statements st)(?p \<mapsto> ?s)) (dom (definitions st)) ((conclusions st)(?s \<mapsto> cp_conclusion cp)) ki"
    using index_register [OF st cp h new(1,3)] by blast
  obtain b m where m: "pm_insert h (as_statements st) ?s \<lparr>ss_conclusion = cp_conclusion cp, ss_canonical_length = cp_canonical_conclusion_length cp\<rparr> = Some (b, m)"
    "pm_ok h m" "\<forall>s ss. pm_get m s = Some ss \<longrightarrow> statement_ok h s ss"
    "(\<lambda>s. map_option ss_conclusion (pm_get m s)) = (conclusions st)(?s \<mapsto> cp_conclusion cp)"
    using statement_insert [OF st cp new(3)] by blast
  have ok: "pm_ok h (as_derivations st)" "pm_ok h (as_proofs st)" "pm_ok h (as_definitions st)" "key_ok ?d" "key_ok ?p"
    using st cp by (simp_all add: state_ok_def checked_proof_ok_def)
  obtain ds where ds: "debug_insert h (as_derivations st) ?d ?s = (Ok ds :: (artifact_state_error, _) outcome)" "pm_ok h ds"
    "pm_get ds = (pm_get (as_derivations st))(?d \<mapsto> ?s)" using ok(1,4) new(2) by (rule debug_insert_ok)
  obtain qs where qs: "debug_insert h (as_proofs st) ?p ?d = (Ok qs :: (artifact_state_error, _) outcome)" "pm_ok h qs"
    "pm_get qs = (pm_get (as_proofs st))(?p \<mapsto> ?d)" using ok(2,5) p by (rule debug_insert_ok)
  let ?st = "st\<lparr>as_question_index := ki, as_statements := m, as_derivations := ds, as_proofs := qs\<rparr>"
  have F: "conclusions ?st = (conclusions st)(?s \<mapsto> cp_conclusion cp)" using m(4) by (simp add: conclusions_def fun_eq_iff)
  have linked: "\<forall>p d. pm_get (as_proofs st) p = Some d \<longrightarrow> pm_get (as_derivations st) d \<noteq> None" using st by (simp add: state_ok_def)
  have P: "proof_statements ?st = (proof_statements st)(?p \<mapsto> ?s)"
  proof
    fix q
    have "pm_get (as_proofs st) q \<noteq> Some ?d" using linked new(2) by blast
    then show "proof_statements ?st q = ((proof_statements st)(?p \<mapsto> ?s)) q"
      using ds(3) qs(3) by (cases "pm_get (as_proofs st) q") (auto simp: proof_statements_def)
  qed
  have D: "definitions ?st = definitions st" by (simp add: definitions_def fun_eq_iff)
  have adds: "adds_proof cp st ?st" using F P D ds(3) qs(3) new by (simp add: adds_proof_def)
  have kept: "pm_get m s \<noteq> None \<longleftrightarrow> s = ?s \<or> pm_get (as_statements st) s \<noteq> None" for s
    using fun_cong [OF m(4), of s] by (cases "pm_get m s"; cases "pm_get (as_statements st) s") (auto simp: conclusions_def split: if_splits)
  have "state_ok h ?st"
    unfolding state_ok_def F P D
  proof (intro conjI)
    show "\<forall>p d. pm_get (as_proofs ?st) p = Some d \<longrightarrow> pm_get (as_derivations ?st) d \<noteq> None" using linked ds(3) qs(3) by simp
    show "\<forall>d s. pm_get (as_derivations ?st) d = Some s \<longrightarrow> pm_get (as_statements ?st) s \<noteq> None"
      using st ds(3) kept by (auto simp: state_ok_def split: if_splits)
    show "\<forall>d c. definitions st d = Some c \<longrightarrow> stored_ok h ((conclusions st)(?s \<mapsto> cp_conclusion cp)) d c"
      using st conclusions_extend [of "conclusions st", OF new(3)] unfolding state_ok_def by (blast intro: stored_ok_mono)
  qed (use ok ds(2) qs(2) m(2,3) ki(2) in simp_all)
  moreover have "register_proof h st cp = Ok (certificate_wire (cert_steps (nf_certificate (cp_normal_form cp))), ?st)"
    using valid ki(1) m(1) ds(1) qs(1) nf_bytes_ok [OF cp] by (simp add: register_proof_def)
  ultimately show thesis using adds that by blast
qed

lemma register_alias_ok:
  assumes st: "state_ok h st" and cp: "checked_proof_ok h cp" and h: "digest_ok h"
    and valid: "validate_proof_registration h st cp = Err (DuplicateDerivation d)"
  obtains st' where "register_proof_for_replication h st cp = Ok (certificate_wire (cert_steps (nf_certificate (cp_normal_form cp))), st')"
    "state_ok h st'" "adds_proof cp st st'"
proof -
  let ?p = "cp_proof_id cp" and ?s = "cp_statement_id cp" and ?d = "cp_derivation_id cp"
  have new: "proof_statements st ?p = None" "pm_get (as_derivations st) ?d = Some ?s" "conclusions st ?s \<in> {None, Some (cp_conclusion cp)}"
    using validate_outcome [OF st, of cp] valid by (auto simp: registration_outcome_def Let_def split: if_splits)
  have p: "pm_get (as_proofs st) ?p = None" using new(1) proof_statements_None [OF st] by blast
  have "conclusions st ?s \<noteq> None" using st new(2) by (auto simp: state_ok_def conclusions_def)
  then have s: "(conclusions st)(?s \<mapsto> cp_conclusion cp) = conclusions st" using new(3) by auto
  obtain ki where ki: "ki_register_proof h ?p ?s (cp_conclusion cp) (as_question_index st) = Some ki"
    "ki_ok h ((proof_statements st)(?p \<mapsto> ?s)) (dom (definitions st)) (conclusions st) ki"
    using index_register [OF st cp h new(1,3)] s by auto
  have ok: "pm_ok h (as_proofs st)" "key_ok ?p" using st cp by (simp_all add: state_ok_def checked_proof_ok_def)
  obtain qs where qs: "debug_insert h (as_proofs st) ?p ?d = (Ok qs :: (artifact_state_error, _) outcome)" "pm_ok h qs"
    "pm_get qs = (pm_get (as_proofs st))(?p \<mapsto> ?d)" using ok p by (rule debug_insert_ok)
  let ?st = "st\<lparr>as_question_index := ki, as_proofs := qs\<rparr>"
  have abs: "conclusions ?st = conclusions st" "definitions ?st = definitions st" "proof_statements ?st = (proof_statements st)(?p \<mapsto> ?s)"
    using new(2) qs(3) by (auto simp: conclusions_def definitions_def proof_statements_def fun_eq_iff)
  have "adds_proof cp st ?st" using abs s qs(3) new by (auto simp: adds_proof_def fun_eq_iff)
  moreover have "state_ok h ?st" unfolding state_ok_def abs using st ki(2) qs(2,3) new(2) by (simp add: state_ok_def)
  moreover have "register_proof_for_replication h st cp = Ok (certificate_wire (cert_steps (nf_certificate (cp_normal_form cp))), ?st)"
    using valid ki(1) qs(1) nf_bytes_ok [OF cp] by (simp add: register_proof_for_replication_def)
  ultimately show thesis using that by blast
qed

text \<open>The two entry points, on every outcome of the validation.\<close>

lemma register_proof_cases:
  assumes "state_ok h st" "checked_proof_ok h cp" "digest_ok h"
  obtains (registered) st' where "register_proof h st cp = Ok (certificate_wire (cert_steps (nf_certificate (cp_normal_form cp))), st')"
      "state_ok h st'" "adds_proof cp st st'" "validate_proof_registration h st cp = Ok ()"
  | (refused) e where "register_proof h st cp = Err e" "validate_proof_registration h st cp = Err e"
proof (cases "validate_proof_registration h st cp")
  case (Ok u)
  then have "validate_proof_registration h st cp = Ok ()" by simp
  with register_proof_ok [OF assms] registered show thesis by blast
next
  case (Err e)
  then have "register_proof h st cp = Err e" by (simp add: register_proof_def)
  with Err refused show thesis by blast
next
  case Panic
  then show thesis using validate_outcome [OF assms(1), of cp] by (auto simp: registration_outcome_def Let_def split: if_splits)
qed

lemma register_replicated_cases:
  assumes "state_ok h st" "checked_proof_ok h cp" "digest_ok h"
  obtains (registered) st' where "register_proof_for_replication h st cp = Ok (certificate_wire (cert_steps (nf_certificate (cp_normal_form cp))), st')"
      "state_ok h st'" "adds_proof cp st st'"
  | (refused) e where "register_proof_for_replication h st cp = Err e" "validate_proof_registration h st cp = Err e" "\<forall>d. e \<noteq> DuplicateDerivation d"
proof (cases "\<exists>d. validate_proof_registration h st cp = Err (DuplicateDerivation d)")
  case True
  with register_alias_ok [OF assms] registered show thesis by blast
next
  case False
  show thesis
  proof (cases rule: register_proof_cases [OF assms])
    case (1 st')
    then have "register_proof_for_replication h st cp = register_proof h st cp" by (simp add: register_proof_for_replication_def)
    with 1 registered show thesis by simp
  next
    case (2 e)
    then have "\<forall>d. e \<noteq> DuplicateDerivation d" using False by blast
    moreover have "register_proof_for_replication h st cp = Err e"
      using 2(2) False by (cases e) (simp_all add: register_proof_for_replication_def)
    ultimately show thesis using 2(2) refused by blast
  qed
qed

section \<open>Registration of definitions\<close>

definition definition_outcome :: "artifact_state \<Rightarrow> checked_definition \<Rightarrow> (artifact_state_error, unit) outcome" where
  "definition_outcome st cd =
     (case definitions st (cd_definition_id cd) of
        Some c \<Rightarrow>
          Err ((if dc_kind c = dc_kind (cd_certificate cd) \<and> dc_body c = dc_body (cd_certificate cd) then DuplicateDefinition
                else DefinitionIdentityCollision) (cd_definition_id cd))
      | None \<Rightarrow>
          (case cd_obligation cd of
             None \<Rightarrow> Ok ()
           | Some ob \<Rightarrow>
               if conclusions st (ob_statement_id ob) = None then Err (MissingDefinitionObligation (ob_statement_id ob))
               else if conclusions st (ob_statement_id ob) \<noteq> Some (ob_conclusion ob) then Err (StatementIdentityCollision (ob_statement_id ob))
               else Ok ()))"

lemma validate_definition_eq:
  assumes "state_ok h st"
  shows "validate_definition_registration h st cd = definition_outcome st cd"
proof -
  have "cv_definition_certificate (state_view h st) d = Ok (definitions st d)"
    "cv_statement_formula (state_view h st) s CHECKER_MAX_FORMULA_WORK_BYTES = Ok (conclusions st s)" for d s
    by (simp_all add: state_view_def as_definition_certificate_def definitions_def statement_formula_within_work [OF assms])
  then show ?thesis
    by (simp add: validate_definition_registration_def validate_definition_def definition_outcome_def split: option.split)
qed

lemma register_definition_cases:
  assumes st: "state_ok h st" and cd: "checked_definition_ok h cd" and h: "digest_ok h"
  obtains (registered) st' where "register_definition h st cd = Ok st'" "state_ok h st'" "definition_outcome st cd = Ok ()"
      "definitions st' = (definitions st)(cd_definition_id cd \<mapsto> cd_certificate cd)" "proof_statements st' = proof_statements st"
      "conclusions st' = conclusions st" "as_proofs st' = as_proofs st" "as_derivations st' = as_derivations st"
  | (refused) e where "register_definition h st cd = Err e" "definition_outcome st cd = Err e"
proof (cases "definition_outcome st cd")
  case (Ok u)
  let ?d = "cd_definition_id cd"
  have new: "definitions st ?d = None" using Ok by (auto simp: definition_outcome_def split: option.splits)
  have "ki_ok h (proof_statements st) (dom (definitions st)) (conclusions st) (as_question_index st)" using st by (simp add: state_ok_def)
  then obtain ki where ki: "ki_register_definition h ?d (as_question_index st) = Some ki"
    "ki_ok h (proof_statements st) (insert ?d (dom (definitions st))) (conclusions st) ki" using h by (rule ki_register_definition_ok)
  have ok: "pm_ok h (as_definitions st)" "key_ok ?d" "pm_get (as_definitions st) ?d = None"
    using st cd h certificate_ok_id new by (auto simp: state_ok_def checked_definition_ok_def definitions_def)
  then obtain m where m: "debug_insert h (as_definitions st) ?d \<lparr>sd_certificate = cd_certificate cd\<rparr> = (Ok m :: (artifact_state_error, _) outcome)"
    "pm_ok h m" "pm_get m = (pm_get (as_definitions st))(?d \<mapsto> \<lparr>sd_certificate = cd_certificate cd\<rparr>)" by (rule debug_insert_ok)
  let ?st = "st\<lparr>as_question_index := ki, as_definitions := m\<rparr>"
  have abs: "conclusions ?st = conclusions st" "definitions ?st = (definitions st)(?d \<mapsto> cd_certificate cd)" "proof_statements ?st = proof_statements st"
    using m(3) by (simp_all add: conclusions_def definitions_def proof_statements_def fun_eq_iff)
  have stored: "stored_ok h (conclusions st) ?d (cd_certificate cd)"
  proof (cases "dc_kind (cd_certificate cd)")
    case (RelationKind n)
    with cd show ?thesis by (simp add: checked_definition_ok_def stored_ok_def)
  next
    case (FunctionKind n)
    with cd obtain a and ob :: checked_definition_obligation where "cd_obligation cd = Some ob" "dc_body (cd_certificate cd) = lift_node a" "well_formed a"
      "function_obligation n a = Some (ob_conclusion ob)" by (auto simp: checked_definition_ok_def)
    moreover from this have "conclusions st (ob_statement_id ob) = Some (ob_conclusion ob)"
      using Ok new by (auto simp: definition_outcome_def split: if_splits)
    ultimately show ?thesis using FunctionKind cd by (auto simp: checked_definition_ok_def stored_ok_def)
  qed
  have "state_ok h ?st" unfolding state_ok_def abs using st ki(2) m(2) stored by (simp add: state_ok_def)
  moreover have "register_definition h st cd = Ok ?st"
    using Ok ki(1) m(1) by (simp add: register_definition_def validate_definition_eq [OF st])
  ultimately show thesis using registered Ok abs by simp
next
  case (Err e)
  then show thesis using refused by (simp add: register_definition_def validate_definition_eq [OF st])
next
  case Panic
  then show thesis by (simp add: definition_outcome_def split: option.splits if_splits)
qed

end
