(* ===== verification/Reachable_State.thy ===== *)
theory Reachable_State
  imports Artifact_Soundness
begin

text \<open>
  The states that registration can reach and the properties of the checker over them. A step registers a value
  that the checker returned for this or for any other reachable state: the code revalidates every dependency
  at registration because a checked value may come from another state.
\<close>

inductive reachable :: "hash \<Rightarrow> artifact_state \<Rightarrow> bool" for h where
  reachable_new: "reachable h as_new"
| reachable_proof: "reachable h st \<Longrightarrow> reachable h checked_in \<Longrightarrow> cert_ok (nf_certificate nf) \<Longrightarrow>
    check_normal_form_with_state h nf (state_view h checked_in) = Ok cp \<Longrightarrow> register_proof h st cp = Ok (bs, st') \<Longrightarrow> reachable h st'"
| reachable_replicated: "reachable h st \<Longrightarrow> reachable h checked_in \<Longrightarrow> cert_ok (nf_certificate nf) \<Longrightarrow>
    check_normal_form_with_state h nf (state_view h checked_in) = Ok cp \<Longrightarrow>
    register_proof_for_replication h st cp = Ok (bs, st') \<Longrightarrow> reachable h st'"
| reachable_definition: "reachable h st \<Longrightarrow> reachable h checked_in \<Longrightarrow> certificate_ok h c \<Longrightarrow>
    check_definition_with_state h c (state_view h checked_in) = Ok cd \<Longrightarrow> register_definition h st cd = Ok st' \<Longrightarrow> reachable h st'"

context checked_state
begin

lemma checked_proof:
  "digest_ok h \<Longrightarrow> cert_ok (nf_certificate nf) \<Longrightarrow> check_normal_form_with_state h nf (state_view h st) = Ok cp \<Longrightarrow>
     checked_proof_ok h cp \<and> cp_normal_form cp = nf"
  using check_normal_form_sound by blast

lemma checked_definition:
  "certificate_ok h c \<Longrightarrow> check_definition_with_state h c (state_view h st) = Ok cd \<Longrightarrow>
     checked_definition_ok h cd \<and> cd_certificate cd = c"
  using check_definition_sound by blast

lemma checking_returns:
  assumes "digest_ok h" "cert_ok cert"
  shows "normalize_and_check_with_state h cert (state_view h st) \<noteq> Panic"
    and "check_with_canonical_conclusion h cert (state_view h st) mode \<noteq> Panic"
    and "normalize_and_check_with_state h cert (state_view h st) = Ok cp \<Longrightarrow> checked_proof_ok h cp"
proof -
  obtain nf where nf: "normalize cert = Some nf" "cert_ok nf" using normalize_valid [OF assms(2)] by blast
  then have run: "normalize_and_check_with_state h cert (state_view h st) = check_normal_form_with_state h \<lparr>nf_certificate = nf\<rparr> (state_view h st)"
    by (simp add: normalize_and_check_with_state_def into_unchecked_normal_form_def)
  show "normalize_and_check_with_state h cert (state_view h st) \<noteq> Panic"
    unfolding run by (rule check_normal_form_not_Panic) (simp_all add: nf assms)
  show "check_with_canonical_conclusion h cert (state_view h st) mode \<noteq> Panic"
    using check_not_Panic(1) [OF assms(2,1)] .
  show "normalize_and_check_with_state h cert (state_view h st) = Ok cp \<Longrightarrow> checked_proof_ok h cp"
    unfolding run using checked_proof [of "\<lparr>nf_certificate = nf\<rparr>"] nf assms by simp
qed

lemma definition_checking_returns:
  "digest_ok h \<Longrightarrow> certificate_ok h c \<Longrightarrow> check_definition_with_state h c (state_view h st) \<noteq> Panic"
  using check_definition_not_Panic by blast

end

lemma reachable_ok: "reachable h st \<Longrightarrow> digest_ok h \<Longrightarrow> state_ok h st"
proof (induction rule: reachable.induct)
  case reachable_new
  show ?case by (rule state_ok_new)
next
  case (reachable_proof st checked_in nf cp bs st')
  then have "checked_proof_ok h cp" using checked_state.checked_proof [OF checked_state.intro] by blast
  moreover have "state_ok h st" "digest_ok h" using reachable_proof by blast+
  ultimately show ?case using reachable_proof(5) by (metis outcome.distinct(1) outcome.inject(1) prod.inject register_proof_cases)
next
  case (reachable_replicated st checked_in nf cp bs st')
  then have "checked_proof_ok h cp" using checked_state.checked_proof [OF checked_state.intro] by blast
  moreover have "state_ok h st" "digest_ok h" using reachable_replicated by blast+
  ultimately show ?case using reachable_replicated(5) by (metis outcome.distinct(1) outcome.inject(1) prod.inject register_replicated_cases)
next
  case (reachable_definition st checked_in c cd st')
  then have "checked_definition_ok h cd" using checked_state.checked_definition [OF checked_state.intro] by blast
  moreover have "state_ok h st" "digest_ok h" using reachable_definition by blast+
  ultimately show ?case using reachable_definition(5) by (metis outcome.distinct(1) outcome.inject(1) prod.inject register_definition_cases)
qed

lemma reachable_checked_state: "reachable h st \<Longrightarrow> digest_ok h \<Longrightarrow> checked_state h st"
  by (rule checked_state.intro) (rule reachable_ok)

section \<open>One registration\<close>

inductive registers :: "hash \<Rightarrow> artifact_state \<Rightarrow> artifact_state \<Rightarrow> bool" for h where
  registers_proof: "reachable h checked_in \<Longrightarrow> cert_ok (nf_certificate nf) \<Longrightarrow>
    check_normal_form_with_state h nf (state_view h checked_in) = Ok cp \<Longrightarrow> register_proof h st cp = Ok (bs, st') \<Longrightarrow> registers h st st'"
| registers_replicated: "reachable h checked_in \<Longrightarrow> cert_ok (nf_certificate nf) \<Longrightarrow>
    check_normal_form_with_state h nf (state_view h checked_in) = Ok cp \<Longrightarrow>
    register_proof_for_replication h st cp = Ok (bs, st') \<Longrightarrow> registers h st st'"
| registers_definition: "reachable h checked_in \<Longrightarrow> certificate_ok h c \<Longrightarrow>
    check_definition_with_state h c (state_view h checked_in) = Ok cd \<Longrightarrow> register_definition h st cd = Ok st' \<Longrightarrow> registers h st st'"

inductive_cases registersE: "registers h st st'"

lemma reachable_registers: "registers h st st' \<Longrightarrow> reachable h st \<Longrightarrow> reachable h st'"
  by (induction rule: registers.induct) (blast intro: reachable.intros)+

lemma adds_proof_extends:
  "adds_proof cp st st' \<Longrightarrow>
     proof_statements st \<subseteq>\<^sub>m proof_statements st' \<and> conclusions st \<subseteq>\<^sub>m conclusions st' \<and> definitions st \<subseteq>\<^sub>m definitions st'"
  by (auto simp: adds_proof_def map_le_def)

lemma registers_extends:
  assumes "registers h st st'" "reachable h st" "digest_ok h"
  shows "proof_statements st \<subseteq>\<^sub>m proof_statements st' \<and> conclusions st \<subseteq>\<^sub>m conclusions st' \<and> definitions st \<subseteq>\<^sub>m definitions st'"
  using assms(1)
proof (rule registersE)
  fix other nf cp bs
  assume "reachable h other" "cert_ok (nf_certificate nf)" "check_normal_form_with_state h nf (state_view h other) = Ok cp"
  then have cp: "checked_proof_ok h cp" using checked_state.checked_proof [OF reachable_checked_state] assms(3) by blast
  note regs = register_proof_cases [OF reachable_ok [OF assms(2,3)] cp assms(3)] register_replicated_cases [OF reachable_ok [OF assms(2,3)] cp assms(3)]
  {
    assume "register_proof h st cp = Ok (bs, st')"
    then show ?thesis using regs(1) adds_proof_extends by (metis outcome.distinct(1) outcome.inject(1) prod.inject)
  next
    assume "register_proof_for_replication h st cp = Ok (bs, st')"
    then show ?thesis using regs(2) adds_proof_extends by (metis outcome.distinct(1) outcome.inject(1) prod.inject)
  }
next
  fix other c cd
  assume "reachable h other" "certificate_ok h c" "check_definition_with_state h c (state_view h other) = Ok cd"
    and run: "register_definition h st cd = Ok st'"
  then have cd: "checked_definition_ok h cd" using checked_state.checked_definition [OF reachable_checked_state] assms(3) by blast
  from reachable_ok [OF assms(2,3)] cd assms(3) show ?thesis
    by (rule register_definition_cases) (use run in \<open>auto simp: map_le_def definition_outcome_def split: option.splits\<close>)
qed

section \<open>A registered proof\<close>

text \<open>The two-step proof of \<open>\<forall>x. x = x\<close> and the state that holds it, for the witnesses of the properties.\<close>

definition refl_certificate :: proof_certificate where
  "refl_certificate = \<lparr>cert_steps = [ReflexivityStep 0, GeneralizationStep 0 0]\<rparr>"

definition refl_sentence :: node where
  "refl_sentence = FForAll (FEqual (Bound 0) (Bound 0))"

lemma refl_certificate_ok: "cert_ok refl_certificate"
  by (simp add: refl_certificate_def cert_ok_def steps_encodable_def certificate_wire_def step_wire_def refs_earlier_def CERTIFICATE_MAX_BYTES_def)

lemma refl_decodes: "from_canonical_bytes (certificate_wire (cert_steps refl_certificate)) = Ok refl_certificate"
  by (simp add: from_canonical_bytes_def decode_certificate_Ok refl_certificate_ok)

lemma refl_normalizes: "into_unchecked_normal_form refl_certificate = Some \<lparr>nf_certificate = refl_certificate\<rparr>"
  by (simp add: refl_certificate_def into_unchecked_normal_form_def normalize_def normalize_with_step_origins_def normalizer_new_def
      normalize_loop_Cons normalize_loop_Nil normalize_visit_def exit_step_def intern_step_def element_at_def run_then_def run_return_def
      run_lift_def vn_variable_def vn_default_def checked_add_def normalized_reference_def encode_step_def encode_step_with_formula_budget_def
      UNNORMALIZED_STEP_def u32_try_from_def u32_to_be_bytes_def)

lemma refl_checks: "\<exists>d. check_with_canonical_conclusion h refl_certificate v Derive = Ok (refl_sentence, wire refl_sentence, Some d)"
proof -
  let ?eq = "FEqual (Free 0) (Free 0)"
  have "wire_admitted FORMULA_MAX_NODES refl_sentence" "wire_admitted FORMULA_MAX_NODES ?eq"
    by (simp_all add: refl_sentence_def wire_admitted_def FORMULA_MAX_NODES_def FORMULA_MAX_DEPTH_def)
  then obtain bs cs where bs: "mode_encoding Derive ?eq = Ok bs" and cs: "mode_encoding Derive refl_sentence = Ok cs"
    by (auto simp: mode_encoding_def encode_free_variable_normalized_iff [symmetric])
  have len: "length bs = 11" using empty_state.mode_encoding_Ok(2) [OF bs] by simp
  have cw: "cs = wire refl_sentence" using empty_state.mode_encoding_Ok(3) [OF cs] by (simp add: is_closed_iff refl_sentence_def)
  have gen: "generalization 0 ?eq = Some refl_sentence"
    by (simp add: refl_sentence_def generalization_def for_all_def bind_variable_def checked_add_def)
  obtain d1 where d1: "derivation_id_of h (ReflexivityStep 0) bs [] = Some d1" using empty_state.derivation_id_of_Some [OF bs] by blast
  obtain d2 where d2: "derivation_id_of h (GeneralizationStep 0 0) (wire refl_sentence) [d1] = Some d2"
    using empty_state.derivation_id_of_Some [OF cs] cw by blast
  have closed: "is_closed refl_sentence" "length (wire refl_sentence) = 12" by (simp_all add: is_closed_iff refl_sentence_def)
  have "check_with_canonical_conclusion h refl_certificate v Derive = Ok (refl_sentence, wire refl_sentence, Some d2)"
    by (simp add: check_with_canonical_conclusion_def refl_certificate_def last_uses_def u32_try_from_def check_step_def check_start_def
        step_inputs_def derivation_inputs_def local_step_def Let_def step_encoding_def step_charge_def derive_generalization_def
        equality_reflexivity_def equal_def charge_formula_work_def result_at_def element_at_def next_derivation_ids_def gen bs cs d1 d2 len cw closed
        CHECKER_MAX_FORMULA_WORK_BYTES_def CERTIFICATE_MAX_BYTES_def del: and_then_Ok map_ok_Ok)
  then show ?thesis by blast
qed

lemma refl_checked:
  assumes "digest_ok h"
  obtains cp where "check_normal_form_with_state h \<lparr>nf_certificate = refl_certificate\<rparr> v = Ok cp"
    "normalize_and_check_with_state h refl_certificate v = Ok cp" "cp_conclusion cp = refl_sentence"
    "cp_normal_form cp = \<lparr>nf_certificate = refl_certificate\<rparr>"
proof -
  obtain d where d: "check_with_canonical_conclusion h refl_certificate v Derive = Ok (refl_sentence, wire refl_sentence, Some d)"
    using refl_checks by blast
  have "wire_admitted FORMULA_MAX_NODES refl_sentence"
    by (simp add: refl_sentence_def wire_admitted_def FORMULA_MAX_NODES_def FORMULA_MAX_DEPTH_def)
  then obtain s where s: "statement_id_of h (wire refl_sentence) = Some s" unfolding statement_id_of_def using assms by (rule statement_id_Some)
  obtain p where p: "Option.bind (nf_canonical_bytes \<lparr>nf_certificate = refl_certificate\<rparr>) (proof_id_of h s) = Some p"
    using proof_id_Some [OF refl_certificate_ok assms] to_canonical_bytes_ok [OF refl_certificate_ok]
    by (auto simp: nf_canonical_bytes_def proof_id_of_def)
  have nf: "nf_certificate \<lparr>nf_certificate = refl_certificate\<rparr> = refl_certificate" by simp
  obtain cp where cp: "check_normal_form_with_state h \<lparr>nf_certificate = refl_certificate\<rparr> v = Ok cp"
    "cp_conclusion cp = refl_sentence" "cp_normal_form cp = \<lparr>nf_certificate = refl_certificate\<rparr>"
    unfolding check_normal_form_with_state_def check_normal_form_with_resolver_def nf d by (simp add: s p del: bind_eq_Some_conv)
  then show thesis using that refl_normalizes by (simp add: normalize_and_check_with_state_def)
qed

lemma refl_registered:
  assumes "digest_ok h"
  obtains cp bs st where "check_normal_form_with_state h \<lparr>nf_certificate = refl_certificate\<rparr> (state_view h as_new) = Ok cp"
    "register_proof h as_new cp = Ok (bs, st)" "reachable h st" "cp_conclusion cp = refl_sentence" "adds_proof cp as_new st"
    "checked_proof_ok h cp" "state_ok h st"
proof -
  obtain cp where cp: "check_normal_form_with_state h \<lparr>nf_certificate = refl_certificate\<rparr> (state_view h as_new) = Ok cp"
    "cp_conclusion cp = refl_sentence" "cp_normal_form cp = \<lparr>nf_certificate = refl_certificate\<rparr>" using refl_checked [OF assms] by metis
  then have ok: "checked_proof_ok h cp" using empty_state.checked_proof [OF assms _ cp(1)] refl_certificate_ok by simp
  have "first_absence as_new cp = None"
    by (simp add: cp(3) first_absence_def citations_def step_citations_def refl_certificate_def step_definition_references_def)
  moreover have "proof_statements as_new p = None" "conclusions as_new s = None" "pm_get (as_derivations as_new) d = None" for p s d
    by (simp_all add: proof_statements_def conclusions_def as_new_def)
  ultimately have valid: "validate_proof_registration h as_new cp = Ok ()"
    using validate_outcome [OF state_ok_new [of h], of cp] by (simp add: registration_outcome_def Let_def)
  from register_proof_ok [OF state_ok_new ok assms valid] obtain bs st where
    st: "register_proof h as_new cp = Ok (bs, st)" "adds_proof cp as_new st" "state_ok h st" by metis
  with cp ok reachable_proof [OF reachable_new reachable_new _ cp(1) st(1)] that refl_certificate_ok show thesis by simp
qed

end
