(* ===== verification/Checker_Properties.thy ===== *)
theory Checker_Properties
  imports Reachable_State
begin

text \<open>
  The properties of the checker and of the resident context of checked artifacts, over the states that
  registration can reach. The digest is a parameter of which only the length of its output is used: no
  property rests on the absence of collisions.
\<close>

section \<open>Soundness\<close>

text \<open>C1. The checker is sound: when any byte string decodes to a certificate and the certificate checks in a
  reachable state, the conclusion is a closed formula that the calculus derives from the axioms of ZFC,
  hence is true in every structure in which those axioms are, and the checked value carries the identity of exactly
  that formula.\<close>

theorem checker_accepts_only_theorems:
  assumes "digest_ok h" "reachable h st" "from_canonical_bytes bs = Ok cert"
    "normalize_and_check_with_state h cert (state_view h st) = Ok cp"
  shows "provable zfc_axioms (cp_conclusion cp) \<and> is_closed (cp_conclusion cp) \<and>
    (\<forall>E :: 'd universe. (\<forall>a\<in>zfc_axioms. valid_in E a) \<longrightarrow> valid_in E (cp_conclusion cp)) \<and>
    encode_canonical (cp_conclusion cp) = Ok (wire (cp_conclusion cp)) \<and>
    of_canonical_formula h (wire (cp_conclusion cp)) = Some (cp_statement_id cp)"
proof -
  have "cert_ok cert" using assms(3) by (simp add: from_canonical_bytes_def decode_certificate_Ok)
  then have ok: "checked_proof_ok h cp"
    using checked_state.checking_returns(3) [OF reachable_checked_state [OF assms(2,1)] assms(1)] assms(4) by blast
  then have "provable zfc_axioms (cp_conclusion cp)" by (simp add: checked_proof_ok_def)
  then show ?thesis
    using ok provable_sound [of zfc_axioms "cp_conclusion cp"] by (auto simp: checked_proof_ok_def encode_canonical_Ok)
qed


lemma registered_functions:
  assumes "state_ok h st"
  shows "\<forall>d c n. as_definition_certificate st d = Some c \<and> dc_kind c = FunctionKind n \<longrightarrow>
    (\<exists>s b. resolve_statement st s = Some b \<and> provable zfc_axioms b \<and>
       (\<forall>E :: 'd universe. valid_in E b \<longleftrightarrow> (\<forall>xs. length xs = unat n \<longrightarrow> (\<exists>!y. definition_meaning E c (xs @ [y])))))"
proof (intro allI impI; elim conjE)
  fix d c n
  assume "as_definition_certificate st d = Some c" and n: "dc_kind c = FunctionKind n"
  then have "stored_ok h (conclusions st) d c" using assms by (simp add: state_ok_def definitions_def as_definition_certificate_def)
  with n obtain a b s where a: "certificate_ok h c" "dc_body c = lift_node a" "well_formed a" "function_obligation n a = Some b" "conclusions st s = Some b"
    by (auto simp: stored_ok_def)
  then have "provable zfc_axioms b" using assms by (auto simp: state_ok_def statement_ok_def conclusions_def)
  moreover have "\<forall>E :: 'd universe. valid_in E b \<longleftrightarrow> (\<forall>xs. length xs = unat n \<longrightarrow> (\<exists>!y. definition_meaning E c (xs @ [y])))"
    by (intro allI function_obligation_meaning [OF a(1) n a(2-4)])
  ultimately show "\<exists>s b. resolve_statement st s = Some b \<and> provable zfc_axioms b \<and>
       (\<forall>E :: 'd universe. valid_in E b \<longleftrightarrow> (\<forall>xs. length xs = unat n \<longrightarrow> (\<exists>!y. definition_meaning E c (xs @ [y]))))"
    using a(5) by (intro exI [of _ s] exI [of _ b]) (simp add: resolve_statement_def conclusions_def)
qed

text \<open>C2. Reachable states hold only theorems: iteration over the registered proofs never panics, yields them in
  ascending order of their identities, and pairs every proof with a closed theorem of ZFC, its canonical
  length and its statement identity; every registered proof resolves; and every registered function
  definition has among the statements the theorem that its graph is total and unique.\<close>

theorem reachable_states_hold_only_theorems:
  assumes "digest_ok h" "reachable h st"
  shows "\<exists>es. proof_conclusions st = Some es \<and> map fst es = map fst (pm_entries (as_proofs st)) \<and>
      sorted_wrt bytes_less (map fst es) \<and>
      (\<forall>(p, s, a, n)\<in>set es. contains_proof st p \<and> provable zfc_axioms a \<and> is_closed a \<and> n = length (wire a) \<and>
         of_canonical_formula h (wire a) = Some s) \<and>
      (\<forall>p. resolve_proof st p \<noteq> None \<and> (contains_proof st p \<longrightarrow> resolve_proof st p \<noteq> Some None)) \<and>
      (\<forall>d c n. as_definition_certificate st d = Some c \<and> dc_kind c = FunctionKind n \<longrightarrow>
         (\<exists>s b. resolve_statement st s = Some b \<and> provable zfc_axioms b \<and>
            (\<forall>E :: 'd universe. valid_in E b \<longleftrightarrow> (\<forall>xs. length xs = unat n \<longrightarrow> (\<exists>!y. definition_meaning E c (xs @ [y]))))))"
proof -
  have ok: "state_ok h st" using assms by (intro reachable_ok)
  let ?f = "\<lambda>(p :: proof_id, d). Option.bind (pm_get (as_derivations st) d) (\<lambda>s.
     map_option (\<lambda>ss. (p, s, ss_conclusion ss, ss_canonical_length ss)) (pm_get (as_statements st) s))"
  define row where "row = (\<lambda>(p, d). the (?f (p, d)))"
  have rows: "?f e = Some (row e) \<and> fst (row e) = fst e \<and>
      (case row e of (p, s, a, n) \<Rightarrow> contains_proof st p \<and> provable zfc_axioms a \<and> is_closed a \<and> n = length (wire a) \<and>
         of_canonical_formula h (wire a) = Some s)" if "e \<in> set (pm_entries (as_proofs st))" for e
  proof -
    obtain p d where e: "e = (p, d)" by (cases e)
    have "pm_get (as_proofs st) p = Some d" using that ok pm_entries_get [of h "as_proofs st"] by (auto simp: e state_ok_def)
    moreover from this obtain s ss where "pm_get (as_derivations st) d = Some s" "pm_get (as_statements st) s = Some ss"
      using ok by (fastforce simp: state_ok_def)
    moreover from this have "statement_ok h s ss" using ok by (simp add: state_ok_def)
    ultimately show ?thesis by (simp add: e row_def statement_ok_def contains_proof_def pm_contains_key_def)
  qed
  have "those (map ?f es) = Some (map row es)" if "set es \<subseteq> set (pm_entries (as_proofs st))" for es
    using that rows by (induction es) auto
  then have run: "proof_conclusions st = Some (map row (pm_entries (as_proofs st)))" by (simp add: proof_conclusions_def)
  have keys: "map fst (map row (pm_entries (as_proofs st))) = map fst (pm_entries (as_proofs st))" using rows by simp
  have sorted: "sorted_wrt bytes_less (map fst (pm_entries (as_proofs st)))"
    using ok by (intro pm_entries_sorted [of h]) (simp add: state_ok_def)
  have resolves: "\<forall>p. resolve_proof st p \<noteq> None \<and> (contains_proof st p \<longrightarrow> resolve_proof st p \<noteq> Some None)"
    by (auto simp: resolve_proof_eq [OF ok] contains_proof_def pm_contains_key_def)
  have theorems: "\<forall>(p, s, a, n)\<in>set (map row (pm_entries (as_proofs st))). contains_proof st p \<and> provable zfc_axioms a \<and> is_closed a \<and>
      n = length (wire a) \<and> of_canonical_formula h (wire a) = Some s" using rows by fastforce
  show ?thesis
    by (intro exI [of _ "map row (pm_entries (as_proofs st))"] conjI run theorems resolves registered_functions [OF ok]) (simp_all only: keys sorted)
qed

section \<open>Registration\<close>

text \<open>C4. Registration is fail-closed and total: for a checked value (of this or another reachable state) it never
  panics; it is accepted exactly when the validation rules, applied in their order, accept it, and then adds
  this one proof with its conclusion and returns its canonical bytes; otherwise it returns the error
  of the first rule that fails, and where dependencies are absent that is the error of the first absent citation,
  in the order of the certificate's steps and, within a step, the cited proof before the definitions.\<close>

theorem registration_follows_the_rules:
  assumes "digest_ok h" "reachable h st" "reachable h other" "cert_ok (nf_certificate nf)"
    "check_normal_form_with_state h nf (state_view h other) = Ok cp"
  shows "\<exists>r. registration_outcome st cp r \<and>
    (case r of
       Ok _ \<Rightarrow> \<exists>st'. register_proof h st cp = Ok (certificate_wire (cert_steps (nf_certificate nf)), st') \<and> adds_proof cp st st'
     | Err e \<Rightarrow> register_proof h st cp = Err e
     | Panic \<Rightarrow> False)"
proof -
  have ok: "state_ok h st" using assms(1,2) by (intro reachable_ok)
  have cp: "checked_proof_ok h cp" "cp_normal_form cp = nf"
    using checked_state.checked_proof [OF reachable_checked_state [OF assms(3,1)] assms(1,4,5)] by simp_all
  from ok cp(1) assms(1) show ?thesis
  proof (rule register_proof_cases)
    fix st'
    assume "register_proof h st cp = Ok (certificate_wire (cert_steps (nf_certificate (cp_normal_form cp))), st')" "adds_proof cp st st'"
      "validate_proof_registration h st cp = Ok ()"
    with validate_outcome [OF ok, of cp] cp(2) show ?thesis by (intro exI [of _ "Ok ()"]) simp
  next
    fix e
    assume "register_proof h st cp = Err e" "validate_proof_registration h st cp = Err e"
    with validate_outcome [OF ok, of cp] show ?thesis by (intro exI [of _ "Err e"]) simp
  qed
qed

text \<open>C11. A context for replication differs from a selected one in one rule only: registration for replication
  refuses what ordinary registration refuses, except a second proof of a known derivation, which it adds without
  changing any conclusion.\<close>

theorem replication_admits_only_aliases:
  assumes "digest_ok h" "reachable h st" "reachable h other" "cert_ok (nf_certificate nf)"
    "check_normal_form_with_state h nf (state_view h other) = Ok cp"
  shows "case register_proof h st cp of
      Ok (bs, st') \<Rightarrow> register_proof_for_replication h st cp = Ok (bs, st')
    | Err (DuplicateDerivation d) \<Rightarrow> \<exists>bs st'. register_proof_for_replication h st cp = Ok (bs, st') \<and> adds_proof cp st st' \<and>
        conclusions st' = conclusions st \<and> as_derivations st' = as_derivations st \<and> as_statements st' = as_statements st
    | Err e \<Rightarrow> register_proof_for_replication h st cp = Err e
    | Panic \<Rightarrow> False"
proof -
  have ok: "state_ok h st" using assms(1,2) by (intro reachable_ok)
  have cp: "checked_proof_ok h cp"
    using checked_state.checked_proof [OF reachable_checked_state [OF assms(3,1)] assms(1,4,5)] by simp
  from ok cp assms(1) show ?thesis
  proof (rule register_proof_cases)
    fix st'
    assume "register_proof h st cp = Ok (certificate_wire (cert_steps (nf_certificate (cp_normal_form cp))), st')"
      "validate_proof_registration h st cp = Ok ()"
    then show ?thesis by (simp add: register_proof_for_replication_def)
  next
    fix e
    assume e: "register_proof h st cp = Err e" "validate_proof_registration h st cp = Err e"
    show ?thesis
    proof (cases "\<exists>d. e = DuplicateDerivation d")
      case True
      then obtain d where d: "e = DuplicateDerivation d" by blast
      then obtain bs st' where "register_proof_for_replication h st cp = Ok (bs, st')" "adds_proof cp st st'"
        using register_alias_ok [OF ok cp assms(1)] e(2) by metis
      moreover from this have "as_derivations st' = as_derivations st \<and> as_statements st' = as_statements st"
        using e(2) d by (auto simp: register_proof_for_replication_def)
      ultimately show ?thesis using e(1) d by (auto simp: conclusions_def fun_eq_iff)
    next
      case False
      then show ?thesis using e by (cases e) (simp_all add: register_proof_for_replication_def)
    qed
  qed
qed

text \<open>C10. Definitions: registration of a checked definition never panics, reports duplicates, collisions and
  missing or different obligation statements in that order, and otherwise adds exactly this definition.\<close>

theorem definition_registration_follows_the_rules:
  assumes "digest_ok h" "reachable h st" "reachable h other" "certificate_ok h c"
    "check_definition_with_state h c (state_view h other) = Ok cd"
  shows "case definition_outcome st cd of
      Ok _ \<Rightarrow> \<exists>st'. register_definition h st cd = Ok st' \<and> definitions st' = (definitions st)(dc_id c \<mapsto> c) \<and>
        proof_statements st' = proof_statements st \<and> conclusions st' = conclusions st
    | Err e \<Rightarrow> register_definition h st cd = Err e
    | Panic \<Rightarrow> False"
proof -
  have ok: "state_ok h st" using assms(1,2) by (intro reachable_ok)
  have cd: "checked_definition_ok h cd" "cd_certificate cd = c"
    using checked_state.checked_definition [OF reachable_checked_state [OF assms(3,1)] assms(4,5)] by simp_all
  then have "cd_definition_id cd = dc_id c" by (simp add: checked_definition_ok_def)
  from ok cd(1) assms(1) show ?thesis
    by (rule register_definition_cases) (simp_all add: cd(2) \<open>cd_definition_id cd = dc_id c\<close>)
qed

text \<open>C5. The contents of a state only grow: after any number of registrations every proof keeps its statement,
  every statement its conclusion and every definition its certificate, and the state is still reachable.\<close>

theorem contents_only_grow:
  assumes "digest_ok h" "reachable h st" "(registers h)\<^sup>*\<^sup>* st st'"
  shows "reachable h st' \<and> proof_statements st \<subseteq>\<^sub>m proof_statements st' \<and> conclusions st \<subseteq>\<^sub>m conclusions st' \<and>
    definitions st \<subseteq>\<^sub>m definitions st'"
  using assms(3)
proof (induction rule: rtranclp_induct)
  case base
  with assms(2) show ?case by simp
next
  case (step st1 st2)
  then have "reachable h st2" using reachable_registers by blast
  moreover have "proof_statements st1 \<subseteq>\<^sub>m proof_statements st2 \<and> conclusions st1 \<subseteq>\<^sub>m conclusions st2 \<and> definitions st1 \<subseteq>\<^sub>m definitions st2"
    using step assms(1) by (intro registers_extends) auto
  ultimately show ?case using step.IH by (blast intro: map_le_trans)
qed

text \<open>A registered value is never registered twice: repeating a registration that succeeded reports the
  duplicate, for proofs under both entry points and for definitions.\<close>

theorem repeated_registration_is_refused:
  assumes "digest_ok h" "reachable h st" "reachable h other"
  shows "(cert_ok (nf_certificate nf) \<and> check_normal_form_with_state h nf (state_view h other) = Ok cp \<and> register_proof h st cp = Ok (bs, st') \<longrightarrow>
      register_proof h st' cp = Err (DuplicateProof (cp_proof_id cp)) \<and>
      register_proof_for_replication h st' cp = Err (DuplicateProof (cp_proof_id cp))) \<and>
    (certificate_ok h c \<and> check_definition_with_state h c (state_view h other) = Ok cd \<and> register_definition h st cd = Ok st'' \<longrightarrow>
      register_definition h st'' cd = Err (DuplicateDefinition (dc_id c)))"
proof (intro conjI impI; elim conjE)
  assume run: "cert_ok (nf_certificate nf)" "check_normal_form_with_state h nf (state_view h other) = Ok cp" "register_proof h st cp = Ok (bs, st')"
  then have cp: "checked_proof_ok h cp"
    using checked_state.checked_proof [OF reachable_checked_state [OF assms(3,1)] assms(1)] by blast
  obtain added: "adds_proof cp st st'" and ok: "state_ok h st'"
    using register_proof_cases [OF reachable_ok [OF assms(2,1)] cp assms(1)] run(3) by (metis outcome.distinct(1) outcome.inject(1) prod.inject)
  then have "validate_proof_registration h st' cp = Err (DuplicateProof (cp_proof_id cp))"
    using validate_outcome [OF ok, of cp] by (simp add: registration_outcome_def adds_proof_def Let_def)
  then show "register_proof h st' cp = Err (DuplicateProof (cp_proof_id cp))"
    "register_proof_for_replication h st' cp = Err (DuplicateProof (cp_proof_id cp))"
    by (simp_all add: register_proof_def register_proof_for_replication_def)
next
  assume run: "certificate_ok h c" "check_definition_with_state h c (state_view h other) = Ok cd" "register_definition h st cd = Ok st''"
  then have cd: "checked_definition_ok h cd" "cd_certificate cd = c"
    using checked_state.checked_definition [OF reachable_checked_state [OF assms(3,1)]] by blast+
  obtain ok: "state_ok h st''" and d: "definitions st'' (cd_definition_id cd) = Some (cd_certificate cd)"
    using register_definition_cases [OF reachable_ok [OF assms(2,1)] cd(1) assms(1)] run(3)
    by (metis fun_upd_same outcome.distinct(1) outcome.inject(1))
  then show "register_definition h st'' cd = Err (DuplicateDefinition (dc_id c))"
    using cd by (simp add: register_definition_def validate_definition_eq definition_outcome_def checked_definition_ok_def)
qed

section \<open>Snapshot and index\<close>

text \<open>The inputs that the snapshot identity of a state hashes: its own, and those of the fingerprints of the two sets.\<close>

definition snapshot_input :: "artifact_state \<Rightarrow> bytes" where
  "snapshot_input st =
     ascii ''naome:checked-artifact-snapshot:v1'' @ [0] @ pm_fingerprint (as_proofs st) @ pm_fingerprint (as_definitions st)"

definition snapshot_inputs :: "artifact_state \<Rightarrow> bytes list" where
  "snapshot_inputs st = snapshot_input st # map_inputs (as_proofs st) @ map_inputs (as_definitions st)"

definition same_artifacts :: "artifact_state \<Rightarrow> artifact_state \<Rightarrow> bool" where
  "same_artifacts st st' \<longleftrightarrow>
     (\<forall>p. contains_proof st p = contains_proof st' p) \<and> (\<forall>d. as_contains_definition st d = as_contains_definition st' d)"

lemma same_artifacts_dom:
  "same_artifacts st st' \<longleftrightarrow> dom (pm_get (as_proofs st)) = dom (pm_get (as_proofs st')) \<and>
     dom (pm_get (as_definitions st)) = dom (pm_get (as_definitions st'))"
  by (auto simp: same_artifacts_def contains_proof_def as_contains_definition_def pm_contains_key_def dom_def set_eq_iff)

lemma snapshot_determines_set:
  assumes "digest_ok h" "state_ok h st" "state_ok h st'" "as_snapshot_id h st = as_snapshot_id h st'"
  shows "same_artifacts st st' \<or> collision h (snapshot_inputs st @ snapshot_inputs st') \<or>
    (\<exists>x\<in>set (snapshot_inputs st @ snapshot_inputs st'). h x = replicate 32 0)"
proof -
  let ?all = "snapshot_inputs st @ snapshot_inputs st'"
  have ok: "pm_ok h (as_proofs st)" "pm_ok h (as_proofs st')" "pm_ok h (as_definitions st)" "pm_ok h (as_definitions st')"
    using assms(2,3) by (simp_all add: state_ok_def)
  have "h (snapshot_input st) = h (snapshot_input st')" using assms(4) by (simp add: as_snapshot_id_def snapshot_input_def)
  from collisionI [where h = h, OF this, of ?all] have "snapshot_input st = snapshot_input st' \<or> collision h ?all" by (simp add: snapshot_inputs_def)
  moreover have "length (pm_fingerprint (as_proofs st)) = length (pm_fingerprint (as_proofs st'))"
    using ok by (simp add: pm_fingerprint_width [OF assms(1)])
  moreover have "dom (pm_get (as_proofs st)) = dom (pm_get (as_proofs st')) \<or> collision h ?all \<or> (\<exists>x\<in>set ?all. h x = replicate 32 0)"
    if "pm_fingerprint (as_proofs st) = pm_fingerprint (as_proofs st')"
    using pm_fingerprint_determines_keys [OF assms(1) ok(1,2) that] collision_mono [of h _ ?all] by (fastforce simp: snapshot_inputs_def)
  moreover have "dom (pm_get (as_definitions st)) = dom (pm_get (as_definitions st')) \<or> collision h ?all \<or> (\<exists>x\<in>set ?all. h x = replicate 32 0)"
    if "pm_fingerprint (as_definitions st) = pm_fingerprint (as_definitions st')"
    using pm_fingerprint_determines_keys [OF assms(1) ok(3,4) that] collision_mono [of h _ ?all] by (fastforce simp: snapshot_inputs_def)
  moreover have "pm_fingerprint (as_proofs st) = pm_fingerprint (as_proofs st') \<and> pm_fingerprint (as_definitions st) = pm_fingerprint (as_definitions st')"
    if "snapshot_input st = snapshot_input st'"
    using that \<open>length (pm_fingerprint (as_proofs st)) = _\<close> by (simp add: snapshot_input_def)
  ultimately show ?thesis unfolding same_artifacts_dom by blast
qed

text \<open>C12. The snapshot identity identifies the registered set. Two reachable states with the same proofs and the same
  definitions have the same identity, in whatever order, and through whichever entry points, they were registered; and two
  reachable states with the same identity hold the same proofs and the same definitions, unless SHA-256 has a
  collision among the inputs that were hashed for the two identities, or one of these inputs hashes to the
  32 zero bytes that stand for the empty set.\<close>

theorem snapshot_identifies_the_set:
  assumes "digest_ok h" "reachable h st" "reachable h st'"
  shows "(same_artifacts st st' \<longrightarrow> as_snapshot_id h st = as_snapshot_id h st') \<and>
    (as_snapshot_id h st = as_snapshot_id h st' \<longrightarrow>
       same_artifacts st st' \<or> collision h (snapshot_inputs st @ snapshot_inputs st') \<or>
       (\<exists>x\<in>set (snapshot_inputs st @ snapshot_inputs st'). h x = replicate 32 0))"
proof -
  have st: "state_ok h st" "state_ok h st'" using assms(1-3) reachable_ok by blast+
  then have ok: "pm_ok h (as_proofs st)" "pm_ok h (as_proofs st')" "pm_ok h (as_definitions st)" "pm_ok h (as_definitions st')"
    by (simp_all add: state_ok_def)
  have "as_snapshot_id h st = as_snapshot_id h st'" if "same_artifacts st st'"
    using pm_fingerprint_content [OF ok(1,2)] pm_fingerprint_content [OF ok(3,4)] that
    by (simp add: as_snapshot_id_def same_artifacts_dom)
  then show ?thesis using snapshot_determines_set [OF assms(1) st] by blast
qed

lemma bucket_listing:
  assumes "buckets_ok h (ki_buckets kind ki)"
  shows "set (ki_bucket kind ki target) = bucket_set (ki_buckets kind ki) target" "sorted_wrt bytes_less (ki_bucket kind ki target)"
proof -
  have ok: "pm_ok h m" if "pm_get (ki_buckets kind ki) target = Some m" for m using assms that by (simp add: buckets_ok_def)
  show "sorted_wrt bytes_less (ki_bucket kind ki target)"
    by (auto simp: ki_bucket_def bucket_entries_def split: option.split intro: pm_entries_sorted [OF ok])
  show "set (ki_bucket kind ki target) = bucket_set (ki_buckets kind ki) target"
  proof (cases "pm_get (ki_buckets kind ki) target")
    case (Some m)
    have "set (map fst (pm_entries m)) = dom (pm_get m)" using pm_entries_get [OF ok [OF Some]] by force
    with Some show ?thesis by (simp add: ki_bucket_def bucket_entries_def bucket_set_def)
  qed (simp add: ki_bucket_def bucket_entries_def bucket_set_def)
qed

text \<open>C6. The structural index is complete and exact: a bucket lists, in ascending order and without
  repetition, precisely the registered statements one of whose projections is the requested key; the witness of a
  statement is the least of its registered proofs; and artifact membership is that of the proofs and
  definitions.\<close>

theorem index_is_complete_and_exact:
  assumes "digest_ok h" "reachable h st"
  shows "sorted_wrt bytes_less (ki_bucket kind (as_question_index st) target) \<and>
    (\<forall>s. s \<in> set (ki_bucket kind (as_question_index st) target) \<longleftrightarrow>
       (\<exists>a ps p. resolve_statement st s = Some a \<and> projections h p a = Some ps \<and> (kind, target) \<in> set ps)) \<and>
    (\<forall>s p. ki_witness (as_question_index st) s = Some p \<longleftrightarrow> least_proof (proof_statements st) s p) \<and>
    (\<forall>i. ki_contains_artifact (as_question_index st) i \<longleftrightarrow>
       (\<exists>p. contains_proof st p \<and> i = from_proof_id h p) \<or> (\<exists>d. as_contains_definition st d \<and> i = from_definition_id h d))"
proof -
  have ok: "state_ok h st" using assms by (intro reachable_ok)
  let ?ki = "as_question_index st"
  have ki: "ki_ok h (proof_statements st) (dom (definitions st)) (conclusions st) ?ki" using ok by (simp add: state_ok_def)
  then have b: "buckets_ok h (ki_buckets kind ?ki)" by (simp add: ki_ok_def)
  have concl: "resolve_statement st s = conclusions st s" for s by (simp add: resolve_statement_def conclusions_def)
  have any: "(\<exists>ps p. projections h p a = Some ps \<and> (kind, target) \<in> set ps) \<longleftrightarrow> (\<exists>ps. projections h [] a = Some ps \<and> (kind, target) \<in> set ps)" for a
    using projections_independent by metis
  have "\<forall>s. s \<in> set (ki_bucket kind ?ki target) \<longleftrightarrow>
       (\<exists>a ps p. resolve_statement st s = Some a \<and> projections h p a = Some ps \<and> (kind, target) \<in> set ps)"
    unfolding bucket_listing(1) [OF b] concl using ki any unfolding ki_ok_def by metis
  moreover have "ki_witness ?ki s = Some p \<longleftrightarrow> least_proof (proof_statements st) s p" for s p
  proof
    show "ki_witness ?ki s = Some p \<Longrightarrow> least_proof (proof_statements st) s p" using ki by (simp add: ki_ok_def ki_witness_def)
    assume least: "least_proof (proof_statements st) s p"
    then have "s \<in> dom (pm_get (ki_witnesses ?ki))" using ki by (auto simp: ki_ok_def least_proof_def ran_def)
    then obtain q where q: "ki_witness ?ki s = Some q" by (auto simp: ki_witness_def)
    then have "least_proof (proof_statements st) s q" using ki by (simp add: ki_ok_def ki_witness_def)
    then have "p = q" using least bytes_less_linear [of p q] by (auto simp: least_proof_def)
    with q show "ki_witness ?ki s = Some p" by simp
  qed
  moreover have "ki_contains_artifact ?ki i \<longleftrightarrow>
       (\<exists>p. contains_proof st p \<and> i = from_proof_id h p) \<or> (\<exists>d. as_contains_definition st d \<and> i = from_definition_id h d)" for i
  proof -
    have "ki_contains_artifact ?ki i \<longleftrightarrow> i \<in> dom (pm_get (ki_artifacts ?ki))" by (auto simp: ki_contains_artifact_def pm_contains_key_def)
    also have "\<dots> \<longleftrightarrow> i \<in> from_proof_id h ` dom (proof_statements st) \<union> from_definition_id h ` dom (definitions st)" using ki by (simp add: ki_ok_def)
    finally show ?thesis by (auto simp: contains_proof_iff [OF ok] contains_definition_iff image_iff dom_def)
  qed
  ultimately show ?thesis using bucket_listing(2) [OF b] by blast
qed

section \<open>Witnesses\<close>

definition zero_digest :: hash where
  "zero_digest = (\<lambda>_. replicate 32 0)"

lemma zero_digest_ok: "digest_ok zero_digest"
  by (simp add: zero_digest_def digest_ok_def)

lemmas refl_in_state = refl_registered [OF zero_digest_ok]

theorem checker_accepts_only_theorems_witness:
  "\<exists>cp. normalize_and_check_with_state zero_digest refl_certificate (state_view zero_digest as_new) = Ok cp \<and>
     cp_conclusion cp = refl_sentence \<and> provable zfc_axioms refl_sentence"
proof -
  obtain cp where cp: "normalize_and_check_with_state zero_digest refl_certificate (state_view zero_digest as_new) = Ok cp"
    "cp_conclusion cp = refl_sentence" using refl_checked [OF zero_digest_ok] by metis
  with checker_accepts_only_theorems [OF zero_digest_ok reachable_new refl_decodes cp(1)] show ?thesis by auto
qed


theorem reachable_states_hold_only_theorems_witness:
  "\<exists>st es p. reachable zero_digest st \<and> contains_proof st p \<and> proof_conclusions st = Some es \<and>
     (\<forall>(p, s, a, n)\<in>set es. provable zfc_axioms a) \<and> resolve_proof st p \<noteq> Some None"
proof -
  obtain cp bs st where st: "register_proof zero_digest as_new cp = Ok (bs, st)" "reachable zero_digest st" "adds_proof cp as_new st"
    by (rule refl_in_state) blast
  then have "contains_proof st (cp_proof_id cp)" by (simp add: adds_proof_def contains_proof_def pm_contains_key_def)
  with reachable_states_hold_only_theorems [OF zero_digest_ok st(2)] st(2) show ?thesis by fast
qed

theorem registration_follows_the_rules_witness:
  "\<exists>cp st. register_proof zero_digest as_new cp = Ok (certificate_wire (cert_steps refl_certificate), st) \<and> adds_proof cp as_new st"
proof -
  obtain cp bs st where cp: "check_normal_form_with_state zero_digest \<lparr>nf_certificate = refl_certificate\<rparr> (state_view zero_digest as_new) = Ok cp"
    "register_proof zero_digest as_new cp = Ok (bs, st)" by (rule refl_in_state) blast
  obtain r where "case r of
      Ok (u :: unit) \<Rightarrow> \<exists>st'. register_proof zero_digest as_new cp =
          Ok (certificate_wire (cert_steps (nf_certificate \<lparr>nf_certificate = refl_certificate\<rparr>)), st') \<and> adds_proof cp as_new st'
    | Err e \<Rightarrow> register_proof zero_digest as_new cp = Err e | Panic \<Rightarrow> False"
    using registration_follows_the_rules [OF zero_digest_ok reachable_new reachable_new _ cp(1)] refl_certificate_ok by fastforce
  with cp(2) show ?thesis by (cases r) auto
qed

theorem replication_admits_only_aliases_witness:
  "\<exists>cp bs st. register_proof_for_replication zero_digest as_new cp = Ok (bs, st)"
proof -
  obtain cp bs st where cp: "check_normal_form_with_state zero_digest \<lparr>nf_certificate = refl_certificate\<rparr> (state_view zero_digest as_new) = Ok cp"
    "register_proof zero_digest as_new cp = Ok (bs, st)" by (rule refl_in_state) blast
  from replication_admits_only_aliases [OF zero_digest_ok reachable_new reachable_new _ cp(1)] refl_certificate_ok cp(2) show ?thesis by auto
qed

definition equality_relation_of :: "hash \<Rightarrow> definition_certificate" where
  "equality_relation_of h = dc_of h (RelationKind 2) (DEqual (Free 0) (Free 1))"

definition equality_relation :: definition_certificate where
  "equality_relation = equality_relation_of zero_digest"

lemma equality_relation_of_ok: "certificate_ok h (equality_relation_of h)"
proof -
  have "{v :: u32. unat v < 2} = {1, 0}" by (auto simp: less_2_cases_iff unat_eq_0) (metis One_nat_def unsigned_1 word_unat_eq_iff)
  then show ?thesis
    by (simp add: certificate_ok_iff equality_relation_of_def dc_of_def definition_ok_def kind_ok_def graph_arity_def d_wire_admitted_def
        d_free_variables_def FORMULA_MAX_NODES_def FORMULA_MAX_BYTES_def d_well_formed_def set_insort_insert)
qed

lemma equality_of_checked:
  "check_definition_with_state h (equality_relation_of h) v =
     Ok \<lparr>cd_certificate = equality_relation_of h, cd_definition_id = dc_id (equality_relation_of h), cd_obligation = None\<rparr>"
  by (simp add: check_definition_with_state_def equality_relation_of_def dc_of_def)

lemmas equality_relation_ok = equality_relation_of_ok [of zero_digest, folded equality_relation_def]
lemmas equality_checked = equality_of_checked [where h = zero_digest, folded equality_relation_def]

lemma definitions_new: "definitions as_new d = None"
  by (simp add: definitions_def as_new_def)

theorem definition_registration_follows_the_rules_witness:
  "\<exists>cd st. register_definition zero_digest as_new cd = Ok st \<and> definitions st (dc_id equality_relation) = Some equality_relation"
proof -
  let ?cd = "\<lparr>cd_certificate = equality_relation, cd_definition_id = dc_id equality_relation, cd_obligation = None\<rparr>"
  have "definition_outcome as_new ?cd = Ok ()" by (simp add: definition_outcome_def definitions_new)
  with definition_registration_follows_the_rules [OF zero_digest_ok reachable_new reachable_new equality_relation_ok equality_checked]
  obtain st where "register_definition zero_digest as_new ?cd = Ok st" "definitions st = (definitions as_new)(dc_id equality_relation \<mapsto> equality_relation)"
    by auto
  then show ?thesis by (metis fun_upd_same)
qed

theorem contents_only_grow_witness:
  "\<exists>st. registers zero_digest as_new st \<and> reachable zero_digest st \<and> conclusions as_new \<subseteq>\<^sub>m conclusions st"
proof -
  obtain cp bs st where cp: "check_normal_form_with_state zero_digest \<lparr>nf_certificate = refl_certificate\<rparr> (state_view zero_digest as_new) = Ok cp"
    "register_proof zero_digest as_new cp = Ok (bs, st)" by (rule refl_in_state) blast
  have step: "registers zero_digest as_new st" by (rule registers_proof [OF reachable_new _ cp]) (simp add: refl_certificate_ok)
  with contents_only_grow [OF zero_digest_ok reachable_new r_into_rtranclp [where r = "registers zero_digest", OF step]] show ?thesis by blast
qed

theorem repeated_registration_is_refused_witness:
  "\<exists>cp st. reachable zero_digest st \<and> register_proof zero_digest st cp = Err (DuplicateProof (cp_proof_id cp))"
proof -
  obtain cp bs st where cp: "check_normal_form_with_state zero_digest \<lparr>nf_certificate = refl_certificate\<rparr> (state_view zero_digest as_new) = Ok cp"
    "register_proof zero_digest as_new cp = Ok (bs, st)" "reachable zero_digest st" by (rule refl_in_state) blast
  then have "register_proof zero_digest st cp = Err (DuplicateProof (cp_proof_id cp))"
    using repeated_registration_is_refused [OF zero_digest_ok reachable_new reachable_new, of "\<lparr>nf_certificate = refl_certificate\<rparr>" cp bs st]
      refl_certificate_ok by simp
  with cp(3) show ?thesis by blast
qed

text \<open>The reflexivity proof and the equality relation, registered in the two orders.\<close>

lemma equality_registers:
  assumes "digest_ok h" "reachable h st" "definitions st (dc_id (equality_relation_of h)) = None"
  obtains st' where "register_definition h st
      \<lparr>cd_certificate = equality_relation_of h, cd_definition_id = dc_id (equality_relation_of h), cd_obligation = None\<rparr> = Ok st'"
    "reachable h st'" "definitions st' = (definitions st)(dc_id (equality_relation_of h) \<mapsto> equality_relation_of h)"
    "as_proofs st' = as_proofs st" "proof_statements st' = proof_statements st" "conclusions st' = conclusions st" "as_derivations st' = as_derivations st"
proof -
  let ?cd = "\<lparr>cd_certificate = equality_relation_of h, cd_definition_id = dc_id (equality_relation_of h), cd_obligation = None\<rparr>"
  note checked = equality_of_checked [of h "state_view h as_new"]
  have cd: "checked_definition_ok h ?cd"
    using checked_state.checked_definition [OF reachable_checked_state [OF reachable_new assms(1)] equality_relation_of_ok checked] by simp
  have "definition_outcome st ?cd = Ok ()" using assms(3) by (simp add: definition_outcome_def)
  then obtain st' where st': "register_definition h st ?cd = Ok st'" "definitions st' = (definitions st)(dc_id (equality_relation_of h) \<mapsto> equality_relation_of h)"
    "proof_statements st' = proof_statements st" "conclusions st' = conclusions st" "as_proofs st' = as_proofs st" "as_derivations st' = as_derivations st"
    using register_definition_cases [OF reachable_ok [OF assms(2,1)] cd assms(1)]
    by (metis checked_definition.select_convs(1,2) outcome.distinct(1))
  have "reachable h st'" by (rule reachable_definition [OF assms(2) reachable_new equality_relation_of_ok checked st'(1)])
  with st' that show thesis by blast
qed

lemma two_orders:
  assumes h: "digest_ok h"
  obtains cp cd bs bs' st st' st3 st4 where "register_proof h as_new cp = Ok (bs, st)" "register_definition h st cd = Ok st'"
    "register_definition h as_new cd = Ok st3" "register_proof h st3 cp = Ok (bs', st4)"
    "reachable h st'" "reachable h st4" "same_artifacts st' st4"
proof -
  let ?cd = "\<lparr>cd_certificate = equality_relation_of h, cd_definition_id = dc_id (equality_relation_of h), cd_obligation = None\<rparr>"
  obtain cp bs st where cp: "check_normal_form_with_state h \<lparr>nf_certificate = refl_certificate\<rparr> (state_view h as_new) = Ok cp"
    "register_proof h as_new cp = Ok (bs, st)" "reachable h st" "adds_proof cp as_new st" "checked_proof_ok h cp"
    by (rule refl_registered [OF h])
  have none: "definitions as_new d = None" "proof_statements as_new p = None" "conclusions as_new s = None" "pm_get (as_derivations as_new) i = None"
    for d p s i by (simp_all add: definitions_def proof_statements_def conclusions_def as_new_def)
  have added: "definitions st = definitions as_new" "pm_get (as_proofs st) = (pm_get (as_proofs as_new))(cp_proof_id cp \<mapsto> cp_derivation_id cp)"
    using cp(4) by (auto simp: adds_proof_def)
  have absent: "definitions st (dc_id (equality_relation_of h)) = None" by (simp add: added(1) none(1))
  obtain st' where st': "register_definition h st ?cd = Ok st'" "reachable h st'"
    "definitions st' = (definitions st)(dc_id (equality_relation_of h) \<mapsto> equality_relation_of h)" "as_proofs st' = as_proofs st"
    by (rule equality_registers [OF h cp(3) absent])
  obtain st3 where st3: "register_definition h as_new ?cd = Ok st3" "reachable h st3"
    "definitions st3 = (definitions as_new)(dc_id (equality_relation_of h) \<mapsto> equality_relation_of h)" "as_proofs st3 = as_proofs as_new"
    "proof_statements st3 = proof_statements as_new" "conclusions st3 = conclusions as_new" "as_derivations st3 = as_derivations as_new"
    by (rule equality_registers [OF h reachable_new none(1)])
  have cited: "cp_normal_form cp = \<lparr>nf_certificate = refl_certificate\<rparr>"
    using checked_state.checked_proof [OF reachable_checked_state [OF reachable_new h] h _ cp(1)] refl_certificate_ok by simp
  have "first_absence st3 cp = None"
    by (simp add: cited first_absence_def citations_def step_citations_def refl_certificate_def step_definition_references_def)
  then have "validate_proof_registration h st3 cp = Ok ()"
    using validate_outcome [OF reachable_ok [OF st3(2) h], of cp] none st3(5-7) by (simp add: registration_outcome_def Let_def)
  then obtain bs' st4 where st4: "register_proof h st3 cp = Ok (bs', st4)" "adds_proof cp st3 st4"
    using register_proof_cases [OF reachable_ok [OF st3(2) h] cp(5) h] by (metis outcome.distinct(1))
  have "reachable h st4"
    by (rule reachable_proof [OF st3(2) reachable_new _ cp(1) st4(1)]) (simp add: refl_certificate_ok)
  moreover have "definitions st4 = definitions st'" "pm_get (as_proofs st4) = pm_get (as_proofs st')"
    using st4(2) st3 st' added by (simp_all add: adds_proof_def)
  then have "same_artifacts st' st4"
    by (simp add: same_artifacts_def contains_definition_iff contains_proof_def pm_contains_key_def)
  ultimately show thesis using that cp(2) st'(1,2) st3(1) st4(1) by blast
qed

theorem snapshot_identifies_the_set_witness:
  "\<exists>cp cd bs bs' st st' st3 st4. register_proof tail_digest as_new cp = Ok (bs, st) \<and> register_definition tail_digest st cd = Ok st' \<and>
     register_definition tail_digest as_new cd = Ok st3 \<and> register_proof tail_digest st3 cp = Ok (bs', st4) \<and>
     as_snapshot_id tail_digest st' = as_snapshot_id tail_digest st4"
proof -
  obtain cp cd bs bs' st st2 st3 st4 where orders: "register_proof tail_digest as_new cp = Ok (bs, st)" "register_definition tail_digest st cd = Ok st2"
    "register_definition tail_digest as_new cd = Ok st3" "register_proof tail_digest st3 cp = Ok (bs', st4)"
    "reachable tail_digest st2" "reachable tail_digest st4" "same_artifacts st2 st4" by (rule two_orders [OF tail_digest_ok])
  from snapshot_identifies_the_set [OF tail_digest_ok orders(5,6)] orders(7)
  have "as_snapshot_id tail_digest st2 = as_snapshot_id tail_digest st4" by simp
  with orders(1-4) show ?thesis by blast
qed

theorem index_is_complete_and_exact_witness:
  "\<exists>st s p. reachable zero_digest st \<and> ki_witness (as_question_index st) s = Some p \<and> proof_statements st p = Some s"
proof -
  obtain cp bs st where st: "reachable zero_digest st" "adds_proof cp as_new st" by (rule refl_in_state) blast
  have "proof_statements as_new = Map.empty" by (rule ext) (simp add: proof_statements_def as_new_def)
  then have "least_proof (proof_statements st) (cp_statement_id cp) (cp_proof_id cp)"
    using st(2) bytes_less_irrefl by (auto simp: adds_proof_def least_proof_def split: if_splits)
  with index_is_complete_and_exact [OF zero_digest_ok st(1)] st(1) show ?thesis unfolding least_proof_def by blast
qed

end
