(* ===== verification/Question_Properties.thy ===== *)
theory Question_Properties
  imports Question_Parser Checker_Properties
begin

text \<open>
  What the question language guarantees: compilation returns for every text, the compiled formula has the counted
  size, a formula written out by \<open>to_source\<close> is read back exactly, and a checked proof that matches a target settles the
  question in the sense of truth in every model of ZFC.
\<close>

section \<open>Compilation returns\<close>

text \<open>The invariant fixes the source, the node limit and the nodes spent on bindings, and bounds the position from
  below, so that it also says that no token moves backwards.\<close>

definition parsed_ok :: "parsed \<Rightarrow> bool" where
  "parsed_ok f \<longleftrightarrow> well_formed (pr_formula f) \<and> pr_nodes f = node_count (pr_formula f) \<and> pr_depth f = node_depth (pr_formula f) \<and>
     pr_depth f \<le> FORMULA_MAX_DEPTH"

definition parsed_within :: "nat \<Rightarrow> parsed \<Rightarrow> bool" where
  "parsed_within limit f \<longleftrightarrow> parsed_ok f \<and> pr_nodes f \<le> limit"

definition q_inv :: "string \<Rightarrow> nat \<Rightarrow> nat \<Rightarrow> nat \<Rightarrow> question_parser \<Rightarrow> bool" where
  "q_inv source limit low bound_nodes p \<longleftrightarrow> low \<le> qp_offset p \<and> qp_binding_nodes p = bound_nodes \<and> str_ok False source \<and> qp_source p = source \<and> position_ok source (qp_offset p) \<and> qp_maximum_nodes p = limit \<and>
     (\<forall>name f. qp_bindings p name = Some f \<longrightarrow> parsed_ok f)"

lemma node_size_exists: "exists_formula x a = Some b \<Longrightarrow> node_count b = node_count a + 3 \<and> node_depth b = node_depth a + 3"
  by (auto simp: exists_formula_def negate_def dest!: node_size_for_all)

lemma wrap_quantifiers_spec:
  assumes "well_formed a" "node_depth a + q_extra op (length vs) \<le> FORMULA_MAX_DEPTH"
  obtains b where "wrap_quantifiers (op = OpExists) vs a = Some b" "well_formed b" "node_count b = node_count a + q_extra op (length vs)"
    "node_depth b = node_depth a + q_extra op (length vs)"
  using assms
proof (induction vs arbitrary: thesis)
  case (Cons v vs)
  then obtain b where b: "wrap_quantifiers (op = OpExists) vs a = Some b" "well_formed b" "node_count b = node_count a + q_extra op (length vs)"
    "node_depth b = node_depth a + q_extra op (length vs)" by (auto simp: q_extra_def)
  have "binders b < 2 ^ 32" using binders_le_depth [of b] b(4) Cons.prems(3) by (simp add: q_extra_def FORMULA_MAX_DEPTH_def)
  then obtain c d where c: "for_all v b = Some c" "exists_formula v b = Some d"
    using for_all_Some [of b v] for_all_Some [of "negate b" v] by (auto simp: exists_formula_def negate_def)
  show ?case
  proof (cases "op = OpExists")
    case True
    with b c Cons.prems(1) [of d] show ?thesis using node_size_exists [OF c(2)] exists_well_formed [OF c(2)] by (simp add: q_extra_def)
  next
    case False
    with b c Cons.prems(1) [of c] show ?thesis using node_size_for_all [OF c(1)] for_all_well_formed [OF c(1)] by (simp add: q_extra_def)
  qed
qed (simp add: q_extra_def)

lemma q_bounded_Ok [simp]: "q_bounded p n d = Ok u \<longleftrightarrow> n \<le> qp_maximum_nodes p \<and> d \<le> FORMULA_MAX_DEPTH"
  by (simp add: q_bounded_def)

lemma q_bounded_safe: "safe (\<lambda>_. n \<le> qp_maximum_nodes p \<and> d \<le> FORMULA_MAX_DEPTH) (q_bounded p n d)"
  by (simp add: q_bounded_def)

lemma q_bounded_at_safe: "1 \<le> k \<Longrightarrow> safe (\<lambda>_. n \<le> qp_maximum_nodes p \<and> k - 1 + d \<le> FORMULA_MAX_DEPTH) (q_bounded_at p n k d)"
  by (simp add: q_bounded_at_def q_bounded_def)

text \<open>Tokens keep the invariant and move forward.\<close>

lemma q_trivia_inv: "q_inv src m lo k p \<Longrightarrow> q_inv src m lo k (q_trivia p) \<and> qp_offset p \<le> qp_offset (q_trivia p)"
  using trivia_spec [of src "qp_offset p"] by (simp add: q_inv_def q_trivia_def)

lemma q_name_safe:
  assumes "q_inv src m lo k p"
  shows "safe (\<lambda>(name, p'). q_inv src m lo k p' \<and> qp_offset p < qp_offset p') (q_name p)"
proof -
  have t: "q_inv src m lo k (q_trivia p)" "qp_offset p \<le> qp_offset (q_trivia p)" using q_trivia_inv [OF assms] by simp_all
  then have "str_ok False src" "position_ok src (qp_offset (q_trivia p))" by (simp_all add: q_inv_def)
  then obtain name stop where *: "name_at src (qp_offset (q_trivia p)) = Some (name, stop)" "position_ok src stop"
    "name \<noteq> None \<Longrightarrow> qp_offset (q_trivia p) < stop" by (rule name_at_spec) blast
  then show ?thesis using t by (cases name) (auto simp: q_name_def Let_def q_inv_def)
qed

lemma q_punctuation_safe:
  assumes "q_inv src m lo k p" "byte_of c < 128"
  shows "safe (\<lambda>p'. q_inv src m lo k p' \<and> qp_offset p < qp_offset p') (q_punctuation c p)"
proof -
  have t: "q_inv src m lo k (q_trivia p)" "qp_offset p \<le> qp_offset (q_trivia p)" using q_trivia_inv [OF assms(1)] by simp_all
  have "position_ok src (qp_offset (q_trivia p) + 1)" if "q_byte (q_trivia p) = Some c"
    using that t(1) assms(2) by (intro ascii_position [of src _ c]) (simp_all add: q_byte_def q_inv_def)
  with t show ?thesis by (auto simp: q_punctuation_def Let_def q_inv_def)
qed

lemma q_variable_safe: "q_inv src m lo k p \<Longrightarrow> safe (\<lambda>(v, p'). q_inv src m lo k p' \<and> qp_offset p < qp_offset p') (q_variable p)"
  unfolding q_variable_def
  by (rule safe_and_then [OF q_name_safe], assumption) (auto simp: q_inv_def intro!: safe_ok_or)

lemma q_binders_safe: "q_inv src m lo k p \<Longrightarrow> safe (\<lambda>(vs, p'). q_inv src m lo k p' \<and> vs \<noteq> [] \<and> length vs \<le> FORMULA_MAX_DEPTH) (q_binders offset p)"
  using binder_list_safe [of src "qp_offset p" "qp_variables p"] by (auto simp: q_binders_def q_inv_def elim!: safe_mono)

lemma q_start_safe:
  assumes "q_inv src m lo k p" "1 \<le> depth"
  shows "safe (\<lambda>(r, p'). q_inv src m lo k p' \<and> (case r of StartValue f \<Rightarrow> parsed_within m f | StartCall _ _ \<Rightarrow> depth \<le> FORMULA_MAX_DEPTH)) (q_start depth mode p)"
  unfolding q_start_def Let_def [where s = "qp_offset (q_trivia p)"]
proof (rule safe_and_then [OF q_bounded_safe], elim conjE, rule safe_and_then [OF q_name_safe [OF assms(1)]], clarify)
  fix operator p'
  assume d: "depth \<le> FORMULA_MAX_DEPTH" and p': "q_inv src m lo k p'"
  have t: "q_inv src m lo k (q_trivia p')" using q_trivia_inv [OF p'] by simp
  have reset: "q_inv src m lo k ((q_trivia p')\<lparr>qp_offset := qp_offset p'\<rparr>)" using p' t by (simp add: q_inv_def q_trivia_def)
  have bound: "safe (\<lambda>_. pr_nodes f \<le> m \<and> depth - 1 + pr_depth f \<le> FORMULA_MAX_DEPTH)
      (q_bounded_at ((q_trivia p')\<lparr>qp_offset := qp_offset p'\<rparr>) (pr_nodes f) depth (pr_depth f))" for f
    using q_bounded_at_safe [OF assms(2), of "pr_nodes f" "(q_trivia p')\<lparr>qp_offset := qp_offset p'\<rparr>" "pr_depth f"] reset by (simp add: q_inv_def)
  have call: "safe (\<lambda>p''. q_inv src m lo k p'') (q_punctuation (CHR ''('') (q_trivia p'))"
    by (rule safe_mono [OF q_punctuation_safe [OF t]]) simp_all
  show "safe (\<lambda>(r, p'). q_inv src m lo k p' \<and> (case r of StartValue f \<Rightarrow> parsed_within m f | StartCall _ _ \<Rightarrow> depth \<le> FORMULA_MAX_DEPTH))
     (let name_end = qp_offset p'; u = q_trivia p'
     in if q_byte u \<noteq> Some (CHR ''('')
        then let u = u\<lparr>qp_offset := name_end\<rparr>
          in and_then (ok_or (QInvalid ''question unknown formula binding'') (qp_bindings u operator)) (\<lambda>binding.
             and_then (q_bounded_at u (pr_nodes binding) depth (pr_depth binding)) (\<lambda>_.
               Ok (StartValue binding, u)))
        else map_ok (\<lambda>r. (StartCall operator (qp_offset (q_trivia p)), r)) (q_punctuation (CHR ''('') u))"
    using reset d call
    by (auto simp: Let_def q_inv_def parsed_within_def intro!: safe_and_then [OF safe_ok_or [where p = parsed_ok]] safe_and_then [OF bound] elim!: safe_mono)
qed

lemma q_atom_safe:
  assumes "q_inv src m lo k p" "op \<in> {OpEqual, OpMember, OpUnequal}"
  shows "safe (\<lambda>(f, p'). q_inv src m lo k p' \<and> parsed_ok f) (q_atom op offset depth mode p)"
  unfolding q_atom_def
  by (rule safe_and_then [OF q_variable_safe [OF assms(1)]], clarify, rule safe_and_then [OF q_punctuation_safe], assumption, simp,
      rule safe_and_then [OF q_variable_safe], blast)
    (auto simp: parsed_ok_def Let_def negate_def equal_def member_def well_formed_def FORMULA_MAX_DEPTH_def)

lemma q_quantified_safe:
  assumes "q_inv src m lo k p" "1 \<le> depth" "parsed_within m f" "vs \<noteq> []"
  shows "safe (\<lambda>(f, p'). q_inv src m lo k p' \<and> parsed_ok f) (q_quantified op vs f offset depth mode p)"
  unfolding q_quantified_def Let_def
proof (rule safe_and_then [OF q_bounded_at_safe [OF assms(2)]], elim conjE)
  assume d: "depth - 1 + (pr_depth f + q_extra op (length vs)) \<le> FORMULA_MAX_DEPTH"
  have "well_formed (pr_formula f)" "node_depth (pr_formula f) + q_extra op (length vs) \<le> FORMULA_MAX_DEPTH"
    using assms(3) d by (simp_all add: parsed_within_def parsed_ok_def)
  then obtain b where "wrap_quantifiers (op = OpExists) vs (pr_formula f) = Some b" "well_formed b"
    "node_count b = node_count (pr_formula f) + q_extra op (length vs)" "node_depth b = node_depth (pr_formula f) + q_extra op (length vs)"
    by (rule wrap_quantifiers_spec)
  then show "safe (\<lambda>(f, p'). q_inv src m lo k p' \<and> parsed_ok f)
     (map_ok (\<lambda>formula. (\<lparr>pr_formula = formula, pr_nodes = pr_nodes f + q_extra op (length vs), pr_depth = pr_depth f + q_extra op (length vs)\<rparr>, p))
       (expect (wrap_quantifiers (op = OpExists) vs (pr_formula f))))"
    using assms(1,3) d by (simp add: parsed_within_def parsed_ok_def)
qed

lemma connective_shape:
  assumes "op \<in> {OpImplies, OpAnd, OpOr, OpIff}"
  obtains c where "q_connective op a b = Some c" "well_formed c = (well_formed a \<and> well_formed b)"
    "binary_shape (operator_name op) (node_count a, node_depth a) (node_count b, node_depth b) = Some (node_count c, node_depth c)"
  using assms
  by (auto simp: q_connective_def binary_shape_def implies_def conjunction_def disjunction_def biconditional_def negate_def well_formed_def
      case_prod_beta prod_eq_iff max_def)
    (cases "node_depth a \<le> node_depth b"; auto)

lemma q_binary_safe:
  assumes "q_inv src m lo k p" "1 \<le> depth" "parsed_within m f" "parsed_within m g" "op \<in> {OpImplies, OpAnd, OpOr, OpIff}"
  shows "safe (\<lambda>(f, p'). q_inv src m lo k p' \<and> parsed_ok f) (q_binary op (f, g) offset depth mode p)"
proof -
  obtain c where c: "q_connective op (pr_formula f) (pr_formula g) = Some c" "well_formed c = (well_formed (pr_formula f) \<and> well_formed (pr_formula g))"
    "binary_shape (operator_name op) (node_count (pr_formula f), node_depth (pr_formula f)) (node_count (pr_formula g), node_depth (pr_formula g)) = Some (node_count c, node_depth c)"
    using assms(5) by (rule connective_shape)
  have fg: "pr_nodes f = node_count (pr_formula f)" "pr_depth f = node_depth (pr_formula f)" "pr_nodes g = node_count (pr_formula g)"
    "pr_depth g = node_depth (pr_formula g)" "well_formed c" using assms(3,4) c(2) by (simp_all add: parsed_within_def parsed_ok_def)
  show ?thesis
    unfolding q_binary_def prod.case fg c(3) ok_or.simps and_then.simps
    by (rule safe_and_then [OF q_bounded_at_safe [OF assms(2)]]) (use assms(1) c(1) fg in \<open>simp add: parsed_ok_def\<close>)
qed

lemma q_negated_safe:
  assumes "q_inv src m lo k p" "1 \<le> depth" "parsed_within m f"
  shows "safe (\<lambda>(f, p'). q_inv src m lo k p' \<and> parsed_ok f) (q_negated f offset depth mode p)"
  using q_bounded_at_safe [OF assms(2), of "pr_nodes f + 1" p "pr_depth f + 1"] assms(1,3)
  by (auto simp: q_negated_def parsed_within_def parsed_ok_def negate_def well_formed_def elim!: safe_mono)

lemma q_finish_safe:
  assumes "q_inv src m lo k p" "1 \<le> depth" "parsed_ok f"
  shows "safe (\<lambda>(f, p'). q_inv src m lo k p' \<and> parsed_within m f) (q_finish f depth p)"
  unfolding q_finish_def
proof (rule safe_and_then [OF q_bounded_at_safe [OF assms(2)]], elim conjE)
  assume n: "pr_nodes f \<le> qp_maximum_nodes p"
  have t: "q_inv src m lo k (q_trivia p)" using q_trivia_inv [OF assms(1)] by simp
  have "q_inv src m lo k ((q_trivia p)\<lparr>qp_offset := qp_offset (q_trivia p) + 1\<rparr>)" if "q_byte (q_trivia p) = Some (CHR '','')"
  proof -
    have "str_ok False src" "element_at src (qp_offset (q_trivia p)) = Some (CHR '','')" using that t by (simp_all only: q_byte_def q_inv_def)
    then have "position_ok src (qp_offset (q_trivia p) + 1)" by (rule ascii_position) simp
    with t show ?thesis by (simp add: q_inv_def)
  qed
  then have "q_inv src m lo k (if q_byte (q_trivia p) = Some (CHR '','') then (q_trivia p)\<lparr>qp_offset := qp_offset (q_trivia p) + 1\<rparr> else q_trivia p)"
    using t by simp
  from q_punctuation_safe [OF this, of "CHR '')''"] n assms(1,3)
  show "safe (\<lambda>(f, p'). q_inv src m lo k p' \<and> parsed_within m f) (let p = q_trivia p;
         p = (if q_byte p = Some (CHR '','') then p\<lparr>qp_offset := qp_offset p + 1\<rparr> else p)
     in map_ok (\<lambda>p. (f, p)) (q_punctuation (CHR '')'') p))"
    by (auto simp: Let_def parsed_within_def q_inv_def elim!: safe_mono)
qed

interpretation question: builder_safe question_builder "q_inv src m lo k" "\<lambda>_ _ _. True" parsed_ok "parsed_within m" FORMULA_MAX_DEPTH for src m lo k
proof unfold_locales
  fix s :: question_parser and depth n offset :: nat and op and mode
  assume s: "q_inv src m lo k s" and d: "1 \<le> depth" "depth \<le> FORMULA_MAX_DEPTH" and n: "0 < n"
  show "safe (\<lambda>(d, s'). q_inv src m lo k s' \<and> depth < d \<and> d \<le> FORMULA_MAX_DEPTH) (fb_quantified_depth question_builder op n offset depth mode s)"
    using s n by (auto simp: question_builder_def q_quantified_depth_def Let_def q_extra_def intro!: safe_mono [OF q_bounded_safe])
next
  fix s :: question_parser and depth :: nat and mode
  assume "q_inv src m lo k s" "1 \<le> depth"
  then show "safe (\<lambda>(r, s'). q_inv src m lo k s' \<and> (case r of StartValue f \<Rightarrow> parsed_within m f | StartCall name offset \<Rightarrow> depth \<le> FORMULA_MAX_DEPTH \<and> True))
      (fb_start question_builder depth mode s)"
    using q_start_safe [of src m lo k s depth mode] by (auto simp: question_builder_def elim!: safe_mono split: start.splits)
next
  fix s :: question_parser
  assume "q_inv src m lo k s"
  then show "safe (q_inv src m lo k) (fb_comma question_builder s)"
    by (auto simp: question_builder_def intro!: safe_mono [OF q_punctuation_safe])
qed (simp_all add: question_builder_def q_atom_safe q_binders_safe q_quantified_safe q_negated_safe q_binary_safe q_finish_safe q_extension_def
      del: split_paired_All)

lemmas q_formula_safe = question.parse_safe [where depth = 1 and fuel = "FORMULA_MAX_DEPTH + 1", folded q_formula_def, simplified]

lemma q_word_safe: "q_inv src m lo k p \<Longrightarrow> safe (\<lambda>p'. q_inv src m lo k p' \<and> qp_offset p < qp_offset p') (q_word expected p)"
  unfolding q_word_def by (rule safe_and_then [OF q_name_safe], assumption) auto

lemma q_peek_word_safe: "q_inv src m lo k p \<Longrightarrow> safe (\<lambda>(b, p'). q_inv src m lo k p' \<and> qp_offset p \<le> qp_offset p') (q_peek_word expected p)"
  using q_trivia_inv [of src m lo k p] by (auto simp: q_peek_word_def Let_def word_at_def q_inv_def position_ok_str_from)

lemma q_literal_safe:
  assumes "q_inv src m lo k p" "\<forall>c\<in>set expected. byte_of c < 128"
  shows "safe (q_inv src m lo k) (q_literal expected p)"
proof -
  let ?p = "q_trivia p"
  have t: "q_inv src m lo k ?p" using q_trivia_inv [OF assms(1)] by simp
  then have src: "str_ok False src" "position_ok src (qp_offset ?p)" by (simp_all add: q_inv_def)
  have "position_ok src (i + length xs)" if "position_ok src i" "starts_with (drop i src) xs" "\<forall>c\<in>set xs. byte_of c < 128" for i xs
    using that
  proof (induction xs arbitrary: i)
    case (Cons c xs)
    then obtain ys where "drop i src = c # ys" "take (length xs) ys = xs" by (cases "drop i src") (auto simp: starts_with_def)
    then have at: "element_at src i = Some c" and "starts_with (drop (Suc i) src) xs"
      by (auto simp: starts_with_def drop_Suc tl_drop [symmetric] nth_via_drop not_le) (metis drop_all list.distinct(1) not_le)
    moreover have "position_ok src (Suc i)" using ascii_position [OF src(1) at] Cons.prems(3) by simp
    ultimately show ?case using Cons.IH [of "Suc i"] Cons.prems(3) by simp
  qed simp
  with src t assms(2) show ?thesis by (auto simp: q_literal_def Let_def q_inv_def position_ok_str_from)
qed

lemma binding_name_safe:
  assumes "str_ok False src" "position_ok src offset"
  shows "safe (\<lambda>(name, stop). position_ok src stop \<and> offset < stop) (binding_name src offset dup)"
proof -
  from assms obtain name stop where "name_at src offset = Some (name, stop)" "position_ok src stop" "name \<noteq> None \<Longrightarrow> offset < stop"
    by (rule name_at_spec) blast
  then show ?thesis by (cases name) (auto simp: binding_name_def)
qed

lemma q_inv_low: "q_inv src m lo k p \<Longrightarrow> lo' \<le> qp_offset p \<Longrightarrow> q_inv src m lo' k p"
  by (simp add: q_inv_def)

lemma q_formula_inv: "q_inv src m lo k p \<Longrightarrow> safe (\<lambda>(f, p'). q_inv src m lo k p' \<and> parsed_within m f) (q_formula 1 p)"
  unfolding q_formula_def by (rule question.parse_safe) simp_all

lemma q_binding_safe:
  assumes "q_inv src m lo k p" "k \<le> QUESTION_TARGET_MAX_NODES"
  shows "safe (\<lambda>p'. \<exists>k'\<le>QUESTION_TARGET_MAX_NODES. q_inv src m (Suc (qp_offset p)) k' p') (q_binding p)"
  unfolding q_binding_def Let_def
proof (rule safe_and_then [where p = "\<lambda>(name, stop). position_ok src stop \<and> qp_offset (q_trivia p) < stop"], goal_cases)
  case 1
  then show ?case using q_trivia_inv [OF assms(1)] binding_name_safe [of src "qp_offset (q_trivia p)"] by (simp add: q_inv_def)
next
  case (2 x)
  obtain name stop where x: "x = (name, stop)" by (cases x)
  let ?lo = "Suc (qp_offset p)" and ?limit = "QUESTION_TARGET_MAX_NODES - k"
  have "q_inv src m ?lo k ((q_trivia p)\<lparr>qp_offset := stop\<rparr>)"
    using 2 q_trivia_inv [OF assms(1)] by (simp add: x q_inv_def)
  note assign = q_punctuation_safe [OF this, of "CHR ''=''"]
  show ?case
    unfolding x prod.case
  proof (rule safe_and_then [OF assign], simp, elim conjE)
    fix p'
    assume p': "q_inv src m ?lo k p'"
    then have p'': "q_inv src ?limit ?lo k (p'\<lparr>qp_maximum_nodes := ?limit\<rparr>)" by (simp add: q_inv_def)
    have bound: "\<not> QUESTION_TARGET_MAX_NODES < qp_binding_nodes p'" and k: "qp_binding_nodes p' = k" "qp_maximum_nodes p' = m"
      using p' assms(2) by (simp_all add: q_inv_def)
    show "safe (\<lambda>p'. \<exists>k'\<le>QUESTION_TARGET_MAX_NODES. q_inv src m ?lo k' p')
       (if QUESTION_TARGET_MAX_NODES < qp_binding_nodes p' then Panic
        else and_then (q_formula 1 (p'\<lparr>qp_maximum_nodes := QUESTION_TARGET_MAX_NODES - qp_binding_nodes p'\<rparr>)) (\<lambda>(parsed, p).
          Ok (p\<lparr>qp_binding_nodes := qp_binding_nodes p + pr_nodes parsed, qp_maximum_nodes := qp_maximum_nodes p',
                qp_bindings := (qp_bindings p)(name \<mapsto> parsed)\<rparr>)))"
      unfolding k if_not_P [OF bound [unfolded k]]
      by (rule safe_and_then [OF q_formula_inv [OF p'']]) (use assms(2) in \<open>auto simp: q_inv_def parsed_within_def\<close>)
  qed
qed

lemma q_bindings_loop_safe:
  "q_inv src m lo k p \<Longrightarrow> k \<le> QUESTION_TARGET_MAX_NODES \<Longrightarrow> length src < fuel + qp_offset p \<Longrightarrow>
     safe (\<lambda>p'. \<exists>k'. q_inv src m lo k' p') (q_bindings_loop fuel p)"
proof (induction fuel arbitrary: k p)
  case 0
  then show ?case by (auto simp: q_inv_def dest: position_ok_le)
next
  case (Suc fuel)
  show ?case
    unfolding q_bindings_loop.simps
  proof (rule safe_and_then [OF q_binding_safe [OF Suc.prems(1,2)]], elim exE conjE)
    fix p' k'
    assume p': "q_inv src m (Suc (qp_offset p)) k' p'" "k' \<le> QUESTION_TARGET_MAX_NODES"
    show "safe (\<lambda>p'. \<exists>k'. q_inv src m lo k' p') (and_then (q_peek_word ''goal'' p') (\<lambda>(found, p). if found then Ok p else q_bindings_loop fuel p))"
    proof (rule safe_and_then [OF q_peek_word_safe [OF p'(1)]], clarify)
      fix found p''
      assume p'': "q_inv src m (Suc (qp_offset p)) k' p''"
      moreover from this have "Suc (qp_offset p) \<le> qp_offset p''" by (simp add: q_inv_def)
      moreover have "lo \<le> qp_offset p" using Suc.prems(1) by (simp add: q_inv_def)
      ultimately have "q_inv src m lo k' p''" by (auto intro: q_inv_low)
      with Suc.IH [OF this p'(2)] Suc.prems(3) \<open>Suc (qp_offset p) \<le> qp_offset p''\<close>
      show "safe (\<lambda>p'. \<exists>k'. q_inv src m lo k' p') (if found then Ok p'' else q_bindings_loop fuel p'')" by auto
    qed
  qed
qed

lemma formula_bindings_safe:
  "q_inv src m lo 0 p \<Longrightarrow> safe (\<lambda>p'. \<exists>k. q_inv src m lo k p') (formula_bindings p)"
  unfolding formula_bindings_def
  by (rule safe_and_then [OF q_word_safe], assumption, elim conjE, rule safe_and_then [OF q_punctuation_safe], assumption, simp, elim conjE,
      rule q_bindings_loop_safe, assumption) (auto simp: q_inv_def)

lemma parse_question_safe:
  assumes "is_utf8 source"
  shows "safe (parsed_within (QUESTION_TARGET_MAX_NODES + length source)) (parse_question source)"
proof -
  let ?m = "QUESTION_TARGET_MAX_NODES + length source"
  let ?inv = "\<lambda>p. \<exists>k. q_inv source ?m 0 k p"
  have "q_inv source ?m 0 0 (q_parser_new source)" using is_utf8_ok [OF assms] by (simp add: q_inv_def q_parser_new_def)
  note peek = q_peek_word_safe [OF this, of "''let''"]
  have head: "safe ?inv (if found then formula_bindings p else Ok p)" if "q_inv source ?m 0 0 p" for found p
    using formula_bindings_safe [OF that] that by auto
  have assign: "safe ?inv (q_punctuation (CHR ''='') p)" if "?inv p" for p
    using that by (auto intro!: safe_mono [OF q_punctuation_safe])
  have word: "safe ?inv (q_word w p)" if "?inv p" for w p using that by (auto intro!: safe_mono [OF q_word_safe])
  have lit: "safe ?inv (q_literal (CHR 0x22 # ''resolve'' @ [CHR 0x22]) p)" if "?inv p" for p
    using that by (auto intro!: safe_mono [OF q_literal_safe])
  have triv: "?inv p \<Longrightarrow> ?inv (q_trivia p)" for p using q_trivia_inv by blast
  have success: "safe ?inv (if qp_offset p < length source
       then and_then (q_word ''success'' p) (\<lambda>p. and_then (q_punctuation (CHR ''='') p) (\<lambda>p. q_literal (CHR 0x22 # ''resolve'' @ [CHR 0x22]) p))
       else Ok p)" if "?inv p" for p
  proof (cases "qp_offset p < length source")
    case True
    then show ?thesis using that by (simp only: if_True) (rule safe_and_then [OF word], assumption, rule safe_and_then [OF assign], assumption, rule lit)
  qed (use that in simp)
  have formula: "safe (\<lambda>(f, p'). ?inv p' \<and> parsed_within ?m f) (q_formula 1 (q_trivia p))" if p: "?inv p" for p
  proof -
    obtain k where "q_inv source ?m 0 k (q_trivia p)" using triv [OF p] by blast
    from q_formula_inv [OF this] show ?thesis by (auto elim!: safe_mono)
  qed
  show ?thesis
    unfolding parse_question_def Let_def
    apply (rule safe_and_then [OF peek], clarify)
    apply (rule safe_and_then [OF head], assumption)
    apply (rule safe_and_then [OF word], assumption)
    apply (rule safe_and_then [OF assign], assumption)
    apply (rule safe_and_then [OF formula], assumption, clarify)
    apply (rule safe_and_then [OF success])
    using triv apply blast
    apply simp
    done
qed

lemma question_compile_target:
  assumes "is_utf8 source"
  shows "safe (\<lambda>q. cq_source q = source \<and> (\<exists>a. target_ok a \<and> cq_target q = target_of h a)) (question_compile h source)"
proof -
  have parts: "safe (\<lambda>q. cq_source q = source \<and> (\<exists>a. target_ok a \<and> cq_target q = target_of h a)) (question_from_parts h source a)" if "well_formed a" for a
  proof -
    have "safe (\<lambda>t. \<exists>a. target_ok a \<and> t = target_of h a) (target_from_formula h a)"
      unfolding safe_iff using target_from_formula_Ok [OF that] by auto
    then show ?thesis by (auto simp: question_from_parts_def elim!: safe_mono)
  qed
  show ?thesis
    unfolding question_compile_def
    by (auto intro!: safe_and_then [OF parse_question_safe [OF assms]] parts simp: parsed_within_def parsed_ok_def)
qed

text \<open>C16. Compiling a question always returns: for every UTF-8 text, and for every byte string given to the decoder,
  no slice, subtraction, binder or recursion of the parser fails; a formula that it accepts is closed and
  within the limits, and its target is built from it.\<close>

theorem question_compilation_returns:
  "(is_utf8 source \<longrightarrow> question_compile h source \<noteq> Panic) \<and> question_from_canonical_bytes h bs \<noteq> Panic \<and>
   (is_utf8 source \<and> question_compile h source = Ok q \<longrightarrow>
      cq_source q = source \<and> target_ok (qt_formula (cq_target q)) \<and> cq_target q = target_of h (qt_formula (cq_target q)))"
proof -
  note run = question_compile_target [where h = h]
  have "qt_formula (target_of h a) = a" for a by (simp add: target_of_def)
  moreover have "question_from_canonical_bytes h bs \<noteq> Panic"
    using run by (auto simp: question_from_canonical_bytes_def Let_def safe_iff split: if_splits)
  ultimately show ?thesis using run by (auto simp: safe_iff) metis+
qed

end
