(* ===== verification/Question_Round_Trip.thy ===== *)
theory Question_Round_Trip
  imports Question_Properties
begin

text \<open>
  Reading back what \<open>to_source\<close> writes. The text names the binder at depth \<open>n\<close> \<open>bn\<close>; the parser allocates one
  free variable for every name and binds it when it leaves the quantifier. \<open>name_node\<close> is the formula in between: the
  binders that are open at a point of the text are free variables. Binding the innermost of them closes one binder.
\<close>

section \<open>Names of binders\<close>

abbreviation binder_name :: "nat \<Rightarrow> string" where
  "binder_name n \<equiv> CHR ''b'' # decimal n"

lemma byte_of_digit: "n < 10 \<Longrightarrow> byte_of (digit n) = 48 + n"
  by (simp add: digit_def)

lemma decimal_digits: "\<forall>c\<in>set (decimal n). 48 \<le> byte_of c \<and> byte_of c \<le> 57"
proof (induction n rule: decimal.induct)
  case (1 n)
  then show ?case by (subst decimal.simps) (auto simp: byte_of_digit)
qed

lemma decimal_inject: "decimal m = decimal n \<longleftrightarrow> m = n"
proof -
  have "foldl (\<lambda>a c. 10 * a + (byte_of c - 48)) 0 (decimal n) = n" for n
  proof (induction n rule: decimal.induct)
    case (1 n)
    then show ?case by (subst decimal.simps) (simp add: byte_of_digit)
  qed
  then show ?thesis by metis
qed

lemma decimal_nonempty [simp]: "decimal n \<noteq> []"
  by (subst decimal.simps) simp

section \<open>Open binders as free variables\<close>

primrec name_variable :: "(nat \<Rightarrow> u32) \<Rightarrow> nat \<Rightarrow> nat \<Rightarrow> variable \<Rightarrow> variable" where
  "name_variable \<rho> d k (Free v) = Free v"
| "name_variable \<rho> d k (Bound i) = (if unat i < k then Bound i else Free (\<rho> (d - 1 - (unat i - k))))"

primrec name_node :: "(nat \<Rightarrow> u32) \<Rightarrow> nat \<Rightarrow> nat \<Rightarrow> node \<Rightarrow> node" where
  "name_node \<rho> d k (FEqual x y) = FEqual (name_variable \<rho> d k x) (name_variable \<rho> d k y)"
| "name_node \<rho> d k (FMember x y) = FMember (name_variable \<rho> d k x) (name_variable \<rho> d k y)"
| "name_node \<rho> d k (FNot a) = FNot (name_node \<rho> d k a)"
| "name_node \<rho> d k (FImplies a b) = FImplies (name_node \<rho> d k a) (name_node \<rho> d k b)"
| "name_node \<rho> d k (FForAll a) = FForAll (name_node \<rho> d (Suc k) a)"

lemma name_variable_closed: "var_below k v \<Longrightarrow> name_variable \<rho> d k v = v"
  by (cases v) auto

lemma name_node_closed: "closed_at k a \<Longrightarrow> name_node \<rho> d k a = a"
  by (induction a arbitrary: k) (auto simp: name_variable_closed)

lemma name_variable_cong: "var_below (d + k) v \<Longrightarrow> (\<And>i. i < d \<Longrightarrow> \<rho> i = \<rho>' i) \<Longrightarrow> name_variable \<rho> d k v = name_variable \<rho>' d k v"
  by (cases v) auto

lemma name_node_cong:
  assumes "closed_at (d + k) a" "\<And>i. i < d \<Longrightarrow> \<rho> i = \<rho>' i"
  shows "name_node \<rho> d k a = name_node \<rho>' d k a"
  using assms(1)
proof (induction a arbitrary: k)
  case (FForAll a)
  then show ?case using FForAll.IH [of "Suc k"] by simp
qed (simp_all add: name_variable_cong [OF _ assms(2)])

lemma name_variable_bind:
  assumes "var_below (Suc d + k) v" "frees_of v = {}" "inj_on \<rho> {..d}" "k < 2 ^ 32"
  shows "bind_variable (\<lambda>c. if c = \<rho> d then Some 0 else None) (of_nat k) (name_variable \<rho> (Suc d) k v) = Some (name_variable \<rho> d (Suc k) v)"
proof (cases v)
  case (Bound i)
  have i: "unat i \<le> d + k" using assms(1) by (simp add: Bound)
  consider "unat i < k" | "unat i = k" | "k < unat i" by linarith
  then show ?thesis
  proof cases
    case 2
    then have "of_nat k = i" by auto
    with 2 show ?thesis by (simp add: Bound bind_variable_def checked_add_def)
  next
    case 3
    then have "d - (unat i - k) < d" using i by simp
    then have "\<rho> (d - (unat i - k)) \<noteq> \<rho> d" using inj_onD [OF assms(3), of "d - (unat i - k)" d] by fastforce
    moreover have "d - Suc (unat i - Suc k) = d - (unat i - k)" using 3 by simp
    ultimately show ?thesis using 3 by (simp add: Bound bind_variable_def)
  qed (simp_all add: Bound bind_variable_def)
qed (use assms(2) in simp)

lemma name_node_bind:
  "closed_at (Suc d + k) a \<Longrightarrow> frees a = {} \<Longrightarrow> inj_on \<rho> {..d} \<Longrightarrow> k + binders a < 2 ^ 32 \<Longrightarrow>
     bind_free (\<lambda>c. if c = \<rho> d then Some 0 else None) (of_nat k) (name_node \<rho> (Suc d) k a) = Some (name_node \<rho> d (Suc k) a)"
proof (induction a arbitrary: k)
  case (FForAll a)
  then have "unat (of_nat k :: u32) + 1 < 2 ^ 32" by (simp add: unat_u32_of_nat)
  then have "checked_add (of_nat k :: u32) 1 = Some (of_nat (Suc k))" using checked_add_one [of "of_nat k"] by (simp add: add.commute)
  moreover have "bind_free (\<lambda>c. if c = \<rho> d then Some 0 else None) (of_nat (Suc k)) (name_node \<rho> (Suc d) (Suc k) a) = Some (name_node \<rho> d (Suc (Suc k)) a)"
    using FForAll.prems by (intro FForAll.IH) simp_all
  ultimately show ?case by (simp del: of_nat_Suc)
qed (simp_all add: name_variable_bind)

lemma for_all_name_node:
  "closed_at (Suc d) a \<Longrightarrow> frees a = {} \<Longrightarrow> inj_on \<rho> {..d} \<Longrightarrow> binders a < 2 ^ 32 \<Longrightarrow>
     for_all (\<rho> d) (name_node \<rho> (Suc d) 0 a) = Some (name_node \<rho> d 0 (FForAll a))"
  using name_node_bind [of d 0 a \<rho>] by (simp add: for_all_def)

section \<open>Reading tokens\<close>

lemma skip_while_stop: "offset < length source \<Longrightarrow> \<not> p (source ! offset) \<Longrightarrow> skip_while p source offset = offset"
  by (simp add: skip_while.simps [of p source offset])

lemma drop_Cons_nth: "drop i xs = c # r \<Longrightarrow> i < length xs \<and> xs ! i = c \<and> drop (Suc i) xs = r"
  by (metis Cons_nth_drop_Suc drop_all linorder_not_le list.distinct(1) list.inject)

lemma skip_while_run:
  "drop offset source = xs @ r \<Longrightarrow> \<forall>c\<in>set xs. p c \<Longrightarrow> r = [] \<or> \<not> p (hd r) \<Longrightarrow> skip_while p source offset = offset + length xs"
proof (induction xs arbitrary: offset)
  case Nil
  then show ?case by (cases r) (auto simp: skip_while.simps [of p source offset] dest: drop_Cons_nth)
next
  case (Cons c xs)
  then show ?case using drop_Cons_nth [of offset source c "xs @ r"] by (simp add: skip_while.simps [of p source offset])
qed

text \<open>The separators of the written text: nothing, or one space.\<close>

definition gap :: "string \<Rightarrow> bool" where
  "gap s \<longleftrightarrow> s = [] \<or> s = '' ''"

lemma trivia_gap:
  assumes "drop offset source = s @ c # r" "gap s" "\<not> is_blank c" "c \<noteq> CHR ''#''"
  shows "trivia source offset = offset + length s"
proof -
  have skip: "skip_while is_blank source offset = offset + length s"
    using assms(2,3) by (intro skip_while_run [OF assms(1)]) (auto simp: gap_def is_blank_def)
  have "drop (offset + length s) source = c # r" using assms(1) by (metis append_eq_conv_conj drop_drop add.commute)
  then have "element_at source (offset + length s) = Some c" using drop_Cons_nth by (simp add: element_at_def) fastforce
  with assms(4) show ?thesis by (simp add: trivia.simps [of source offset] skip)
qed

lemma name_at_gap:
  assumes "drop offset source = s @ (c # cs) @ r" "gap s" "is_name_start c" "\<forall>b\<in>set cs. is_name_byte b" "r = [] \<or> \<not> is_name_byte (hd r)"
    "str_ok False source" "position_ok source offset"
  shows "name_at source offset = Some (Some (c # cs), offset + length s + length (c # cs))"
proof -
  have c: "\<not> is_blank c" "c \<noteq> CHR ''#''"
    using assms(3) by (auto simp: is_name_start_def is_ascii_alphabetic_def byte_between_def is_blank_def)
  then have t: "trivia source offset = offset + length s" using trivia_gap [of offset source s c "cs @ r"] assms(1,2) by simp
  have d: "drop (offset + length s) source = c # cs @ r" using assms(1) by (metis append_Cons append_eq_conv_conj drop_drop add.commute)
  then have at: "offset + length s < length source" "source ! (offset + length s) = c" "drop (Suc (offset + length s)) source = cs @ r"
    using drop_Cons_nth [OF d] by simp_all
  have stop: "skip_while is_name_byte source (Suc (offset + length s)) = Suc (offset + length s) + length cs"
    using skip_while_run [OF at(3) assms(4,5)] .
  obtain n e where "name_at source offset = Some (n, e)" using assms(6,7) by (rule name_at_spec)
  then have "str_range source (offset + length s) (Suc (offset + length s) + length cs) \<noteq> None"
    using at stop assms(3) by (auto simp: name_at_def Let_def t element_at_def)
  then have "str_range source (offset + length s) (Suc (offset + length s) + length cs) = Some (c # cs)"
    by (auto simp: str_range_def d split: if_splits)
  then show ?thesis using at stop assms(3) by (simp add: name_at_def Let_def t element_at_def)
qed

definition ahead :: "question_parser \<Rightarrow> string \<Rightarrow> bool" where
  "ahead p t \<longleftrightarrow> str_ok False (qp_source p) \<and> position_ok (qp_source p) (qp_offset p) \<and> drop (qp_offset p) (qp_source p) = t"

text \<open>Moving a parser over a piece of text.\<close>

definition past :: "string \<Rightarrow> question_parser \<Rightarrow> question_parser" where
  "past t p = p\<lparr>qp_offset := qp_offset p + length t\<rparr>"

lemma past_past [simp]: "past u (past t p) = past (t @ u) p"
  by (simp add: past_def)

lemma past_Nil [simp]: "past [] p = p"
  by (simp add: past_def)

lemma past_select [simp]:
  "qp_source (past t p) = qp_source p" "qp_variables (past t p) = qp_variables p" "qp_bindings (past t p) = qp_bindings p"
  "qp_maximum_nodes (past t p) = qp_maximum_nodes p" "qp_offset (past t p) = qp_offset p + length t"
  by (simp_all add: past_def)

definition ascii_text :: "string \<Rightarrow> bool" where
  "ascii_text t \<longleftrightarrow> (\<forall>c\<in>set t. byte_of c < 128)"

lemma ascii_text_simps [simp]:
  "ascii_text []" "ascii_text (c # t) \<longleftrightarrow> byte_of c < 128 \<and> ascii_text t" "ascii_text (t @ u) \<longleftrightarrow> ascii_text t \<and> ascii_text u"
  by (auto simp: ascii_text_def)

lemma ahead_past: "ahead p (t @ u) \<Longrightarrow> ascii_text t \<Longrightarrow> ahead (past t p) u"
proof (induction t arbitrary: p)
  case (Cons c t)
  then have c: "drop (qp_offset p) (qp_source p) = c # t @ u" "str_ok False (qp_source p)" "byte_of c < 128" by (simp_all add: ahead_def)
  then have "ahead (past [c] p) (t @ u)"
    using drop_Cons_nth [OF c(1)] position_ok_Suc [OF c(2), of "qp_offset p"] by (simp add: ahead_def past_def)
  from Cons.IH [OF this] Cons.prems(2) show ?case by simp
qed simp

lemma ascii_gap: "gap s \<Longrightarrow> ascii_text s"
  by (auto simp: gap_def)

lemma q_trivia_gap: "ahead p (s @ c # r) \<Longrightarrow> gap s \<Longrightarrow> \<not> is_blank c \<Longrightarrow> c \<noteq> CHR ''#'' \<Longrightarrow> q_trivia p = past s p"
  by (simp add: q_trivia_def past_def trivia_gap [of "qp_offset p" "qp_source p" s c r] ahead_def)

lemma q_byte_ahead: "ahead p (c # r) \<Longrightarrow> q_byte p = Some c"
  using drop_Cons_nth [of "qp_offset p" "qp_source p" c r] by (simp add: q_byte_def ahead_def element_at_def)

lemma q_punctuation_gap:
  assumes "ahead p (s @ c # r)" "gap s" "\<not> is_blank c" "c \<noteq> CHR ''#''"
  shows "q_punctuation c p = Ok (past (s @ [c]) p)"
proof -
  have "ahead (past s p) (c # r)" using assms(1,2) by (intro ahead_past ascii_gap) simp_all
  then show ?thesis using q_byte_ahead [of "past s p" c r] by (simp add: q_punctuation_def Let_def q_trivia_gap [OF assms] past_def)
qed

definition name_text :: "string \<Rightarrow> bool" where
  "name_text n \<longleftrightarrow> n \<noteq> [] \<and> is_name_start (hd n) \<and> (\<forall>b\<in>set n. is_name_byte b)"

lemma name_text_ascii: "name_text n \<Longrightarrow> ascii_text n"
  by (auto simp: name_text_def ascii_text_def dest: name_byte_ascii)

lemma q_name_gap:
  assumes "ahead p (s @ n @ b # r)" "gap s" "name_text n" "\<not> is_name_byte b"
  shows "q_name p = Ok (n, past (s @ n) p)"
proof -
  obtain c cs where n: "n = c # cs" using assms(3) by (cases n) (auto simp: name_text_def)
  have c: "\<not> is_blank c" "c \<noteq> CHR ''#''"
    using assms(3) by (auto simp: n name_text_def is_name_start_def is_ascii_alphabetic_def byte_between_def is_blank_def)
  then have t: "q_trivia p = past s p" using assms(1,2) by (intro q_trivia_gap [of p s c "cs @ b # r"]) (simp_all add: n)
  have a: "ahead (past s p) (n @ b # r)" using assms(1,2) by (intro ahead_past ascii_gap) simp_all
  have "name_at (qp_source p) (qp_offset p + length s) = Some (Some (c # cs), qp_offset p + length s + length (c # cs))"
    using name_at_gap [of "qp_offset p + length s" "qp_source p" "[]" c cs "b # r"] a assms(3,4) by (simp add: ahead_def n name_text_def gap_def)
  then show ?thesis by (simp add: q_name_def Let_def t n past_def)
qed

lemma name_texts [simp]:
  "name_text ''eq''" "name_text ''mem''" "name_text ''not''" "name_text ''imp''" "name_text ''all''" "name_text ''goal''" "name_text (binder_name i)"
  using decimal_digits [of i]
  by (auto simp: name_text_def is_name_start_def is_name_byte_def is_ascii_alphanumeric_def is_ascii_alphabetic_def byte_between_def)

lemma ends [simp]:
  "\<not> is_name_byte (CHR ''('')" "\<not> is_name_byte (CHR '')'')" "\<not> is_name_byte (CHR '','')" "\<not> is_name_byte (CHR '' '')"
  "\<not> is_blank (CHR ''('')" "\<not> is_blank (CHR '')'')" "\<not> is_blank (CHR '','')" "gap []" "gap '' ''"
  by (auto simp: is_name_byte_def is_ascii_alphanumeric_def is_ascii_alphabetic_def byte_between_def is_blank_def gap_def)

section \<open>Presentation variables\<close>

definition vars_ok :: "nat \<Rightarrow> variables \<Rightarrow> bool" where
  "vars_ok n vs \<longleftrightarrow> (\<forall>name v. vs_named vs name = Some v \<longrightarrow> v < vs_next vs) \<and> inj_on (vs_named vs) (dom (vs_named vs)) \<and> unat (vs_next vs) \<le> n"

definition binder_of :: "variables \<Rightarrow> nat \<Rightarrow> u32" where
  "binder_of vs i = the (vs_named vs (binder_name i))"

lemma vars_ok_mono: "vars_ok n vs \<Longrightarrow> n \<le> m \<Longrightarrow> vars_ok m vs"
  by (simp add: vars_ok_def)

lemma vs_name_spec:
  assumes "vars_ok n vs" "Suc n < 2 ^ 32"
  obtains v vs' where "vs_name name vs = Some (v, vs')" "vars_ok (Suc n) vs'" "vs_named vs \<subseteq>\<^sub>m vs_named vs'" "vs_named vs' name = Some v"
proof (cases "vs_named vs name")
  case (Some v)
  with that [of v vs] assms(1) show thesis by (simp add: vs_name_def vars_ok_def)
next
  case None
  have u: "unat (vs_next vs) + 1 < 2 ^ 32" using assms by (simp add: vars_ok_def)
  have ck: "checked_add (vs_next vs) 1 = Some (vs_next vs + 1)" "unat (vs_next vs + 1) = unat (vs_next vs) + 1" using checked_add_one [OF u] by simp_all
  define vs' where "vs' = \<lparr>vs_named = (vs_named vs)(name \<mapsto> vs_next vs), vs_next = vs_next vs + 1\<rparr>"
  have "vs_name name vs = Some (vs_next vs, vs')" using None ck by (simp add: vs_name_def vs_fresh_def vs'_def)
  moreover have below: "v < vs_next vs" if "vs_named vs n = Some v" for n v using assms(1) that by (simp add: vars_ok_def)
  have "vars_ok (Suc n) vs'"
    unfolding vars_ok_def
  proof (intro conjI allI impI)
    show "unat (vs_next vs') \<le> Suc n" using assms(1) ck by (simp add: vs'_def vars_ok_def)
    show "v < vs_next vs'" if "vs_named vs' m = Some v" for m v
    proof -
      have "unat v < unat (vs_next vs) + 1" using that below [of m v] by (auto simp: vs'_def word_less_nat_alt split: if_splits)
      then show ?thesis by (simp add: vs'_def word_less_nat_alt ck(2))
    qed
    show "inj_on (vs_named vs') (dom (vs_named vs'))"
      using assms(1) below by (auto simp: vs'_def vars_ok_def inj_on_def dom_def split: if_splits) fastforce+
  qed
  moreover have "vs_named vs \<subseteq>\<^sub>m vs_named vs'" using None by (auto simp: vs'_def map_le_def)
  ultimately show thesis using that [of "vs_next vs" vs'] by (simp add: vs'_def)
qed

lemma binder_of_mono:
  "vs_named vs \<subseteq>\<^sub>m vs_named vs' \<Longrightarrow> vs_named vs (binder_name i) \<noteq> None \<Longrightarrow> binder_of vs' i = binder_of vs i"
  by (auto simp: binder_of_def map_le_def dom_def)

lemma binder_of_inj:
  assumes "vars_ok n vs" "\<forall>i\<in>I. vs_named vs (binder_name i) \<noteq> None"
  shows "inj_on (binder_of vs) I"
proof (rule inj_onI)
  fix i j
  assume ij: "i \<in> I" "j \<in> I" "binder_of vs i = binder_of vs j"
  then have "vs_named vs (binder_name i) = vs_named vs (binder_name j)" using assms(2) by (metis binder_of_def option.expand)
  moreover have "binder_name i \<in> dom (vs_named vs)" "binder_name j \<in> dom (vs_named vs)" using ij assms(2) by (auto simp: dom_def)
  ultimately have "binder_name i = binder_name j" using assms(1) unfolding vars_ok_def by (meson inj_onD)
  then show "i = j" by (simp add: decimal_inject)
qed

section \<open>Reading a written formula\<close>

lemma ahead_variables [simp]: "ahead (p\<lparr>qp_variables := vs\<rparr>) t = ahead p t"
  by (simp add: ahead_def)

lemma past_variables [simp]: "past t (p\<lparr>qp_variables := vs\<rparr>) = (past t p)\<lparr>qp_variables := vs\<rparr>"
  by (simp add: past_def)

lemma ascii_source_text: "frees a = {} \<Longrightarrow> ascii_text (source_text d a)"
proof (induction a arbitrary: d)
  case (FEqual x y)
  then show ?case using name_text_ascii [OF name_texts(7)] by (cases x; cases y) auto
next
  case (FMember x y)
  then show ?case using name_text_ascii [OF name_texts(7)] by (cases x; cases y) auto
next
  case (FForAll a)
  then show ?case using name_text_ascii [OF name_texts(7)] by auto
qed auto

lemma q_start_call:
  assumes "ahead p (s @ n @ CHR ''('' # r)" "gap s" "name_text n" "depth \<le> FORMULA_MAX_DEPTH"
  shows "q_start depth mode p = Ok (StartCall n (qp_offset p + length s), past (s @ n @ ''('') p)"
proof -
  have name: "q_name p = Ok (n, past (s @ n) p)" by (rule q_name_gap [OF assms(1-3) ends(1)])
  have a: "ahead (past (s @ n) p) (CHR ''('' # r)" using assms by (intro ahead_past) (simp_all add: ascii_gap name_text_ascii)
  then have stay: "q_trivia (past (s @ n) p) = past (s @ n) p" using q_trivia_gap [of "past (s @ n) p" "[]"] by simp
  obtain c cs where n: "n = c # cs" "is_name_start c" using assms(3) by (cases n) (auto simp: name_text_def)
  then have "\<not> is_blank c" "c \<noteq> CHR ''#''" by (auto simp: is_name_start_def is_ascii_alphabetic_def byte_between_def is_blank_def)
  then have "q_trivia p = past s p" using assms(1,2) n(1) by (intro q_trivia_gap [of p s c "cs @ CHR ''('' # r"]) simp_all
  then show ?thesis
    using assms(4) stay q_byte_ahead [OF a] q_punctuation_gap [of "past (s @ n) p" "[]" "CHR ''(''" r] a
    by (simp add: q_start_def name Let_def q_bounded_def)
qed

lemma q_finish_close:
  assumes "ahead p (CHR '')'' # r)" "1 \<le> depth" "depth - 1 + pr_depth f \<le> FORMULA_MAX_DEPTH" "pr_nodes f \<le> qp_maximum_nodes p"
  shows "q_finish f depth p = Ok (f, past '')'' p)"
proof -
  have "q_trivia p = p" using q_trivia_gap [of p "[]"] assms(1) by simp
  then show ?thesis
    using assms q_byte_ahead [OF assms(1)] q_punctuation_gap [of p "[]" "CHR '')''" r] by (simp add: q_finish_def Let_def q_bounded_at_def q_bounded_def)
qed

lemma q_variable_bound:
  assumes "ahead p (s @ variable_text d v @ b # r)" "gap s" "\<not> is_name_byte b" "var_below d v" "frees_of v = {}"
    "\<forall>i<d. vs_named (qp_variables p) (binder_name i) \<noteq> None"
  obtains w where "q_variable p = Ok (w, past (s @ variable_text d v) p)" "name_variable (binder_of (qp_variables p)) d 0 v = Free w"
proof (cases v)
  case (Bound i)
  have n: "variable_text d v = binder_name (d - 1 - unat i)" by (simp add: Bound)
  have "q_name p = Ok (binder_name (d - 1 - unat i), past (s @ variable_text d v) p)"
    using assms(1-3) unfolding n by (intro q_name_gap) simp_all
  moreover obtain w where "vs_named (qp_variables p) (binder_name (d - 1 - unat i)) = Some w"
  proof -
    have "d - 1 - unat i < d" using assms(4) by (simp add: Bound)
    then show thesis using assms(6) that by blast
  qed
  ultimately show thesis using that [of w] by (simp add: q_variable_def vs_name_def Bound binder_of_def past_def)
qed (use assms(5) in simp)

lemma q_atom_read:
  assumes "ahead p (variable_text d x @ '', '' @ variable_text d y @ b # r)" "\<not> is_name_byte b" "var_below d x" "var_below d y"
    "frees_of x = {}" "frees_of y = {}" "\<forall>i<d. vs_named (qp_variables p) (binder_name i) \<noteq> None" "op \<in> {OpEqual, OpMember}"
  shows "q_atom op offset depth mode p = Ok (\<lparr>pr_formula = name_node (binder_of (qp_variables p)) d 0 (if op = OpMember then FMember x y else FEqual x y),
     pr_nodes = 1, pr_depth = 1\<rparr>, past (variable_text d x @ '', '' @ variable_text d y) p)"
proof -
  have ax: "ascii_text (variable_text d x)" using assms(5) name_text_ascii [OF name_texts(7)] by (cases x) auto
  obtain v where v: "q_variable p = Ok (v, past (variable_text d x) p)" "name_variable (binder_of (qp_variables p)) d 0 x = Free v"
    using q_variable_bound [of p "[]" d x "CHR '',''" "'' '' @ variable_text d y @ b # r"] assms by auto
  have comma: "q_punctuation (CHR '','') (past (variable_text d x) p) = Ok (past (variable_text d x @ '','') p)"
    using q_punctuation_gap [of "past (variable_text d x) p" "[]" "CHR '',''"] ahead_past [OF assms(1) ax] by simp
  have a: "ahead (past (variable_text d x @ '','') p) ('' '' @ variable_text d y @ b # r)"
    using assms(1) by (intro ahead_past) (simp_all add: ax)
  obtain w where w: "q_variable (past (variable_text d x @ '','') p) = Ok (w, past (variable_text d x @ '', '' @ variable_text d y) p)"
    "name_variable (binder_of (qp_variables p)) d 0 y = Free w"
    by (rule q_variable_bound [OF a ends(9) assms(2,4,6)]) (use assms(7) in simp_all)
  show ?thesis using assms(8) v w comma by (auto simp: q_atom_def Let_def equal_def member_def)
qed

lemma q_binders_read:
  assumes "ahead p (binder_name i @ b # r)" "\<not> is_name_byte b" "vars_ok (qp_offset p) (qp_variables p)" "length (qp_source p) < 2 ^ 31"
  obtains vs where "q_binders offset p = Ok ([binder_of vs i], (past (binder_name i) p)\<lparr>qp_variables := vs\<rparr>)"
    "vs_named (qp_variables p) \<subseteq>\<^sub>m vs_named vs" "vars_ok (qp_offset p + length (binder_name i)) vs" "vs_named vs (binder_name i) \<noteq> None"
proof -
  let ?o = "qp_offset p" and ?s = "qp_source p"
  have d: "drop ?o ?s = CHR ''b'' # decimal i @ b # r" "str_ok False ?s" "position_ok ?s ?o" using assms(1) by (simp_all add: ahead_def)
  have t: "trivia ?s ?o = ?o" using trivia_gap [of ?o ?s "[]"] d(1) by (simp add: gap_def is_blank_def)
  have at: "element_at ?s ?o = Some (CHR ''b'')" using drop_Cons_nth [OF d(1)] by (simp add: element_at_def)
  have digits: "\<forall>c\<in>set (decimal i). is_name_byte c" using name_texts(7) [of i] by (simp add: name_text_def)
  have name: "name_at ?s ?o = Some (Some (binder_name i), ?o + length (binder_name i))"
    using name_at_gap [of ?o ?s "[]" "CHR ''b''" "decimal i" "b # r"] d assms(2) digits name_texts(7) [of i] by (simp add: name_text_def gap_def)
  have "Suc ?o < 2 ^ 32" using position_ok_le [OF d(3)] assms(4) by simp
  with assms(3) obtain v vs where v: "vs_name (binder_name i) (qp_variables p) = Some (v, vs)" "vars_ok (Suc ?o) vs"
    "vs_named (qp_variables p) \<subseteq>\<^sub>m vs_named vs" "vs_named vs (binder_name i) = Some v" by (rule vs_name_spec)
  have "binders_loop (Suc n) False ?s ?o (qp_variables p) [] = Ok ([v], ?o + length (binder_name i), vs)" for n
    by (simp only: binders_loop.simps Let_def t name v(1) expect.simps ok_or.simps and_then.simps prod.case) simp
  then have "binders_loop FORMULA_MAX_DEPTH False ?s ?o (qp_variables p) [] = Ok ([v], ?o + length (binder_name i), vs)"
    by (metis FORMULA_MAX_DEPTH_def Suc_pred zero_less_numeral)
  moreover have "element_at ?s ?o \<noteq> Some (CHR ''['')" unfolding at by simp
  ultimately have "q_binders offset p = Ok ([binder_of vs i], (past (binder_name i) p)\<lparr>qp_variables := vs\<rparr>)"
    by (simp only: q_binders_def binder_list_def Let_def t if_False map_err.simps map_ok.simps prod.case binder_of_def v(4) option.sel past_def)
  moreover have "vars_ok (?o + length (binder_name i)) vs" using v(2) by (rule vars_ok_mono) simp
  ultimately show thesis using that v(3,4) by blast
qed

definition reads_formula :: "question_parser \<Rightarrow> string \<Rightarrow> nat \<Rightarrow> node \<Rightarrow> nat \<Rightarrow> nat \<Rightarrow> variables \<Rightarrow> bool" where
  "reads_formula p s d a fuel depth vs \<longleftrightarrow>
     parse_formula fuel question_builder () depth p =
       Ok (\<lparr>pr_formula = name_node (binder_of vs) d 0 a, pr_nodes = node_count a, pr_depth = node_depth a\<rparr>,
         (past (s @ source_text d a) p)\<lparr>qp_variables := vs\<rparr>) \<and>
     vs_named (qp_variables p) \<subseteq>\<^sub>m vs_named vs \<and> vars_ok (qp_offset p + length s + length (source_text d a)) vs"

text \<open>A call whose arguments are read by the methods of the builder.\<close>

lemma parse_call_read:
  assumes "ahead p (s @ n @ CHR ''('' # body @ CHR '')'' # r)" "gap s" "name_text n" "ascii_text body" "1 \<le> depth"
    "depth - 1 + pr_depth f \<le> FORMULA_MAX_DEPTH" "pr_nodes f \<le> qp_maximum_nodes p" "1 \<le> pr_depth f"
    "parse_call (parse_formula fuel question_builder ()) question_builder depth () n (qp_offset p + length s) (past (s @ n @ ''('') p) =
       Ok (f, (past (s @ n @ ''('' @ body) p)\<lparr>qp_variables := vs\<rparr>)"
  shows "parse_formula (Suc fuel) question_builder () depth p = Ok (f, (past (s @ n @ ''('' @ body @ '')'') p)\<lparr>qp_variables := vs\<rparr>)"
proof -
  have "q_start depth () p = Ok (StartCall n (qp_offset p + length s), past (s @ n @ ''('') p)"
    by (rule q_start_call [OF assms(1-3)]) (use assms(5,6,8) in simp)
  moreover have "ahead ((past (s @ n @ ''('' @ body) p)\<lparr>qp_variables := vs\<rparr>) (CHR '')'' # r)"
    using assms(1) ahead_past [of p "s @ n @ ''('' @ body"] by (simp add: ascii_gap [OF assms(2)] name_text_ascii [OF assms(3)] assms(4))
  then have "q_finish f depth ((past (s @ n @ ''('' @ body) p)\<lparr>qp_variables := vs\<rparr>) = Ok (f, (past (s @ n @ ''('' @ body @ '')'') p)\<lparr>qp_variables := vs\<rparr>)"
    using q_finish_close [where p = "(past (s @ n @ ''('' @ body) p)\<lparr>qp_variables := vs\<rparr>" and r = r and depth = depth and f = f] assms(5-7) by simp
  ultimately show ?thesis using assms(9) by (simp add: question_builder_def)
qed

lemma operators [simp]:
  "operator_parse ''eq'' = Some OpEqual" "operator_parse ''mem'' = Some OpMember" "operator_parse ''not'' = Some OpNot"
  "operator_parse ''imp'' = Some OpImplies" "operator_parse ''all'' = Some OpAll"
  by (simp_all add: operator_parse_def)

lemma read_atom:
  assumes "ahead p (s @ n @ CHR ''('' # (variable_text d x @ '', '' @ variable_text d y) @ CHR '')'' # r)" "gap s" "op \<in> {OpEqual, OpMember}" "n = operator_name op"
    "var_below d x" "var_below d y" "frees_of x = {}" "frees_of y = {}" "\<forall>i<d. vs_named (qp_variables p) (binder_name i) \<noteq> None"
    "vars_ok (qp_offset p) (qp_variables p)" "1 \<le> depth" "depth \<le> FORMULA_MAX_DEPTH" "1 \<le> qp_maximum_nodes p"
  shows "reads_formula p s d (if op = OpMember then FMember x y else FEqual x y) (Suc fuel) depth (qp_variables p)"
proof -
  let ?body = "variable_text d x @ '', '' @ variable_text d y" and ?vs = "qp_variables p" and ?a = "if op = OpMember then FMember x y else FEqual x y"
  let ?f = "\<lparr>pr_formula = name_node (binder_of ?vs) d 0 ?a, pr_nodes = 1, pr_depth = 1\<rparr>"
  have n: "name_text n" using assms(3,4) by auto
  have asc: "ascii_text ?body" using assms(7,8) name_text_ascii [OF name_texts(7)] by (cases x; cases y) auto
  have a: "ahead (past (s @ n @ ''('') p) (?body @ CHR '')'' # r)"
    using assms(1) ahead_past [of p "s @ n @ ''(''"] by (simp add: ascii_gap [OF assms(2)] name_text_ascii [OF n])
  have "q_atom op (qp_offset p + length s) depth () (past (s @ n @ ''('') p) = Ok (?f, past (s @ n @ ''('' @ ?body) p)"
    using q_atom_read [of "past (s @ n @ ''('') p" d x y "CHR '')''" r op] a assms by simp
  then have "parse_formula (Suc fuel) question_builder () depth p = Ok (?f, (past (s @ n @ ''('' @ ?body @ '')'') p)\<lparr>qp_variables := ?vs\<rparr>)"
    by (intro parse_call_read [where r = r] assms(1,2) n asc) (use assms in \<open>auto simp: parse_call_def question_builder_def past_def\<close>)
  then show ?thesis using vars_ok_mono [OF assms(10)] assms(3,4) by (auto simp: reads_formula_def)
qed

lemma comma_read:
  assumes "ahead p (t @ '', '' @ u)" "ascii_text t"
  shows "q_punctuation (CHR '','') ((past t p)\<lparr>qp_variables := vs\<rparr>) = Ok ((past (t @ '','') p)\<lparr>qp_variables := vs\<rparr>)"
    "ahead ((past (t @ '','') p)\<lparr>qp_variables := vs\<rparr>) ('' '' @ u)"
proof -
  have "ahead (past t p) (CHR '','' # '' '' @ u)" using ahead_past [OF assms] by simp
  then show "q_punctuation (CHR '','') ((past t p)\<lparr>qp_variables := vs\<rparr>) = Ok ((past (t @ '','') p)\<lparr>qp_variables := vs\<rparr>)"
    using q_punctuation_gap [of "(past t p)\<lparr>qp_variables := vs\<rparr>" "[]" "CHR '',''" "'' '' @ u"] by simp
  show "ahead ((past (t @ '','') p)\<lparr>qp_variables := vs\<rparr>) ('' '' @ u)" using ahead_past [of p "t @ '',''" "'' '' @ u"] assms by simp
qed

text \<open>The conditions under which a written formula is read back.\<close>

definition readable :: "question_parser \<Rightarrow> string \<Rightarrow> nat \<Rightarrow> node \<Rightarrow> string \<Rightarrow> nat \<Rightarrow> nat \<Rightarrow> bool" where
  "readable p s d a r fuel depth \<longleftrightarrow>
     ahead p (s @ source_text d a @ r) \<and> gap s \<and> closed_at d a \<and> frees a = {} \<and>
     (\<forall>i<d. vs_named (qp_variables p) (binder_name i) \<noteq> None) \<and> vars_ok (qp_offset p) (qp_variables p) \<and> length (qp_source p) < 2 ^ 31 \<and>
     node_depth a \<le> fuel \<and> 1 \<le> depth \<and> depth - 1 + node_depth a \<le> FORMULA_MAX_DEPTH \<and> node_count a \<le> qp_maximum_nodes p"

lemma readableD:
  assumes "readable p s d a r fuel depth"
  shows "ahead p (s @ source_text d a @ r)" "gap s" "closed_at d a" "frees a = {}" "\<forall>i<d. vs_named (qp_variables p) (binder_name i) \<noteq> None"
    "vars_ok (qp_offset p) (qp_variables p)" "length (qp_source p) < 2 ^ 31" "node_depth a \<le> fuel" "1 \<le> depth"
    "depth - 1 + node_depth a \<le> FORMULA_MAX_DEPTH" "node_count a \<le> qp_maximum_nodes p"
  using assms unfolding readable_def by blast+

lemma known_mono:
  "vs_named vs \<subseteq>\<^sub>m vs_named ws \<Longrightarrow> \<forall>i<d. vs_named vs (binder_name i) \<noteq> None \<Longrightarrow> \<forall>i<d. vs_named ws (binder_name i) \<noteq> None"
  by (fastforce simp: map_le_def dom_def)

lemma reads_result:
  assumes "reads_formula p s d a fuel depth vs"
  shows "vs_named (qp_variables p) \<subseteq>\<^sub>m vs_named vs" "vars_ok (qp_offset p + length s + length (source_text d a)) vs"
    "parse_formula fuel question_builder () depth p = Ok (\<lparr>pr_formula = name_node (binder_of vs) d 0 a, pr_nodes = node_count a, pr_depth = node_depth a\<rparr>,
         (past (s @ source_text d a) p)\<lparr>qp_variables := vs\<rparr>)"
  using assms by (simp_all add: reads_formula_def)

lemma read_not:
  assumes "readable p s d (FNot a) r (Suc k) depth" "\<And>p s r. readable p s d a r k (depth + 1) \<Longrightarrow> \<exists>vs. reads_formula p s d a k (depth + 1) vs"
  shows "\<exists>vs. reads_formula p s d (FNot a) (Suc k) depth vs"
proof -
  note r = readableD [OF assms(1)]
  let ?p = "past (s @ ''not('') p" and ?body = "source_text d a"
  have s: "gap s" "frees a = {}" using r by simp_all
  have asc: "ascii_text ?body" using ascii_source_text [OF s(2)] .
  have ah: "ahead p (s @ ''not'' @ CHR ''('' # ?body @ CHR '')'' # r)" using r(1) by simp
  then have a: "ahead ?p ([] @ ?body @ CHR '')'' # r)" using ahead_past [of p "s @ ''not(''"] by (simp add: ascii_gap [OF s(1)])
  moreover have "vars_ok (qp_offset ?p) (qp_variables ?p)" using r(6,7) by (auto intro: vars_ok_mono)
  ultimately have "readable ?p [] d a (CHR '')'' # r) k (depth + 1)" using r unfolding readable_def by auto
  then obtain vs where vs: "reads_formula ?p [] d a k (depth + 1) vs" using assms(2) by blast
  have "parse_formula (Suc k) question_builder () depth p =
      Ok (\<lparr>pr_formula = name_node (binder_of vs) d 0 (FNot a), pr_nodes = node_count (FNot a), pr_depth = node_depth (FNot a)\<rparr>,
        (past (s @ ''not'' @ ''('' @ ?body @ '')'') p)\<lparr>qp_variables := vs\<rparr>)"
    by (rule parse_call_read [OF ah s(1)])
      (use r(9-11) asc reads_result(3) [OF vs] in \<open>simp_all add: parse_call_def question_builder_def q_negated_def q_bounded_at_def q_bounded_def negate_def\<close>)
  then show ?thesis using reads_result(1,2) [OF vs] vars_ok_mono by (intro exI [of _ vs]) (auto simp: reads_formula_def)
qed

lemma read_implies:
  assumes "readable p s d (FImplies a b) r (Suc k) depth"
    "\<And>p s r. readable p s d a r k (depth + 1) \<Longrightarrow> \<exists>vs. reads_formula p s d a k (depth + 1) vs"
    "\<And>p s r. readable p s d b r k (depth + 1) \<Longrightarrow> \<exists>vs. reads_formula p s d b k (depth + 1) vs"
  shows "\<exists>vs. reads_formula p s d (FImplies a b) (Suc k) depth vs"
proof -
  note r = readableD [OF assms(1)]
  let ?p = "past (s @ ''imp('') p" and ?l = "source_text d a" and ?r = "source_text d b"
  have s: "gap s" "frees a = {}" "frees b = {}" "closed_at (d + 0) a" using r by simp_all
  have asc: "ascii_text ?l" "ascii_text ?r" using ascii_source_text s(2,3) by simp_all
  have ah: "ahead p (s @ ''imp'' @ CHR ''('' # (?l @ '', '' @ ?r) @ CHR '')'' # r)" using r(1) by simp
  then have a: "ahead ?p (?l @ '', '' @ ?r @ CHR '')'' # r)" using ahead_past [of p "s @ ''imp(''"] by (simp add: ascii_gap [OF s(1)])
  have bounds: "depth + node_depth a \<le> FORMULA_MAX_DEPTH" "depth + node_depth b \<le> FORMULA_MAX_DEPTH"
    using r(9,10) by (auto simp: max_def split: if_splits)
  have "vars_ok (qp_offset ?p) (qp_variables ?p)" using r(6,7) by (auto intro: vars_ok_mono)
  with a bounds have "readable ?p [] d a ('', '' @ ?r @ CHR '')'' # r) k (depth + 1)" using r unfolding readable_def by auto
  then obtain vs where vs: "reads_formula ?p [] d a k (depth + 1) vs" using assms(2) by blast
  let ?q = "(past (?l @ '','') ?p)\<lparr>qp_variables := vs\<rparr>"
  note comma = comma_read [OF a asc(1), of vs]
  have known: "\<forall>i<d. vs_named (qp_variables ?q) (binder_name i) \<noteq> None"
    using known_mono [OF reads_result(1) [OF vs]] r(5) by simp
  moreover have "vars_ok (qp_offset ?q) (qp_variables ?q)" using vars_ok_mono [OF reads_result(2) [OF vs]] by simp
  ultimately have "readable ?q '' '' d b (CHR '')'' # r) k (depth + 1)" using r comma(2) bounds unfolding readable_def by auto
  then obtain ws where ws: "reads_formula ?q '' '' d b k (depth + 1) ws" using assms(3) by blast
  have left: "name_node (binder_of vs) d 0 a = name_node (binder_of ws) d 0 a"
    using known reads_result(1) [OF ws] by (intro name_node_cong [OF s(4)] binder_of_mono [symmetric]) simp_all
  have "parse_formula (Suc k) question_builder () depth p =
      Ok (\<lparr>pr_formula = name_node (binder_of ws) d 0 (FImplies a b), pr_nodes = node_count (FImplies a b), pr_depth = node_depth (FImplies a b)\<rparr>,
        (past (s @ ''imp'' @ ''('' @ (?l @ '', '' @ ?r) @ '')'') p)\<lparr>qp_variables := ws\<rparr>)"
    by (rule parse_call_read [OF ah s(1)])
      (use r(9-11) asc reads_result(3) [OF vs] reads_result(3) [OF ws] comma(1) left in \<open>simp_all add: parse_call_def question_builder_def q_binary_def
        binary_shape_def q_connective_def q_bounded_at_def q_bounded_def implies_def case_prod_beta\<close>)
  moreover have "vs_named (qp_variables p) \<subseteq>\<^sub>m vs_named ws"
    using map_le_trans [OF reads_result(1) [OF vs], of "vs_named ws"] reads_result(1) [OF ws] by simp
  moreover have "vars_ok (qp_offset p + length s + length (source_text d (FImplies a b))) ws" using vars_ok_mono [OF reads_result(2) [OF ws]] by simp
  ultimately show ?thesis by (intro exI [of _ ws]) (simp add: reads_formula_def)
qed

lemma read_all:
  assumes "readable p s d (FForAll a) r (Suc k) depth"
    "\<And>p s r. readable p s (Suc d) a r k (depth + 1) \<Longrightarrow> \<exists>vs. reads_formula p s (Suc d) a k (depth + 1) vs"
  shows "\<exists>vs. reads_formula p s d (FForAll a) (Suc k) depth vs"
proof -
  note r = readableD [OF assms(1)]
  let ?p = "past (s @ ''all('') p" and ?n = "binder_name d" and ?b = "source_text (Suc d) a"
  have s: "gap s" "frees a = {}" "closed_at (Suc d) a" using r by simp_all
  have asc: "ascii_text ?b" "ascii_text ?n" using ascii_source_text [OF s(2)] name_text_ascii [OF name_texts(7)] by blast+
  have ah: "ahead p (s @ ''all'' @ CHR ''('' # (?n @ '', '' @ ?b) @ CHR '')'' # r)" using r(1) by simp
  then have a: "ahead ?p (?n @ '', '' @ ?b @ CHR '')'' # r)" using ahead_past [of p "s @ ''all(''"] by (simp add: ascii_gap [OF s(1)])
  then have "ahead ?p (?n @ CHR '','' # '' '' @ ?b @ CHR '')'' # r)" by simp
  moreover have "vars_ok (qp_offset ?p) (qp_variables ?p)" "length (qp_source ?p) < 2 ^ 31" using r(6,7) by (auto intro: vars_ok_mono)
  ultimately obtain vs where vs: "q_binders (qp_offset p + length s) ?p = Ok ([binder_of vs d], (past ?n ?p)\<lparr>qp_variables := vs\<rparr>)"
    "vs_named (qp_variables ?p) \<subseteq>\<^sub>m vs_named vs" "vars_ok (qp_offset ?p + length ?n) vs" "vs_named vs ?n \<noteq> None"
    using ends(3) by (blast elim: q_binders_read)
  let ?q = "(past (?n @ '','') ?p)\<lparr>qp_variables := vs\<rparr>"
  note comma = comma_read [OF a asc(2), of vs]
  have known: "\<forall>i<Suc d. vs_named vs (binder_name i) \<noteq> None"
    using known_mono [OF vs(2), of d] vs(4) r(5) by (auto simp: less_Suc_eq)
  moreover have "vars_ok (qp_offset ?q) vs" using vars_ok_mono [OF vs(3)] by simp
  ultimately have "readable ?q '' '' (Suc d) a (CHR '')'' # r) k (depth + 1)" using r comma(2) unfolding readable_def by auto
  then obtain ws where ws: "reads_formula ?q '' '' (Suc d) a k (depth + 1) ws" using assms(2) by blast
  have ext: "vs_named vs \<subseteq>\<^sub>m vs_named ws" using reads_result(1) [OF ws] by simp
  have var: "binder_of vs d = binder_of ws d" using binder_of_mono [OF ext vs(4)] by simp
  have inj: "inj_on (binder_of ws) {..d}" using known_mono [OF ext known] reads_result(2) [OF ws] by (intro binder_of_inj) (auto simp: less_Suc_eq_le)
  have "binders a < 2 ^ 32" using binders_le_depth [of a] r(10) by (simp add: FORMULA_MAX_DEPTH_def)
  then have close: "for_all (binder_of ws d) (name_node (binder_of ws) (Suc d) 0 a) = Some (name_node (binder_of ws) d 0 (FForAll a))"
    using s(2,3) inj by (intro for_all_name_node) simp_all
  have big: "2 \<le> qp_maximum_nodes p" "1 + depth \<le> FORMULA_MAX_DEPTH"
    using r(9-11) [unfolded node_count_simps] node_count_pos [of a] node_depth_pos [of a] by linarith+
  have "parse_formula (Suc k) question_builder () depth p =
      Ok (\<lparr>pr_formula = name_node (binder_of ws) d 0 (FForAll a), pr_nodes = node_count (FForAll a), pr_depth = node_depth (FForAll a)\<rparr>,
        (past (s @ ''all'' @ ''('' @ (?n @ '', '' @ ?b) @ '')'') p)\<lparr>qp_variables := ws\<rparr>)"
    by (rule parse_call_read [OF ah s(1)])
      (use r(9-11) asc vs(1) reads_result(3) [OF ws] comma(1) close var big in \<open>simp_all add: parse_call_def question_builder_def q_quantified_depth_def
        q_quantified_def q_extra_def q_bounded_at_def q_bounded_def del: name_node.simps\<close>)
  moreover have "vs_named (qp_variables p) \<subseteq>\<^sub>m vs_named ws" using map_le_trans [OF vs(2) ext] by simp
  moreover have "vars_ok (qp_offset p + length s + length (source_text d (FForAll a))) ws" using vars_ok_mono [OF reads_result(2) [OF ws]] by simp
  ultimately show ?thesis by (intro exI [of _ ws]) (simp add: reads_formula_def)
qed

lemma read_formula: "readable p s d a r fuel depth \<Longrightarrow> \<exists>vs. reads_formula p s d a fuel depth vs"
proof (induction a arbitrary: p s d r fuel depth)
  case (FEqual x y)
  obtain k where k: "fuel = Suc k" using readableD(8) [OF FEqual.prems] by (cases fuel) auto
  have "reads_formula p s d (if OpEqual = OpMember then FMember x y else FEqual x y) (Suc k) depth (qp_variables p)"
    by (rule read_atom [where r = r]) (use readableD [OF FEqual.prems] in simp_all)
  then show ?case unfolding k by auto
next
  case (FMember x y)
  obtain k where k: "fuel = Suc k" using readableD(8) [OF FMember.prems] by (cases fuel) auto
  have "reads_formula p s d (if OpMember = OpMember then FMember x y else FEqual x y) (Suc k) depth (qp_variables p)"
    by (rule read_atom [where r = r]) (use readableD [OF FMember.prems] in simp_all)
  then show ?case unfolding k by auto
next
  case (FNot a)
  obtain k where k: "fuel = Suc k" using readableD(8) [OF FNot.prems] by (cases fuel) auto
  show ?case unfolding k by (rule read_not [OF FNot.prems [unfolded k] FNot.IH])
next
  case (FImplies a b)
  obtain k where k: "fuel = Suc k" using readableD(8) [OF FImplies.prems] by (cases fuel) auto
  show ?case unfolding k by (rule read_implies [OF FImplies.prems [unfolded k] FImplies.IH])
next
  case (FForAll a)
  obtain k where k: "fuel = Suc k" using readableD(8) [OF FForAll.prems] by (cases fuel) auto
  show ?case unfolding k by (rule read_all [OF FForAll.prems [unfolded k] FForAll.IH])
qed

section \<open>Reading a written question\<close>

lemma leading_nots_source: "leading_nots a \<le> length (source_text d a)"
  by (induction a rule: leading_nots.induct) auto

lemma source_text_start: "\<exists>c t. source_text d a = c # t \<and> \<not> is_blank c \<and> c \<noteq> CHR ''#''"
  by (cases a) (auto simp: is_blank_def)

lemma ascii_is_utf8: "ascii_text s \<Longrightarrow> is_utf8 s"
  by (induction s) auto

lemma q_trivia_end:
  assumes "qp_offset p = length (qp_source p)"
  shows "q_trivia p = p"
proof -
  have "skip_while is_blank (qp_source p) (qp_offset p) = qp_offset p" by (simp add: skip_while.simps assms)
  then have "trivia (qp_source p) (qp_offset p) = qp_offset p" by (subst trivia.simps) (simp add: assms element_at_def)
  then show ?thesis by (simp add: q_trivia_def)
qed

lemma vars_ok_default [simp]: "vars_ok n variables_default"
  by (simp add: vars_ok_def variables_default_def)

lemma parse_written:
  assumes "well_formed a" "is_closed a" "node_depth a \<le> FORMULA_MAX_DEPTH" "node_count (not_core a) < QUESTION_TARGET_MAX_NODES"
    "length (''goal = '' @ source_text 0 a) \<le> QUESTION_SOURCE_MAX_BYTES"
  shows "parse_question (''goal = '' @ source_text 0 a) = Ok \<lparr>pr_formula = a, pr_nodes = node_count a, pr_depth = node_depth a\<rparr>"
proof -
  define source where "source = ''goal = '' @ source_text 0 a"
  let ?p = "q_parser_new source"
  obtain c t where c: "source_text 0 a = c # t" "\<not> is_blank c" "c \<noteq> CHR ''#''" using source_text_start by blast
  have fr: "frees a = {}" using assms(2) by (simp add: is_closed_iff)
  then have asc: "ascii_text source" using ascii_source_text [of a 0] by (simp add: source_def)
  have p: "ahead ?p (''goal'' @ CHR '' '' # ''= '' @ source_text 0 a)"
    using is_utf8_ok [OF ascii_is_utf8 [OF asc]] by (simp add: ahead_def q_parser_new_def source_def)
  have at: "ahead (past u ?p) v" if "u @ v = source" "ascii_text u" for u v
    using that p ahead_past [of ?p u v] by (simp add: source_def)
  have "q_trivia ?p = ?p" using q_trivia_gap [of ?p "[]" "CHR ''g''"] p by (simp add: is_blank_def gap_def)
  then have peek: "q_peek_word ''let'' ?p = Ok (False, ?p)"
    by (simp add: q_peek_word_def Let_def word_at_def str_from_def is_char_boundary_def q_parser_new_def source_def starts_with_def)
  have "q_name ?p = Ok (''goal'', past ''goal'' ?p)" using q_name_gap [of ?p "[]" "''goal''" "CHR '' ''" "''= '' @ source_text 0 a"] p by simp
  then have goal: "q_word ''goal'' ?p = Ok (past ''goal'' ?p)" by (simp add: q_word_def)
  have "ahead (past ''goal'' ?p) ('' '' @ CHR ''='' # '' '' @ source_text 0 a)" using at by (simp add: source_def)
  then have assign: "q_punctuation (CHR ''='') (past ''goal'' ?p) = Ok (past ''goal ='' ?p)"
    using q_punctuation_gap [of "past ''goal'' ?p" "'' ''" "CHR ''=''"] by (simp add: is_blank_def)
  have "ahead (past ''goal ='' ?p) ('' '' @ c # t)" using at by (simp add: source_def c(1))
  then have space: "q_trivia (past ''goal ='' ?p) = past ''goal = '' ?p" using q_trivia_gap [OF _ ends(9) c(2,3)] by simp
  have "node_count a \<le> QUESTION_TARGET_MAX_NODES + length source"
    using assms(4) core_shape(1) [of a] leading_nots_source [of a 0] by (simp add: source_def)
  moreover have "length source < 2 ^ 31" using assms(5) by (simp add: source_def QUESTION_SOURCE_MAX_BYTES_def)
  moreover have "ahead (past ''goal = '' ?p) (source_text 0 a)" using at by (simp add: source_def)
  ultimately have "readable (past ''goal = '' ?p) [] 0 a [] (FORMULA_MAX_DEPTH + 1) 1"
    using assms(1,3) fr by (simp add: readable_def well_formed_def q_parser_new_def)
  then obtain vs where "reads_formula (past ''goal = '' ?p) [] 0 a (FORMULA_MAX_DEPTH + 1) 1 vs" using read_formula by blast
  then have formula: "q_formula 1 (past ''goal = '' ?p) = Ok (\<lparr>pr_formula = a, pr_nodes = node_count a, pr_depth = node_depth a\<rparr>, (past source ?p)\<lparr>qp_variables := vs\<rparr>)"
    using assms(1) name_node_closed [of 0 a] by (simp add: reads_formula_def q_formula_def source_def well_formed_def)
  have stop: "q_trivia ((past source ?p)\<lparr>qp_variables := vs\<rparr>) = (past source ?p)\<lparr>qp_variables := vs\<rparr>"
    by (rule q_trivia_end) (simp add: q_parser_new_def)
  have "qp_offset ((past source ?p)\<lparr>qp_variables := vs\<rparr>) = length source" by (simp add: q_parser_new_def)
  then show ?thesis
    unfolding source_def [symmetric] parse_question_def Let_def
    by (simp only: peek goal assign space formula stop and_then.simps prod.case if_False less_irrefl simp_thms)
qed

lemma text_of_ascii: "text_of (ascii s) = s"
proof -
  have "char_of (unat (of_nat (of_char c) :: u8)) = c" for c
    by (simp add: unat_of_nat)
  then show ?thesis by (simp add: text_of_def ascii_def o_def)
qed

lemma bytes_round_trip:
  assumes "is_utf8 (cq_source q)" "length (cq_source q) \<le> QUESTION_SOURCE_MAX_BYTES" "question_compile h (cq_source q) = Ok q"
  shows "\<exists>bs. question_to_canonical_bytes q = Ok bs \<and> question_from_canonical_bytes h bs = Ok q"
proof -
  let ?n = "length (cq_source q)"
  have n: "?n < 2 ^ 32" using assms(2) by (simp add: QUESTION_SOURCE_MAX_BYTES_def)
  then have u: "unat (of_nat ?n :: u32) = ?n" "u32_try_from ?n = Some (of_nat ?n)" by (simp_all add: unat_u32_of_nat u32_try_from_Some)
  let ?bs = "1 # u32_to_be_bytes (of_nat ?n) @ ascii (cq_source q)"
  have len: "length (ascii (cq_source q)) = ?n" by (simp add: ascii_def)
  have "question_from_canonical_bytes h ?bs = question_compile h (cq_source q)"
    using assms(1,2) n
    by (simp add: question_from_canonical_bytes_def Let_def element_at_def len u32_to_be_bytes_def u32_from_to_be_bytes u(1) text_of_ascii)
  then show ?thesis using assms(3) by (intro exI [of _ ?bs]) (simp add: question_to_canonical_bytes_def u(2))
qed

lemma question_written:
  assumes a: "well_formed a" and q: "question_from_formula h a = Ok q"
  shows "is_utf8 (cq_source q)" "question_compile h (cq_source q) = Ok q"
proof -
  from q obtain written where t: "to_source a = Some written" "length (''goal = '' @ written) \<le> QUESTION_SOURCE_MAX_BYTES"
    and parts: "question_from_parts h (''goal = '' @ written) a = Ok q"
    by (auto simp: question_from_formula_def Let_def split: if_splits)
  then obtain target where "target_from_formula h a = Ok target" and src: "cq_source q = ''goal = '' @ written"
    by (auto simp: question_from_parts_def)
  then have ok: "target_ok a" using target_from_formula_Ok [OF a] by simp
  then have "binders a < 2 ^ 32" using binders_le_depth [of a] by (simp add: target_ok_def wire_admitted_def)
  then have written: "written = source_text 0 a" using to_source_text [OF a] t(1) by simp
  have closed: "is_closed a" using ok by (simp add: target_ok_def)
  then have "ascii_text (cq_source q)" using ascii_source_text [of a 0] by (simp add: src written is_closed_iff)
  then show "is_utf8 (cq_source q)" by (rule ascii_is_utf8)
  have "parse_question (''goal = '' @ source_text 0 a) = Ok \<lparr>pr_formula = a, pr_nodes = node_count a, pr_depth = node_depth a\<rparr>"
    by (rule parse_written) (use a ok closed t(2) in \<open>auto simp: target_ok_def wire_admitted_def written FORMULA_MAX_DEPTH_def\<close>)
  then show "question_compile h (cq_source q) = Ok q"
    using t(2) closed parts by (simp add: question_compile_def src written)
qed

text \<open>C15. Questions survive every presentation. The source written for a formula compiles to the very question that was
  built from the formula, with the same targets and identities, and the canonical bytes of a compiled question decode
  to that question.\<close>

theorem question_round_trip:
  "(well_formed a \<and> question_from_formula h a = Ok q \<longrightarrow> is_utf8 (cq_source q) \<and> question_compile h (cq_source q) = Ok q) \<and>
   (is_utf8 source \<and> question_compile h source = Ok q' \<longrightarrow>
      (\<exists>bs. question_to_canonical_bytes q' = Ok bs \<and> question_from_canonical_bytes h bs = Ok q'))"
proof -
  have "\<exists>bs. question_to_canonical_bytes q' = Ok bs \<and> question_from_canonical_bytes h bs = Ok q'"
    if "is_utf8 source" and q: "question_compile h source = Ok q'"
  proof -
    have "cq_source q' = source" "length source \<le> QUESTION_SOURCE_MAX_BYTES"
      using q by (auto simp: question_compile_def question_from_parts_def split: if_splits)
    with that show ?thesis by (intro bytes_round_trip) simp_all
  qed
  then show ?thesis using question_written by blast
qed

section \<open>Settled questions\<close>

text \<open>C14. A checked proof settles a question soundly: when the conclusion of a certificate that checks in a reachable state is
  classified as proving the question, the question is true in every model of ZFC, and when it is classified as
  refuting it, the question is false in every model of ZFC. A question and its negation have the same resolution identity
  and exchange the two outcomes.\<close>

theorem question_resolution_is_sound:
  assumes "digest_ok h" "reachable h st" "from_canonical_bytes bs = Ok cert" "normalize_and_check_with_state h cert (state_view h st) = Ok cp"
    "is_utf8 source" "question_compile h source = Ok q"
  shows "(classify_conclusion q (cp_conclusion cp) = Ok Proved \<longrightarrow>
        (\<forall>E :: 'd universe. (\<forall>a\<in>zfc_axioms. valid_in E a) \<longrightarrow> valid_in E (qt_formula (cq_target q)))) \<and>
     (classify_conclusion q (cp_conclusion cp) = Ok Refuted \<longrightarrow>
        (\<forall>E :: 'd universe. (\<forall>a\<in>zfc_axioms. valid_in E a) \<longrightarrow> \<not> valid_in E (qt_formula (cq_target q)))) \<and>
     (target_from_formula h (negate (qt_formula (cq_target q))) = Ok t \<longrightarrow>
        qt_resolution_id t = qt_resolution_id (cq_target q) \<and> proved_target t = refuted_target (cq_target q) \<and>
        refuted_target t = proved_target (cq_target q))"
proof -
  have "cert_ok cert" using assms(3) by (simp add: from_canonical_bytes_def decode_certificate_Ok)
  then have "checked_proof_ok h cp"
    using checked_state.checking_returns(3) [OF reachable_checked_state [OF assms(2,1)] assms(1)] assms(4) by blast
  then have "provable zfc_axioms (cp_conclusion cp)" by (simp add: checked_proof_ok_def)
  then have true: "valid_in E (cp_conclusion cp)" if "\<forall>a\<in>zfc_axioms. valid_in E a" for E :: "'d universe"
    using that provable_sound [of zfc_axioms "cp_conclusion cp"] by blast
  obtain a where a: "target_ok a" "cq_target q = target_of h a"
    using question_compile_target [OF assms(5), of h] assms(6) by (auto simp: safe_iff)
  have f: "qt_formula (cq_target q) = a" by (simp add: a(2) target_of_def)
  have mean: "valid_in E (proved_target (cq_target q)) \<Longrightarrow> valid_in E a" "valid_in E (refuted_target (cq_target q)) \<Longrightarrow> \<not> valid_in E a" for E :: "'d universe"
    by (simp_all add: valid_in_def a(2) target_meaning)
  have "proved_target (cq_target q) = cp_conclusion cp" if "classify_conclusion q (cp_conclusion cp) = Ok Proved"
    using that by (simp add: classify_conclusion_def split: if_splits)
  moreover have "refuted_target (cq_target q) = cp_conclusion cp" if "classify_conclusion q (cp_conclusion cp) = Ok Refuted"
    using that by (simp add: classify_conclusion_def split: if_splits)
  moreover have "t = target_of h (FNot a)" if "target_from_formula h (negate a) = Ok t"
    using that a(1) target_from_formula_Ok(1) [of "FNot a" h t] by (simp add: negate_def target_ok_def well_formed_def)
  ultimately show ?thesis
    unfolding f using true mean by (auto simp: a(2) target_shared_with_negation)
qed

section \<open>Witnesses\<close>

lemma refl_target_ok: "target_ok refl_sentence"
  by (simp add: target_ok_def refl_sentence_def is_closed_iff well_formed_def wire_admitted_def QUESTION_TARGET_MAX_NODES_def QUESTION_TARGET_MAX_DEPTH_def FORMULA_MAX_NODES_def)

lemma refl_question: "\<exists>q. question_from_formula h refl_sentence = Ok q \<and> cq_target q = target_of h refl_sentence"
proof -
  have wf: "well_formed refl_sentence" using refl_target_ok by (simp add: target_ok_def)
  have "to_source refl_sentence = Some (source_text 0 refl_sentence)" by (rule to_source_text [OF wf]) (simp add: refl_sentence_def)
  moreover have "length (''goal = '' @ source_text 0 refl_sentence) \<le> QUESTION_SOURCE_MAX_BYTES"
    by (simp add: refl_sentence_def QUESTION_SOURCE_MAX_BYTES_def decimal.simps [of 0])
  moreover have "target_from_formula h refl_sentence = Ok (target_of h refl_sentence)" using target_from_formula_Ok(1) [OF wf] refl_target_ok by simp
  ultimately show ?thesis by (auto simp: question_from_formula_def question_from_parts_def)
qed

theorem question_compilation_returns_witness: "question_compile zero_digest ''goal = all(x, eq(x, x))'' \<noteq> Panic"
  using question_compilation_returns [of "''goal = all(x, eq(x, x))''" zero_digest] by simp

theorem question_round_trip_witness:
  "\<exists>q. question_from_formula zero_digest refl_sentence = Ok q \<and> question_compile zero_digest (cq_source q) = Ok q"
proof -
  obtain q where "question_from_formula zero_digest refl_sentence = Ok q" using refl_question by blast
  moreover have "well_formed refl_sentence" using refl_target_ok by (simp add: target_ok_def)
  ultimately show ?thesis using question_round_trip [of refl_sentence zero_digest q] by blast
qed

theorem question_resolution_is_sound_witness:
  "\<exists>q (cp :: checked_proof). classify_conclusion q (cp_conclusion cp) = Ok Proved \<and>
     (\<forall>E :: nat universe. (\<forall>a\<in>zfc_axioms. valid_in E a) \<longrightarrow> valid_in E refl_sentence)"
proof -
  obtain cp where cp: "normalize_and_check_with_state zero_digest refl_certificate (state_view zero_digest as_new) = Ok cp"
    "cp_conclusion cp = refl_sentence" using refl_checked [OF zero_digest_ok] by metis
  obtain q where q: "question_from_formula zero_digest refl_sentence = Ok q" "cq_target q = target_of zero_digest refl_sentence"
    using refl_question by blast
  have wf: "well_formed refl_sentence" using refl_target_ok by (simp add: target_ok_def)
  have c: "classify_conclusion q (cp_conclusion cp) = Ok Proved"
    by (simp add: classify_conclusion_def cp(2) q(2) proved_target_def target_of_def refl_sentence_def)
  have f: "qt_formula (cq_target q) = refl_sentence" by (simp add: q(2) target_of_def)
  have "\<forall>E :: nat universe. (\<forall>a\<in>zfc_axioms. valid_in E a) \<longrightarrow> valid_in E (qt_formula (cq_target q))"
    by (rule question_resolution_is_sound [where 'd = nat, OF zero_digest_ok reachable_new refl_decodes cp(1) question_written [OF wf q(1)], THEN conjunct1, THEN mp, OF c])
  then show ?thesis unfolding f using c by blast
qed

end
