(* ===== verification/Nao_Parser.thy ===== *)
theory Nao_Parser
  imports Source_Syntax Checked_Artifacts
begin

text \<open>
  The state, the tokens and the formula lowering of the \<open>.nao\<close> compiler, \<open>parser/mod.rs\<close>, \<open>parser/tokens.rs\<close>,
  \<open>parser/formula.rs\<close> and the two recording methods of \<open>parser/diagnostics.rs\<close> of \<open>naome-authoring\<close>. The formula grammar is
  that of \<open>Source_Syntax\<close>; here are the budgets, the aliases of definitions and the elimination of function terms.

  A \<open>u32\<close> that counts nodes or levels is a natural number below \<open>2 ^ 32\<close>, and an addition or multiplication that would
  leave that range is written out: \<open>None\<close> of a checked operation, a panic of a plain one. A \<open>HashMap\<close> is a map,
  except for the steps, which are searched by position and are an association list. The query of \<open>with_query\<close> selects a
  diagnostic and is left out. Every token of the language is an ASCII character.
\<close>

section \<open>Errors and state\<close>

record source_span =
  span_start :: nat
  span_end :: nat

datatype compile_error =
    CSourceTooLong nat nat
  | CDuplicateProofReference nat string
  | CUnknownProofReference nat string
  | CSyntax nat string
  | CDuplicateStep nat string
  | CUnknownStep nat string
  | CReturnNotFinal nat
  | CFormulaDepthLimitExceeded nat nat
  | CStatement nat formula_codec_error
  | CCertificate nat proof_certificate_error
  | CCheck source_span check_error
  | CStatementMismatch source_span formula_mismatch
  | CDuplicateFormulaBinding nat string
  | CUnknownFormulaBinding nat string
  | CFormulaBindingNodeLimitExceeded nat nat
  | CExpectedProof nat
  | CDuplicateDefinitionAlias nat string
  | CUnknownDefinitionAlias nat string
  | CDefinitionNotSelected nat definition_id
  | CDefinitionArityMismatch nat string u32 nat
  | CDefinition nat definition_certificate_error
  | CDefinitionCheck source_span definition_check_error
  | CDefinitionFormula nat defined_formula_codec_error
  | CDefinitionExpansion nat definition_expansion_error

definition u32_fits :: "nat \<Rightarrow> nat option" where
  "u32_fits n = (if n < 2 ^ 32 then Some n else None)"

definition u32_add :: "nat \<Rightarrow> nat \<Rightarrow> nat option" where
  "u32_add a b = u32_fits (a + b)"

text \<open>\<open>SourceSpan::new\<close> and \<open>SourceRange::new\<close>.\<close>

definition source_span_new :: "nat \<Rightarrow> nat \<Rightarrow> source_span option" where
  "source_span_new start stop =
     Option.bind (u32_fits start) (\<lambda>start. map_option (\<lambda>stop. \<lparr>span_start = start, span_end = stop\<rparr>) (u32_fits stop))"

definition source_range_new :: "nat \<Rightarrow> nat \<Rightarrow> (nat \<times> nat) option" where
  "source_range_new start stop =
     Option.bind (u32_fits start) (\<lambda>start. Option.bind (u32_fits stop) (\<lambda>stop. if start \<le> stop then Some (start, stop) else None))"

datatype formula_context = BindingContext | StatementContext | CertificateContext

record parsed_formula =
  pd_formula :: dnode
  pd_expanded_nodes :: nat
  pd_expanded_depth :: nat

record parsed_term =
  pt_variable :: free_variable
  pt_graph_constraints :: "dnode list"
  pt_witnesses :: "free_variable list"

definition term_of_variable :: "free_variable \<Rightarrow> parsed_term" where
  "term_of_variable variable = \<lparr>pt_variable = variable, pt_graph_constraints = [], pt_witnesses = []\<rparr>"

record definition_alias =
  da_definition_id :: definition_id
  da_kind :: definition_kind

datatype operand_role =
    RPremise | RImplication | RAntecedent | RConsequent | RFirst | RSecond | RThird | RFormula | RBody | RPredicate | RVariable
  | RFrom | RTo | RElement | RSource | RResult | RInput | ROutput | RWitness | RParameter | RProof | RConclusion | RTarget

datatype expansion_kind = FormulaBindingOrigin | DefinitionOrigin | ProofReferenceOrigin

record expansion_origin =
  eo_kind :: expansion_kind
  eo_name_digest :: bytes
  eo_usage :: "nat \<times> nat"
  eo_declaration :: "nat \<times> nat"
  eo_definition_id :: "bytes option"
  eo_proof_id :: "bytes option"

record argument_origin =
  ao_role :: operand_role
  ao_index :: "nat option"
  ao_range :: "nat \<times> nat"
  ao_expansions :: "expansion_origin list"
  ao_expansions_complete :: bool

record step_binding =
  sb_position :: u32
  sb_span :: source_span
  sb_arguments :: "argument_origin list"

record binding_origin =
  bo_range :: "nat \<times> nat"
  bo_kind :: expansion_kind
  bo_definition_id :: "bytes option"
  bo_proof_id :: "bytes option"
  bo_expansions :: "expansion_origin list"
  bo_expansions_complete :: bool

record nao_parser =
  np_source :: string
  np_offset :: nat
  np_variables :: variables
  np_definition_aliases :: "string \<rightharpoonup> definition_alias"
  np_formula_bindings :: "string \<rightharpoonup> parsed_formula"
  np_steps :: "(string \<times> step_binding) list"
  np_proof_references :: "string \<rightharpoonup> proof_id"
  np_formula_binding_nodes :: nat
  np_statement_nodes :: nat
  np_certificate_formula_nodes :: nat
  np_pending_arguments :: "argument_origin list"
  np_binding_origins :: "string \<rightharpoonup> binding_origin"
  np_pending_expansions :: "expansion_origin list"
  np_expansions_complete :: bool

definition nao_parser_new :: "string \<Rightarrow> nao_parser" where
  "nao_parser_new source =
     \<lparr>np_source = source, np_offset = 0, np_variables = variables_default, np_definition_aliases = Map.empty,
      np_formula_bindings = Map.empty, np_steps = [], np_proof_references = Map.empty, np_formula_binding_nodes = 0,
      np_statement_nodes = 0, np_certificate_formula_nodes = 0, np_pending_arguments = [], np_binding_origins = Map.empty,
      np_pending_expansions = [], np_expansions_complete = True\<rparr>"

section \<open>Tokens\<close>

definition nao_trivia :: "nao_parser \<Rightarrow> nao_parser" where
  "nao_trivia p = p\<lparr>np_offset := trivia (np_source p) (np_offset p)\<rparr>"

definition next_offset :: "nao_parser \<Rightarrow> nat" where
  "next_offset p = np_offset (nao_trivia p)"

definition nao_byte :: "nao_parser \<Rightarrow> char option" where
  "nao_byte p = element_at (np_source p) (np_offset p)"

definition nao_advance :: "nao_parser \<Rightarrow> nao_parser" where
  "nao_advance p = p\<lparr>np_offset := np_offset p + 1\<rparr>"

definition nao_name :: "nao_parser \<Rightarrow> (compile_error, string \<times> nao_parser) outcome" where
  "nao_name p =
     (let p = nao_trivia p
      in and_then (expect (name_at (np_source p) (np_offset p))) (\<lambda>(name, offset).
         map_ok (\<lambda>name. (name, p\<lparr>np_offset := offset\<rparr>)) (ok_or (CSyntax (np_offset p) ''a name'') name)))"

definition nao_keyword :: "string \<Rightarrow> nao_parser \<Rightarrow> (compile_error, nao_parser) outcome" where
  "nao_keyword expected p =
     (let p = nao_trivia p
      in and_then (nao_name p) (\<lambda>(actual, p'). if actual = expected then Ok p' else Err (CSyntax (np_offset p) expected)))"

text \<open>\<open>str::find\<close> of an ASCII character.\<close>

definition find_char :: "char \<Rightarrow> string \<Rightarrow> nat option" where
  "find_char c s = (let n = length (takeWhile (\<lambda>x. x \<noteq> c) s) in if n < length s then Some n else None)"

definition nao_string :: "string \<Rightarrow> nao_parser \<Rightarrow> (compile_error, string \<times> nao_parser) outcome" where
  "nao_string expected p =
     (let p = nao_trivia p; start = np_offset p
      in if nao_byte p \<noteq> Some (CHR 0x22) then Err (CSyntax start expected)
         else let content_start = start + 1
           in and_then (expect (str_from (np_source p) content_start)) (\<lambda>remainder.
              and_then (ok_or (CSyntax start ''a closing quote'') (find_char (CHR 0x22) remainder)) (\<lambda>relative_end.
              let content_end = content_start + relative_end
              in map_ok (\<lambda>content. (content, p\<lparr>np_offset := content_end + 1\<rparr>)) (expect (str_range (np_source p) content_start content_end)))))"

definition punctuation_text :: "char \<Rightarrow> string" where
  "punctuation_text expected = (if expected \<in> set '':()=,['' then [CHR 0x60, expected, CHR 0x60] else ''punctuation'')"

definition nao_punctuation :: "char \<Rightarrow> nao_parser \<Rightarrow> (compile_error, nao_parser) outcome" where
  "nao_punctuation expected p =
     (let p = nao_trivia p
      in and_then (expect (str_from (np_source p) (np_offset p))) (\<lambda>remainder.
         if starts_with remainder [expected] then Ok (nao_advance p)
         else Err (CSyntax (np_offset p) (punctuation_text expected))))"

definition nao_end :: "nao_parser \<Rightarrow> (compile_error, nao_parser) outcome" where
  "nao_end p =
     (let p = nao_trivia p
      in if np_offset p = length (np_source p) then Ok p else Err (CSyntax (np_offset p) ''end of source''))"

definition nao_peek_word :: "string \<Rightarrow> nao_parser \<Rightarrow> (compile_error, bool \<times> nao_parser) outcome" where
  "nao_peek_word expected p =
     (let p = nao_trivia p in map_ok (\<lambda>found. (found, p)) (expect (word_at (np_source p) (np_offset p) expected)))"

definition nao_call_end :: "nao_parser \<Rightarrow> (compile_error, nao_parser) outcome" where
  "nao_call_end p =
     (let p = nao_trivia p; p = (if nao_byte p = Some (CHR '','') then nao_advance p else p)
      in nao_punctuation (CHR '')'') p)"

definition lowercase_hex_nibble :: "u8 \<Rightarrow> u8 option" where
  "lowercase_hex_nibble byte =
     (if 48 \<le> byte \<and> byte \<le> 57 then Some (byte - 48)
      else if 97 \<le> byte \<and> byte \<le> 102 then Some (byte - 97 + 10)
      else None)"

definition proof_id_error_offset :: "nat \<Rightarrow> nat \<Rightarrow> char \<Rightarrow> nat" where
  "proof_id_error_offset start offset byte =
     (if byte \<in> {CHR '' '', CHR 0x09, CHR 0x0D, CHR 0x0A, CHR ''#'', CHR 0x22, CHR '','', CHR '')''} then start else offset)"

text \<open>The loop over the pairs of digits; \<open>offset\<close> is the position of the next digit.\<close>

fun hex_pairs :: "string \<Rightarrow> nat \<Rightarrow> nat \<Rightarrow> string \<Rightarrow> (compile_error, bytes) outcome" where
  "hex_pairs expected start offset (high_byte # low_byte # encoded) =
     and_then (ok_or (CSyntax (proof_id_error_offset start offset high_byte) expected) (lowercase_hex_nibble (of_char high_byte))) (\<lambda>high.
     and_then (ok_or (CSyntax (proof_id_error_offset start (offset + 1) low_byte) expected) (lowercase_hex_nibble (of_char low_byte))) (\<lambda>low.
     map_ok (\<lambda>bs. (push_bit 4 high OR low) # bs) (hex_pairs expected start (offset + 2) encoded)))"
| "hex_pairs expected start offset _ = Ok []"

definition HEX_LENGTH :: nat where "HEX_LENGTH = 64"

definition fixed_id_bytes :: "string \<Rightarrow> nao_parser \<Rightarrow> (compile_error, bytes \<times> nao_parser) outcome" where
  "fixed_id_bytes expected p =
     (let p = nao_trivia p
      in if nao_byte p \<noteq> Some (CHR 0x22) then Err (CSyntax (np_offset p) expected)
         else let p = nao_advance p; offset = np_offset p
           in if length (np_source p) < offset + HEX_LENGTH then Err (CSyntax offset expected)
              else and_then (hex_pairs expected offset offset (take HEX_LENGTH (drop offset (np_source p)))) (\<lambda>bs.
                let p = p\<lparr>np_offset := offset + HEX_LENGTH\<rparr>
                in if nao_byte p \<noteq> Some (CHR 0x22) then Err (CSyntax (np_offset p) ''a closing quote after the ProofId'')
                   else Ok (bs, nao_advance p)))"

definition nao_proof_id :: "nao_parser \<Rightarrow> (compile_error, proof_id \<times> nao_parser) outcome" where
  "nao_proof_id = fixed_id_bytes ''a 64-digit lowercase hexadecimal ProofId''"

definition nao_definition_id :: "nao_parser \<Rightarrow> (compile_error, definition_id \<times> nao_parser) outcome" where
  "nao_definition_id = fixed_id_bytes ''a 64-digit lowercase hexadecimal DefinitionId''"

section \<open>Variables\<close>

definition variable_named :: "string \<Rightarrow> nao_parser \<Rightarrow> (compile_error, free_variable \<times> nao_parser) outcome" where
  "variable_named name p =
     map_ok (\<lambda>(variable, vs). (variable, p\<lparr>np_variables := vs\<rparr>)) (expect (vs_name name (np_variables p)))"

definition fresh_variable :: "nao_parser \<Rightarrow> (compile_error, free_variable \<times> nao_parser) outcome" where
  "fresh_variable p = map_ok (\<lambda>(variable, vs). (variable, p\<lparr>np_variables := vs\<rparr>)) (expect (vs_fresh (np_variables p)))"

definition nao_variable :: "nao_parser \<Rightarrow> (compile_error, free_variable \<times> nao_parser) outcome" where
  "nao_variable p = and_then (nao_name p) (\<lambda>(name, p). variable_named name p)"

definition definition_variable :: "nao_parser \<Rightarrow> (compile_error, free_variable \<times> nao_parser) outcome" where
  "definition_variable p =
     and_then (nao_name p) (\<lambda>(name, p').
       if vs_contains (np_variables p') name then Err (CSyntax (next_offset p) ''a unique definition parameter'')
       else variable_named name p')"

section \<open>Origins\<close>

text \<open>The loop over the edges: duplicates are skipped and the seventeenth is refused.\<close>

primrec push_expansions :: "expansion_origin list \<Rightarrow> nao_parser \<Rightarrow> nao_parser" where
  "push_expansions [] p = p"
| "push_expansions (edge # edges) p =
     (if edge \<in> set (np_pending_expansions p) then push_expansions edges p
      else if length (np_pending_expansions p) = 16 then p\<lparr>np_expansions_complete := False\<rparr>
      else push_expansions edges (p\<lparr>np_pending_expansions := np_pending_expansions p @ [edge]\<rparr>))"

definition record_expansion :: "hash \<Rightarrow> string \<Rightarrow> nat \<Rightarrow> nao_parser \<Rightarrow> (compile_error, nao_parser) outcome" where
  "record_expansion sha256 name offset p =
     (case np_binding_origins p name of
        None \<Rightarrow> Ok p
      | Some origin \<Rightarrow>
          and_then (expect (source_range_new offset (offset + length name))) (\<lambda>usage.
          let edge = \<lparr>eo_kind = bo_kind origin, eo_name_digest = sha256 (ascii name), eo_usage = usage, eo_declaration = bo_range origin,
                eo_definition_id = bo_definition_id origin, eo_proof_id = bo_proof_id origin\<rparr>;
              p = push_expansions (edge # bo_expansions origin) p
          in Ok (p\<lparr>np_expansions_complete := np_expansions_complete p \<and> bo_expansions_complete origin\<rparr>)))"

definition argument ::
  "operand_role \<Rightarrow> (nao_parser \<Rightarrow> (compile_error, 'a \<times> nao_parser) outcome) \<Rightarrow> nao_parser \<Rightarrow> (compile_error, 'a \<times> nao_parser) outcome" where
  "argument role parse p =
     (let p = nao_trivia p; start = np_offset p
      in and_then (parse (p\<lparr>np_pending_expansions := [], np_expansions_complete := True\<rparr>)) (\<lambda>(v, p).
         and_then (expect (source_range_new start (np_offset p))) (\<lambda>range.
         let origin = \<lparr>ao_role = role, ao_index = None, ao_range = range, ao_expansions = np_pending_expansions p,
               ao_expansions_complete = np_expansions_complete p\<rparr>
         in Ok (v, p\<lparr>np_pending_arguments := np_pending_arguments p @ [origin], np_pending_expansions := []\<rparr>))))"

section \<open>Budgets\<close>

definition FORMULA_BINDING_MAX_NODES :: nat where "FORMULA_BINDING_MAX_NODES = FORMULA_MAX_NODES"

record term_budget =
  tb_context :: formula_context
  tb_source_depth :: nat
  tb_atom_depth :: nat
  tb_functions :: nat

definition term_budget_new :: "formula_context \<Rightarrow> nat \<Rightarrow> nat \<Rightarrow> term_budget" where
  "term_budget_new context source_depth atom_depth =
     \<lparr>tb_context = context, tb_source_depth = source_depth, tb_atom_depth = atom_depth, tb_functions = 0\<rparr>"

primrec formula_node_limit :: "formula_context \<Rightarrow> nat \<Rightarrow> compile_error" where
  "formula_node_limit BindingContext offset = CFormulaBindingNodeLimitExceeded offset FORMULA_BINDING_MAX_NODES"
| "formula_node_limit StatementContext offset = CStatement offset (NodeLimitExceeded FORMULA_MAX_NODES)"
| "formula_node_limit CertificateContext offset = CCertificate offset (FormulaNodeLimitExceeded CERTIFICATE_MAX_FORMULA_NODES)"

primrec nodes_used :: "formula_context \<Rightarrow> nao_parser \<Rightarrow> nat" where
  "nodes_used BindingContext p = np_formula_binding_nodes p"
| "nodes_used StatementContext p = np_statement_nodes p"
| "nodes_used CertificateContext p = np_certificate_formula_nodes p"

primrec set_nodes_used :: "formula_context \<Rightarrow> nat \<Rightarrow> nao_parser \<Rightarrow> nao_parser" where
  "set_nodes_used BindingContext n p = p\<lparr>np_formula_binding_nodes := n\<rparr>"
| "set_nodes_used StatementContext n p = p\<lparr>np_statement_nodes := n\<rparr>"
| "set_nodes_used CertificateContext n p = p\<lparr>np_certificate_formula_nodes := n\<rparr>"

primrec nodes_maximum :: "formula_context \<Rightarrow> nat" where
  "nodes_maximum BindingContext = FORMULA_BINDING_MAX_NODES"
| "nodes_maximum StatementContext = FORMULA_MAX_NODES"
| "nodes_maximum CertificateContext = CERTIFICATE_MAX_FORMULA_NODES"

definition charge_formula_nodes :: "formula_context \<Rightarrow> nat \<Rightarrow> nat \<Rightarrow> nao_parser \<Rightarrow> (compile_error, nao_parser) outcome" where
  "charge_formula_nodes context additional offset p =
     (let total = nodes_used context p + additional
      in if nodes_maximum context < total then Err (formula_node_limit context offset)
         else Ok (set_nodes_used context total p))"

text \<open>The subtraction of one and the addition are checked.\<close>

definition check_expanded_depth :: "nat \<Rightarrow> nat \<Rightarrow> nat \<Rightarrow> (compile_error, unit) outcome" where
  "check_expanded_depth operator_offset source_depth expanded_depth =
     (let absolute_depth = (if source_depth = 0 then None else u32_add (source_depth - 1) expanded_depth)
      in case absolute_depth of
           None \<Rightarrow> Err (CFormulaDepthLimitExceeded operator_offset FORMULA_MAX_DEPTH)
         | Some depth \<Rightarrow> if FORMULA_MAX_DEPTH < depth then Err (CFormulaDepthLimitExceeded operator_offset FORMULA_MAX_DEPTH) else Ok ())"

definition check_derived_expansion ::
  "nat \<Rightarrow> nat \<Rightarrow> formula_context \<Rightarrow> nat \<Rightarrow> nat \<Rightarrow> nao_parser \<Rightarrow> (compile_error, nao_parser) outcome" where
  "check_derived_expansion operator_offset source_depth context expanded_depth additional_nodes p =
     and_then (charge_formula_nodes context additional_nodes operator_offset p) (\<lambda>p.
     map_ok (\<lambda>_. p) (check_expanded_depth operator_offset source_depth expanded_depth))"

primrec u32_sum :: "nat \<Rightarrow> nat list \<Rightarrow> nat option" where
  "u32_sum acc [] = Some acc"
| "u32_sum acc (t # ts) = Option.bind (u32_add acc t) (\<lambda>acc. u32_sum acc ts)"

definition checked_node_sum :: "formula_context \<Rightarrow> nat list \<Rightarrow> nat \<Rightarrow> (compile_error, nat) outcome" where
  "checked_node_sum context terms offset = ok_or (formula_node_limit context offset) (u32_sum 0 terms)"

definition checked_depth_add :: "nat \<Rightarrow> nat \<Rightarrow> nat \<Rightarrow> (compile_error, nat) outcome" where
  "checked_depth_add offset depth additional =
     ok_or (CFormulaDepthLimitExceeded offset FORMULA_MAX_DEPTH) (u32_add depth additional)"

section \<open>Terms\<close>

text \<open>\<open>atom_depth + 6 * n\<close> in \<open>u32\<close>.\<close>

definition term_depth :: "nat \<Rightarrow> nat \<Rightarrow> nat option" where
  "term_depth atom_depth n = Option.bind (u32_fits (6 * n)) (u32_add atom_depth)"

definition ensure_definition_arity :: "nat \<Rightarrow> string \<Rightarrow> u32 \<Rightarrow> nat \<Rightarrow> (compile_error, unit) outcome" where
  "ensure_definition_arity offset name expected actual =
     (if actual = unat expected then Ok () else Err (CDefinitionArityMismatch offset name expected actual))"

text \<open>The loop of \<open>term_arguments\<close> runs at most once per declared argument: the first number is how many arguments
  are still allowed. The parser of one argument is a parameter, because \<open>term\<close> and \<open>term_arguments\<close> call each other.\<close>

type_synonym term_parser = "term_budget \<Rightarrow> nao_parser \<Rightarrow> (compile_error, parsed_term \<times> term_budget \<times> nao_parser) outcome"

primrec term_arguments_loop ::
  "nat \<Rightarrow> term_parser \<Rightarrow> nat \<Rightarrow> string \<Rightarrow> u32 \<Rightarrow> parsed_term list \<Rightarrow> term_budget \<Rightarrow> nao_parser \<Rightarrow>
    (compile_error, parsed_term list \<times> term_budget \<times> nao_parser) outcome" where
  "term_arguments_loop 0 term offset name arity arguments budget p =
     Err (CDefinitionArityMismatch offset name arity (length arguments + 1))"
| "term_arguments_loop (Suc allowed) term offset name arity arguments budget p =
     and_then (term budget p) (\<lambda>(argument, budget, p).
     let arguments = arguments @ [argument]; p = nao_trivia p
     in if nao_byte p = Some (CHR '')'') then Ok (arguments, budget, p)
        else and_then (nao_punctuation (CHR '','') p) (\<lambda>p.
          let p = nao_trivia p
          in if nao_byte p = Some (CHR '')'') then Ok (arguments, budget, p)
             else term_arguments_loop allowed term offset name arity arguments budget p))"

definition term_arguments ::
  "term_parser \<Rightarrow> nat \<Rightarrow> string \<Rightarrow> u32 \<Rightarrow> term_budget \<Rightarrow> nao_parser \<Rightarrow> (compile_error, parsed_term list \<times> term_budget \<times> nao_parser) outcome" where
  "term_arguments term offset name arity budget p =
     (let p = nao_trivia p
      in if nao_byte p = Some (CHR '')'') then Ok ([], budget, p)
         else term_arguments_loop (unat arity) term offset name arity [] budget p)"

text \<open>A function call in term position, from the byte after the opening parenthesis.\<close>

definition function_term :: "hash \<Rightarrow> term_parser \<Rightarrow> nat \<Rightarrow> string \<Rightarrow> term_parser" where
  "function_term sha256 term offset name budget p =
     and_then (ok_or (CUnknownDefinitionAlias offset name) (np_definition_aliases p name)) (\<lambda>alias.
     and_then
       (case da_kind alias of
          FunctionKind input_arity \<Rightarrow> Ok input_arity
        | RelationKind _ \<Rightarrow> Err (CSyntax offset ''a function definition alias in term position'')) (\<lambda>expected.
     and_then (record_expansion sha256 name offset p) (\<lambda>p.
     and_then (expect (u32_add (tb_functions budget) 1)) (\<lambda>functions.
     let budget = budget\<lparr>tb_functions := functions\<rparr>
     in and_then (expect (term_depth (tb_atom_depth budget) (tb_functions budget))) (\<lambda>depth.
     and_then (check_expanded_depth offset (tb_source_depth budget) depth) (\<lambda>_.
     and_then (charge_formula_nodes (tb_context budget) 7 offset p) (\<lambda>p.
     and_then (term_arguments term offset name expected budget p) (\<lambda>(arguments, budget, p).
     and_then (ensure_definition_arity offset name expected (length arguments)) (\<lambda>_.
     and_then (nao_call_end p) (\<lambda>p.
     and_then (fresh_variable p) (\<lambda>(output, p).
       let variables = map pt_variable arguments @ [output]
       in Ok (\<lparr>pt_variable = output,
               pt_graph_constraints = concat (map pt_graph_constraints arguments) @ [defined_relation (da_definition_id alias) variables],
               pt_witnesses = concat (map pt_witnesses arguments) @ [output]\<rparr>, budget, p))))))))))))"

text \<open>The fuel bounds the nesting of calls; the depth check of every call bounds it too.\<close>

primrec nao_term :: "nat \<Rightarrow> hash \<Rightarrow> term_parser" where
  "nao_term 0 sha256 budget p = Panic"
| "nao_term (Suc fuel) sha256 budget p =
     (let offset = next_offset p
      in and_then (nao_name p) (\<lambda>(name, p).
         let offset_after_name = np_offset p; p = nao_trivia p
         in if nao_byte p \<noteq> Some (CHR ''('')
            then map_ok (\<lambda>(variable, p). (term_of_variable variable, budget, p)) (variable_named name (p\<lparr>np_offset := offset_after_name\<rparr>))
            else function_term sha256 (nao_term fuel sha256) offset name budget (nao_advance p)))"

definition TERM_FUEL :: nat where "TERM_FUEL = FORMULA_MAX_DEPTH"

primrec wrap_constraints :: "dnode list \<Rightarrow> dnode \<Rightarrow> dnode" where
  "wrap_constraints [] formula = formula"
| "wrap_constraints (constraint # constraints) formula = d_conjunction constraint (wrap_constraints constraints formula)"

primrec d_wrap_quantifiers :: "bool \<Rightarrow> free_variable list \<Rightarrow> dnode \<Rightarrow> dnode option" where
  "d_wrap_quantifiers existential [] formula = Some formula"
| "d_wrap_quantifiers existential (v # vs) formula =
     Option.bind (d_wrap_quantifiers existential vs formula) (\<lambda>body. if existential then d_exists v body else d_for_all v body)"

definition relationalized_formula ::
  "parsed_term list \<Rightarrow> (free_variable list \<Rightarrow> dnode option) \<Rightarrow> nat \<Rightarrow> formula_context \<Rightarrow> nat \<Rightarrow> nat \<Rightarrow> nao_parser \<Rightarrow>
    (compile_error, parsed_formula \<times> nao_parser) outcome" where
  "relationalized_formula terms atom offset context source_depth atom_depth p =
     (let variables = map pt_variable terms;
          graph_constraints = concat (map pt_graph_constraints terms);
          witnesses = concat (map pt_witnesses terms)
      in if length graph_constraints \<noteq> length witnesses then Panic
         else and_then (expect (Option.bind (u32_fits (length witnesses)) (term_depth atom_depth))) (\<lambda>expanded_depth.
           and_then (check_expanded_depth offset source_depth expanded_depth) (\<lambda>_.
           if atom_depth = 0 then Panic
           else and_then (charge_formula_nodes context (atom_depth - 1) offset p) (\<lambda>p.
             and_then (expect (atom variables)) (\<lambda>formula.
             and_then (expect (d_wrap_quantifiers True witnesses (wrap_constraints graph_constraints formula))) (\<lambda>formula.
             and_then (map_err (CDefinitionFormula offset) (d_encode_canonical_with_node_limit formula FORMULA_MAX_NODES)) (\<lambda>(_, nodes).
             and_then (expect (u32_fits nodes)) (\<lambda>expanded_nodes.
               Ok (\<lparr>pd_formula = formula, pd_expanded_nodes = expanded_nodes, pd_expanded_depth = expanded_depth\<rparr>, p))))))))) "

text \<open>The two terms of an equality or a membership; the slice of their variables is indexed at 0 and 1.\<close>

definition two_terms :: "hash \<Rightarrow> term_budget \<Rightarrow> nao_parser \<Rightarrow> (compile_error, parsed_term list \<times> nao_parser) outcome" where
  "two_terms sha256 terms p =
     and_then (nao_term TERM_FUEL sha256 terms p) (\<lambda>(left, terms, p).
     and_then (nao_punctuation (CHR '','') p) (\<lambda>p.
     and_then (nao_term TERM_FUEL sha256 terms p) (\<lambda>(right, terms, p). Ok ([left, right], p))))"

definition on_pair :: "(free_variable \<Rightarrow> free_variable \<Rightarrow> dnode) \<Rightarrow> free_variable list \<Rightarrow> dnode option" where
  "on_pair atom variables =
     Option.bind (element_at variables 0) (\<lambda>left. map_option (atom left) (element_at variables 1))"

definition parse_equal ::
  "hash \<Rightarrow> nat \<Rightarrow> nat \<Rightarrow> formula_context \<Rightarrow> bool \<Rightarrow> nao_parser \<Rightarrow> (compile_error, parsed_formula \<times> nao_parser) outcome" where
  "parse_equal sha256 offset depth context negative p =
     (let atom_depth = (if negative then 2 else 1)
      in and_then (two_terms sha256 (term_budget_new context depth atom_depth) p) (\<lambda>(terms, p).
         relationalized_formula terms
           (on_pair (\<lambda>left right. if negative then d_negate (d_equal left right) else d_equal left right))
           offset context depth atom_depth p))"

definition parse_member ::
  "hash \<Rightarrow> nat \<Rightarrow> nat \<Rightarrow> formula_context \<Rightarrow> nao_parser \<Rightarrow> (compile_error, parsed_formula \<times> nao_parser) outcome" where
  "parse_member sha256 offset depth context p =
     and_then (two_terms sha256 (term_budget_new context depth 1) p) (\<lambda>(terms, p).
       relationalized_formula terms (on_pair d_member) offset context depth 1 p)"

definition parse_defined_relation ::
  "hash \<Rightarrow> nat \<Rightarrow> string \<Rightarrow> formula_context \<Rightarrow> nat \<Rightarrow> nao_parser \<Rightarrow> (compile_error, parsed_formula \<times> nao_parser) outcome" where
  "parse_defined_relation sha256 offset name context depth p =
     and_then (ok_or (CUnknownDefinitionAlias offset name) (np_definition_aliases p name)) (\<lambda>alias.
     and_then
       (case da_kind alias of
          RelationKind arity \<Rightarrow> Ok arity
        | FunctionKind _ \<Rightarrow> Err (CSyntax offset ''a relation definition alias in formula position'')) (\<lambda>arity.
     and_then (record_expansion sha256 name offset p) (\<lambda>p.
     and_then (term_arguments (nao_term TERM_FUEL sha256) offset name arity (term_budget_new context depth 1) p) (\<lambda>(arguments, _, p).
     and_then (ensure_definition_arity offset name arity (length arguments)) (\<lambda>_.
       relationalized_formula arguments (\<lambda>variables. Some (defined_relation (da_definition_id alias) variables))
         offset context depth 1 p)))))"

section \<open>The formula builder\<close>

definition parsed_formula_binding_reference ::
  "hash \<Rightarrow> nat \<Rightarrow> string \<Rightarrow> nat \<Rightarrow> formula_context \<Rightarrow> nao_parser \<Rightarrow> (compile_error, parsed_formula \<times> nao_parser) outcome" where
  "parsed_formula_binding_reference sha256 offset name depth context p =
     and_then (ok_or (CUnknownFormulaBinding offset name) (np_formula_bindings p name)) (\<lambda>binding.
     and_then (charge_formula_nodes context (pd_expanded_nodes binding) offset p) (\<lambda>p.
     and_then (check_expanded_depth offset depth (pd_expanded_depth binding)) (\<lambda>_.
     and_then (record_expansion sha256 name offset p) (\<lambda>p.
     and_then (expect (np_formula_bindings p name)) (\<lambda>present.
       Ok (\<lparr>pd_formula = pd_formula present, pd_expanded_nodes = pd_expanded_nodes binding,
            pd_expanded_depth = pd_expanded_depth binding\<rparr>, p))))))"

text \<open>\<open>depth as u32\<close> keeps the low 32 bits.\<close>

abbreviation as_u32 :: "nat \<Rightarrow> nat" where "as_u32 n \<equiv> n mod 2 ^ 32"

definition nao_start :: "hash \<Rightarrow> nat \<Rightarrow> formula_context \<Rightarrow> nao_parser \<Rightarrow> (compile_error, parsed_formula start \<times> nao_parser) outcome" where
  "nao_start sha256 depth context p =
     (let depth = as_u32 depth; formula_offset = next_offset p
      in and_then (nao_name p) (\<lambda>(operator, p).
         let opening = nao_trivia p; has_call = (nao_byte opening = Some (CHR ''(''))
         in if \<not> has_call \<and> \<not> is_reserved_binding_name operator
            then map_ok (\<lambda>(f, p). (StartValue f, p)) (parsed_formula_binding_reference sha256 formula_offset operator depth context p)
            else and_then (charge_formula_nodes context 1 formula_offset p) (\<lambda>p.
              if FORMULA_MAX_DEPTH < depth then Err (CFormulaDepthLimitExceeded formula_offset FORMULA_MAX_DEPTH)
              else and_then
                (if has_call then Ok (p\<lparr>np_offset := np_offset opening + 1\<rparr>) else nao_punctuation (CHR ''('') p) (\<lambda>p.
                Ok (StartCall operator formula_offset, p)))))"

definition nao_atom :: "hash \<Rightarrow> operator \<Rightarrow> nat \<Rightarrow> nat \<Rightarrow> formula_context \<Rightarrow> nao_parser \<Rightarrow> (compile_error, parsed_formula \<times> nao_parser) outcome" where
  "nao_atom sha256 op offset depth context p =
     (case op of
        OpEqual \<Rightarrow> parse_equal sha256 offset (as_u32 depth) context False p
      | OpUnequal \<Rightarrow> parse_equal sha256 offset (as_u32 depth) context True p
      | OpMember \<Rightarrow> parse_member sha256 offset (as_u32 depth) context p
      | _ \<Rightarrow> Panic)"

fun nao_binder_error :: "nat \<Rightarrow> binder_error \<Rightarrow> compile_error" where
  "nao_binder_error _ (BinderName offset) = CSyntax offset ''a name''"
| "nao_binder_error _ (BinderComma offset) = CSyntax offset (punctuation_text (CHR '',''))"
| "nao_binder_error offset _ = CFormulaDepthLimitExceeded offset FORMULA_MAX_DEPTH"

definition nao_binders :: "nat \<Rightarrow> nao_parser \<Rightarrow> (compile_error, free_variable list \<times> nao_parser) outcome" where
  "nao_binders offset p =
     map_ok (\<lambda>(found, offset, variables). (found, p\<lparr>np_offset := offset, np_variables := variables\<rparr>))
       (map_err (nao_binder_error offset) (binder_list (np_source p) (np_offset p) (np_variables p)))"

text \<open>\<open>count as u32 * 3\<close> or \<open>* 1\<close>.\<close>

definition nao_extra :: "operator \<Rightarrow> nat \<Rightarrow> nat option" where
  "nao_extra op count = u32_fits (as_u32 count * (if op = OpExists then 3 else 1))"

definition nao_quantified_depth ::
  "operator \<Rightarrow> nat \<Rightarrow> nat \<Rightarrow> nat \<Rightarrow> formula_context \<Rightarrow> nao_parser \<Rightarrow> (compile_error, nat \<times> nao_parser) outcome" where
  "nao_quantified_depth op count offset depth context p =
     and_then (expect (nao_extra op count)) (\<lambda>extra.
     and_then (expect (u32_add extra 1)) (\<lambda>nested.
     and_then (check_expanded_depth offset (as_u32 depth) nested) (\<lambda>_.
     if extra = 0 then Panic
     else map_ok (\<lambda>p. (depth + extra, p)) (charge_formula_nodes context (extra - 1) offset p))))"

definition nao_quantified ::
  "operator \<Rightarrow> free_variable list \<Rightarrow> parsed_formula \<Rightarrow> nat \<Rightarrow> nat \<Rightarrow> formula_context \<Rightarrow> nao_parser \<Rightarrow> (compile_error, parsed_formula \<times> nao_parser) outcome" where
  "nao_quantified op variables body offset depth context p =
     and_then (expect (nao_extra op (length variables))) (\<lambda>extra.
     and_then (checked_node_sum context [extra, pd_expanded_nodes body] offset) (\<lambda>expanded_nodes.
     and_then (checked_depth_add offset (pd_expanded_depth body) extra) (\<lambda>expanded_depth.
     and_then (check_expanded_depth offset (as_u32 depth) expanded_depth) (\<lambda>_.
     map_ok (\<lambda>formula. (\<lparr>pd_formula = formula, pd_expanded_nodes = expanded_nodes, pd_expanded_depth = expanded_depth\<rparr>, p))
       (expect (d_wrap_quantifiers (op = OpExists) variables (pd_formula body)))))))"

definition nao_negated ::
  "parsed_formula \<Rightarrow> nat \<Rightarrow> nat \<Rightarrow> formula_context \<Rightarrow> nao_parser \<Rightarrow> (compile_error, parsed_formula \<times> nao_parser) outcome" where
  "nao_negated body offset depth context p =
     and_then (checked_node_sum context [1, pd_expanded_nodes body] offset) (\<lambda>expanded_nodes.
     and_then (checked_depth_add offset (pd_expanded_depth body) 1) (\<lambda>expanded_depth.
     map_ok (\<lambda>_. (\<lparr>pd_formula = d_negate (pd_formula body), pd_expanded_nodes = expanded_nodes, pd_expanded_depth = expanded_depth\<rparr>, p))
       (check_expanded_depth offset (as_u32 depth) expanded_depth)))"

definition nao_connective :: "operator \<Rightarrow> dnode \<Rightarrow> dnode \<Rightarrow> dnode option" where
  "nao_connective op left right =
     (case op of
        OpImplies \<Rightarrow> Some (d_implies left right)
      | OpAnd \<Rightarrow> Some (d_conjunction left right)
      | OpOr \<Rightarrow> Some (d_disjunction left right)
      | OpIff \<Rightarrow> Some (d_biconditional left right)
      | _ \<Rightarrow> None)"

definition additional_nodes :: "operator \<Rightarrow> parsed_formula \<Rightarrow> parsed_formula \<Rightarrow> nat \<Rightarrow> formula_context \<Rightarrow> (compile_error, nat) outcome" where
  "additional_nodes op left right offset context =
     (case op of
        OpAnd \<Rightarrow> Ok 2
      | OpOr \<Rightarrow> Ok 1
      | OpIff \<Rightarrow> checked_node_sum context [4, pd_expanded_nodes left, pd_expanded_nodes right] offset
      | OpImplies \<Rightarrow> Ok 0
      | _ \<Rightarrow> Panic)"

definition nao_binary ::
  "operator \<Rightarrow> parsed_formula \<times> parsed_formula \<Rightarrow> nat \<Rightarrow> nat \<Rightarrow> formula_context \<Rightarrow> nao_parser \<Rightarrow> (compile_error, parsed_formula \<times> nao_parser) outcome" where
  "nao_binary op children offset depth context p =
     (case children of (left, right) \<Rightarrow>
        and_then (ok_or (formula_node_limit context offset)
          (binary_shape (operator_name op) (pd_expanded_nodes left, pd_expanded_depth left) (pd_expanded_nodes right, pd_expanded_depth right))) (\<lambda>(nodes, height).
        and_then (ok_or (formula_node_limit context offset) (u32_fits nodes)) (\<lambda>expanded_nodes.
        and_then (ok_or (formula_node_limit context offset) (u32_fits height)) (\<lambda>expanded_depth.
        and_then (additional_nodes op left right offset context) (\<lambda>additional.
        and_then (check_derived_expansion offset (as_u32 depth) context expanded_depth additional p) (\<lambda>p.
        map_ok (\<lambda>formula. (\<lparr>pd_formula = formula, pd_expanded_nodes = expanded_nodes, pd_expanded_depth = expanded_depth\<rparr>, p))
          (expect (nao_connective op (pd_formula left) (pd_formula right)))))))))"

definition nao_extension ::
  "hash \<Rightarrow> string \<Rightarrow> nat \<Rightarrow> nat \<Rightarrow> formula_context \<Rightarrow> nao_parser \<Rightarrow> (compile_error, parsed_formula \<times> nao_parser) outcome" where
  "nao_extension sha256 name offset depth context p = parse_defined_relation sha256 offset name context (as_u32 depth) p"

definition nao_finish :: "parsed_formula \<Rightarrow> nat \<Rightarrow> nao_parser \<Rightarrow> (compile_error, parsed_formula \<times> nao_parser) outcome" where
  "nao_finish parsed depth p = map_ok (\<lambda>p. (parsed, p)) (nao_call_end p)"

definition nao_builder :: "hash \<Rightarrow> (nao_parser, parsed_formula, compile_error, formula_context) formula_builder" where
  "nao_builder sha256 =
     \<lparr>fb_start = nao_start sha256, fb_atom = nao_atom sha256, fb_binders = nao_binders, fb_quantified_depth = nao_quantified_depth,
      fb_quantified = nao_quantified, fb_negated = nao_negated, fb_binary = nao_binary, fb_extension = nao_extension sha256,
      fb_comma = nao_punctuation (CHR '',''), fb_finish = nao_finish\<rparr>"

definition nao_parsed_formula :: "hash \<Rightarrow> nat \<Rightarrow> formula_context \<Rightarrow> nao_parser \<Rightarrow> (compile_error, parsed_formula \<times> nao_parser) outcome" where
  "nao_parsed_formula sha256 depth context p = parse_formula (FORMULA_MAX_DEPTH + 1) (nao_builder sha256) context depth p"

definition nao_formula :: "hash \<Rightarrow> nat \<Rightarrow> formula_context \<Rightarrow> nao_parser \<Rightarrow> (compile_error, dnode \<times> nao_parser) outcome" where
  "nao_formula sha256 depth context p =
     map_ok (\<lambda>(parsed, p). (pd_formula parsed, p)) (nao_parsed_formula sha256 depth context p)"

definition nao_proof_formula ::
  "hash \<Rightarrow> nat \<Rightarrow> formula_context \<Rightarrow> nao_parser \<Rightarrow> (compile_error, proof_formula \<times> nao_parser) outcome" where
  "nao_proof_formula sha256 depth context p =
     (let offset = next_offset p
      in and_then (nao_formula sha256 depth context p) (\<lambda>(formula, p).
         map_ok (\<lambda>f. (f, p)) (map_err (CDefinitionFormula offset) (from_defined formula))))"

end
