(* ===== verification/Nao_Compiler.thy ===== *)
theory Nao_Compiler
  imports Nao_Parser Artifact_State Artifact_Payload
begin

text \<open>
  The \<open>.nao\<close> compiler, \<open>lib.rs\<close>, \<open>output.rs\<close>, \<open>parser/proof.rs\<close>, \<open>parser/definition.rs\<close> and the compilation order of
  \<open>parser/mod.rs\<close> of \<open>naome-authoring\<close>: definition aliases, proof references, formula bindings, the goal, the proof
  steps, and conservative definitions. What it accepts has gone through the modelled checker. A loop over declarations
  consumes source in every round and carries the length of the source as fuel; the loops over proof steps and definition
  parameters are bounded by the limit that the code checks. Of the diagnostics that a rejected certificate gets,
  the checks that can panic are kept and the report itself is left out.
\<close>

definition AUTHORING_SOURCE_MAX_BYTES :: nat where "AUTHORING_SOURCE_MAX_BYTES = CERTIFICATE_MAX_BYTES"

primrec or_fail :: "('e \<Rightarrow> ('f, 'a) outcome) \<Rightarrow> ('e, 'a) outcome \<Rightarrow> ('f, 'a) outcome" where
  "or_fail handle (Ok x) = Ok x"
| "or_fail handle (Err e) = handle e"
| "or_fail handle Panic = Panic"

section \<open>Declarations\<close>

text \<open>\<open>self.peek_word(a) || self.peek_word(b) || \<dots>\<close>.\<close>

primrec peek_words :: "string list \<Rightarrow> nao_parser \<Rightarrow> (compile_error, bool \<times> nao_parser) outcome" where
  "peek_words [] p = Ok (False, p)"
| "peek_words (word # words) p =
     and_then (nao_peek_word word p) (\<lambda>(found, p). if found then Ok (True, p) else peek_words words p)"

definition declare_alias :: "context_view \<Rightarrow> nao_parser \<Rightarrow> (compile_error, nao_parser) outcome" where
  "declare_alias artifact_state p =
     (let offset = next_offset p
      in and_then (nao_name p) (\<lambda>(name, p).
         if is_reserved_binding_name name then Err (CSyntax offset ''a non-reserved definition alias'')
         else if np_definition_aliases p name \<noteq> None then Err (CDuplicateDefinitionAlias offset name)
         else and_then (nao_punctuation (CHR ''='') p) (\<lambda>p.
           and_then (nao_definition_id p) (\<lambda>(definition_id, p).
           and_then (map_err (\<lambda>source. CDefinitionExpansion offset (Access (access_error_of_context source)))
               (cv_definition_kind artifact_state definition_id)) (\<lambda>found.
           and_then (ok_or (CDefinitionNotSelected offset definition_id) found) (\<lambda>kind.
           and_then (expect (source_range_new offset (np_offset p))) (\<lambda>range.
             Ok (p\<lparr>np_definition_aliases := (np_definition_aliases p)(name \<mapsto> \<lparr>da_definition_id = definition_id, da_kind = kind\<rparr>),
                   np_binding_origins := (np_binding_origins p)(name \<mapsto> \<lparr>bo_range = range, bo_kind = DefinitionOrigin,
                     bo_definition_id = Some definition_id, bo_proof_id = None, bo_expansions = [], bo_expansions_complete = True\<rparr>)\<rparr>)))))))) "

primrec definition_aliases_loop :: "nat \<Rightarrow> context_view \<Rightarrow> nao_parser \<Rightarrow> (compile_error, nao_parser) outcome" where
  "definition_aliases_loop 0 artifact_state p = Panic"
| "definition_aliases_loop (Suc fuel) artifact_state p =
     and_then (declare_alias artifact_state p) (\<lambda>p.
     and_then (peek_words [''refs'', ''let'', ''goal'', ''def''] p) (\<lambda>(found, p).
       if found then Ok p else definition_aliases_loop fuel artifact_state p))"

definition definition_aliases :: "context_view \<Rightarrow> nao_parser \<Rightarrow> (compile_error, nao_parser) outcome" where
  "definition_aliases artifact_state p =
     and_then (nao_keyword ''defs'' p) (\<lambda>p.
     and_then (nao_punctuation (CHR '':'') p) (\<lambda>p.
     and_then (peek_words [''refs'', ''let'', ''goal'', ''def''] p) (\<lambda>(found, p).
       if found then Err (CSyntax (next_offset p) ''at least one selected definition alias'')
       else definition_aliases_loop (length (np_source p) + 1) artifact_state p)))"

definition proof_reference :: "nao_parser \<Rightarrow> (compile_error, nao_parser) outcome" where
  "proof_reference p =
     (let offset = next_offset p
      in and_then (nao_name p) (\<lambda>(name, p).
         if is_reserved_binding_name name then Err (CSyntax offset ''a non-reserved proof reference name'')
         else if np_proof_references p name \<noteq> None then Err (CDuplicateProofReference offset name)
         else if np_definition_aliases p name \<noteq> None then Err (CDuplicateDefinitionAlias offset name)
         else and_then (nao_punctuation (CHR ''='') p) (\<lambda>p.
           and_then (nao_proof_id p) (\<lambda>(proof_id, p).
           and_then (expect (source_range_new offset (np_offset p))) (\<lambda>range.
             Ok (p\<lparr>np_proof_references := (np_proof_references p)(name \<mapsto> proof_id),
                   np_binding_origins := (np_binding_origins p)(name \<mapsto> \<lparr>bo_range = range, bo_kind = ProofReferenceOrigin,
                     bo_definition_id = None, bo_proof_id = Some proof_id, bo_expansions = [], bo_expansions_complete = True\<rparr>)\<rparr>))))))"

primrec proof_references_loop :: "nat \<Rightarrow> nao_parser \<Rightarrow> (compile_error, nao_parser) outcome" where
  "proof_references_loop 0 p = Panic"
| "proof_references_loop (Suc fuel) p =
     and_then (proof_reference p) (\<lambda>p.
     and_then (peek_words [''let'', ''goal'', ''def''] p) (\<lambda>(found, p).
       if found then Ok p else proof_references_loop fuel p))"

definition proof_references :: "nao_parser \<Rightarrow> (compile_error, nao_parser) outcome" where
  "proof_references p =
     and_then (nao_keyword ''refs'' p) (\<lambda>p.
     and_then (nao_punctuation (CHR '':'') p) (\<lambda>p.
       proof_references_loop (length (np_source p) + 1) p))"

text \<open>The name of a duplicate binding is sliced out of the source again.\<close>

definition binding_failure :: "nao_parser \<Rightarrow> binding_error \<Rightarrow> (compile_error, string \<times> nat) outcome" where
  "binding_failure p error =
     (let name_offset = np_offset p
      in case error of
           BindingName \<Rightarrow> Err (CSyntax name_offset ''a name'')
         | BindingReserved \<Rightarrow> Err (CSyntax name_offset ''a non-reserved formula binding name'')
         | BindingDuplicate \<Rightarrow>
             and_then (expect (name_at (np_source p) name_offset)) (\<lambda>(_, stop).
             and_then (expect (str_range (np_source p) name_offset stop)) (\<lambda>name. Err (CDuplicateFormulaBinding name_offset name))))"

definition formula_binding :: "hash \<Rightarrow> nao_parser \<Rightarrow> (compile_error, nao_parser) outcome" where
  "formula_binding sha256 p =
     (let p = nao_trivia p; name_offset = np_offset p
      in and_then (or_fail (binding_failure p) (binding_name (np_source p) name_offset (\<lambda>name. np_formula_bindings p name \<noteq> None))) (\<lambda>(name, offset).
         if np_definition_aliases p name \<noteq> None then Err (CDuplicateDefinitionAlias name_offset name)
         else if np_proof_references p name \<noteq> None then Err (CDuplicateProofReference name_offset name)
         else and_then (nao_punctuation (CHR ''='') (p\<lparr>np_offset := offset\<rparr>)) (\<lambda>p.
           and_then (nao_parsed_formula sha256 1 BindingContext (p\<lparr>np_pending_expansions := [], np_expansions_complete := True\<rparr>)) (\<lambda>(parsed, p).
           and_then (expect (source_range_new name_offset (np_offset p))) (\<lambda>range.
             Ok (p\<lparr>np_binding_origins := (np_binding_origins p)(name \<mapsto> \<lparr>bo_range = range, bo_kind = FormulaBindingOrigin,
                     bo_definition_id = None, bo_proof_id = None, bo_expansions = np_pending_expansions p,
                     bo_expansions_complete = np_expansions_complete p\<rparr>),
                   np_pending_expansions := [], np_formula_bindings := (np_formula_bindings p)(name \<mapsto> parsed)\<rparr>))))))"

primrec formula_bindings_loop :: "nat \<Rightarrow> hash \<Rightarrow> nao_parser \<Rightarrow> (compile_error, nao_parser) outcome" where
  "formula_bindings_loop 0 sha256 p = Panic"
| "formula_bindings_loop (Suc fuel) sha256 p =
     and_then (formula_binding sha256 p) (\<lambda>p.
     and_then (nao_peek_word ''goal'' p) (\<lambda>(goal, p).
       if goal then Ok p
       else and_then (nao_peek_word ''def'' p) (\<lambda>(definition, p).
         if definition then Err (CSyntax (next_offset p) ''a proof statement after formula bindings'')
         else formula_bindings_loop fuel sha256 p)))"

definition nao_bindings :: "hash \<Rightarrow> nao_parser \<Rightarrow> (compile_error, nao_parser) outcome" where
  "nao_bindings sha256 p =
     and_then (nao_keyword ''let'' p) (\<lambda>p.
     and_then (nao_punctuation (CHR '':'') p) (\<lambda>p.
     and_then (peek_words [''goal'', ''def''] p) (\<lambda>(found, p).
       if found then Err (CSyntax (next_offset p) ''at least one formula binding'')
       else formula_bindings_loop (length (np_source p) + 1) sha256 p)))"

text \<open>The three optional sections before the goal or the definition.\<close>

definition when_word ::
  "string \<Rightarrow> (nao_parser \<Rightarrow> (compile_error, nao_parser) outcome) \<Rightarrow> nao_parser \<Rightarrow> (compile_error, nao_parser) outcome" where
  "when_word word run p = and_then (nao_peek_word word p) (\<lambda>(found, p). if found then run p else Ok p)"

definition declarations :: "hash \<Rightarrow> context_view \<Rightarrow> nao_parser \<Rightarrow> (compile_error, nao_parser) outcome" where
  "declarations sha256 artifact_state p =
     and_then (when_word ''defs'' (definition_aliases artifact_state) p) (\<lambda>p.
     and_then (when_word ''refs'' proof_references p) (\<lambda>p.
       when_word ''let'' (nao_bindings sha256) p))"

section \<open>Proof steps\<close>

definition formula_argument :: "hash \<Rightarrow> operand_role \<Rightarrow> nao_parser \<Rightarrow> (compile_error, proof_formula \<times> nao_parser) outcome" where
  "formula_argument sha256 role p = argument role (nao_proof_formula sha256 1 CertificateContext) p"

definition variable_argument :: "operand_role \<Rightarrow> nao_parser \<Rightarrow> (compile_error, free_variable \<times> nao_parser) outcome" where
  "variable_argument role p = argument role nao_variable p"

text \<open>\<open>self.punctuation(',')?\<close> and then the next argument.\<close>

definition after_comma :: "(nao_parser \<Rightarrow> (compile_error, 'a) outcome) \<Rightarrow> nao_parser \<Rightarrow> (compile_error, 'a) outcome" where
  "after_comma run p = and_then (nao_punctuation (CHR '','') p) run"

definition earlier_step :: "nao_parser \<Rightarrow> (compile_error, u32 \<times> nao_parser) outcome" where
  "earlier_step p =
     and_then (nao_name p) (\<lambda>(name, p').
       map_ok (\<lambda>binding. (sb_position binding, p')) (ok_or (CUnknownStep (next_offset p) name) (map_of (np_steps p') name)))"

definition step_argument :: "operand_role \<Rightarrow> nao_parser \<Rightarrow> (compile_error, u32 \<times> nao_parser) outcome" where
  "step_argument role p = argument role earlier_step p"

definition citation :: "hash \<Rightarrow> nao_parser \<Rightarrow> (compile_error, proof_id \<times> nao_parser) outcome" where
  "citation sha256 p =
     (let p = nao_trivia p
      in if nao_byte p = Some (CHR 0x22) then nao_proof_id p
         else let offset = next_offset p
           in and_then (nao_name p) (\<lambda>(name, p).
              and_then (record_expansion sha256 name offset p) (\<lambda>p.
              map_ok (\<lambda>i. (i, p)) (ok_or (CUnknownProofReference offset name) (np_proof_references p name)))))"

definition axiom_named :: "string \<Rightarrow> zfc_axiom option" where
  "axiom_named name =
     (if name = ''extensionality'' then Some Extensionality
      else if name = ''pairing'' then Some Pairing
      else if name = ''union'' then Some Union
      else if name = ''power_set'' then Some PowerSet
      else if name = ''infinity'' then Some Infinity
      else if name = ''foundation'' then Some Foundation
      else if name = ''choice'' then Some Choice
      else None)"

definition nao_zfc_axiom :: "nao_parser \<Rightarrow> (compile_error, zfc_axiom \<times> nao_parser) outcome" where
  "nao_zfc_axiom p =
     (let offset = next_offset p
      in and_then (nao_string ''a quoted ZFC axiom selector'' p) (\<lambda>(name, p).
         map_ok (\<lambda>ax. (ax, p)) (ok_or (CSyntax offset ''a fixed ZFC axiom'') (axiom_named name))))"

primrec schema_parameters_loop ::
  "nat \<Rightarrow> free_variable list \<Rightarrow> nao_parser \<Rightarrow> (compile_error, free_variable list \<times> nao_parser) outcome" where
  "schema_parameters_loop 0 parameters p = Panic"
| "schema_parameters_loop (Suc fuel) parameters p =
     (let start = next_offset p
      in and_then (nao_variable p) (\<lambda>(variable, p).
         and_then (expect (source_range_new start (np_offset p))) (\<lambda>range.
         let origin = \<lparr>ao_role = RParameter, ao_index = Some (as_u32 (length parameters)), ao_range = range, ao_expansions = [],
               ao_expansions_complete = True\<rparr>;
             p = p\<lparr>np_pending_arguments := np_pending_arguments p @ [origin]\<rparr>;
             parameters = parameters @ [variable]; p = nao_trivia p
         in if nao_byte p = Some (CHR '']'') then Ok (parameters, nao_advance p)
            else and_then (nao_punctuation (CHR '','') p) (\<lambda>p.
              let p = nao_trivia p
              in if nao_byte p = Some (CHR '']'') then Ok (parameters, nao_advance p)
                 else schema_parameters_loop fuel parameters p))))"

definition schema_parameters :: "nao_parser \<Rightarrow> (compile_error, free_variable list \<times> nao_parser) outcome" where
  "schema_parameters p =
     and_then (nao_keyword ''parameters'' p) (\<lambda>p.
     and_then (nao_punctuation (CHR ''='') p) (\<lambda>p.
     and_then (nao_punctuation (CHR ''['') p) (\<lambda>p.
     let p = nao_trivia p
     in if nao_byte p = Some (CHR '']'') then Ok ([], nao_advance p)
        else schema_parameters_loop (length (np_source p) + 1) [] p)))"

text \<open>The match on the rule name; a name outside the table is an error before any argument is read.\<close>

definition two_formulas_step ::
  "hash \<Rightarrow> operand_role \<Rightarrow> operand_role \<Rightarrow> (proof_formula \<Rightarrow> proof_formula \<Rightarrow> proof_step) \<Rightarrow> nao_parser \<Rightarrow> (compile_error, proof_step \<times> nao_parser) outcome" where
  "two_formulas_step sha256 first second build p =
     and_then (formula_argument sha256 first p) (\<lambda>(a, p).
     and_then (after_comma (formula_argument sha256 second) p) (\<lambda>(b, p).
       Ok (build a b, p)))"

definition frege_step :: "hash \<Rightarrow> nao_parser \<Rightarrow> (compile_error, proof_step \<times> nao_parser) outcome" where
  "frege_step sha256 p =
     and_then (formula_argument sha256 RFirst p) (\<lambda>(first, p).
     and_then (after_comma (formula_argument sha256 RSecond) p) (\<lambda>(second, p).
     and_then (after_comma (formula_argument sha256 RThird) p) (\<lambda>(third, p).
       Ok (FregeStep first second third, p))))"

definition distribution_step :: "hash \<Rightarrow> nao_parser \<Rightarrow> (compile_error, proof_step \<times> nao_parser) outcome" where
  "distribution_step sha256 p =
     and_then (variable_argument RVariable p) (\<lambda>(variable, p).
     and_then (after_comma (formula_argument sha256 RAntecedent) p) (\<lambda>(antecedent, p).
     and_then (after_comma (formula_argument sha256 RConsequent) p) (\<lambda>(consequent, p).
       Ok (DistributionStep variable antecedent consequent, p))))"

definition two_variables_step ::
  "hash \<Rightarrow> operand_role \<Rightarrow> (free_variable \<Rightarrow> free_variable \<Rightarrow> proof_formula \<Rightarrow> proof_step) \<Rightarrow> nao_parser \<Rightarrow> (compile_error, proof_step \<times> nao_parser) outcome" where
  "two_variables_step sha256 first build p =
     and_then (variable_argument first p) (\<lambda>(v, p).
     and_then (after_comma (variable_argument RTo) p) (\<lambda>(w, p).
     and_then (after_comma (formula_argument sha256 RBody) p) (\<lambda>(body, p).
       Ok (build v w body, p))))"

definition separation_step :: "hash \<Rightarrow> nao_parser \<Rightarrow> (compile_error, proof_step \<times> nao_parser) outcome" where
  "separation_step sha256 p =
     and_then (formula_argument sha256 RPredicate p) (\<lambda>(predicate, p).
     and_then (after_comma (variable_argument RElement) p) (\<lambda>(element, p).
     and_then (after_comma (variable_argument RSource) p) (\<lambda>(source, p).
     and_then (after_comma (variable_argument RResult) p) (\<lambda>(result, p).
     and_then (after_comma schema_parameters p) (\<lambda>(parameters, p).
       Ok (SeparationStep \<lparr>ps_predicate = predicate, ps_element = element, ps_source = source, ps_result = result,
             ps_parameters = parameters\<rparr>, p))))))"

definition replacement_step :: "hash \<Rightarrow> nao_parser \<Rightarrow> (compile_error, proof_step \<times> nao_parser) outcome" where
  "replacement_step sha256 p =
     and_then (formula_argument sha256 RPredicate p) (\<lambda>(predicate, p).
     and_then (after_comma (variable_argument RInput) p) (\<lambda>(input, p).
     and_then (after_comma (variable_argument ROutput) p) (\<lambda>(output, p).
     and_then (after_comma (variable_argument RWitness) p) (\<lambda>(uniqueness_witness, p).
     and_then (after_comma (variable_argument RSource) p) (\<lambda>(source, p).
     and_then (after_comma (variable_argument RResult) p) (\<lambda>(result, p).
     and_then (after_comma schema_parameters p) (\<lambda>(parameters, p).
       Ok (ReplacementStep \<lparr>pr_predicate = predicate, pr_input = input, pr_output = output,
             pr_uniqueness_witness = uniqueness_witness, pr_source = source, pr_result = result, pr_parameters = parameters\<rparr>, p))))))))"

definition modus_ponens_step :: "nao_parser \<Rightarrow> (compile_error, proof_step \<times> nao_parser) outcome" where
  "modus_ponens_step p =
     and_then (step_argument RPremise p) (\<lambda>(premise, p).
     and_then (after_comma (step_argument RImplication) p) (\<lambda>(implication, p).
       Ok (ModusPonensStep premise implication, p)))"

definition generalization_step :: "nao_parser \<Rightarrow> (compile_error, proof_step \<times> nao_parser) outcome" where
  "generalization_step p =
     and_then (step_argument RPremise p) (\<lambda>(premise, p).
     and_then (after_comma (variable_argument RVariable) p) (\<lambda>(variable, p).
       Ok (GeneralizationStep premise variable, p)))"

definition step_rule :: "hash \<Rightarrow> string \<Rightarrow> (nao_parser \<Rightarrow> (compile_error, proof_step \<times> nao_parser) outcome) option" where
  "step_rule sha256 rule =
     (if rule = ''simp'' then Some (two_formulas_step sha256 RAntecedent RConsequent SimplificationStep)
      else if rule = ''frege'' then Some (frege_step sha256)
      else if rule = ''contra'' then Some (two_formulas_step sha256 RAntecedent RConsequent ContrapositionStep)
      else if rule = ''dist'' then Some (distribution_step sha256)
      else if rule = ''vacuous'' then Some (\<lambda>p. map_ok (\<lambda>(formula, p). (VacuousStep formula, p)) (formula_argument sha256 RFormula p))
      else if rule = ''inst'' then Some (two_variables_step sha256 RVariable InstantiationStep)
      else if rule = ''mp'' then Some modus_ponens_step
      else if rule = ''refl'' then Some (\<lambda>p. map_ok (\<lambda>(variable, p). (ReflexivityStep variable, p)) (variable_argument RVariable p))
      else if rule = ''subst'' then Some (two_variables_step sha256 RFrom SubstitutionStep)
      else if rule = ''axiom'' then Some (\<lambda>p. map_ok (\<lambda>(ax, p). (ZfcAxiomStep ax, p)) (nao_zfc_axiom p))
      else if rule = ''sep'' then Some (separation_step sha256)
      else if rule = ''replace'' then Some (replacement_step sha256)
      else if rule = ''cite'' then Some (\<lambda>p. map_ok (\<lambda>(i, p). (ProofReference i, p)) (argument RProof (citation sha256) p))
      else if rule = ''gen'' then Some generalization_step
      else None)"

definition nao_proof_step :: "hash \<Rightarrow> nao_parser \<Rightarrow> (compile_error, proof_step \<times> nao_parser) outcome" where
  "nao_proof_step sha256 p =
     (let p = p\<lparr>np_pending_arguments := []\<rparr>; rule_offset = next_offset p
      in and_then (nao_name p) (\<lambda>(rule, p).
         and_then (nao_punctuation (CHR ''('') p) (\<lambda>p.
         and_then (ok_or (CSyntax rule_offset ''a supported proof expression'') (step_rule sha256 rule)) (\<lambda>parse.
         and_then (parse p) (\<lambda>(step, p).
           map_ok (\<lambda>p. (step, p)) (nao_call_end p))))))"

text \<open>One round of the loop over the steps, and the loop; the first number is how many steps are still allowed.\<close>

definition named_step :: "hash \<Rightarrow> nat \<Rightarrow> nao_parser \<Rightarrow> (compile_error, string \<times> proof_step \<times> nao_parser) outcome" where
  "named_step sha256 count p =
     (let name_offset = next_offset p
      in and_then (nao_name p) (\<lambda>(name, p).
         if map_of (np_steps p) name \<noteq> None then Err (CDuplicateStep name_offset name)
         else and_then (nao_punctuation (CHR ''='') p) (\<lambda>p.
           and_then (nao_proof_step sha256 p) (\<lambda>(step, p).
           and_then (expect (u32_try_from count)) (\<lambda>position.
           and_then (expect (source_span_new name_offset (np_offset p))) (\<lambda>span.
             Ok (name, step, p\<lparr>np_steps := (name, \<lparr>sb_position = position, sb_span = span, sb_arguments = np_pending_arguments p\<rparr>) # np_steps p,
               np_pending_arguments := []\<rparr>)))))))"

primrec steps_loop ::
  "nat \<Rightarrow> hash \<Rightarrow> proof_step list \<Rightarrow> string option \<Rightarrow> nao_parser \<Rightarrow> (compile_error, proof_step list \<times> string option \<times> nao_parser) outcome" where
  "steps_loop 0 sha256 proof_steps last_step_name p =
     and_then (nao_peek_word ''return'' p) (\<lambda>(found, p).
       if found then Ok (proof_steps, last_step_name, p)
       else Err (CCertificate (next_offset p) (TooManySteps (CERTIFICATE_MAX_STEPS + 1) CERTIFICATE_MAX_STEPS)))"
| "steps_loop (Suc allowed) sha256 proof_steps last_step_name p =
     and_then (nao_peek_word ''return'' p) (\<lambda>(found, p).
       if found then Ok (proof_steps, last_step_name, p)
       else and_then (named_step sha256 (length proof_steps) p) (\<lambda>(name, step, p).
         steps_loop allowed sha256 (proof_steps @ [step]) (Some name) p))"

section \<open>Definitions\<close>

primrec definition_parameters_loop ::
  "nat \<Rightarrow> free_variable list \<Rightarrow> nao_parser \<Rightarrow> (compile_error, free_variable list \<times> nao_parser) outcome" where
  "definition_parameters_loop 0 parameters p =
     Err (CDefinition (next_offset p) (DcArityTooLarge (unat DEFINITION_MAX_GRAPH_ARITY + 1) DEFINITION_MAX_GRAPH_ARITY))"
| "definition_parameters_loop (Suc allowed) parameters p =
     and_then (definition_variable p) (\<lambda>(variable, p).
     let parameters = parameters @ [variable]; p = nao_trivia p
     in if nao_byte p = Some (CHR '')'') then Ok (parameters, p)
        else and_then (nao_punctuation (CHR '','') p) (\<lambda>p.
          let p = nao_trivia p
          in if nao_byte p = Some (CHR '')'') then Ok (parameters, p)
             else definition_parameters_loop allowed parameters p))"

definition definition_parameters :: "nao_parser \<Rightarrow> (compile_error, free_variable list \<times> nao_parser) outcome" where
  "definition_parameters p =
     (let p = nao_trivia p
      in if nao_byte p = Some (CHR '')'') then Ok ([], p)
         else definition_parameters_loop (unat DEFINITION_MAX_GRAPH_ARITY) [] p)"

definition declared_kind :: "string \<Rightarrow> nat \<Rightarrow> nao_parser \<Rightarrow> (compile_error, definition_kind \<times> nao_parser) outcome" where
  "declared_kind kind_name kind_offset p =
     (if kind_name = ''relation'' then
        and_then (definition_parameters p) (\<lambda>(parameters, p).
          if parameters = [] then Err (CDefinition kind_offset DcZeroRelationArity)
          else map_ok (\<lambda>arity. (RelationKind arity, p)) (expect (u32_try_from (length parameters))))
      else if kind_name = ''function'' then
        and_then (definition_parameters p) (\<lambda>(parameters, p).
          if length parameters \<le> 1 then Err (CSyntax kind_offset ''at least one function input and one output'')
          else map_ok (\<lambda>input_arity. (FunctionKind input_arity, p)) (expect (u32_try_from (length parameters - 1))))
      else Err (CSyntax kind_offset (''`relation` or `function`'')))"

definition definition_failure :: "nat \<Rightarrow> nat \<Rightarrow> nat \<Rightarrow> definition_check_error \<Rightarrow> (compile_error, 'a) outcome" where
  "definition_failure body_offset definition_offset stop error =
     (case error of
        DefExpansion source \<Rightarrow> Err (CDefinitionExpansion body_offset source)
      | DefCanonicalBody source \<Rightarrow> Err (CDefinitionFormula body_offset source)
      | DefCertificate source \<Rightarrow> Err (CDefinition body_offset source)
      | _ \<Rightarrow> and_then (expect (source_span_new definition_offset stop)) (\<lambda>span. Err (CDefinitionCheck span error)))"

datatype compiled_artifact = CompiledProof checked_proof | CompiledDefinition checked_definition

text \<open>A definition as it is written: its kind, its body, where the body and the name start.\<close>

definition declared_definition :: "hash \<Rightarrow> nao_parser \<Rightarrow> (compile_error, definition_kind \<times> dnode \<times> nat \<times> nat \<times> nao_parser) outcome" where
  "declared_definition sha256 p =
     and_then (nao_keyword ''def'' p) (\<lambda>p.
     let name_offset = next_offset p
     in and_then (nao_name p) (\<lambda>(source_name, p).
        if np_definition_aliases p source_name \<noteq> None then Err (CDuplicateDefinitionAlias name_offset source_name)
        else if np_proof_references p source_name \<noteq> None then Err (CDuplicateProofReference name_offset source_name)
        else and_then (nao_punctuation (CHR ''='') p) (\<lambda>p.
          let kind_offset = next_offset p
          in and_then (nao_name p) (\<lambda>(kind_name, p).
             and_then (nao_punctuation (CHR ''('') p) (\<lambda>p.
             and_then (declared_kind kind_name kind_offset p) (\<lambda>(kind, p).
             and_then (nao_call_end p) (\<lambda>p.
             and_then (nao_punctuation (CHR '':'') p) (\<lambda>p.
             let body_offset = next_offset p
             in and_then (nao_formula sha256 1 StatementContext p) (\<lambda>(body, p).
                map_ok (\<lambda>p. (kind, body, body_offset, name_offset, p)) (nao_end p))))))))))"

definition compile_definition :: "hash \<Rightarrow> context_view \<Rightarrow> nao_parser \<Rightarrow> (compile_error, compiled_artifact) outcome" where
  "compile_definition sha256 artifact_state p =
     (let definition_offset = next_offset p
      in and_then (declared_definition sha256 p) (\<lambda>(kind, body, body_offset, name_offset, p).
         map_ok CompiledDefinition
           (or_fail (definition_failure body_offset definition_offset (max (np_offset p) name_offset))
             (normalize_and_check_definition_with_state sha256 kind body artifact_state))))"

section \<open>Compilation\<close>

primrec check_error_step :: "check_error \<Rightarrow> u32" where
  "check_error_step (ContextAccess step e) = step"
| "check_error_step (UnknownProofReference step i) = step"
| "check_error_step (DefinitionExpansionFailed step e) = step"
| "check_error_step (LogicFailed step e) = step"
| "check_error_step (SchemaFailed step e) = step"
| "check_error_step (DerivedFormula step e) = step"
| "check_error_step (FormulaWorkLimitExceeded step a m) = step"
| "check_error_step (OpenConclusion step) = step"

text \<open>A rejected certificate: the target is bound to the report, and the span is that of the source step.\<close>

definition check_failure ::
  "node \<Rightarrow> (string \<times> step_binding) list \<Rightarrow> u32 list \<Rightarrow> nat \<Rightarrow> check_error \<Rightarrow> (compile_error, 'a) outcome" where
  "check_failure statement step_bindings step_origins proof_offset error =
     and_then (expect (unwrap (encode_canonical statement))) (\<lambda>_.
     and_then (expect (source_step step_origins (check_error_step error))) (\<lambda>source_step.
     and_then (expect (source_span_new proof_offset proof_offset)) (\<lambda>point.
     let origin = Option.bind source_step (\<lambda>position. find (\<lambda>(_, binding). sb_position binding = position) step_bindings)
     in Err (CCheck (case origin of None \<Rightarrow> point | Some (_, binding) \<Rightarrow> sb_span binding) error))))"

definition mismatch_failure :: "node \<Rightarrow> checked_proof \<Rightarrow> source_span \<Rightarrow> (compile_error, 'a) outcome" where
  "mismatch_failure statement checked statement_span =
     and_then (expect (unwrap (encode_canonical (cp_conclusion checked)))) (\<lambda>_.
     and_then (expect (to_canonical_bytes (nf_certificate (cp_normal_form checked)))) (\<lambda>_.
     and_then (expect (unwrap (encode_canonical statement))) (\<lambda>_.
     and_then (expect (mismatch_between statement (cp_conclusion checked))) (\<lambda>comparison.
     and_then (expect comparison) (\<lambda>comparison. Err (CStatementMismatch statement_span comparison))))))"

definition check_proof ::
  "hash \<Rightarrow> context_view \<Rightarrow> node \<Rightarrow> source_span \<Rightarrow> nat \<Rightarrow> (string \<times> step_binding) list \<Rightarrow> proof_step list \<Rightarrow> (compile_error, compiled_artifact) outcome" where
  "check_proof sha256 artifact_state statement statement_span proof_offset step_bindings proof_steps =
     and_then (map_err (CCertificate proof_offset) (certificate_new proof_steps)) (\<lambda>certificate.
     and_then (expect (normalize_with_step_origins certificate)) (\<lambda>(normal_form, step_origins, _).
     and_then (or_fail (check_failure statement step_bindings step_origins proof_offset)
         (check_normal_form_with_state sha256 \<lparr>nf_certificate = normal_form\<rparr> artifact_state)) (\<lambda>checked.
       if cp_conclusion checked \<noteq> statement then mismatch_failure statement checked statement_span
       else Ok (CompiledProof checked))))"

text \<open>The goal: the formula as written, and what it says with every definition eliminated.\<close>

definition nao_goal :: "hash \<Rightarrow> context_view \<Rightarrow> nao_parser \<Rightarrow> (compile_error, dnode \<times> node \<times> source_span \<times> nao_parser) outcome" where
  "nao_goal sha256 artifact_state p =
     and_then (nao_keyword ''goal'' p) (\<lambda>p.
     and_then (nao_punctuation (CHR ''='') p) (\<lambda>p.
     let statement_offset = next_offset p
     in and_then (nao_formula sha256 1 StatementContext p) (\<lambda>(compact_statement, p).
        and_then (map_err (CDefinitionExpansion statement_offset)
          (map_ok fst (expand_with_node_limit compact_statement (cv_resolve_definition artifact_state) FORMULA_MAX_NODES))) (\<lambda>statement.
        and_then (expect (source_span_new statement_offset (np_offset p))) (\<lambda>statement_span.
          Ok (compact_statement, statement, statement_span, p))))))"

definition compile_proof :: "hash \<Rightarrow> context_view \<Rightarrow> nao_parser \<Rightarrow> (compile_error, compiled_artifact) outcome" where
  "compile_proof sha256 artifact_state p =
     and_then (nao_goal sha256 artifact_state p) (\<lambda>(_, statement, statement_span, p).
     let proof_offset = next_offset p
     in and_then (nao_keyword ''proof'' p) (\<lambda>p.
        and_then (nao_punctuation (CHR '':'') p) (\<lambda>p.
        and_then (steps_loop CERTIFICATE_MAX_STEPS sha256 [] None p) (\<lambda>(proof_steps, last_step_name, p).
        and_then (nao_keyword ''return'' p) (\<lambda>p.
        let result_offset = next_offset p
        in and_then (nao_name p) (\<lambda>(result, p).
           and_then (nao_end p) (\<lambda>p.
             if last_step_name \<noteq> Some result then Err (CReturnNotFinal result_offset)
             else check_proof sha256 artifact_state statement statement_span proof_offset (np_steps p) proof_steps)))))))"

definition nao_compile :: "hash \<Rightarrow> context_view \<Rightarrow> nao_parser \<Rightarrow> (compile_error, compiled_artifact) outcome" where
  "nao_compile sha256 artifact_state p =
     and_then (declarations sha256 artifact_state p) (\<lambda>p.
     and_then (nao_peek_word ''def'' p) (\<lambda>(found, p).
       if found then compile_definition sha256 artifact_state p else compile_proof sha256 artifact_state p))"

section \<open>Entry points\<close>

definition compile_with_artifact_state :: "hash \<Rightarrow> string \<Rightarrow> context_view \<Rightarrow> (compile_error, compiled_artifact) outcome" where
  "compile_with_artifact_state sha256 source artifact_state =
     (if AUTHORING_SOURCE_MAX_BYTES < length source then Err (CSourceTooLong (length source) AUTHORING_SOURCE_MAX_BYTES)
      else nao_compile sha256 artifact_state (nao_parser_new source))"

definition compile_artifact_against_proof_context :: "hash \<Rightarrow> string \<Rightarrow> context_view \<Rightarrow> (compile_error, compiled_artifact) outcome" where
  "compile_artifact_against_proof_context sha256 source context_view = compile_with_artifact_state sha256 source context_view"

definition compile_artifact :: "hash \<Rightarrow> string \<Rightarrow> (compile_error, compiled_artifact) outcome" where
  "compile_artifact sha256 source = compile_with_artifact_state sha256 source (state_view sha256 as_new)"

primrec expect_proof :: "compiled_artifact \<Rightarrow> (compile_error, checked_proof) outcome" where
  "expect_proof (CompiledProof checked) = Ok checked"
| "expect_proof (CompiledDefinition checked) = Err (CExpectedProof 0)"

definition compile_against_proof_context :: "hash \<Rightarrow> string \<Rightarrow> context_view \<Rightarrow> (compile_error, checked_proof) outcome" where
  "compile_against_proof_context sha256 source context_view =
     and_then (compile_with_artifact_state sha256 source context_view) expect_proof"

definition compile :: "hash \<Rightarrow> string \<Rightarrow> (compile_error, checked_proof) outcome" where
  "compile sha256 source = and_then (compile_artifact sha256 source) expect_proof"

definition canonical_artifact_bytes :: "compiled_artifact \<Rightarrow> bytes option" where
  "canonical_artifact_bytes artifact =
     (case artifact of
        CompiledProof checked \<Rightarrow> map_option (Cons PROOF_TAG) (nf_canonical_bytes (cp_normal_form checked))
      | CompiledDefinition checked \<Rightarrow> Some (DEFINITION_TAG # dc_canonical (cd_certificate checked)))"

definition compiled_artifact_id :: "hash \<Rightarrow> compiled_artifact \<Rightarrow> artifact_id" where
  "compiled_artifact_id sha256 artifact =
     (case artifact of
        CompiledProof checked \<Rightarrow> from_proof_id sha256 (cp_proof_id checked)
      | CompiledDefinition checked \<Rightarrow> from_definition_id sha256 (cd_definition_id checked))"

end
