(* ===== verification/Nao_Properties.thy ===== *)
theory Nao_Properties
  imports Nao_Compiler Reachable_State
begin

text \<open>
  What the \<open>.nao\<close> compiler guarantees: for every text it returns, and what it returns is a checked artifact, the goal
  of which is the goal that was written.
\<close>

section \<open>Formulas and their sizes\<close>

lemma d_bind_variable_below: "var_below n v \<Longrightarrow> unat d = n \<Longrightarrow> var_below (Suc n) (d_bind_variable x d v)"
  by (cases v) (auto simp: d_bind_variable_def)

lemma d_bind_free_spec:
  "unat d + d_node_depth a < 2 ^ 32 \<Longrightarrow> d_closed_at (unat d) a \<Longrightarrow>
     \<exists>b. d_bind_free x d a = Some b \<and> d_node_count b = d_node_count a \<and> d_node_depth b = d_node_depth a \<and> d_closed_at (Suc (unat d)) b"
proof (induction a arbitrary: d)
  case (DImplies a b)
  then have "unat d + d_node_depth a < 2 ^ 32" "unat d + d_node_depth b < 2 ^ 32" by auto
  with DImplies.IH(1) [of d] DImplies.IH(2) [of d] DImplies.prems(2) show ?case by auto
next
  case (DForAll a)
  then have "unat d + 1 < 2 ^ 32" by simp
  then have add: "checked_add d 1 = Some (d + 1)" "unat (d + 1) = Suc (unat d)"
    using checked_add_unat [of d 1] by (auto simp: checked_add_Some)
  from DForAll.IH [of "d + 1"] DForAll.prems obtain b where "d_bind_free x (d + 1) a = Some b" "d_node_count b = d_node_count a"
    "d_node_depth b = d_node_depth a" "d_closed_at (Suc (Suc (unat d))) b" by (auto simp: add(2))
  with add(1) show ?case by simp
next
  case (DNot a)
  from DNot.IH [of d] DNot.prems show ?case by auto
qed (auto intro: d_bind_variable_below)

definition sized :: "nat \<Rightarrow> nat \<Rightarrow> dnode \<Rightarrow> bool" where
  "sized nodes depth a \<longleftrightarrow> d_well_formed a \<and> d_node_count a = nodes \<and> d_node_depth a = depth"

lemma sized_for_all:
  assumes "sized n d a" "d < 2 ^ 32"
  obtains b where "d_for_all x a = Some b" "sized (n + 1) (d + 1) b"
  using d_bind_free_spec [of 0 a x] assms by (auto simp: sized_def d_well_formed_def d_for_all_def)

lemma sized_negate: "sized n d a \<Longrightarrow> sized (n + 1) (d + 1) (d_negate a)"
  by (simp add: sized_def d_well_formed_def d_negate_def)

lemma sized_exists:
  assumes "sized n d a" "d + 1 < 2 ^ 32"
  obtains b where "d_exists x a = Some b" "sized (n + 3) (d + 3) b"
proof -
  obtain c where "d_for_all x (d_negate a) = Some c" "sized (n + 1 + 1) (d + 1 + 1) c"
    using sized_negate [OF assms(1)] assms(2) by (rule sized_for_all)
  with that sized_negate [of "n + 1 + 1" "d + 1 + 1" c] show thesis by (simp add: d_exists_def numeral_3_eq_3)
qed

lemma d_wrap_quantifiers_sized:
  assumes "sized n d a" "d + 3 * length vs < 2 ^ 32"
  obtains b where "d_wrap_quantifiers existential vs a = Some b"
    "sized (n + (if existential then 3 else 1) * length vs) (d + (if existential then 3 else 1) * length vs) b"
  using assms(2)
proof (induction vs arbitrary: thesis)
  case Nil
  then show ?case using assms(1) by simp
next
  case (Cons v vs)
  let ?k = "if existential then 3 else 1 :: nat"
  obtain b where b: "d_wrap_quantifiers existential vs a = Some b" "sized (n + ?k * length vs) (d + ?k * length vs) b"
    using Cons.IH Cons.prems(2) by auto
  show ?case
  proof (cases existential)
    case True
    obtain c where "d_exists v b = Some c" "sized (n + ?k * length vs + 3) (d + ?k * length vs + 3) c"
      using b(2) by (rule sized_exists) (use Cons.prems(2) True in simp)
    with b(1) True Cons.prems(1) [of c] show ?thesis by (simp add: algebra_simps)
  next
    case False
    obtain c where "d_for_all v b = Some c" "sized (n + ?k * length vs + 1) (d + ?k * length vs + 1) c"
      using b(2) by (rule sized_for_all) (use Cons.prems(2) False in simp)
    with b(1) False Cons.prems(1) [of c] show ?thesis by simp
  qed
qed

lemma wrap_constraints_sized:
  "\<forall>c\<in>set cs. sized 1 1 c \<Longrightarrow> sized n d a \<Longrightarrow> sized (n + 4 * length cs) (d + 3 * length cs) (wrap_constraints cs a)"
proof (induction cs)
  case (Cons c cs)
  then have "sized (n + 4 * length cs) (d + 3 * length cs) (wrap_constraints cs a)" "sized 1 1 c" by simp_all
  then show ?case by (simp add: sized_def d_conjunction_def d_implies_def d_negate_def d_well_formed_def)
qed simp

text \<open>The counts that the connectives of \<open>syntax::binary_shape\<close> have.\<close>

lemma connective_sized:
  assumes "op \<in> {OpImplies, OpAnd, OpOr, OpIff}" "sized n d a" "sized m e b"
  obtains c k l where "nao_connective op a b = Some c" "binary_shape (operator_name op) (n, d) (m, e) = Some (k, l)" "sized k l c"
  using assms
  by (auto simp: nao_connective_def binary_shape_def sized_def d_implies_def d_conjunction_def d_disjunction_def d_biconditional_def d_negate_def
      d_well_formed_def max_def)

section \<open>The invariant of the parser\<close>

text \<open>\<open>lo\<close> bounds the position from below. Every variable was allocated for a byte that was read, so the next
  identifier is at most the position, and \<open>np_spare\<close> says that one more can be allocated.\<close>

definition pd_ok :: "parsed_formula \<Rightarrow> bool" where
  "pd_ok f \<longleftrightarrow> sized (pd_expanded_nodes f) (pd_expanded_depth f) (pd_formula f) \<and> pd_expanded_depth f \<le> FORMULA_MAX_DEPTH"

definition np_inv :: "string \<Rightarrow> nat \<Rightarrow> nao_parser \<Rightarrow> bool" where
  "np_inv src lo p \<longleftrightarrow> np_source p = src \<and> str_ok False src \<and> length src \<le> CERTIFICATE_MAX_BYTES \<and> position_ok src (np_offset p) \<and>
     lo \<le> np_offset p \<and> unat (vs_next (np_variables p)) \<le> np_offset p \<and>
     (\<forall>name f. np_formula_bindings p name = Some f \<longrightarrow> pd_ok f) \<and>
     (\<forall>name a. np_definition_aliases p name = Some a \<longrightarrow> length (da_definition_id a) = 32) \<and>
     (\<forall>name i. np_proof_references p name = Some i \<longrightarrow> length i = 32)"

definition np_spare :: "string \<Rightarrow> nat \<Rightarrow> nao_parser \<Rightarrow> bool" where
  "np_spare src lo p \<longleftrightarrow> np_inv src lo p \<and> unat (vs_next (np_variables p)) < np_offset p"

lemma np_spare_inv [elim]: "np_spare src lo p \<Longrightarrow> np_inv src lo p"
  by (simp add: np_spare_def)

lemma np_inv_position: "np_inv src lo p \<Longrightarrow> position_ok src (np_offset p)" "np_inv src lo p \<Longrightarrow> str_ok False src"
  "np_inv src lo p \<Longrightarrow> np_source p = src" "np_inv src lo p \<Longrightarrow> lo \<le> np_offset p"
  by (simp_all add: np_inv_def)

lemma np_inv_low: "np_inv src lo p \<Longrightarrow> lo' \<le> np_offset p \<Longrightarrow> np_inv src lo' p"
  by (simp add: np_inv_def)

lemma np_inv_bound: "np_inv src lo p \<Longrightarrow> np_offset p < 2 ^ 32" "np_inv src lo p \<Longrightarrow> length src < 2 ^ 32" "np_inv src lo p \<Longrightarrow> np_offset p \<le> length src"
  by (auto simp: np_inv_def CERTIFICATE_MAX_BYTES_def dest: position_ok_le)

text \<open>Moving forward keeps the invariant, and the recorded origins do not matter.\<close>

lemma np_inv_move:
  "np_inv src lo p \<Longrightarrow> position_ok src i \<Longrightarrow> np_offset p \<le> i \<Longrightarrow> np_inv src lo (p\<lparr>np_offset := i\<rparr>)"
  "np_inv src lo p \<Longrightarrow> position_ok src i \<Longrightarrow> np_offset p < i \<Longrightarrow> np_spare src lo (p\<lparr>np_offset := i\<rparr>)"
  by (auto simp: np_inv_def np_spare_def)

lemma np_inv_unchanged [simp]:
  "np_inv src lo (p\<lparr>np_pending_expansions := a\<rparr>) = np_inv src lo p"
  "np_inv src lo (p\<lparr>np_expansions_complete := b\<rparr>) = np_inv src lo p"
  "np_inv src lo (p\<lparr>np_pending_arguments := c\<rparr>) = np_inv src lo p"
  "np_inv src lo (p\<lparr>np_steps := d\<rparr>) = np_inv src lo p"
  "np_inv src lo (p\<lparr>np_binding_origins := e\<rparr>) = np_inv src lo p"
  "np_inv src lo (set_nodes_used ctx n p) = np_inv src lo p"
  by (simp_all add: np_inv_def) (cases ctx; simp)

lemma np_spare_unchanged [simp]:
  "np_spare src lo (p\<lparr>np_pending_expansions := a\<rparr>) = np_spare src lo p"
  "np_spare src lo (p\<lparr>np_expansions_complete := b\<rparr>) = np_spare src lo p"
  "np_spare src lo (p\<lparr>np_pending_arguments := c\<rparr>) = np_spare src lo p"
  by (simp_all add: np_spare_def)

lemma set_nodes_used_offset [simp]: "np_offset (set_nodes_used ctx n p) = np_offset p"
  by (cases ctx) simp_all

section \<open>Tokens\<close>

lemma nao_trivia_inv:
  assumes "np_inv src lo p"
  shows "np_inv src lo (nao_trivia p)" "np_offset p \<le> np_offset (nao_trivia p)" "np_variables (nao_trivia p) = np_variables p"
    "next_offset p = np_offset (nao_trivia p)" "position_ok src (next_offset p)"
  using trivia_spec [of src "np_offset p"] assms by (auto simp: np_inv_def nao_trivia_def next_offset_def)

lemma next_offset_spec: "np_inv src lo p \<Longrightarrow> np_offset p \<le> next_offset p" "np_inv src lo p \<Longrightarrow> next_offset p \<le> length src"
  using nao_trivia_inv [of src lo p] by (auto dest: position_ok_le)

lemma name_at_length:
  assumes "name_at source offset = Some (Some name, stop)" "stop \<le> length source"
  shows "trivia source offset + length name = stop"
proof -
  let ?start = "trivia source offset"
  have "str_range source ?start stop = Some name" "?start < stop"
    using assms(1) skip_while_le [of "?start + 1" is_name_byte source]
    by (auto simp: name_at_def Let_def split: option.splits if_splits)
  then show ?thesis using assms(2) by (auto simp: str_range_def split: if_splits)
qed

lemma nao_name_safe:
  assumes "np_inv src lo p"
  shows "safe (\<lambda>(name, p'). np_spare src lo p' \<and> np_offset p < np_offset p' \<and> next_offset p + length name \<le> np_offset p') (nao_name p)"
proof -
  note t = nao_trivia_inv [OF assms]
  from np_inv_position(2,1) [OF t(1)] obtain name stop where *: "name_at src (np_offset (nao_trivia p)) = Some (name, stop)" "position_ok src stop"
    "np_offset (nao_trivia p) \<le> stop" "name \<noteq> None \<Longrightarrow> np_offset (nao_trivia p) < stop" by (rule name_at_spec [of src "np_offset (nao_trivia p)"]) blast
  have "next_offset p + length n \<le> stop" if "name = Some n" for n
    using name_at_length [of src "np_offset (nao_trivia p)" n stop] * that position_ok_le [OF *(2)]
      trivia_le [OF np_inv_position(2) [OF t(1)] np_inv_position(1) [OF t(1)]] t(4) by simp
  with * t np_inv_move(2) [OF t(1) *(2)] np_inv_position(3) [OF t(1)] show ?thesis
    by (cases name) (auto simp: nao_name_def Let_def)
qed

lemma nao_byte_ascii:
  assumes "np_inv src lo p" "nao_byte p = Some c" "byte_of c < 128"
  shows "np_spare src lo (nao_advance p)" "np_offset p < np_offset (nao_advance p)"
proof -
  have "position_ok src (np_offset p + 1)"
    using assms by (intro ascii_position [of src _ c]) (simp_all add: nao_byte_def np_inv_def)
  then show "np_spare src lo (nao_advance p)" "np_offset p < np_offset (nao_advance p)"
    using np_inv_move(2) [OF assms(1)] by (simp_all add: nao_advance_def)
qed

lemma nao_punctuation_safe:
  assumes "np_inv src lo p" "byte_of c < 128"
  shows "safe (\<lambda>p'. np_spare src lo p' \<and> np_offset p < np_offset p') (nao_punctuation c p)"
proof -
  note t = nao_trivia_inv [OF assms(1)]
  have "nao_byte (nao_trivia p) = Some c" if "starts_with (drop (np_offset (nao_trivia p)) src) [c]"
  proof -
    have "drop (np_offset (nao_trivia p)) src \<noteq> []" "hd (drop (np_offset (nao_trivia p)) src) = c"
      using that by (cases "drop (np_offset (nao_trivia p)) src"; simp add: starts_with_def)+
    then show ?thesis using np_inv_position(3) [OF t(1)] by (auto simp: nao_byte_def element_at_def hd_drop_conv_nth not_le)
  qed
  with nao_byte_ascii [OF t(1) _ assms(2)] t np_inv_position [OF t(1)] show ?thesis
    by (auto simp: nao_punctuation_def Let_def position_ok_str_from)
qed

lemma nao_keyword_safe:
  assumes "np_inv src lo p"
  shows "safe (\<lambda>p'. np_spare src lo p' \<and> np_offset p < np_offset p') (nao_keyword w p)"
proof -
  note t = nao_trivia_inv [OF assms]
  show ?thesis
    unfolding nao_keyword_def Let_def
    by (rule safe_and_then [OF nao_name_safe [OF t(1)]]) (use t in auto)
qed

lemma nao_peek_word_safe:
  "np_inv src lo p \<Longrightarrow> safe (\<lambda>(b, p'). np_inv src lo p' \<and> np_offset p \<le> np_offset p') (nao_peek_word w p)"
  using nao_trivia_inv [of src lo p] np_inv_position [of src lo "nao_trivia p"]
  by (simp add: nao_peek_word_def Let_def word_at_def position_ok_str_from)

lemma nao_end_safe: "np_inv src lo p \<Longrightarrow> safe (np_inv src lo) (nao_end p)"
  using nao_trivia_inv [of src lo p] by (simp add: nao_end_def Let_def)

lemma nao_call_end_safe:
  assumes "np_inv src lo p"
  shows "safe (\<lambda>p'. np_spare src lo p' \<and> np_offset p < np_offset p') (nao_call_end p)"
proof -
  note t = nao_trivia_inv [OF assms]
  let ?p = "if nao_byte (nao_trivia p) = Some (CHR '','') then nao_advance (nao_trivia p) else nao_trivia p"
  have "np_inv src lo ?p \<and> np_offset p \<le> np_offset ?p" using t nao_byte_ascii [OF t(1), of "CHR '',''"] by auto
  then show ?thesis
    unfolding nao_call_end_def Let_def by (intro safe_mono [OF nao_punctuation_safe]) auto
qed

lemma quote_position:
  assumes "i \<le> length s" "find_char (CHR 0x22) (drop i s) = Some n"
  shows "i + n < length s" "s ! (i + n) = CHR 0x22"
proof -
  let ?rest = "drop i s"
  have n: "n = length (takeWhile (\<lambda>x. x \<noteq> CHR 0x22) ?rest)" "n < length ?rest"
    using assms(2) by (auto simp: find_char_def Let_def split: if_splits)
  then show "i + n < length s" by simp
  have "?rest ! n = CHR 0x22" using nth_length_takeWhile [of "\<lambda>x. x \<noteq> CHR 0x22" ?rest] n by simp
  then show "s ! (i + n) = CHR 0x22" using assms(1) by simp
qed

lemma nao_string_safe:
  assumes "np_inv src lo p"
  shows "safe (\<lambda>(s, p'). np_spare src lo p' \<and> np_offset p < np_offset p') (nao_string expected p)"
proof (cases "nao_byte (nao_trivia p) = Some (CHR 0x22)")
  case True
  note t = nao_trivia_inv [OF assms]
  let ?p = "nao_trivia p" and ?i = "np_offset (nao_trivia p) + 1"
  have i: "position_ok src ?i" using nao_byte_ascii(1) [OF t(1) True] by (simp add: np_spare_def np_inv_def nao_advance_def)
  have src: "np_source ?p = src" "str_ok False src" using t(1) by (simp_all add: np_inv_def)
  have stop: "str_range src ?i (?i + n) \<noteq> None \<and> position_ok src (?i + n + 1)" if "find_char (CHR 0x22) (drop ?i src) = Some n" for n
  proof -
    note q = quote_position [OF position_ok_le [OF i] that]
    have "position_ok src (?i + n)" using q by (simp add: position_ok_def is_char_boundary_def is_continuation_def)
    moreover have "position_ok src (?i + n + 1)" using q src(2) by (intro ascii_position [of src _ "CHR 0x22"]) simp_all
    ultimately show ?thesis using i by (simp add: str_range_def position_ok_def)
  qed
  have found: "safe (\<lambda>(s, p'). np_spare src lo p' \<and> np_offset p < np_offset p')
      (map_ok (\<lambda>s. (s, ?p\<lparr>np_offset := ?i + n + 1\<rparr>)) (expect (str_range src ?i (?i + n))))" if "find_char (CHR 0x22) (drop ?i src) = Some n" for n
    using stop [OF that] np_inv_move(2) [OF t(1)] t(2) by auto
  show ?thesis
    using True position_ok_str_from [OF i] found
    by (cases "find_char (CHR 0x22) (drop ?i src)") (simp_all add: nao_string_def Let_def src)
qed (simp add: nao_string_def Let_def)

lemma hex_pairs_safe: "safe (\<lambda>bs. length bs = length s div 2) (hex_pairs expected start offset s)"
proof (induction expected start offset s rule: hex_pairs.induct)
  case (1 expected start offset high low s)
  then show ?case
    by (cases "lowercase_hex_nibble (of_char high)"; cases "lowercase_hex_nibble (of_char low)") simp_all
qed simp_all

lemma nao_byte_at: "nao_byte (p\<lparr>np_offset := i\<rparr>) = element_at (np_source p) i"
  by (simp add: nao_byte_def)

lemma fixed_id_bytes_safe:
  assumes "np_inv src lo p"
  shows "safe (\<lambda>(i, p'). np_spare src lo p' \<and> np_offset p < np_offset p' \<and> length i = 32) (fixed_id_bytes expected p)"
proof (cases "nao_byte (nao_trivia p) = Some (CHR 0x22)")
  case True
  note t = nao_trivia_inv [OF assms]
  let ?p = "nao_advance (nao_trivia p)"
  let ?q = "?p\<lparr>np_offset := np_offset ?p + HEX_LENGTH\<rparr>"
  have p: "np_inv src lo ?p" "np_offset p < np_offset ?p" using nao_byte_ascii [OF t(1) True] t(2) by auto
  then have src: "np_source ?p = src" "str_ok False src" by (simp_all add: np_inv_def)
  have close: "np_spare src lo (nao_advance ?q)" if "nao_byte ?q = Some (CHR 0x22)"
  proof -
    have "element_at src (np_offset ?p + HEX_LENGTH) = Some (CHR 0x22)" using that by (simp only: nao_byte_at src(1))
    from ascii_position [OF src(2) this] have "position_ok src (np_offset ?p + HEX_LENGTH + 1)" by simp
    from np_inv_move(2) [OF p(1) this] show ?thesis by (simp add: nao_advance_def)
  qed
  have hex: "safe (\<lambda>bs. length bs = 32) (hex_pairs expected i j (take HEX_LENGTH (drop k src)))" if "k + HEX_LENGTH \<le> length src" for i j k
    using hex_pairs_safe [of "take HEX_LENGTH (drop k src)" expected i j] that by (simp add: HEX_LENGTH_def)
  show ?thesis
    using True p(2) close
    by (auto simp: fixed_id_bytes_def Let_def np_inv_position(3) [OF t(1)] nao_advance_def intro!: safe_and_then [OF hex])
qed (simp add: fixed_id_bytes_def Let_def)

section \<open>Variables, origins and budgets\<close>

lemma np_inv_variables:
  "np_inv src lo p \<Longrightarrow> unat (vs_next vs) \<le> np_offset p \<Longrightarrow> np_inv src lo (p\<lparr>np_variables := vs\<rparr>)"
  by (simp add: np_inv_def)

lemma vs_fresh_spare:
  assumes "np_spare src lo p"
  obtains v vs where "vs_fresh (np_variables p) = Some (v, vs)" "unat (vs_next vs) \<le> np_offset p"
proof -
  have "unat (vs_next (np_variables p)) + 1 < 2 ^ 32" "unat (vs_next (np_variables p)) < np_offset p"
    using assms np_inv_bound(1) [of src lo p] by (auto simp: np_spare_def)
  moreover from this obtain n where "checked_add (vs_next (np_variables p)) 1 = Some n" "unat n = unat (vs_next (np_variables p)) + 1"
    using checked_add_unat [of "vs_next (np_variables p)" 1] by (fastforce simp: checked_add_Some)
  ultimately show thesis using that by (simp add: vs_fresh_def)
qed

lemma fresh_variable_safe: "np_spare src lo p \<Longrightarrow> safe (\<lambda>(v, p'). np_inv src lo p' \<and> np_offset p' = np_offset p) (fresh_variable p)"
  by (rule vs_fresh_spare) (auto simp: fresh_variable_def np_spare_def intro: np_inv_variables)

lemma variable_named_safe:
  assumes "np_spare src lo p"
  shows "safe (\<lambda>(v, p'). np_inv src lo p' \<and> np_offset p' = np_offset p) (variable_named name p)"
proof -
  obtain v vs where "vs_fresh (np_variables p) = Some (v, vs)" "unat (vs_next vs) \<le> np_offset p"
    using assms by (rule vs_fresh_spare)
  with assms show ?thesis
    by (cases "vs_named (np_variables p) name") (auto simp: variable_named_def vs_name_def np_spare_def intro: np_inv_variables)
qed

lemma nao_variable_safe: "np_inv src lo p \<Longrightarrow> safe (\<lambda>(v, p'). np_inv src lo p' \<and> np_offset p < np_offset p') (nao_variable p)"
  unfolding nao_variable_def
  by (rule safe_and_then [OF nao_name_safe], assumption) (auto intro!: safe_mono [OF variable_named_safe])

lemma definition_variable_safe:
  "np_inv src lo p \<Longrightarrow> safe (\<lambda>(v, p'). np_inv src lo p' \<and> np_offset p < np_offset p') (definition_variable p)"
  unfolding definition_variable_def
  by (rule safe_and_then [OF nao_name_safe], assumption) (auto intro!: safe_mono [OF variable_named_safe])

lemma source_range_Some: "start \<le> stop \<Longrightarrow> stop < 2 ^ 32 \<Longrightarrow> source_range_new start stop = Some (start, stop)"
  by (simp add: source_range_new_def u32_fits_def)

lemma source_span_Some: "start < 2 ^ 32 \<Longrightarrow> stop < 2 ^ 32 \<Longrightarrow> source_span_new start stop = Some \<lparr>span_start = start, span_end = stop\<rparr>"
  by (simp add: source_span_new_def u32_fits_def)

lemma push_expansions_inv [simp]:
  "np_inv src lo (push_expansions es p) = np_inv src lo p" "np_offset (push_expansions es p) = np_offset p"
  "np_variables (push_expansions es p) = np_variables p" "np_formula_bindings (push_expansions es p) = np_formula_bindings p"
  by (induction es arbitrary: p) simp_all

lemma record_expansion_safe:
  assumes "np_inv src lo p" "offset + length name \<le> np_offset p"
  shows "safe (\<lambda>p'. np_inv src lo p' \<and> np_offset p' = np_offset p \<and> np_formula_bindings p' = np_formula_bindings p) (record_expansion h name offset p)"
proof -
  have "source_range_new offset (offset + length name) \<noteq> None"
    using assms(2) np_inv_bound(1) [OF assms(1)] by (simp add: source_range_new_def u32_fits_def)
  with assms(1) show ?thesis by (auto simp: record_expansion_def Let_def split: option.split)
qed

lemma argument_safe:
  assumes "np_inv src lo p" "\<And>q. np_inv src (np_offset q) q \<Longrightarrow> safe (\<lambda>(v, p'). np_inv src (np_offset q) p' \<and> P v) (parse q)"
  shows "safe (\<lambda>(v, p'). np_inv src lo p' \<and> P v) (argument role parse p)"
proof -
  let ?p = "nao_trivia p"
  note t = nao_trivia_inv [OF assms(1)]
  have "np_inv src (np_offset ?p) (?p\<lparr>np_pending_expansions := [], np_expansions_complete := True\<rparr>)"
    using np_inv_low [OF t(1), of "np_offset ?p"] by simp
  from assms(2) [OF this [THEN np_inv_low]] this
  have run: "safe (\<lambda>(v, p'). np_inv src (np_offset ?p) p' \<and> P v) (parse (?p\<lparr>np_pending_expansions := [], np_expansions_complete := True\<rparr>))" by simp
  have lo: "lo \<le> np_offset ?p" using t(1) by (rule np_inv_position(4))
  have low: "np_inv src lo p'" if "np_inv src (np_offset ?p) p'" for p'
    using lo np_inv_position(4) [OF that] by (intro np_inv_low [OF that]) simp
  have range: "source_range_new (np_offset ?p) (np_offset p') = Some (np_offset ?p, np_offset p')" if "np_inv src (np_offset ?p) p'" for p'
    using np_inv_position(4) [OF that] np_inv_bound(1) [OF that] by (rule source_range_Some)
  show ?thesis
    unfolding argument_def Let_def by (rule safe_and_then [OF run]) (auto simp: range intro: low)
qed

lemma charge_formula_nodes_safe:
  "np_inv src lo p \<Longrightarrow> safe (\<lambda>p'. np_inv src lo p' \<and> np_offset p' = np_offset p) (charge_formula_nodes ctx n offset p)"
  by (simp add: charge_formula_nodes_def Let_def)

lemma charge_keeps_bindings: "charge_formula_nodes ctx n offset p = Ok p' \<Longrightarrow> np_formula_bindings p' = np_formula_bindings p"
  by (cases ctx) (auto simp: charge_formula_nodes_def Let_def split: if_splits)

lemma check_expanded_depth_safe: "safe (\<lambda>_. 1 \<le> k \<and> k - 1 + d \<le> FORMULA_MAX_DEPTH) (check_expanded_depth offset k d)"
  by (auto simp: check_expanded_depth_def Let_def u32_add_def u32_fits_def)

lemma checked_node_sum_safe: "safe (\<lambda>n. n = sum_list ns \<and> n < 2 ^ 32) (checked_node_sum ctx ns offset)" if "ns \<noteq> []"
proof -
  have "u32_sum a ns = (if a + sum_list ns < 2 ^ 32 then Some (a + sum_list ns) else None)" if "a < 2 ^ 32" for a ns
    using that by (induction ns arbitrary: a) (auto simp: u32_add_def u32_fits_def)
  from this [of 0 ns] show ?thesis by (simp add: checked_node_sum_def)
qed

lemma checked_depth_add_safe: "safe (\<lambda>n. n = d + k) (checked_depth_add offset d k)"
  by (simp add: checked_depth_add_def u32_add_def u32_fits_def)

section \<open>Terms\<close>

definition term_ok :: "parsed_term \<Rightarrow> bool" where
  "term_ok t \<longleftrightarrow> length (pt_graph_constraints t) = length (pt_witnesses t) \<and> (\<forall>c\<in>set (pt_graph_constraints t). sized 1 1 c)"

text \<open>The budget after a run: the same limits, and one function for every witness.\<close>

definition budget_ok :: "term_budget \<Rightarrow> bool" where
  "budget_ok b \<longleftrightarrow> 1 \<le> tb_atom_depth b \<and> tb_atom_depth b + 6 * tb_functions b \<le> FORMULA_MAX_DEPTH"

definition spent :: "term_budget \<Rightarrow> parsed_term list \<Rightarrow> term_budget \<Rightarrow> bool" where
  "spent b ts b' \<longleftrightarrow> budget_ok b' \<and> (\<forall>t\<in>set ts. term_ok t) \<and>
     b' = b\<lparr>tb_functions := tb_functions b + length (concat (map pt_witnesses ts))\<rparr>"

lemma spent_Nil [simp]: "spent b [] b' \<longleftrightarrow> budget_ok b \<and> b' = b"
  by (auto simp: spent_def)

lemma spent_append: "spent b ts b' \<Longrightarrow> spent b' us b'' \<Longrightarrow> spent b (ts @ us) b''"
  by (auto simp: spent_def)

abbreviation term_safe :: "string \<Rightarrow> nat \<Rightarrow> term_budget \<Rightarrow> (compile_error, parsed_term \<times> term_budget \<times> nao_parser) outcome \<Rightarrow> bool" where
  "term_safe src lo b m \<equiv> safe (\<lambda>(t, b', p'). np_inv src lo p' \<and> spent b [t] b') m"

lemma term_arguments_loop_safe:
  assumes "\<And>b p. np_inv src lo p \<Longrightarrow> budget_ok b \<Longrightarrow> tb_functions b0 \<le> tb_functions b \<Longrightarrow> term_safe src lo b (parse b p)"
  shows "np_inv src lo p \<Longrightarrow> budget_ok b \<Longrightarrow> spent b0 ts b \<Longrightarrow>
     safe (\<lambda>(us, b', p'). np_inv src lo p' \<and> spent b0 us b') (term_arguments_loop allowed parse offset name arity ts b p)"
proof (induction allowed arbitrary: ts b p)
  case (Suc allowed)
  have le: "tb_functions b0 \<le> tb_functions b" using Suc.prems(3) by (simp add: spent_def)
  show ?case
    unfolding term_arguments_loop.simps
  proof (rule safe_and_then [OF assms [OF Suc.prems(1,2) le]], clarify)
    fix t b' p'
    assume p': "np_inv src lo p'" and b': "spent b [t] b'"
    note t = nao_trivia_inv(1) [OF p']
    have all: "spent b0 (ts @ [t]) b'" using Suc.prems(3) b' by (rule spent_append)
    have "budget_ok b'" using b' unfolding spent_def by blast
    have rest: "safe (\<lambda>(us, b', p'). np_inv src lo p' \<and> spent b0 us b')
        (if nao_byte (nao_trivia q) = Some (CHR '')'') then Ok (ts @ [t], b', nao_trivia q)
         else term_arguments_loop allowed parse offset name arity (ts @ [t]) b' (nao_trivia q))" if "np_inv src lo q" for q
      using Suc.IH [OF nao_trivia_inv(1) [OF that] \<open>budget_ok b'\<close> all] all nao_trivia_inv(1) [OF that] by simp
    show "safe (\<lambda>(us, b', p'). np_inv src lo p' \<and> spent b0 us b')
       (let ts' = ts @ [t]; p = nao_trivia p' in if nao_byte p = Some (CHR '')'') then Ok (ts', b', p)
        else and_then (nao_punctuation (CHR '','') p) (\<lambda>p. let p = nao_trivia p
             in if nao_byte p = Some (CHR '')'') then Ok (ts', b', p) else term_arguments_loop allowed parse offset name arity ts' b' p))"
      using t all by (auto simp: Let_def intro!: safe_and_then [OF nao_punctuation_safe [OF t]] rest)
  qed
qed simp

lemma term_arguments_safe:
  assumes "\<And>b' p. np_inv src lo p \<Longrightarrow> budget_ok b' \<Longrightarrow> tb_functions b \<le> tb_functions b' \<Longrightarrow> term_safe src lo b' (parse b' p)"
    and "np_inv src lo p" "budget_ok b"
  shows "safe (\<lambda>(us, b', p'). np_inv src lo p' \<and> spent b us b') (term_arguments parse offset name arity b p)"
  using nao_trivia_inv(1) [OF assms(2)] assms(3) term_arguments_loop_safe [where ts = "[]" and ?b0.0 = b and b = b and src = src and lo = lo and parse = parse, OF assms(1)]
  by (simp add: term_arguments_def Let_def)

lemma defined_relation_sized: "length i = 32 \<Longrightarrow> sized 1 1 (defined_relation i vs)"
  by (auto simp: sized_def defined_relation_def d_well_formed_def)

lemma function_term_safe:
  assumes sub: "\<And>b' p. np_inv src lo p \<Longrightarrow> budget_ok b' \<Longrightarrow> tb_functions b < tb_functions b' \<Longrightarrow> term_safe src lo b' (parse b' p)"
    and p: "np_inv src lo p" and b: "budget_ok b" and name: "offset + length name \<le> np_offset p"
  shows "term_safe src lo b (function_term h parse offset name b p)"
proof (cases "np_definition_aliases p name")
  case (Some al)
  have id: "length (da_definition_id al) = 32" using p Some by (simp add: np_inv_def)
  show ?thesis
  proof (cases "da_kind al")
    case (FunctionKind arity)
    let ?b = "b\<lparr>tb_functions := tb_functions b + 1\<rparr>"
    have small: "tb_atom_depth b + 6 * tb_functions b \<le> 256" using b by (simp add: budget_ok_def FORMULA_MAX_DEPTH_def)
    then have depth: "u32_add (tb_functions b) 1 = Some (tb_functions b + 1)"
      "term_depth (tb_atom_depth b) (tb_functions b + 1) = Some (tb_atom_depth b + 6 * (tb_functions b + 1))"
      by (auto simp: u32_add_def u32_fits_def term_depth_def)
    have args: "safe (\<lambda>(us, b', p'). np_inv src lo p' \<and> spent ?b us b') (term_arguments parse offset name arity ?b q)"
      if "np_inv src lo q" "budget_ok ?b" for q
      by (rule term_arguments_safe [OF sub that]) auto
    have sel: "tb_atom_depth ?b = tb_atom_depth b" "tb_functions ?b = tb_functions b + 1" "tb_source_depth ?b = tb_source_depth b" by simp_all
    have budget: "budget_ok ?b" if "tb_source_depth b - 1 + (tb_atom_depth b + 6 * (tb_functions b + 1)) \<le> FORMULA_MAX_DEPTH"
      using that b by (simp add: budget_ok_def)
    have result: "spent b [\<lparr>pt_variable = v, pt_graph_constraints = concat (map pt_graph_constraints ts) @ [defined_relation (da_definition_id al) vs],
        pt_witnesses = concat (map pt_witnesses ts) @ [v]\<rparr>] b'" if "spent ?b ts b'" for ts vs v b'
      using that defined_relation_sized [OF id, of vs]
      by (auto simp: spent_def term_ok_def length_concat comp_def intro!: arg_cong [where f = sum_list])
    show ?thesis
      unfolding function_term_def Some FunctionKind ok_or.simps and_then.simps definition_kind.case Let_def depth expect.simps sel
      apply (rule safe_and_then [OF record_expansion_safe [OF p name]], elim conjE)
      apply (rule safe_and_then [OF check_expanded_depth_safe], elim conjE)
      apply (rule safe_and_then [OF charge_formula_nodes_safe], assumption, elim conjE)
      apply (rule safe_and_then [OF args], assumption, erule budget, clarify)
      apply (rule safe_and_then [of "\<lambda>_. True"], simp add: ensure_definition_arity_def)
      apply (rule safe_and_then [OF nao_call_end_safe], assumption, elim conjE)
      apply (rule safe_and_then [OF fresh_variable_safe], assumption, clarify)
      using result apply simp
      done
  qed (simp add: function_term_def Some)
qed (simp add: function_term_def)

lemma nao_term_safe:
  "np_inv src lo p \<Longrightarrow> budget_ok b \<Longrightarrow> 43 \<le> fuel + tb_functions b \<Longrightarrow> term_safe src lo b (nao_term fuel h b p)"
proof (induction fuel arbitrary: b p)
  case 0
  then show ?case by (simp add: budget_ok_def FORMULA_MAX_DEPTH_def)
next
  case (Suc fuel)
  show ?case
    unfolding nao_term.simps Let_def
  proof (rule safe_and_then [OF nao_name_safe [OF Suc.prems(1)]], clarify)
    fix name :: string and p'
    assume p': "np_spare src lo p'" and name: "next_offset p + length name \<le> np_offset p'"
    note t = nao_trivia_inv [OF np_spare_inv [OF p']]
    have rewound: "np_spare src lo ((nao_trivia p')\<lparr>np_offset := np_offset p'\<rparr>)"
      using p' t(3) by (simp add: np_spare_def np_inv_def nao_trivia_def)
    have var: "spent b [term_of_variable v] b" for v using Suc.prems(2) by (simp add: spent_def term_of_variable_def term_ok_def)
    have call: "term_safe src lo b (function_term h (nao_term fuel h) (next_offset p) name b (nao_advance (nao_trivia p')))"
      if "nao_byte (nao_trivia p') = Some (CHR ''('')"
    proof (rule function_term_safe)
      show "term_safe src lo b' (nao_term fuel h b' q)" if "np_inv src lo q" "budget_ok b'" "tb_functions b < tb_functions b'" for b' q
        using that Suc.prems(3) by (intro Suc.IH) auto
      show "np_inv src lo (nao_advance (nao_trivia p'))" using nao_byte_ascii(1) [OF t(1) that] by auto
      show "next_offset p + length name \<le> np_offset (nao_advance (nao_trivia p'))" using name t(2) by (simp add: nao_advance_def)
    qed (rule Suc.prems(2))
    show "term_safe src lo b
       (if nao_byte (nao_trivia p') \<noteq> Some (CHR ''('')
        then map_ok (\<lambda>(variable, p). (term_of_variable variable, b, p)) (variable_named name ((nao_trivia p')\<lparr>np_offset := np_offset p'\<rparr>))
        else function_term h (nao_term fuel h) (next_offset p) name b (nao_advance (nao_trivia p')))"
      using call var variable_named_safe [OF rewound, of name] by (auto elim!: safe_mono)
  qed
qed

lemma nao_term_full: "np_inv src lo p \<Longrightarrow> budget_ok b \<Longrightarrow> term_safe src lo b (nao_term TERM_FUEL h b p)"
  by (rule nao_term_safe) (simp_all add: TERM_FUEL_def FORMULA_MAX_DEPTH_def)

lemma two_terms_safe:
  assumes "np_inv src lo p" "budget_ok b"
  shows "safe (\<lambda>(ts, p'). np_inv src lo p' \<and> length ts = 2 \<and> (\<exists>b'. spent b ts b')) (two_terms h b p)"
  unfolding two_terms_def
proof (rule safe_and_then [OF nao_term_full [OF assms]], clarify)
  fix t b' p'
  assume p': "np_inv src lo p'" and b': "spent b [t] b'"
  have ok: "budget_ok b'" using b' unfolding spent_def by blast
  have all: "\<exists>b''. spent b [t, u] b''" if "spent b' [u] b''" for u b'' using spent_append [OF b' that] by auto
  show "safe (\<lambda>(ts, p'). np_inv src lo p' \<and> length ts = 2 \<and> (\<exists>b'. spent b ts b'))
      (and_then (nao_punctuation (CHR '','') p') (\<lambda>p. and_then (nao_term TERM_FUEL h b' p) (\<lambda>(right, terms, p). Ok ([t, right], p))))"
    by (rule safe_and_then [OF nao_punctuation_safe [OF p']], simp, elim conjE, rule safe_and_then [OF nao_term_full], erule np_spare_inv, rule ok)
      (auto intro: all)
qed

section \<open>Formulas\<close>

text \<open>The counts of a lowered atom: six levels and seven nodes for every function that was eliminated.\<close>

lemma relationalized_formula_safe:
  assumes p: "np_inv src lo p" and b: "spent b ts b'" "tb_functions b = 0" "tb_atom_depth b = atom_depth"
    and atom: "atom (map pt_variable ts) = Some a" "sized atom_depth atom_depth a" and depth: "1 \<le> atom_depth"
  shows "safe (\<lambda>(f, p'). np_inv src lo p' \<and> pd_ok f) (relationalized_formula ts atom offset ctx k atom_depth p)"
proof -
  let ?cs = "concat (map pt_graph_constraints ts)" and ?ws = "concat (map pt_witnesses ts)"
  have ok: "\<forall>t\<in>set ts. term_ok t" "atom_depth + 6 * length ?ws \<le> FORMULA_MAX_DEPTH"
    using b by (auto simp: spent_def budget_ok_def)
  then have eq: "length ?cs = length ?ws" by (simp add: term_ok_def length_concat comp_def cong: map_cong)
  have cs: "\<forall>c\<in>set ?cs. sized 1 1 c" using ok(1) by (auto simp: term_ok_def)
  have "sized (atom_depth + 4 * length ?ws) (atom_depth + 3 * length ?ws) (wrap_constraints ?cs a)"
    using wrap_constraints_sized [OF cs atom(2)] eq by simp
  moreover have "atom_depth + 3 * length ?ws + 3 * length ?ws < 2 ^ 32" using ok(2) by (simp add: FORMULA_MAX_DEPTH_def)
  ultimately obtain f where f: "d_wrap_quantifiers True ?ws (wrap_constraints ?cs a) = Some f"
    "sized (atom_depth + 7 * length ?ws) (atom_depth + 6 * length ?ws) f"
    by (rule d_wrap_quantifiers_sized [where existential = True]) (auto simp: algebra_simps)
  have lim: "Option.bind (u32_fits (length ?ws)) (term_depth atom_depth) = Some (atom_depth + 6 * length ?ws)"
    using ok(2) by (simp add: u32_fits_def u32_add_def term_depth_def FORMULA_MAX_DEPTH_def)
  have nodes: "safe (\<lambda>(_, n). n = atom_depth + 7 * length ?ws) (map_err (CDefinitionFormula offset) (d_encode_canonical_with_node_limit f FORMULA_MAX_NODES))"
    using f(2) by (auto simp: safe_iff d_encode_canonical_with_node_limit_Ok sized_def)
  have fits: "u32_fits (atom_depth + 7 * length ?ws) = Some (atom_depth + 7 * length ?ws)"
    using ok(2) by (simp add: u32_fits_def FORMULA_MAX_DEPTH_def)
  have "pd_ok \<lparr>pd_formula = f, pd_expanded_nodes = atom_depth + 7 * length ?ws, pd_expanded_depth = atom_depth + 6 * length ?ws\<rparr>"
    using f(2) ok(2) by (simp add: pd_ok_def)
  then show ?thesis
    unfolding relationalized_formula_def Let_def eq lim expect.simps and_then.simps
    using depth p
    by (auto simp: atom(1) f(1) fits intro!: safe_and_then [OF check_expanded_depth_safe] safe_and_then [OF charge_formula_nodes_safe]
        safe_and_then [OF nodes])
qed

lemma budget_new_ok: "1 \<le> d \<Longrightarrow> d \<le> 2 \<Longrightarrow> budget_ok (term_budget_new ctx k d)"
  by (simp add: budget_ok_def term_budget_new_def FORMULA_MAX_DEPTH_def)

lemma on_pair_Some: "length ts = 2 \<Longrightarrow> \<exists>x y. on_pair f (map pt_variable ts) = Some (f x y)"
  by (auto simp: on_pair_def element_at_def)

lemma binary_atom_safe:
  assumes p: "np_inv src lo p" and atom: "\<And>x y. sized d d (f x y)" and d: "1 \<le> d" "d \<le> 2"
  shows "safe (\<lambda>(f, p'). np_inv src lo p' \<and> pd_ok f)
    (and_then (two_terms h (term_budget_new ctx k d) p) (\<lambda>(ts, p). relationalized_formula ts (on_pair f) offset ctx k d p))"
proof (rule safe_and_then [OF two_terms_safe [OF p budget_new_ok [OF d]]], clarify)
  fix ts p' b'
  assume *: "np_inv src lo p'" "length ts = 2" "spent (term_budget_new ctx k d) ts b'"
  obtain x y where "on_pair f (map pt_variable ts) = Some (f x y)" using on_pair_Some [OF *(2), of f] by blast
  with * d(1) atom show "safe (\<lambda>(f, p'). np_inv src lo p' \<and> pd_ok f) (relationalized_formula ts (on_pair f) offset ctx k d p')"
    by (intro relationalized_formula_safe [of _ _ _ "term_budget_new ctx k d"]) (simp_all add: term_budget_new_def)
qed

lemma nao_atom_safe:
  assumes "np_inv src lo p" "op \<in> {OpEqual, OpMember, OpUnequal}"
  shows "safe (\<lambda>(f, p'). np_inv src lo p' \<and> pd_ok f) (nao_atom h op offset depth ctx p)"
proof -
  have "sized 1 1 (d_equal x y)" "sized 1 1 (d_member x y)" "sized 2 2 (d_negate (d_equal x y))" for x y
    by (simp_all add: sized_def d_equal_def d_member_def d_negate_def d_well_formed_def)
  note atoms = this(1) [THEN binary_atom_safe [OF assms(1)]] this(2) [THEN binary_atom_safe [OF assms(1)]] this(3) [THEN binary_atom_safe [OF assms(1)]]
  show ?thesis
    using assms(2) atoms by (auto simp: nao_atom_def parse_equal_def parse_member_def Let_def)
qed

lemma parse_defined_relation_safe:
  assumes p: "np_inv src lo p" and name: "offset + length name \<le> np_offset p"
  shows "safe (\<lambda>(f, p'). np_inv src lo p' \<and> pd_ok f) (parse_defined_relation h offset name ctx k p)"
proof (cases "np_definition_aliases p name")
  case (Some al)
  have id: "length (da_definition_id al) = 32" using p Some by (simp add: np_inv_def)
  show ?thesis
  proof (cases "da_kind al")
    case (RelationKind arity)
    let ?b = "term_budget_new ctx k 1"
    have args: "safe (\<lambda>(us, b', p'). np_inv src lo p' \<and> spent ?b us b') (term_arguments (nao_term TERM_FUEL h) offset name arity ?b q)"
      if "np_inv src lo q" for q
      by (rule term_arguments_safe [OF nao_term_full that]) (simp_all add: budget_new_ok)
    show ?thesis
      unfolding parse_defined_relation_def Some RelationKind ok_or.simps and_then.simps definition_kind.case
      apply (rule safe_and_then [OF record_expansion_safe [OF p name]], elim conjE)
      apply (rule safe_and_then [OF args], assumption, clarify)
      apply (rule safe_and_then [of "\<lambda>_. True"], simp add: ensure_definition_arity_def)
      apply (rule relationalized_formula_safe [OF _ _ _ _ refl defined_relation_sized [OF id]], assumption, assumption)
      apply (simp_all add: term_budget_new_def)
      done
  qed (simp add: parse_defined_relation_def Some)
qed (simp add: parse_defined_relation_def)

lemma parsed_formula_binding_reference_safe:
  assumes p: "np_inv src lo p" and name: "offset + length name \<le> np_offset p"
  shows "safe (\<lambda>(f, p'). np_inv src lo p' \<and> pd_ok f) (parsed_formula_binding_reference h offset name k ctx p)"
proof (cases "np_formula_bindings p name")
  case (Some f)
  have ok: "pd_ok f" using p Some by (simp add: np_inv_def)
  have charge: "safe (\<lambda>p'. np_inv src lo p' \<and> np_offset p' = np_offset p \<and> np_formula_bindings p' name = Some f)
      (charge_formula_nodes ctx (pd_expanded_nodes f) offset p)"
    using charge_formula_nodes_safe [OF p] charge_keeps_bindings Some by (fastforce simp: safe_iff)
  show ?thesis
    unfolding parsed_formula_binding_reference_def Some ok_or.simps and_then.simps
    apply (rule safe_and_then [OF charge], elim conjE)
    apply (rule safe_and_then [OF check_expanded_depth_safe], elim conjE)
    apply (rule safe_and_then [OF record_expansion_safe], assumption)
    using name ok apply (simp_all add: pd_ok_def)
    done
qed (simp add: parsed_formula_binding_reference_def)

definition nao_called :: "string \<Rightarrow> nat \<Rightarrow> nao_parser \<Rightarrow> bool" where
  "nao_called name offset p \<longleftrightarrow> offset + length name \<le> np_offset p"

lemma as_u32_depth: "k \<le> Suc FORMULA_MAX_DEPTH \<Longrightarrow> as_u32 k = k"
  by (simp add: FORMULA_MAX_DEPTH_def)

lemma nao_start_safe:
  assumes p: "np_inv src lo p" and k: "1 \<le> k" "k \<le> Suc FORMULA_MAX_DEPTH"
  shows "safe (\<lambda>(r, p'). np_inv src lo p' \<and> (case r of StartValue f \<Rightarrow> pd_ok f | StartCall name offset \<Rightarrow> k \<le> FORMULA_MAX_DEPTH \<and> nao_called name offset p'))
    (nao_start h k ctx p)"
  unfolding nao_start_def as_u32_depth [OF k(2)] Let_def [of k] Let_def [of "next_offset p"]
proof (rule safe_and_then [OF nao_name_safe [OF p]], clarify)
  fix name :: string and p'
  assume p': "np_spare src lo p'" and name: "next_offset p + length name \<le> np_offset p'"
  note t = nao_trivia_inv [OF np_spare_inv [OF p']]
  let ?safe = "safe (\<lambda>(r, p'). np_inv src lo p' \<and> (case r of StartValue f \<Rightarrow> pd_ok f | StartCall name offset \<Rightarrow> k \<le> FORMULA_MAX_DEPTH \<and> nao_called name offset p'))"
  have open_call: "np_inv src lo (q\<lparr>np_offset := np_offset (nao_trivia p') + 1\<rparr>) \<and> nao_called name (next_offset p) (q\<lparr>np_offset := np_offset (nao_trivia p') + 1\<rparr>)"
    if "nao_byte (nao_trivia p') = Some (CHR ''('')" "np_inv src lo q" "np_offset q = np_offset p'" for q
  proof -
    have "position_ok src (np_offset (nao_trivia p') + 1)"
      using nao_byte_ascii(1) [OF t(1) that(1)] by (auto simp: nao_advance_def np_spare_def np_inv_def)
    from np_inv_move(1) [OF that(2) this] that(3) t(2) name show ?thesis by (simp add: nao_called_def)
  qed
  have enter: "?safe (and_then (charge_formula_nodes ctx 1 (next_offset p) p') (\<lambda>q.
      if FORMULA_MAX_DEPTH < k then Err (CFormulaDepthLimitExceeded (next_offset p) FORMULA_MAX_DEPTH)
      else and_then (if call then Ok (q\<lparr>np_offset := np_offset (nao_trivia p') + 1\<rparr>) else nao_punctuation (CHR ''('') q) (\<lambda>q.
        Ok (StartCall name (next_offset p), q))))" if "call \<Longrightarrow> nao_byte (nao_trivia p') = Some (CHR ''('')" for call
  proof (rule safe_and_then [OF charge_formula_nodes_safe [OF np_spare_inv [OF p']]], elim conjE)
    fix q
    assume q: "np_inv src lo q" "np_offset q = np_offset p'"
    have punct: "safe (\<lambda>q'. np_inv src lo q' \<and> nao_called name (next_offset p) q') (nao_punctuation (CHR ''('') q)"
      using q name by (auto simp: nao_called_def intro!: safe_mono [OF nao_punctuation_safe [OF q(1)]])
    show "?safe (if FORMULA_MAX_DEPTH < k then Err (CFormulaDepthLimitExceeded (next_offset p) FORMULA_MAX_DEPTH)
        else and_then (if call then Ok (q\<lparr>np_offset := np_offset (nao_trivia p') + 1\<rparr>) else nao_punctuation (CHR ''('') q) (\<lambda>q. Ok (StartCall name (next_offset p), q)))"
      using open_call [OF that q] punct by (cases call) (auto intro: safe_and_then [OF punct])
  qed
  have ref: "?safe (map_ok (\<lambda>(f, q). (StartValue f, q)) (parsed_formula_binding_reference h (next_offset p) name k ctx p'))"
    by (auto intro!: safe_mono [OF parsed_formula_binding_reference_safe [OF np_spare_inv [OF p'] name]])
  show "?safe (let opening = nao_trivia p'; has_call = nao_byte opening = Some (CHR ''('')
     in if \<not> has_call \<and> \<not> is_reserved_binding_name name
        then map_ok (\<lambda>(f, q). (StartValue f, q)) (parsed_formula_binding_reference h (next_offset p) name k ctx p')
        else and_then (charge_formula_nodes ctx 1 (next_offset p) p') (\<lambda>q.
          if FORMULA_MAX_DEPTH < k then Err (CFormulaDepthLimitExceeded (next_offset p) FORMULA_MAX_DEPTH)
          else and_then (if has_call then Ok (q\<lparr>np_offset := np_offset opening + 1\<rparr>) else nao_punctuation (CHR ''('') q) (\<lambda>q.
            Ok (StartCall name (next_offset p), q))))"
    using ref enter unfolding Let_def by presburger
qed

lemma nao_binders_safe:
  assumes "np_inv src lo p"
  shows "safe (\<lambda>(vs, p'). np_inv src lo p' \<and> vs \<noteq> [] \<and> length vs \<le> FORMULA_MAX_DEPTH) (nao_binders offset p)"
proof -
  have "np_inv src lo (p\<lparr>np_offset := i, np_variables := vs\<rparr>)"
    if "position_ok src i" "np_offset p < i" "unat (vs_next vs) \<le> unat (vs_next (np_variables p)) + (i - np_offset p)" for i vs
    using assms that by (auto simp: np_inv_def)
  with binder_list_safe [of src "np_offset p" "np_variables p"] assms show ?thesis
    by (auto simp: nao_binders_def np_inv_position elim!: safe_mono)
qed

lemma nao_extra_Some: "n \<le> FORMULA_MAX_DEPTH \<Longrightarrow> nao_extra op n = Some (n * (if op = OpExists then 3 else 1))"
  by (simp add: nao_extra_def u32_fits_def FORMULA_MAX_DEPTH_def)

lemma nao_quantified_depth_safe:
  assumes "np_inv src lo p" "1 \<le> k" "k \<le> FORMULA_MAX_DEPTH" "0 < n" "n \<le> FORMULA_MAX_DEPTH"
  shows "safe (\<lambda>(d, p'). np_inv src lo p' \<and> k < d \<and> d \<le> FORMULA_MAX_DEPTH) (nao_quantified_depth op n offset k ctx p)"
proof -
  let ?e = "n * (if op = OpExists then 3 else 1)"
  have "?e + 1 < 2 ^ 32" using assms(5) by (simp add: FORMULA_MAX_DEPTH_def)
  then have e: "u32_add ?e 1 = Some (?e + 1)" by (simp only: u32_add_def u32_fits_def if_True)
  have u: "as_u32 k = k" using assms(3) by (intro as_u32_depth) simp
  show ?thesis
    unfolding nao_quantified_depth_def nao_extra_Some [OF assms(5)] expect.simps and_then.simps e u
    by (rule safe_and_then [OF check_expanded_depth_safe], elim conjE)
      (use assms in \<open>auto intro!: safe_mono [OF charge_formula_nodes_safe [OF assms(1)]]\<close>)
qed

lemma nao_quantified_safe:
  assumes "np_inv src lo p" "1 \<le> k" "k \<le> FORMULA_MAX_DEPTH" "pd_ok f" "vs \<noteq> []" "length vs \<le> FORMULA_MAX_DEPTH"
  shows "safe (\<lambda>(f, p'). np_inv src lo p' \<and> pd_ok f) (nao_quantified op vs f offset k ctx p)"
proof -
  let ?k = "if op = OpExists then 3 else 1 :: nat"
  have u: "as_u32 k = k" using assms(3) by (intro as_u32_depth) simp
  have f: "sized (pd_expanded_nodes f) (pd_expanded_depth f) (pd_formula f)" using assms(4) by (simp add: pd_ok_def)
  have "pd_expanded_depth f + 3 * length vs < 2 ^ 32" using assms(4,6) by (simp add: pd_ok_def FORMULA_MAX_DEPTH_def)
  with f obtain b where b: "d_wrap_quantifiers (op = OpExists) vs (pd_formula f) = Some b"
    "sized (pd_expanded_nodes f + ?k * length vs) (pd_expanded_depth f + ?k * length vs) b" by (rule d_wrap_quantifiers_sized) auto
  have nodes: "safe (\<lambda>n. n = pd_expanded_nodes f + ?k * length vs) (checked_node_sum ctx [length vs * ?k, pd_expanded_nodes f] offset)"
    using checked_node_sum_safe [of "[length vs * ?k, pd_expanded_nodes f]" ctx offset] by (auto simp: mult.commute elim!: safe_mono)
  have depth: "safe (\<lambda>n. n = pd_expanded_depth f + ?k * length vs) (checked_depth_add offset (pd_expanded_depth f) (length vs * ?k))"
    using checked_depth_add_safe [of "pd_expanded_depth f" "length vs * ?k" offset] by (simp add: mult.commute)
  show ?thesis
    unfolding nao_quantified_def nao_extra_Some [OF assms(6)] expect.simps and_then.simps u b(1)
    apply (rule safe_and_then [OF nodes])
    apply (rule safe_and_then [OF depth])
    apply (rule safe_and_then [OF check_expanded_depth_safe], elim conjE)
    using assms(1) b(2) apply (simp add: pd_ok_def)
    done
qed

lemma nao_negated_safe:
  assumes "np_inv src lo p" "1 \<le> k" "k \<le> FORMULA_MAX_DEPTH" "pd_ok f"
  shows "safe (\<lambda>(f, p'). np_inv src lo p' \<and> pd_ok f) (nao_negated f offset k ctx p)"
proof -
  have u: "as_u32 k = k" using assms(3) by (intro as_u32_depth) simp
  have "sized (pd_expanded_nodes f + 1) (pd_expanded_depth f + 1) (d_negate (pd_formula f))"
    using assms(4) sized_negate by (simp only: pd_ok_def)
  then show ?thesis
    unfolding nao_negated_def u
    apply (rule_tac safe_and_then [OF checked_node_sum_safe], simp, elim conjE)
    apply (rule safe_and_then [OF checked_depth_add_safe])
    using assms(1) check_expanded_depth_safe [of k "pd_expanded_depth f + 1" offset] apply (auto simp: pd_ok_def elim!: safe_mono)
    done
qed

lemma nao_binary_safe:
  assumes "np_inv src lo p" "1 \<le> k" "k \<le> FORMULA_MAX_DEPTH" "pd_ok f" "pd_ok g" "op \<in> {OpImplies, OpAnd, OpOr, OpIff}"
  shows "safe (\<lambda>(f, p'). np_inv src lo p' \<and> pd_ok f) (nao_binary op (f, g) offset k ctx p)"
proof -
  have u: "as_u32 k = k" using assms(3) by (intro as_u32_depth) simp
  obtain c n d where c: "nao_connective op (pd_formula f) (pd_formula g) = Some c" "sized n d c"
    "binary_shape (operator_name op) (pd_expanded_nodes f, pd_expanded_depth f) (pd_expanded_nodes g, pd_expanded_depth g) = Some (n, d)"
    using connective_sized [OF assms(6)] assms(4,5) unfolding pd_ok_def by metis
  have more: "safe (\<lambda>_. True) (additional_nodes op f g offset ctx)"
    using assms(6) checked_node_sum_safe [of "[4, pd_expanded_nodes f, pd_expanded_nodes g]" ctx offset]
    by (auto simp: additional_nodes_def elim!: safe_mono)
  have derived: "safe (\<lambda>p'. np_inv src lo p' \<and> d \<le> FORMULA_MAX_DEPTH) (check_derived_expansion offset k ctx d extra p)" for extra
    unfolding check_derived_expansion_def
    by (rule safe_and_then [OF charge_formula_nodes_safe [OF assms(1)]])
      (use check_expanded_depth_safe [of k d offset] assms(2) in \<open>auto elim!: safe_mono\<close>)
  show ?thesis
    unfolding nao_binary_def prod.case c(3) ok_or.simps and_then.simps u c(1) expect.simps
    apply (rule safe_and_then [of "\<lambda>x. x = n"], simp add: u32_fits_def)
    apply (rule safe_and_then [of "\<lambda>x. x = d"], simp add: u32_fits_def)
    apply (rule safe_and_then [OF more], hypsubst)
    apply (rule safe_and_then [OF derived])
    using c(2) apply (simp add: pd_ok_def)
    done
qed

interpretation nao: builder_safe "nao_builder h" "np_inv src lo" nao_called pd_ok pd_ok FORMULA_MAX_DEPTH for h src lo
proof unfold_locales
  fix s :: nao_parser
  assume "np_inv src lo s"
  then show "safe (np_inv src lo) (fb_comma (nao_builder h) s)"
    by (auto simp: nao_builder_def intro!: safe_mono [OF nao_punctuation_safe])
next
  fix s :: nao_parser and f and depth :: nat
  assume "np_inv src lo s" "pd_ok f"
  then show "safe (\<lambda>(f, s'). np_inv src lo s' \<and> pd_ok f) (fb_finish (nao_builder h) f depth s)"
    by (auto simp: nao_builder_def nao_finish_def intro!: safe_mono [OF nao_call_end_safe])
next
  fix s :: nao_parser and name and offset depth :: nat and mode
  assume "np_inv src lo s" "nao_called name offset s"
  then show "safe (\<lambda>(f, s'). np_inv src lo s' \<and> pd_ok f) (fb_extension (nao_builder h) name offset depth mode s)"
    by (simp add: nao_builder_def nao_extension_def nao_called_def parse_defined_relation_safe)
qed (simp_all add: nao_builder_def nao_start_safe nao_atom_safe nao_binders_safe nao_quantified_depth_safe nao_quantified_safe nao_negated_safe nao_binary_safe
      del: split_paired_All)

lemma nao_parsed_formula_safe: "np_inv src lo p \<Longrightarrow> safe (\<lambda>(f, p'). np_inv src lo p' \<and> pd_ok f) (nao_parsed_formula h 1 ctx p)"
  unfolding nao_parsed_formula_def by (rule nao.parse_safe) simp_all

lemma nao_formula_safe: "np_inv src lo p \<Longrightarrow> safe (\<lambda>(f, p'). np_inv src lo p' \<and> d_well_formed f) (nao_formula h 1 ctx p)"
  unfolding nao_formula_def using nao_parsed_formula_safe [of src lo p h ctx] by (auto simp: pd_ok_def sized_def elim!: safe_mono)

lemma nao_proof_formula_safe: "np_inv src lo p \<Longrightarrow> safe (\<lambda>(f, p'). np_inv src lo p' \<and> pf_ok f) (nao_proof_formula h 1 ctx p)"
  unfolding nao_proof_formula_def Let_def
  by (rule safe_and_then [OF nao_formula_safe], assumption)
    (auto simp: safe_iff from_defined_def into_primitive_Ok split: if_splits)

end
