(* ===== verification/Nao_Soundness.thy ===== *)
theory Nao_Soundness
  imports Nao_Properties Checker_Properties
begin

text \<open>
  The \<open>.nao\<close> compiler end to end: every section of a source is read without a panic, what it lowers to satisfies the
  conditions of the checker, and an accepted source is a checked artifact of the context it was compiled against.
\<close>


section \<open>Declarations\<close>

lemma peek_words_safe:
  "np_inv src lo p \<Longrightarrow> safe (\<lambda>(b, p'). np_inv src lo p' \<and> np_offset p \<le> np_offset p') (peek_words ws p)"
proof (induction ws arbitrary: p)
  case (Cons w ws)
  show ?case
    unfolding peek_words.simps
    by (rule safe_and_then [OF nao_peek_word_safe [OF Cons.prems]]) (auto intro!: safe_mono [OF Cons.IH])
qed simp

abbreviation moves :: "string \<Rightarrow> nat \<Rightarrow> nao_parser \<Rightarrow> (compile_error, nao_parser) outcome \<Rightarrow> bool" where
  "moves src lo p m \<equiv> safe (\<lambda>p'. np_inv src lo p' \<and> np_offset p < np_offset p') m"

lemma identity_safe:
  assumes "np_inv src lo p"
  shows "safe (\<lambda>(i, p'). np_inv src lo p' \<and> np_offset p < np_offset p' \<and> length i = 32) (nao_definition_id p)"
    and "safe (\<lambda>(i, p'). np_inv src lo p' \<and> np_offset p < np_offset p' \<and> length i = 32) (nao_proof_id p)"
  unfolding nao_definition_id_def nao_proof_id_def by (rule safe_mono [OF fixed_id_bytes_safe [OF assms]]; auto)+

lemma range_from:
  "np_inv src lo q \<Longrightarrow> start \<le> np_offset q \<Longrightarrow> source_range_new start (np_offset q) = Some (start, np_offset q)"
  by (rule source_range_Some) (auto dest: np_inv_bound(1))

lemma declare_alias_safe:
  assumes "\<And>d. cv_definition_kind v d \<noteq> Panic" and p: "np_inv src lo p"
  shows "moves src lo p (declare_alias v p)"
proof -
  have kind: "safe (\<lambda>_. True) (map_err g (cv_definition_kind v d))" for g d using assms(1) [of d] by (simp add: safe_iff)
  have keep: "np_inv src lo (r\<lparr>np_definition_aliases := (np_definition_aliases r)(name \<mapsto> \<lparr>da_definition_id = i, da_kind = k\<rparr>)\<rparr>)"
    if "np_inv src lo r" "length i = 32" for r i k name using that by (auto simp: np_inv_def)
  show ?thesis
    unfolding declare_alias_def Let_def
    apply (rule safe_and_then [OF nao_name_safe [OF p]], clarify)
    apply (rule safe_refuse, rule safe_refuse)
    apply (rule safe_and_then [OF nao_punctuation_safe], erule np_spare_inv, simp, elim conjE)
    apply (rule safe_and_then [OF identity_safe(1)], erule np_spare_inv, clarify)
    apply (rule safe_and_then [OF kind])
    apply (rule safe_and_then [OF safe_ok_or [where p = "\<lambda>_. True"]], rule TrueI)
    apply (subst range_from, assumption, simp)
    apply (simp add: keep)
    done
qed

lemma proof_reference_safe:
  assumes p: "np_inv src lo p"
  shows "moves src lo p (proof_reference p)"
proof -
  have keep: "np_inv src lo (r\<lparr>np_proof_references := (np_proof_references r)(name \<mapsto> i)\<rparr>)"
    if "np_inv src lo r" "length i = 32" for r i name using that by (auto simp: np_inv_def)
  show ?thesis
    unfolding proof_reference_def Let_def
    apply (rule safe_and_then [OF nao_name_safe [OF p]], clarify)
    apply (rule safe_refuse, rule safe_refuse, rule safe_refuse)
    apply (rule safe_and_then [OF nao_punctuation_safe], erule np_spare_inv, simp, elim conjE)
    apply (rule safe_and_then [OF identity_safe(2)], erule np_spare_inv, clarify)
    apply (subst range_from, assumption, simp)
    apply (simp add: keep)
    done
qed

lemma binding_name_cases:
  assumes "str_ok False src" "position_ok src offset"
  shows "(\<exists>e. binding_name src offset dup = Err e) \<or> (\<exists>name stop. binding_name src offset dup = Ok (name, stop) \<and> position_ok src stop \<and> offset < stop)"
proof -
  from assms obtain name stop where "name_at src offset = Some (name, stop)" "position_ok src stop" "name \<noteq> None \<Longrightarrow> offset < stop"
    by (rule name_at_spec) blast
  then show ?thesis by (cases name) (auto simp: binding_name_def)
qed

lemma binding_failure_safe:
  assumes "np_inv src lo p"
  shows "safe P (binding_failure p e)"
proof -
  from np_inv_position(2,1) [OF assms] obtain name stop where "name_at src (np_offset p) = Some (name, stop)" "position_ok src stop" "np_offset p \<le> stop"
    by (rule name_at_spec) blast
  moreover from this have "str_range src (np_offset p) stop \<noteq> None"
    using np_inv_position(1) [OF assms] by (simp add: str_range_def position_ok_def)
  ultimately show ?thesis
    using np_inv_position(3) [OF assms] by (cases e) (auto simp: binding_failure_def Let_def)
qed

lemma formula_binding_safe:
  assumes p: "np_inv src lo p"
  shows "moves src lo p (formula_binding h p)"
proof -
  let ?p = "nao_trivia p"
  note t = nao_trivia_inv [OF p]
  have moved: "np_spare src (Suc (np_offset ?p)) (?p\<lparr>np_offset := stop\<rparr>)" if "position_ok src stop" "np_offset ?p < stop" for stop
    using np_inv_move(2) [OF t(1) that] that(2) by (auto simp: np_spare_def intro: np_inv_low)
  have name: "safe (\<lambda>(name, stop). np_spare src (Suc (np_offset ?p)) (?p\<lparr>np_offset := stop\<rparr>))
      (or_fail (binding_failure ?p) (binding_name (np_source ?p) (np_offset ?p) dup))" for dup
    using binding_name_cases [OF np_inv_position(2) [OF t(1)] np_inv_position(1) [OF t(1)], of dup] binding_failure_safe [OF t(1)] moved
      np_inv_position(3) [OF t(1)] by (elim disjE exE conjE) simp_all
  have keep: "np_inv src lo (r\<lparr>np_binding_origins := os, np_pending_expansions := es, np_formula_bindings := (np_formula_bindings r)(name \<mapsto> f)\<rparr>)" "np_offset p < np_offset r" "np_offset ?p \<le> np_offset r"
    if "np_inv src (Suc (np_offset ?p)) r" "pd_ok f" for r f name os es
    using that np_inv_position(4) [OF t(1)] t(2) by (auto simp: np_inv_def)
  show ?thesis
    unfolding formula_binding_def Let_def
    apply (rule safe_and_then [OF name], clarify)
    apply (rule safe_refuse, rule safe_refuse)
    apply (rule safe_and_then [OF nao_punctuation_safe], erule np_spare_inv, simp, elim conjE)
    apply (rule safe_and_then [OF nao_parsed_formula_safe], simp, erule np_spare_inv, clarify)
    apply (subst range_from, assumption, erule keep, assumption)
    apply (simp add: keep)
    done
qed

text \<open>A loop that moves in every round ends before its fuel.\<close>

lemma definition_aliases_loop_safe:
  assumes "\<And>d. cv_definition_kind v d \<noteq> Panic"
  shows "np_inv src lo p \<Longrightarrow> length src < fuel + np_offset p \<Longrightarrow> safe (np_inv src lo) (definition_aliases_loop fuel v p)"
proof (induction fuel arbitrary: p)
  case 0
  then show ?case using np_inv_bound(3) [of src lo p] by simp
next
  case (Suc fuel)
  show ?case
    unfolding definition_aliases_loop.simps
    apply (rule safe_and_then [OF declare_alias_safe [OF assms Suc.prems(1)]], elim conjE)
    apply (rule safe_and_then [OF peek_words_safe], assumption, clarify)
    using Suc by auto
qed

lemma definition_aliases_safe:
  assumes "\<And>d. cv_definition_kind v d \<noteq> Panic" and p: "np_inv src lo p"
  shows "safe (np_inv src lo) (definition_aliases v p)"
  unfolding definition_aliases_def
  apply (rule safe_and_then [OF nao_keyword_safe [OF p]], elim conjE)
  apply (rule safe_and_then [OF nao_punctuation_safe], erule np_spare_inv, simp, elim conjE)
  apply (rule safe_and_then [OF peek_words_safe], erule np_spare_inv, clarify)
  apply (rule safe_refuse)
  apply (rule definition_aliases_loop_safe [OF assms(1)], assumption)
  by (auto dest: np_inv_position(3))

lemma proof_references_loop_safe:
  "np_inv src lo p \<Longrightarrow> length src < fuel + np_offset p \<Longrightarrow> safe (np_inv src lo) (proof_references_loop fuel p)"
proof (induction fuel arbitrary: p)
  case 0
  then show ?case using np_inv_bound(3) [of src lo p] by simp
next
  case (Suc fuel)
  show ?case
    unfolding proof_references_loop.simps
    apply (rule safe_and_then [OF proof_reference_safe [OF Suc.prems(1)]], elim conjE)
    apply (rule safe_and_then [OF peek_words_safe], assumption, clarify)
    using Suc by auto
qed

lemma proof_references_safe:
  assumes "np_inv src lo p"
  shows "safe (np_inv src lo) (proof_references p)"
  unfolding proof_references_def
  apply (rule safe_and_then [OF nao_keyword_safe [OF assms]], elim conjE)
  apply (rule safe_and_then [OF nao_punctuation_safe], erule np_spare_inv, simp, elim conjE)
  apply (rule proof_references_loop_safe, erule np_spare_inv)
  by (auto dest!: np_spare_inv dest: np_inv_position(3))

lemma formula_bindings_loop_safe:
  "np_inv src lo p \<Longrightarrow> length src < fuel + np_offset p \<Longrightarrow> safe (np_inv src lo) (formula_bindings_loop fuel h p)"
proof (induction fuel arbitrary: p)
  case 0
  then show ?case using np_inv_bound(3) [of src lo p] by simp
next
  case (Suc fuel)
  show ?case
    unfolding formula_bindings_loop.simps
    apply (rule safe_and_then [OF formula_binding_safe [OF Suc.prems(1)]], elim conjE)
    apply (rule safe_and_then [OF nao_peek_word_safe], assumption, clarify)
    apply (split if_split, intro conjI impI, simp)
    apply (rule safe_and_then [OF nao_peek_word_safe], assumption, clarify)
    apply (rule safe_refuse)
    using Suc by auto
qed

lemma nao_bindings_safe:
  assumes "np_inv src lo p"
  shows "safe (np_inv src lo) (nao_bindings h p)"
  unfolding nao_bindings_def
  apply (rule safe_and_then [OF nao_keyword_safe [OF assms]], elim conjE)
  apply (rule safe_and_then [OF nao_punctuation_safe], erule np_spare_inv, simp, elim conjE)
  apply (rule safe_and_then [OF peek_words_safe], erule np_spare_inv, clarify)
  apply (rule safe_refuse)
  apply (rule formula_bindings_loop_safe, assumption)
  by (auto dest: np_inv_position(3))

lemma when_word_safe:
  assumes "np_inv src lo p" "\<And>q. np_inv src lo q \<Longrightarrow> safe (np_inv src lo) (run q)"
  shows "safe (np_inv src lo) (when_word w run p)"
  unfolding when_word_def by (rule safe_and_then [OF nao_peek_word_safe [OF assms(1)]]) (auto intro: assms(2))

lemma declarations_safe:
  assumes "\<And>d. cv_definition_kind v d \<noteq> Panic" "np_inv src lo p"
  shows "safe (np_inv src lo) (declarations h v p)"
  unfolding declarations_def
  by (rule safe_and_then [OF when_word_safe [OF assms(2) definition_aliases_safe [OF assms(1)]]], assumption,
      rule safe_and_then [OF when_word_safe [OF _ proof_references_safe]], assumption, assumption,
      rule when_word_safe [OF _ nao_bindings_safe])

section \<open>Proof steps\<close>

text \<open>What a parser of an argument or of a whole step promises.\<close>

definition yields :: "string \<Rightarrow> nat \<Rightarrow> ('a \<Rightarrow> bool) \<Rightarrow> (nao_parser \<Rightarrow> (compile_error, 'a \<times> nao_parser) outcome) \<Rightarrow> bool" where
  "yields src lo P run \<longleftrightarrow> (\<forall>p. np_inv src lo p \<longrightarrow> safe (\<lambda>(v, p'). np_inv src lo p' \<and> P v) (run p))"

lemma yieldsD: "yields src lo P run \<Longrightarrow> np_inv src lo p \<Longrightarrow> safe (\<lambda>(v, p'). np_inv src lo p' \<and> P v) (run p)"
  by (simp add: yields_def)

lemma yields_map: "yields src lo P run \<Longrightarrow> (\<And>v. P v \<Longrightarrow> Q (f v)) \<Longrightarrow> yields src lo Q (\<lambda>p. map_ok (\<lambda>(v, p). (f v, p)) (run p))"
  by (auto simp: yields_def elim!: safe_mono)

lemma yields_after_comma: "yields src lo P run \<Longrightarrow> yields src lo P (after_comma run)"
  unfolding yields_def after_comma_def by (auto intro!: safe_and_then [OF nao_punctuation_safe] dest: np_spare_inv)

lemma yields_argument: "(\<And>lo. yields src lo P run) \<Longrightarrow> yields src lo P (argument role run)"
  unfolding yields_def by (auto intro!: argument_safe)

lemma yields_then:
  "yields src lo P run \<Longrightarrow> (\<And>v. P v \<Longrightarrow> yields src lo Q (f v)) \<Longrightarrow> yields src lo Q (\<lambda>p. and_then (run p) (\<lambda>(v, p). f v p))"
  unfolding yields_def by (auto intro!: safe_and_then)

lemma yields_return: "Q v \<Longrightarrow> yields src lo Q (\<lambda>p. Ok (v, p))"
  by (simp add: yields_def)

lemma formula_argument_yields: "yields src lo pf_ok (formula_argument h role)"
  unfolding formula_argument_def by (rule yields_argument) (unfold yields_def, blast intro: nao_proof_formula_safe)

lemma variable_argument_yields: "yields src lo (\<lambda>_. True) (variable_argument role)"
  unfolding variable_argument_def by (rule yields_argument) (auto simp: yields_def intro!: safe_mono [OF nao_variable_safe])

lemma step_argument_yields: "yields src lo (\<lambda>_. True) (step_argument role)"
  unfolding step_argument_def earlier_step_def
  by (rule yields_argument) (auto simp: yields_def intro!: safe_and_then [OF nao_name_safe] safe_ok_or)

lemma citation_yields: "yields src lo (\<lambda>i. length i = 32) (citation h)"
  unfolding yields_def citation_def Let_def
proof (intro allI impI)
  fix p
  assume p: "np_inv src lo p"
  let ?p = "nao_trivia p"
  note t = nao_trivia_inv [OF p]
  have known: "safe (\<lambda>(i, p'). np_inv src lo p' \<and> length i = 32) (map_ok (\<lambda>i. (i, q)) (ok_or e (np_proof_references q name)))" if "np_inv src lo q" for q e name
    using that by (auto simp: np_inv_def intro!: safe_ok_or)
  have named: "safe (\<lambda>(i, p'). np_inv src lo p' \<and> length i = 32) (and_then (nao_name ?p) (\<lambda>(name, p). and_then (record_expansion h name (next_offset ?p) p) (\<lambda>p.
      map_ok (\<lambda>i. (i, p)) (ok_or (e name) (np_proof_references p name)))))" for e
    apply (rule safe_and_then [OF nao_name_safe [OF t(1)]], clarify)
    apply (rule safe_and_then [OF record_expansion_safe], erule np_spare_inv, assumption)
    by (elim conjE, rule known)
  show "safe (\<lambda>(i, p'). np_inv src lo p' \<and> length i = 32) (if nao_byte ?p = Some (CHR 0x22) then nao_proof_id ?p
       else and_then (nao_name ?p) (\<lambda>(name, p). and_then (record_expansion h name (next_offset ?p) p) (\<lambda>p.
      map_ok (\<lambda>i. (i, p)) (ok_or (CUnknownProofReference (next_offset ?p) name) (np_proof_references p name)))))"
    using named safe_mono [OF identity_safe(2) [OF t(1)], of "\<lambda>(i, p'). np_inv src lo p' \<and> length i = 32"] by auto
qed

lemma nao_zfc_axiom_yields: "yields src lo (\<lambda>_. True) nao_zfc_axiom"
  unfolding yields_def nao_zfc_axiom_def Let_def
  by (auto intro!: safe_and_then [OF nao_string_safe] safe_ok_or)

lemma bracket_close:
  "np_inv src lo p \<Longrightarrow> nao_byte p = Some (CHR '']'') \<Longrightarrow> np_inv src lo (nao_advance p)"
  using nao_byte_ascii(1) [of src lo p "CHR '']''"] by auto

lemma schema_parameters_loop_safe:
  "np_inv src lo p \<Longrightarrow> length src < fuel + np_offset p \<Longrightarrow> safe (\<lambda>(vs, p'). np_inv src lo p') (schema_parameters_loop fuel vs p)"
proof (induction fuel arbitrary: p vs)
  case 0
  then show ?case using np_inv_bound(3) [of src lo p] by simp
next
  case (Suc fuel)
  have var: "safe (\<lambda>(v, q). np_inv src lo q \<and> np_offset p < np_offset q \<and> next_offset p \<le> np_offset q) (nao_variable p)"
    unfolding nao_variable_def
    by (rule safe_and_then [OF nao_name_safe [OF Suc.prems(1)]]) (auto intro!: safe_mono [OF variable_named_safe])
  have rest: "safe (\<lambda>(vs, p'). np_inv src lo p') (let r = nao_trivia q in if nao_byte r = Some (CHR '']'') then Ok (us, nao_advance r) else schema_parameters_loop fuel us r)"
    if "np_inv src lo q" "np_offset p < np_offset q" for q us
    using nao_trivia_inv(1,2) [OF that(1)] bracket_close [OF nao_trivia_inv(1) [OF that(1)]] that(2) Suc.prems(2) Suc.IH by (simp add: Let_def)
  have items: "safe (\<lambda>(vs, p'). np_inv src lo p') (let r = nao_trivia q in if nao_byte r = Some (CHR '']'') then Ok (us, nao_advance r)
      else and_then (nao_punctuation (CHR '','') r) (\<lambda>r. let r = nao_trivia r in if nao_byte r = Some (CHR '']'') then Ok (us, nao_advance r) else schema_parameters_loop fuel us r))"
    if "np_inv src lo q" "np_offset p < np_offset q" for q us
    using nao_trivia_inv(1,2) [OF that(1)] bracket_close [OF nao_trivia_inv(1) [OF that(1)]] that(2)
    unfolding Let_def [of "nao_trivia q"]
    by (auto intro!: safe_and_then [OF nao_punctuation_safe [OF nao_trivia_inv(1) [OF that(1)]]] rest)
  show ?case
    unfolding schema_parameters_loop.simps Let_def [of "next_offset p"]
    apply (rule safe_and_then [OF var], clarify)
    apply (subst range_from, assumption, assumption)
    apply (simp only: expect.simps and_then.simps Let_def [of "argument_origin.make _ _ _ _ _"] Let_def [of "vs @ _"])
    using items by (simp add: Let_def)
qed

lemma schema_parameters_yields: "yields src lo (\<lambda>_. True) schema_parameters"
  unfolding yields_def schema_parameters_def
  apply (intro allI impI)
  apply (rule safe_and_then [OF nao_keyword_safe], assumption, elim conjE)
  apply (rule safe_and_then [OF nao_punctuation_safe], erule np_spare_inv, simp, elim conjE)
  apply (rule safe_and_then [OF nao_punctuation_safe], erule np_spare_inv, simp, elim conjE)
  subgoal for p q r s
    using nao_trivia_inv(1) [OF np_spare_inv, of src lo s] bracket_close [of src lo "nao_trivia s"]
      schema_parameters_loop_safe [of src lo "nao_trivia s" "length src + 1" "[]"] np_inv_position(3) [of src lo "nao_trivia s"]
    by (auto simp: Let_def)
  done

lemmas step_yields = yields_then [OF formula_argument_yields] yields_then [OF variable_argument_yields] yields_then [OF step_argument_yields]
  yields_then [OF yields_after_comma [OF formula_argument_yields]] yields_then [OF yields_after_comma [OF variable_argument_yields]]
  yields_then [OF yields_after_comma [OF step_argument_yields]] yields_then [OF yields_after_comma [OF schema_parameters_yields]] yields_return

lemma two_formulas_step_yields:
  "(\<And>a b. pf_ok a \<Longrightarrow> pf_ok b \<Longrightarrow> step_ok (build a b)) \<Longrightarrow> yields src lo step_ok (two_formulas_step h r s build)"
  unfolding two_formulas_step_def [abs_def] by (intro step_yields)

lemma two_variables_step_yields:
  "(\<And>v w a. pf_ok a \<Longrightarrow> step_ok (build v w a)) \<Longrightarrow> yields src lo step_ok (two_variables_step h r build)"
  unfolding two_variables_step_def [abs_def] by (intro step_yields)

lemma longer_steps_yield:
  "yields src lo step_ok (frege_step h)" "yields src lo step_ok (distribution_step h)" "yields src lo step_ok (separation_step h)"
  "yields src lo step_ok (replacement_step h)" "yields src lo step_ok modus_ponens_step" "yields src lo step_ok generalization_step"
  unfolding frege_step_def [abs_def] distribution_step_def [abs_def] separation_step_def [abs_def] replacement_step_def [abs_def]
    modus_ponens_step_def [abs_def] generalization_step_def [abs_def]
  by (intro step_yields; simp)+

lemma short_steps_yield:
  "yields src lo step_ok (\<lambda>p. map_ok (\<lambda>(formula, p). (VacuousStep formula, p)) (formula_argument h RFormula p))"
  "yields src lo step_ok (\<lambda>p. map_ok (\<lambda>(variable, p). (ReflexivityStep variable, p)) (variable_argument RVariable p))"
  "yields src lo step_ok (\<lambda>p. map_ok (\<lambda>(ax, p). (ZfcAxiomStep ax, p)) (nao_zfc_axiom p))"
  "yields src lo step_ok (\<lambda>p. map_ok (\<lambda>(i, p). (ProofReference i, p)) (argument RProof (citation h) p))"
  by (rule yields_map [OF formula_argument_yields], simp) (rule yields_map [OF variable_argument_yields], simp,
      rule yields_map [OF nao_zfc_axiom_yields], simp, rule yields_map [OF yields_argument [OF citation_yields]], simp)

lemma step_rule_yields: "step_rule h rule = Some run \<Longrightarrow> yields src lo step_ok run"
  by (auto simp: step_rule_def longer_steps_yield short_steps_yield split: if_splits
      intro!: two_formulas_step_yields two_variables_step_yields)

lemma nao_proof_step_yields: "yields src lo step_ok (nao_proof_step h)"
  unfolding yields_def nao_proof_step_def Let_def
  apply (intro allI impI)
  apply (rule safe_and_then [OF nao_name_safe], simp, clarify)
  apply (rule safe_and_then [OF nao_punctuation_safe], erule np_spare_inv, simp, elim conjE)
  apply (rule safe_and_then [OF safe_ok_or [where p = "\<lambda>run. yields src lo step_ok run"]], erule step_rule_yields)
  apply (rule safe_and_then [OF yieldsD], assumption, erule np_spare_inv, clarify)
  by (auto intro!: safe_mono [OF nao_call_end_safe])

lemma named_step_safe:
  assumes p: "np_inv src lo p" and count: "count < 2 ^ 32"
  shows "safe (\<lambda>(name, step, p'). np_inv src lo p' \<and> step_ok step) (named_step h count p)"
proof -
  have position: "u32_try_from count = Some (of_nat count)" using count by (simp add: u32_try_from_Some)
  have span: "source_span_new (next_offset p) (np_offset q) \<noteq> None" if "np_inv src lo q" for q
    using next_offset_spec(2) [OF p] np_inv_bound(1,2) [OF that] by (simp add: source_span_new_def u32_fits_def)
  show ?thesis
    unfolding named_step_def Let_def position expect.simps and_then.simps
    apply (rule safe_and_then [OF nao_name_safe [OF p]], clarify)
    apply (rule safe_refuse)
    apply (rule safe_and_then [OF nao_punctuation_safe], erule np_spare_inv, simp, elim conjE)
    apply (rule safe_and_then [OF yieldsD [OF nao_proof_step_yields]], erule np_spare_inv, clarify)
    subgoal for a b x step q using span [of q] by auto
    done
qed

lemma steps_loop_safe:
  "np_inv src lo p \<Longrightarrow> \<forall>s\<in>set steps. step_ok s \<Longrightarrow> length steps + allowed < 2 ^ 32 \<Longrightarrow>
     safe (\<lambda>(steps', l, p'). np_inv src lo p' \<and> (\<forall>s\<in>set steps'. step_ok s)) (steps_loop allowed h steps l p)"
proof (induction allowed arbitrary: steps l p)
  case 0
  then show ?case by (auto intro!: safe_and_then [OF nao_peek_word_safe])
next
  case (Suc allowed)
  show ?case
    unfolding steps_loop.simps
    apply (rule safe_and_then [OF nao_peek_word_safe [OF Suc.prems(1)]], clarify)
    apply (split if_split, intro conjI impI)
    using Suc.prems apply simp
    apply (rule safe_and_then [OF named_step_safe], assumption)
    using Suc.prems apply simp
    apply clarify
    using Suc.prems by (intro Suc.IH) auto
qed

section \<open>Definitions\<close>

lemma definition_parameters_loop_safe:
  "np_inv src lo p \<Longrightarrow> safe (\<lambda>(vs, p'). np_inv src lo p' \<and> length vs \<le> length us + allowed) (definition_parameters_loop allowed us p)"
proof (induction allowed arbitrary: p us)
  case (Suc allowed)
  have rest: "safe (\<lambda>(vs, p'). np_inv src lo p' \<and> length vs \<le> length us + Suc allowed)
      (if nao_byte (nao_trivia q) = Some (CHR '')'') then Ok (us @ [v], nao_trivia q) else definition_parameters_loop allowed (us @ [v]) (nao_trivia q))"
    if "np_inv src lo q" for q v
    using nao_trivia_inv(1) [OF that] Suc.IH [OF nao_trivia_inv(1) [OF that], of "us @ [v]"] by simp
  show ?case
    unfolding definition_parameters_loop.simps Let_def
    apply (rule safe_and_then [OF definition_variable_safe [OF Suc.prems]], clarify)
    apply (split if_split, intro conjI impI)
    using nao_trivia_inv(1) apply simp
    apply (rule safe_and_then [OF nao_punctuation_safe], erule nao_trivia_inv(1), simp, elim conjE)
    by (rule rest, erule np_spare_inv)
qed simp

lemma definition_parameters_safe:
  "np_inv src lo p \<Longrightarrow> safe (\<lambda>(vs, p'). np_inv src lo p' \<and> length vs \<le> 256) (definition_parameters p)"
  using nao_trivia_inv(1) [of src lo p] definition_parameters_loop_safe [of src lo "nao_trivia p" "[]" 256]
  by (simp add: definition_parameters_def Let_def DEFINITION_MAX_GRAPH_ARITY_def)

lemma safe_and_then_eq: "safe p m \<Longrightarrow> (\<And>x. m = Ok x \<Longrightarrow> p x \<Longrightarrow> safe q (f x)) \<Longrightarrow> safe q (and_then m f)"
  by (cases m) simp_all

lemma safe_refuse_else: "safe P m \<Longrightarrow> safe P (if c then m else Err e)"
  by simp

lemma from_primitive_returns: "from_primitive a \<noteq> Panic"
  by (simp add: from_primitive_def)

lemma declared_kind_safe:
  assumes "np_inv src lo p"
  shows "safe (\<lambda>(kind, p'). np_inv src lo p') (declared_kind name offset p)"
proof -
  have fits: "u32_try_from n = Some (of_nat n)" if "n \<le> 256" for n using that by (simp add: u32_try_from_Some)
  show ?thesis
    unfolding declared_kind_def
    apply (split if_split, intro conjI impI)
     apply (rule safe_and_then [OF definition_parameters_safe [OF assms]], clarify, rule safe_refuse, simp add: fits)
    apply (rule safe_refuse_else)
    apply (rule safe_and_then [OF definition_parameters_safe [OF assms]], clarify, rule safe_refuse, simp add: fits)
    done
qed

lemma next_offset_small: "np_inv src lo p \<Longrightarrow> next_offset p < 2 ^ 32"
  using next_offset_spec(2) [of src lo p] np_inv_bound(2) [of src lo p] by simp

lemma declared_definition_safe:
  assumes p: "np_inv src lo p"
  shows "safe (\<lambda>(kind, body, i, offset, p'). np_inv src lo p' \<and> d_well_formed body \<and> offset < 2 ^ 32) (declared_definition h p)"
proof -
  show ?thesis
    unfolding declared_definition_def Let_def
    apply (rule safe_and_then [OF nao_keyword_safe [OF p]], elim conjE, frule next_offset_small [OF np_spare_inv])
    apply (rule safe_and_then [OF nao_name_safe], erule np_spare_inv, clarify)
    apply (rule safe_refuse, rule safe_refuse)
    apply (rule safe_and_then [OF nao_punctuation_safe], erule np_spare_inv, simp, elim conjE)
    apply (rule safe_and_then [OF nao_name_safe], erule np_spare_inv, clarify)
    apply (rule safe_and_then [OF nao_punctuation_safe], erule np_spare_inv, simp, elim conjE)
    apply (rule safe_and_then [OF declared_kind_safe], erule np_spare_inv, clarify)
    apply (rule safe_and_then [OF nao_call_end_safe], assumption, elim conjE)
    apply (rule safe_and_then [OF nao_punctuation_safe], erule np_spare_inv, simp, elim conjE)
    apply (rule safe_and_then [OF nao_formula_safe], erule np_spare_inv, clarify)
    apply (unfold safe_map_ok, rule safe_mono [OF nao_end_safe], assumption, simp)
    done
qed

context checked_state
begin

lemma expansion_safe:
  "safe (\<lambda>a. expand_with d (cv_resolve_definition (state_view h st)) = Ok a)
    (map_err e (map_ok fst (expand_with_node_limit d (cv_resolve_definition (state_view h st)) FORMULA_MAX_NODES)))"
  using expand_with_node_limit_not_Panic [of "cv_resolve_definition (state_view h st)"] resolve_not_Panic by (auto simp: safe_iff expand_with_def)

lemma kind_returns: "cv_definition_kind (state_view h st) d \<noteq> Panic"
  by (simp add: cv_definition_kind_def state_view_def)

lemma normalize_definition_safe:
  assumes "digest_ok h"
  shows "safe (\<lambda>cd. checked_definition_ok h cd \<and> dc_kind (cd_certificate cd) = kind \<and>
      (\<exists>a. expand_with body (cv_resolve_definition (state_view h st)) = Ok a \<and> dc_body (cd_certificate cd) = lift_node a))
    (normalize_and_check_definition_with_state h kind body (state_view h st))"
proof -
  let ?v = "cv_resolve_definition (state_view h st)"
  have lift: "safe (\<lambda>d. d = lift_node a) (map_err DefCanonicalBody (from_primitive a))" for a
    using from_primitive_returns [of a] by (auto simp: safe_iff from_primitive_Ok)
  have new: "safe (\<lambda>c. certificate_ok h c \<and> dc_kind c = kind \<and> dc_body c = lift_node a) (map_err DefCertificate (definition_new h kind (lift_node a)))"
    if "expand_with body ?v = Ok a" for a
    using expand_with_Ok(1) [OF that] definition_new_not_Panic [of h kind "lift_node a"]
    by (auto simp: safe_iff certificate_ok_def definition_new_Ok dc_of_def d_well_formed_def well_formed_def)
  have check: "safe (\<lambda>cd. checked_definition_ok h cd \<and> cd_certificate cd = c) (check_definition_with_state h c (state_view h st))" if "certificate_ok h c" for c
    using definition_checking_returns [OF assms that] check_definition_sound [OF _ that] by (auto simp: safe_iff)
  show ?thesis
    unfolding normalize_and_check_definition_with_state_def
    apply (rule safe_and_then [OF expansion_safe], rule safe_and_then [OF lift], hypsubst, rule safe_and_then [OF new], assumption, elim conjE)
    by (rule safe_mono [OF check], assumption, auto)
qed

lemma definition_failure_safe:
  assumes "np_inv src lo p" "np_inv src lo q" "offset < 2 ^ 32"
  shows "safe P (definition_failure i (next_offset p) (max (np_offset q) offset) e)"
proof -
  have "source_span_new (next_offset p) (max (np_offset q) offset) \<noteq> None"
    using next_offset_spec(2) [OF assms(1)] np_inv_bound [OF assms(1)] np_inv_bound [OF assms(2)] assms(3) by (simp add: source_span_Some)
  then show ?thesis by (cases e) (auto simp: definition_failure_def)
qed

lemma compile_definition_safe:
  assumes "digest_ok h" and p: "np_inv src lo p"
  shows "safe (\<lambda>a. \<exists>cd kind body rest. a = CompiledDefinition cd \<and> checked_definition_ok h cd \<and> dc_kind (cd_certificate cd) = kind \<and>
      declared_definition h p = Ok (kind, body, rest) \<and> d_well_formed body \<and>
      (\<exists>a. expand_with body (cv_resolve_definition (state_view h st)) = Ok a \<and> dc_body (cd_certificate cd) = lift_node a))
    (compile_definition h (state_view h st) p)"
proof -
  have checked: "safe (\<lambda>a. \<exists>cd. a = CompiledDefinition cd \<and> checked_definition_ok h cd \<and> dc_kind (cd_certificate cd) = kind \<and>
        (\<exists>a. expand_with body (cv_resolve_definition (state_view h st)) = Ok a \<and> dc_body (cd_certificate cd) = lift_node a))
      (map_ok CompiledDefinition (or_fail (definition_failure i (next_offset p) (max (np_offset q) offset))
        (normalize_and_check_definition_with_state h kind body (state_view h st))))"
    if "np_inv src lo q" "offset < 2 ^ 32" for i q offset kind body
    using normalize_definition_safe [OF assms(1), of kind body] definition_failure_safe [OF p that]
    by (cases "normalize_and_check_definition_with_state h kind body (state_view h st)") simp_all
  show ?thesis
    unfolding compile_definition_def Let_def
    apply (rule safe_and_then_eq [OF declared_definition_safe [OF p]], clarify)
    by (rule safe_mono [OF checked], assumption, assumption, auto)
qed

end

section \<open>The proof of the goal\<close>

lemma position_of_bound: "position_of n ns k = Some i \<Longrightarrow> i < k + length ns"
  by (induction n ns k rule: position_of.induct) (auto split: if_splits)

lemma source_step_Some: "length ns < 2 ^ 32 \<Longrightarrow> source_step ns n \<noteq> None"
  using position_of_bound [of n ns 0] by (fastforce simp: source_step_def u32_try_from_Some split: option.splits)

lemma encode_canonical_returns: "wire_admitted FORMULA_MAX_NODES a \<Longrightarrow> encode_canonical a = Ok (wire a)"
  by (simp add: encode_canonical_Ok)

lemma check_failure_safe:
  assumes "wire_admitted FORMULA_MAX_NODES statement" "length origins < 2 ^ 32" "offset < 2 ^ 32"
  shows "safe P (check_failure statement bindings origins offset e)"
  using assms source_step_Some [of origins "check_error_step e"]
  by (auto simp: check_failure_def Let_def encode_canonical_returns source_span_Some)

lemma mismatch_failure_safe:
  assumes "well_formed statement" "wire_admitted FORMULA_MAX_NODES statement" "checked_proof_ok h cp" "cp_conclusion cp \<noteq> statement"
  shows "safe P (mismatch_failure statement cp span)"
proof -
  have small: "binders a < 2 ^ 32" if "wire_admitted FORMULA_MAX_NODES a" for a
    using that binders_le_depth [of a] by (simp add: wire_admitted_def)
  have "wire_admitted FORMULA_MAX_NODES (cp_conclusion cp)" "well_formed (cp_conclusion cp)"
    using assms(3) provable_well_formed by (auto simp: checked_proof_ok_def)
  moreover have "to_canonical_bytes (nf_certificate (cp_normal_form cp)) \<noteq> None"
    using assms(3) to_canonical_bytes_ok by (simp add: checked_proof_ok_def)
  moreover obtain m where "mismatch_between statement (cp_conclusion cp) = Some (Some m)"
    using mismatch_between_iff [of statement "cp_conclusion cp"] assms(1,2,4) calculation(1,2) small by blast
  ultimately show ?thesis
    using assms(2) by (auto simp: mismatch_failure_def encode_canonical_returns)
qed

context checked_state
begin

lemma check_proof_safe:
  assumes "digest_ok h" "well_formed statement" "wire_admitted FORMULA_MAX_NODES statement" "\<forall>s\<in>set steps. step_ok s" "offset < 2 ^ 32"
  shows "safe (\<lambda>a. \<exists>cp. a = CompiledProof cp \<and> checked_proof_ok h cp \<and> cp_conclusion cp = statement)
    (check_proof h (state_view h st) statement span offset bindings steps)"
proof (cases "certificate_new steps")
  case (Ok cert)
  then have cert: "cert_ok cert" using assms(4) by (auto simp: certificate_new_Ok cert_ok_def)
  then obtain nz where nz: "normalize_with_step_origins cert = Some (\<lparr>cert_steps = nz_steps nz\<rparr>, nz_indices nz, vn_normalized (nz_variables nz))"
    "nz_ok (cert_steps cert) nz" "nz_steps nz \<noteq> []" by (rule normalize_with_step_origins_Some)
  have valid: "cert_ok \<lparr>cert_steps = nz_steps nz\<rparr>"
    using cert nz(2,3) by (intro nz_steps_valid [of "cert_steps cert"]) (simp_all add: steps_valid_def cert_ok_def)
  have "length (nz_indices nz) < 2 ^ 32" using nz(2) cert by (simp add: nz_ok_def nz_shape_def cert_ok_def)
  note fail = check_failure_safe [OF assms(3) this assms(5)]
  have "safe (checked_proof_ok h) (or_fail (check_failure statement bindings (nz_indices nz) offset)
      (check_normal_form_with_state h \<lparr>nf_certificate = \<lparr>cert_steps = nz_steps nz\<rparr>\<rparr> (state_view h st)))"
    using check_normal_form_not_Panic [OF _ assms(1), of "\<lparr>nf_certificate = \<lparr>cert_steps = nz_steps nz\<rparr>\<rparr>"]
      checked_proof [OF assms(1), of "\<lparr>nf_certificate = \<lparr>cert_steps = nz_steps nz\<rparr>\<rparr>"] valid fail
    by (cases "check_normal_form_with_state h \<lparr>nf_certificate = \<lparr>cert_steps = nz_steps nz\<rparr>\<rparr> (state_view h st)") simp_all
  then show ?thesis
    unfolding check_proof_def Ok map_err.simps and_then.simps nz(1) expect.simps prod.case
    by (rule safe_and_then) (use mismatch_failure_safe [OF assms(2,3)] in auto)
qed (simp_all add: check_proof_def certificate_new_not_Panic)

lemma nao_goal_safe:
  assumes p: "np_inv src lo p"
  shows "safe (\<lambda>(goal, statement, span, p'). np_inv src lo p' \<and> d_well_formed goal \<and> well_formed statement \<and> wire_admitted FORMULA_MAX_NODES statement \<and>
      expand_with goal (cv_resolve_definition (state_view h st)) = Ok statement)
    (nao_goal h (state_view h st) p)"
proof -
  let ?v = "cv_resolve_definition (state_view h st)"
  have span: "source_span_new (next_offset q) (np_offset r) \<noteq> None" if "np_inv src lo q" "np_inv src lo r" for q r
    using next_offset_spec(2) [OF that(1)] np_inv_bound(1,2) [OF that(2)] by (simp add: source_span_new_def u32_fits_def)
  show ?thesis
    unfolding nao_goal_def Let_def
    apply (rule safe_and_then [OF nao_keyword_safe [OF p]], elim conjE)
    apply (rule safe_and_then [OF nao_punctuation_safe], erule np_spare_inv, simp, elim conjE)
    apply (rule safe_and_then [OF nao_formula_safe], erule np_spare_inv, clarify)
    apply (rule safe_and_then [OF expansion_safe])
    subgoal for q r goal s statement
      using span [of r s] expand_with_Ok(1,2) [of goal ?v statement] np_spare_inv [of src lo r] by auto
    done
qed

end

section \<open>Compilation\<close>

lemma nao_parser_new_inv: "is_utf8 source \<Longrightarrow> length source \<le> AUTHORING_SOURCE_MAX_BYTES \<Longrightarrow> np_inv source 0 (nao_parser_new source)"
  by (simp add: np_inv_def nao_parser_new_def AUTHORING_SOURCE_MAX_BYTES_def variables_default_def is_utf8_ok)

text \<open>What the source says: its goal, or its definition, parsed after its declarations.\<close>

definition states_goal :: "hash \<Rightarrow> context_view \<Rightarrow> string \<Rightarrow> dnode \<Rightarrow> node \<Rightarrow> bool" where
  "states_goal h v source goal a \<longleftrightarrow>
     (\<exists>p q span rest. declarations h v (nao_parser_new source) = Ok p \<and> nao_peek_word ''def'' p = Ok (False, q) \<and>
       nao_goal h v q = Ok (goal, a, span, rest))"

definition states_definition :: "hash \<Rightarrow> context_view \<Rightarrow> string \<Rightarrow> definition_kind \<Rightarrow> dnode \<Rightarrow> bool" where
  "states_definition h v source kind body \<longleftrightarrow>
     (\<exists>p q rest. declarations h v (nao_parser_new source) = Ok p \<and> nao_peek_word ''def'' p = Ok (True, q) \<and>
       declared_definition h q = Ok (kind, body, rest))"

text \<open>The relations that the definitions of a state stand for, in a structure.\<close>

definition state_meaning :: "artifact_state \<Rightarrow> 'd universe \<Rightarrow> definition_id \<Rightarrow> 'd list \<Rightarrow> bool" where
  "state_meaning st E i xs = (case as_definition_certificate st i of None \<Rightarrow> False | Some c \<Rightarrow> definition_meaning E c xs)"

definition artifact_checked :: "hash \<Rightarrow> artifact_state \<Rightarrow> string \<Rightarrow> compiled_artifact \<Rightarrow> bool" where
  "artifact_checked h st source artifact \<longleftrightarrow>
     (case artifact of
        CompiledProof cp \<Rightarrow> checked_proof_ok h cp \<and>
          (\<exists>goal. states_goal h (state_view h st) source goal (cp_conclusion cp) \<and> d_well_formed goal \<and>
            expand_with goal (cv_resolve_definition (state_view h st)) = Ok (cp_conclusion cp))
      | CompiledDefinition cd \<Rightarrow> checked_definition_ok h cd \<and>
          (\<exists>body a. states_definition h (state_view h st) source (dc_kind (cd_certificate cd)) body \<and> d_well_formed body \<and>
            expand_with body (cv_resolve_definition (state_view h st)) = Ok a \<and> dc_body (cd_certificate cd) = lift_node a))"

context checked_state
begin

lemma compile_proof_safe:
  assumes "digest_ok h" and p: "np_inv src lo p"
  shows "safe (\<lambda>a. \<exists>cp goal span rest. a = CompiledProof cp \<and> checked_proof_ok h cp \<and>
      nao_goal h (state_view h st) p = Ok (goal, cp_conclusion cp, span, rest) \<and> d_well_formed goal \<and>
      expand_with goal (cv_resolve_definition (state_view h st)) = Ok (cp_conclusion cp))
    (compile_proof h (state_view h st) p)"
  unfolding compile_proof_def Let_def
  apply (rule safe_and_then_eq [OF nao_goal_safe [OF p]], clarify)
  apply (frule next_offset_small)
  apply (rule safe_and_then [OF nao_keyword_safe], assumption, elim conjE)
  apply (rule safe_and_then [OF nao_punctuation_safe], erule np_spare_inv, simp, elim conjE)
  apply (rule safe_and_then [OF steps_loop_safe], erule np_spare_inv, simp, simp add: CERTIFICATE_MAX_STEPS_def, clarify)
  apply (rule safe_and_then [OF nao_keyword_safe], assumption, elim conjE)
  apply (rule safe_and_then [OF nao_name_safe], erule np_spare_inv, clarify)
  apply (rule safe_and_then [OF nao_end_safe], erule np_spare_inv, rule safe_refuse)
  apply (rule safe_mono [OF check_proof_safe [OF assms(1)]], assumption, assumption, assumption, assumption)
  by blast

lemma nao_compile_safe:
  assumes "digest_ok h" "is_utf8 source" "length source \<le> AUTHORING_SOURCE_MAX_BYTES"
  shows "safe (artifact_checked h st source) (nao_compile h (state_view h st) (nao_parser_new source))"
  unfolding nao_compile_def
  apply (rule safe_and_then_eq [OF declarations_safe [OF kind_returns nao_parser_new_inv [OF assms(2,3)]]])
  apply (rule safe_and_then_eq [OF nao_peek_word_safe], assumption, clarify)
  apply (split if_split, intro conjI impI)
   apply (rule safe_mono [OF compile_definition_safe [OF assms(1)]], assumption)
  apply (force simp: artifact_checked_def states_definition_def)
  apply (rule safe_mono [OF compile_proof_safe [OF assms(1)]], assumption)
  by (force simp: artifact_checked_def states_goal_def)

lemma compile_with_artifact_state_safe:
  assumes "digest_ok h" "is_utf8 source"
  shows "safe (artifact_checked h st source) (compile_with_artifact_state h source (state_view h st))"
  using nao_compile_safe [OF assms] by (simp add: compile_with_artifact_state_def)

lemma definitions_interpreted: "interprets E (state_meaning st E) (cv_resolve_definition (state_view h st))"
proof -
  have "interprets E (\<lambda>i xs. case as_definition_certificate st i of None \<Rightarrow> False | Some c \<Rightarrow> definition_meaning E c xs) (cv_resolve_definition (state_view h st))"
    by (rule certificates_interpreted [where h = h]) (use ok in \<open>auto simp: state_view_def as_resolve_definition_def as_definition_certificate_def state_ok_def definitions_def stored_ok_def option.map_comp comp_def\<close>)
  then show ?thesis by (simp add: state_meaning_def [abs_def])
qed

end

end
