(* ===== verification/Nao_Example.thy ===== *)
theory Nao_Example
  imports Nao_Soundness
begin

text \<open>
  One \<open>.nao\<close> source compiled in full, so that what is said of accepted sources applies to something: the goal and the
  two-step proof of the reflexivity of equality. The scanner runs on the text, and the parser, normalizer and checker on
  what it yields. Fuel and limits stay numerals: a loop unfolds one round at a time, and the congruences
  \<open>stepwise\<close> keep the simplifier from entering a continuation before its argument is known.
\<close>

lemmas nao_tokens = element_at_def skip_while.simps trivia.simps is_blank_def is_name_start_def is_name_byte_def is_ascii_alphanumeric_def is_ascii_alphabetic_def
  byte_between_def str_from_def str_range_def is_char_boundary_def is_continuation_def starts_with_def word_at_def name_at_def
  nao_trivia_def next_offset_def nao_byte_def nao_advance_def nao_name_def nao_keyword_def nao_punctuation_def nao_end_def nao_peek_word_def nao_call_end_def
  Let_def
lemmas nao_limits = FORMULA_MAX_DEPTH_def FORMULA_MAX_NODES_def u32_add_def u32_fits_def source_span_new_def source_range_new_def
lemmas nao_allocation = vs_contains_def vs_fresh_def vs_name_def variable_named_def nao_variable_def checked_add_def variables_default_def

definition refl_source :: string where
  "refl_source = ''goal=all(x,eq(x,x)) proof: r=refl(x) g=gen(r,x) return g''"

text \<open>The parser on this source: at an offset, with the variable \<open>x\<close> allocated and a number of nodes charged to the goal.\<close>

definition refl_at :: "nat \<Rightarrow> nat \<Rightarrow> argument_origin list \<Rightarrow> (string \<times> step_binding) list \<Rightarrow> nao_parser" where
  "refl_at offset nodes arguments steps = (nao_parser_new refl_source)\<lparr>np_offset := offset, np_variables := \<lparr>vs_named = [''x'' \<mapsto> 0], vs_next = 1\<rparr>,
     np_statement_nodes := nodes, np_pending_arguments := arguments, np_steps := steps\<rparr>"

lemma refl_source_utf8: "is_utf8 refl_source"
  by (simp add: refl_source_def)

lemmas refl_state = refl_at_def nao_parser_new_def refl_source_def

lemmas numeral_rounds = parse_formula.simps(2) [of "pred_numeral k" for k, folded numeral_eq_Suc]
  nao_term.simps(2) [of "pred_numeral k" for k, folded numeral_eq_Suc]
  binders_loop.simps(2) [of "pred_numeral k" for k, folded numeral_eq_Suc]

lemma and_then_stepwise: "m = n \<Longrightarrow> and_then m f = and_then n f"
  by simp

lemma map_ok_stepwise: "m = n \<Longrightarrow> map_ok f m = map_ok f n"
  by simp

lemmas stepwise = and_then_stepwise map_ok_stepwise let_weak_cong prod.case_cong_weak

lemma refl_declarations: "declarations h v (nao_parser_new refl_source) = Ok (nao_parser_new refl_source)"
  "nao_peek_word ''def'' (nao_parser_new refl_source) = Ok (False, nao_parser_new refl_source)"
  by (simp_all add: declarations_def when_word_def nao_tokens refl_state cong: stepwise)

lemma refl_opening:
  "nao_keyword ''goal'' (nao_parser_new refl_source) = Ok ((nao_parser_new refl_source)\<lparr>np_offset := 4\<rparr>)"
  "nao_punctuation (CHR ''='') ((nao_parser_new refl_source)\<lparr>np_offset := 4\<rparr>) = Ok ((nao_parser_new refl_source)\<lparr>np_offset := 5\<rparr>)"
  "next_offset ((nao_parser_new refl_source)\<lparr>np_offset := 5\<rparr>) = 5"
  "nao_start h 1 StatementContext ((nao_parser_new refl_source)\<lparr>np_offset := 5\<rparr>) = Ok (StartCall ''all'' 5, (nao_parser_new refl_source)\<lparr>np_offset := 9, np_statement_nodes := 1\<rparr>)"
  "nao_binders 5 ((nao_parser_new refl_source)\<lparr>np_offset := 9, np_statement_nodes := 1\<rparr>) = Ok ([0], refl_at 10 1 [] [])"
  by (simp_all add: nao_start_def is_reserved_binding_name_def is_formula_operator_def operator_parse_def charge_formula_nodes_def
      nao_binders_def binder_list_def nao_allocation numeral_rounds nao_limits nao_tokens refl_state cong: stepwise)

lemma refl_inner:
  "nao_punctuation (CHR '','') (refl_at 10 1 [] []) = Ok (refl_at 11 1 [] [])"
  "nao_quantified_depth OpAll 1 5 1 StatementContext (refl_at 11 1 [] []) = Ok (2, refl_at 11 1 [] [])"
  "nao_start h 2 StatementContext (refl_at 11 1 [] []) = Ok (StartCall ''eq'' 11, refl_at 14 2 [] [])"
  "two_terms h (term_budget_new StatementContext 2 1) (refl_at 14 2 [] []) = Ok ([term_of_variable 0, term_of_variable 0], refl_at 17 2 [] [])"
  "nao_call_end (refl_at 17 2 [] []) = Ok (refl_at 18 2 [] [])" "nao_call_end (refl_at 18 2 [] []) = Ok (refl_at 19 2 [] [])"
  by (simp_all add: nao_start_def is_reserved_binding_name_def is_formula_operator_def operator_parse_def charge_formula_nodes_def
      nao_quantified_depth_def nao_extra_def check_expanded_depth_def two_terms_def TERM_FUEL_def
      nao_allocation numeral_rounds nao_limits nao_tokens refl_state cong: stepwise)

lemmas refl_opened = refl_opening [unfolded One_nat_def]
lemmas refl_parsed = refl_inner [unfolded One_nat_def]

lemma refl_body: "d_encode_canonical_with_node_limit (d_equal 0 0) 65536 = Ok (d_wire (d_equal 0 0), 1)"
  by (simp add: d_encode_canonical_with_node_limit_Ok d_wire_admitted_def d_equal_def FORMULA_MAX_NODES_def FORMULA_MAX_BYTES_def)

lemma refl_nodes: "np_statement_nodes (refl_at i n as ss) = n" "(refl_at i n as ss)\<lparr>np_statement_nodes := m\<rparr> = refl_at i m as ss"
  by (simp_all add: refl_at_def)

lemma refl_equality: "parse_equal h 11 2 StatementContext False (refl_at 14 2 [] []) =
    Ok (\<lparr>pd_formula = d_equal 0 0, pd_expanded_nodes = 1, pd_expanded_depth = 1\<rparr>, refl_at 17 2 [] [])"
  using refl_body by (simp add: parse_equal_def refl_parsed relationalized_formula_def term_of_variable_def term_depth_def check_expanded_depth_def charge_formula_nodes_def
      on_pair_def element_at_def nao_limits Let_def refl_nodes del: and_then_Ok map_ok_Ok cong: stepwise)

lemma refl_call: "parse_formula (Suc 255) (nao_builder h) StatementContext 2 (refl_at 11 1 [] []) =
    Ok (\<lparr>pd_formula = d_equal 0 0, pd_expanded_nodes = 1, pd_expanded_depth = 1\<rparr>, refl_at 18 2 [] [])"
  unfolding parse_formula.simps
  by (simp add: nao_builder_def refl_parsed parse_call_def operator_parse_def nao_atom_def refl_equality [unfolded One_nat_def] nao_finish_def del: and_then_Ok map_ok_Ok cong: stepwise)

lemma refl_goal_formula: "nao_formula h 1 StatementContext ((nao_parser_new refl_source)\<lparr>np_offset := 5\<rparr>) = Ok (DForAll (DEqual (Bound 0) (Bound 0)), refl_at 19 2 [] [])"
  using refl_call [of h]
  by (simp add: nao_formula_def nao_parsed_formula_def FORMULA_MAX_DEPTH_def numeral_rounds nao_builder_def refl_opened refl_parsed parse_call_def operator_parse_def
    nao_quantified_def nao_extra_def checked_node_sum_def checked_depth_add_def check_expanded_depth_def nao_limits d_for_all_def d_equal_def d_bind_variable_def checked_add_def nao_finish_def del: and_then_Ok map_ok_Ok cong: stepwise)

lemma refl_goal: "nao_goal h (state_view k as_new) (nao_parser_new refl_source) =
    Ok (DForAll (DEqual (Bound 0) (Bound 0)), refl_sentence, \<lparr>span_start = 5, span_end = 19\<rparr>, refl_at 19 2 [] [])"
proof -
  have off: "np_offset (refl_at 19 2 [] []) = 19" by (simp add: refl_at_def)
  have "expand_with_node_limit (DForAll (DEqual (Bound 0) (Bound 0))) r 65536 = Ok (refl_sentence, 2)" for r
    by (simp add: expand_with_node_limit_def refl_sentence_def spend_def node_budget_new_def instantiate_pair_def instantiate_variable_def FORMULA_MAX_NODES_def into_primitive_Ok well_formed_def wire_admitted_def)
  with off show ?thesis
    by (simp add: nao_goal_def refl_opened refl_goal_formula [unfolded One_nat_def] nao_limits FORMULA_MAX_NODES_def Let_def del: and_then_Ok map_ok_Ok cong: stepwise)
qed

lemma refl_updates [simp]:
  "np_steps (refl_at i n as ss) = ss" "np_pending_arguments (refl_at i n as ss) = as" "np_offset (refl_at i n as ss) = i"
  "(refl_at i n as ss)\<lparr>np_pending_arguments := bs\<rparr> = refl_at i n bs ss" "(refl_at i n as ss)\<lparr>np_steps := ts\<rparr> = refl_at i n as ts"
  by (simp_all add: refl_at_def)

lemma refl_tokens:
  "next_offset (refl_at 19 2 as ss) = 20" "nao_keyword ''proof'' (refl_at 19 2 as ss) = Ok (refl_at 25 2 as ss)"
  "nao_punctuation (CHR '':'') (refl_at 25 2 as ss) = Ok (refl_at 26 2 as ss)"
  "nao_peek_word ''return'' (refl_at 26 2 as ss) = Ok (False, refl_at 27 2 as ss)"
  "next_offset (refl_at 27 2 as ss) = 27" "nao_name (refl_at 27 2 as ss) = Ok (''r'', refl_at 28 2 as ss)"
  "nao_punctuation (CHR ''='') (refl_at 28 2 as ss) = Ok (refl_at 29 2 as ss)"
  "next_offset (refl_at 29 2 as ss) = 29" "nao_name (refl_at 29 2 as ss) = Ok (''refl'', refl_at 33 2 as ss)"
  "nao_punctuation (CHR ''('') (refl_at 33 2 as ss) = Ok (refl_at 34 2 as ss)"
  "nao_call_end (refl_at 35 2 as ss) = Ok (refl_at 36 2 as ss)"
  "nao_peek_word ''return'' (refl_at 36 2 as ss) = Ok (False, refl_at 37 2 as ss)"
  "next_offset (refl_at 37 2 as ss) = 37" "nao_name (refl_at 37 2 as ss) = Ok (''g'', refl_at 38 2 as ss)"
  "nao_punctuation (CHR ''='') (refl_at 38 2 as ss) = Ok (refl_at 39 2 as ss)"
  "next_offset (refl_at 39 2 as ss) = 39" "nao_name (refl_at 39 2 as ss) = Ok (''gen'', refl_at 42 2 as ss)"
  "nao_punctuation (CHR ''('') (refl_at 42 2 as ss) = Ok (refl_at 43 2 as ss)"
  "nao_punctuation (CHR '','') (refl_at 44 2 as ss) = Ok (refl_at 45 2 as ss)"
  "nao_call_end (refl_at 46 2 as ss) = Ok (refl_at 47 2 as ss)"
  "nao_peek_word ''return'' (refl_at 47 2 as ss) = Ok (True, refl_at 48 2 as ss)"
  "nao_keyword ''return'' (refl_at 48 2 as ss) = Ok (refl_at 54 2 as ss)"
  "next_offset (refl_at 54 2 as ss) = 55" "nao_name (refl_at 54 2 as ss) = Ok (''g'', refl_at 56 2 as ss)"
  "nao_end (refl_at 56 2 as ss) = Ok (refl_at 56 2 as ss)"
  by (simp_all add: nao_tokens refl_state cong: stepwise)

definition refl_origin :: "operand_role \<Rightarrow> nat \<Rightarrow> argument_origin" where
  "refl_origin role i = \<lparr>ao_role = role, ao_index = None, ao_range = (i, i + 1), ao_expansions = [], ao_expansions_complete = True\<rparr>"

lemma refl_arguments:
  "variable_argument RVariable (refl_at 34 2 as ss) = Ok (0, refl_at 35 2 (as @ [refl_origin RVariable 34]) ss)"
  "variable_argument RVariable (refl_at 45 2 as ss) = Ok (0, refl_at 46 2 (as @ [refl_origin RVariable 45]) ss)"
  "step_argument RPremise (refl_at 43 2 as ((''r'', b) # ss)) = Ok (sb_position b, refl_at 44 2 (as @ [refl_origin RPremise 43]) ((''r'', b) # ss))"
  by (simp_all add: variable_argument_def step_argument_def earlier_step_def argument_def refl_origin_def nao_tokens refl_state nao_limits nao_allocation
      cong: stepwise del: and_then_Ok map_ok_Ok)

lemma refl_rules:
  "step_rule h ''refl'' = Some (\<lambda>p. map_ok (\<lambda>(variable, p). (ReflexivityStep variable, p)) (variable_argument RVariable p))"
  "step_rule h ''gen'' = Some generalization_step"
  by (simp_all add: step_rule_def)

lemma refl_steps:
  obtains b c where "sb_position b = 0"
    "named_step h 0 (refl_at 27 2 [] []) = Ok (''r'', ReflexivityStep 0, refl_at 36 2 [] [(''r'', b)])"
    "named_step h 1 (refl_at 37 2 [] [(''r'', b)]) = Ok (''g'', GeneralizationStep 0 0, refl_at 47 2 [] [(''g'', c), (''r'', b)])"
proof
  show "sb_position \<lparr>sb_position = 0, sb_span = \<lparr>span_start = 27, span_end = 36\<rparr>, sb_arguments = [refl_origin RVariable 34]\<rparr> = 0" by simp
qed (simp_all add: named_step_def nao_proof_step_def refl_tokens refl_rules refl_arguments generalization_step_def after_comma_def nao_limits u32_try_from_def Let_def
    cong: stepwise del: and_then_Ok map_ok_Ok)

lemma refl_steps_loop:
  obtains ss where "steps_loop CERTIFICATE_MAX_STEPS h [] None (refl_at 26 2 [] []) = Ok (cert_steps refl_certificate, Some ''g'', refl_at 48 2 [] ss)"
proof -
  obtain b c where steps: "named_step h 0 (refl_at 27 2 [] []) = Ok (''r'', ReflexivityStep 0, refl_at 36 2 [] [(''r'', b)])"
    "named_step h 1 (refl_at 37 2 [] [(''r'', b)]) = Ok (''g'', GeneralizationStep 0 0, refl_at 47 2 [] [(''g'', c), (''r'', b)])"
    by (rule refl_steps)
  obtain n where n: "CERTIFICATE_MAX_STEPS = Suc (Suc (Suc n))"
  proof
    show "CERTIFICATE_MAX_STEPS = Suc (Suc (Suc 65533))" by (simp add: CERTIFICATE_MAX_STEPS_def)
  qed
  from steps show thesis
    by (intro that) (simp add: n refl_tokens refl_certificate_def cong: stepwise del: and_then_Ok map_ok_Ok)
qed

lemma refl_compiles:
  obtains cp where "compile_with_artifact_state zero_digest refl_source (state_view zero_digest as_new) = Ok (CompiledProof cp)" "cp_conclusion cp = refl_sentence"
proof -
  obtain cp where cp: "check_normal_form_with_state zero_digest \<lparr>nf_certificate = refl_certificate\<rparr> (state_view zero_digest as_new) = Ok cp"
    "cp_conclusion cp = refl_sentence" by (rule refl_checked [OF zero_digest_ok])
  have new: "certificate_new (cert_steps refl_certificate) = Ok refl_certificate"
    using refl_certificate_ok by (simp add: certificate_new_Ok cert_ok_def)
  obtain origins where normal: "normalize_with_step_origins refl_certificate = Some (refl_certificate, origins)"
    using refl_normalizes by (auto simp: into_unchecked_normal_form_def normalize_def)
  obtain ss where "steps_loop CERTIFICATE_MAX_STEPS zero_digest [] None (refl_at 26 2 [] []) = Ok (cert_steps refl_certificate, Some ''g'', refl_at 48 2 [] ss)"
    by (rule refl_steps_loop)
  then have "compile_proof zero_digest (state_view zero_digest as_new) (nao_parser_new refl_source) = Ok (CompiledProof cp)"
    by (simp add: compile_proof_def refl_goal refl_tokens check_proof_def new normal cp Let_def split: prod.split cong: stepwise del: and_then_Ok map_ok_Ok)
  then show thesis
    using that cp(2) by (simp add: compile_with_artifact_state_def nao_compile_def refl_declarations AUTHORING_SOURCE_MAX_BYTES_def CERTIFICATE_MAX_BYTES_def refl_source_def [THEN arg_cong, of length])
qed

end
