(* ===== verification/Nao_Correctness.thy ===== *)
theory Nao_Correctness
  imports Nao_Example
begin








end
