(* ===== verification/Program_Graph.thy ===== *)
theory Program_Graph
  imports Formula_Graph Question_Target
begin

text \<open>
  Formula nodes in a content-addressed store, \<open>naome-proof/src/program.rs\<close>: the bytes of one node with the properties
  recorded for it, the address of a formula, the decoder, and the materialization of a stored formula as a tree. The
  closure \<open>load\<close> that reads a node from the store is a parameter. A \<open>String\<close> that reports an error of
  the formula codec keeps that error.
\<close>

datatype program_error = PText string | PCodec formula_codec_error

section \<open>Bytes of a node\<close>

definition u64_from_be_bytes :: "bytes \<Rightarrow> u64 option" where
  "u64_from_be_bytes bs =
     (case bs of
        [a, b, c, d, e, f, g, i] \<Rightarrow> Some (push_bit 32 (ucast (u32_from_be_bytes a b c d)) OR ucast (u32_from_be_bytes e f g i))
      | _ \<Rightarrow> None)"

definition GRAPH_NODE_DOMAIN :: bytes where
  "GRAPH_NODE_DOMAIN = ascii ''naome:formula-graph'' @ [0]"

definition child_list :: "'i gnode \<Rightarrow> 'i list" where
  "child_list n = (case children n of (a, b) \<Rightarrow> (case a of None \<Rightarrow> [] | Some a \<Rightarrow> [a]) @ (case b of None \<Rightarrow> [] | Some b \<Rightarrow> [b]))"

primrec gnode_tag :: "'i gnode \<Rightarrow> u8" where
  "gnode_tag (GEqual a b) = 0"
| "gnode_tag (GMember a b) = 1"
| "gnode_tag (GNot a) = 2"
| "gnode_tag (GImplies a b) = 3"
| "gnode_tag (GForAll a) = 4"

primrec gvariable_bytes :: "gvariable \<Rightarrow> bytes" where
  "gvariable_bytes (GFree v) = 0 # u64_to_be_bytes (ucast v)"
| "gvariable_bytes (GBound i) = 1 # u64_to_be_bytes i"

definition gnode_variables :: "'i gnode \<Rightarrow> gvariable list" where
  "gnode_variables n = (case n of GEqual a b \<Rightarrow> [a, b] | GMember a b \<Rightarrow> [a, b] | _ \<Rightarrow> [])"

definition graph_node_bytes :: "bytes gnode \<Rightarrow> properties \<Rightarrow> bytes" where
  "graph_node_bytes n p =
     GRAPH_NODE_DOMAIN @ concat (child_list n) @ gnode_tag n # concat (map gvariable_bytes (gnode_variables n)) @
     (if has_free_variables p then 1 else 0) # u64_to_be_bytes (required_binders p)"

definition graph_node_hash :: "hash \<Rightarrow> bytes gnode \<Rightarrow> properties \<Rightarrow> bytes" where
  "graph_node_hash sha256 n p = sha256 (graph_node_bytes n p)"

text \<open>The closure that \<open>formula_hash\<close> folds with: a child is its address and its properties.\<close>

definition hash_node :: "hash \<Rightarrow> (bytes \<times> properties) gnode \<Rightarrow> unit \<Rightarrow> (unit, (bytes \<times> properties) \<times> unit) outcome" where
  "hash_node sha256 n s =
     (case children n of (a, b) \<Rightarrow>
        map_ok (\<lambda>p. ((graph_node_hash sha256 (gmap fst n) p, p), s)) (expect (node_properties n (map_option snd a, map_option snd b))))"

definition formula_hash :: "hash \<Rightarrow> node \<Rightarrow> bytes option" where
  "formula_hash sha256 formula = map_option (\<lambda>((root, _), _). root) (unwrap (fold_graph (hash_node sha256) formula ()))"

definition graph_statement_id :: "hash \<Rightarrow> bytes \<Rightarrow> statement_id" where
  "graph_statement_id sha256 root = sha256 (ascii ''naome:graph-statement'' @ [0] @ FOUNDATION_ID @ root)"

section \<open>Decoding a node\<close>

definition strip_prefix :: "bytes \<Rightarrow> bytes \<Rightarrow> bytes option" where
  "strip_prefix pre bs = (if take (length pre) bs = pre then Some (drop (length pre) bs) else None)"

text \<open>\<open>slice::get\<close> of a range.\<close>

definition slice_at :: "bytes \<Rightarrow> nat \<Rightarrow> nat \<Rightarrow> bytes option" where
  "slice_at bs i n = (if i + n \<le> length bs then Some (take n (drop i bs)) else None)"

definition child_at :: "bytes \<Rightarrow> nat \<Rightarrow> (program_error, bytes) outcome" where
  "child_at body at = ok_or (PText ''formula child width'') (slice_at body at 32)"

definition gvariable_at :: "bytes \<Rightarrow> nat \<Rightarrow> (program_error, gvariable) outcome" where
  "gvariable_at body at =
     and_then (ok_or (PText ''formula variable width'') (Option.bind (slice_at body (at + 1) 8) u64_from_be_bytes)) (\<lambda>v.
     and_then (expect (element_at body at)) (\<lambda>tag.
       if tag = 0 then map_ok GFree (ok_or (PText ''free variable width'') (u32_try_from (unat v)))
       else if tag = 1 then Ok (GBound v)
       else Err (PText ''formula variable tag'')))"

definition gnode_at :: "bytes \<Rightarrow> nat \<Rightarrow> (program_error, bytes gnode) outcome" where
  "gnode_at body offset =
     and_then (expect (element_at body offset)) (\<lambda>tag.
       if offset = 0 \<and> tag = 0 then and_then (gvariable_at body 1) (\<lambda>a. map_ok (GEqual a) (gvariable_at body 10))
       else if offset = 0 \<and> tag = 1 then and_then (gvariable_at body 1) (\<lambda>a. map_ok (GMember a) (gvariable_at body 10))
       else if offset = 32 \<and> tag = 2 then map_ok GNot (child_at body 0)
       else if offset = 64 \<and> tag = 3 then and_then (child_at body 0) (\<lambda>a. map_ok (GImplies a) (child_at body 32))
       else if offset = 32 \<and> tag = 4 then map_ok GForAll (child_at body 0)
       else Err (PText ''formula node tag''))"

definition properties_at :: "bytes \<Rightarrow> nat \<Rightarrow> (program_error, properties) outcome" where
  "properties_at body tail =
     and_then (expect (element_at body tail)) (\<lambda>flag.
     and_then (if flag = 0 then Ok False else if flag = 1 then Ok True else Err (PText ''formula property flag'')) (\<lambda>free.
     map_ok (\<lambda>n. \<lparr>has_free_variables = free, required_binders = n\<rparr>)
       (ok_or (PText ''formula property width'') (u64_from_be_bytes (drop (tail + 1) body)))))"

definition decode_graph_node :: "bytes \<Rightarrow> (program_error, bytes gnode \<times> properties) outcome" where
  "decode_graph_node bs =
     and_then (ok_or (PText ''formula node domain'') (strip_prefix GRAPH_NODE_DOMAIN bs)) (\<lambda>body.
     and_then
       (if length body = 28 then Ok 0 else if length body = 42 then Ok 32 else if length body = 74 then Ok 64
        else Err (PText ''formula node width'')) (\<lambda>offset.
     and_then (gnode_at body offset) (\<lambda>n.
     and_then (properties_at body (length body - 9)) (\<lambda>p.
       if graph_node_bytes n p \<noteq> bs then Err (PText ''noncanonical formula node'') else Ok (n, p)))))"

section \<open>Materialization\<close>

text \<open>The bytes that one node adds; \<open>None\<close> where an index has no place in a tree.\<close>

primrec tree_variable_bytes :: "gvariable \<Rightarrow> bytes option" where
  "tree_variable_bytes (GFree v) = Some (0 # u32_to_be_bytes v)"
| "tree_variable_bytes (GBound i) = map_option (\<lambda>i. 1 # u32_to_be_bytes i) (u32_try_from (unat i))"

primrec all_variable_bytes :: "gvariable list \<Rightarrow> bytes option" where
  "all_variable_bytes [] = Some []"
| "all_variable_bytes (v # vs) = Option.bind (tree_variable_bytes v) (\<lambda>bs. map_option ((@) bs) (all_variable_bytes vs))"

text \<open>The loop over the stack, whose top is the head of the list; the number is how many nodes are still allowed.
  A result without bytes is \<open>return Ok(None)\<close>.\<close>

primrec bounded_loop ::
  "nat \<Rightarrow> ('i \<Rightarrow> (program_error, 'i gnode) outcome) \<Rightarrow> ('i \<times> nat) list \<Rightarrow> bytes \<Rightarrow> (program_error, bytes option) outcome" where
  "bounded_loop 0 load pending bs = (case pending of [] \<Rightarrow> Ok (Some bs) | _ # _ \<Rightarrow> Ok None)"
| "bounded_loop (Suc allowed) load pending bs =
     (case pending of
        [] \<Rightarrow> Ok (Some bs)
      | (i, depth) # pending \<Rightarrow>
          if FORMULA_MAX_DEPTH < depth then Ok None
          else and_then (load i) (\<lambda>n.
            case all_variable_bytes (gnode_variables n) of
              None \<Rightarrow> Ok None
            | Some vs \<Rightarrow>
                let bs = bs @ gnode_tag n # vs
                in if FORMULA_MAX_BYTES < length bs then Ok None
                   else bounded_loop allowed load (map (\<lambda>c. (c, depth + 1)) (child_list n) @ pending) bs))"

definition bounded_formula ::
  "'i \<Rightarrow> ('i \<Rightarrow> (program_error, 'i gnode) outcome) \<Rightarrow> (program_error, node option) outcome" where
  "bounded_formula root load =
     and_then (bounded_loop FORMULA_MAX_NODES load [(root, 0)] []) (\<lambda>bytes.
       case bytes of None \<Rightarrow> Ok None | Some bs \<Rightarrow> map_err PCodec (map_ok Some (decode_canonical bs)))"

section \<open>The bytes of a node determine it\<close>

lemma u64_to_be_bytes_halves: "u64_to_be_bytes w = u32_to_be_bytes (ucast (drop_bit 32 w)) @ u32_to_be_bytes (ucast w)"
  unfolding u64_to_be_bytes_def u32_to_be_bytes_def by (auto simp: upt_rec bit_simps intro!: bit_word_eqI)

lemma length_u64_bytes [simp]: "length (u64_to_be_bytes w) = 8"
  by (simp add: u64_to_be_bytes_def)

lemma u64_halves: "push_bit 32 (ucast (ucast (drop_bit 32 w) :: u32)) OR ucast (ucast w :: u32) = (w :: u64)"
  by (rule bit_word_eqI) (auto simp: bit_simps)

lemma u64_from_to_be_bytes [simp]: "u64_from_be_bytes (u64_to_be_bytes w) = Some w"
  using u32_from_to_be_bytes [of "ucast (drop_bit 32 w)"] u32_from_to_be_bytes [of "ucast w"] u64_halves [of w]
  by (simp only: u64_from_be_bytes_def u64_to_be_bytes_halves u32_to_be_bytes_def append.simps list.case)

lemma u64_to_be_bytes_inj: "u64_to_be_bytes v = u64_to_be_bytes w \<longleftrightarrow> v = w"
  by (metis option.inject u64_from_to_be_bytes)

lemma length_gvariable_bytes [simp]: "length (gvariable_bytes v) = 9"
  by (cases v) simp_all

lemma gvariable_at_append:
  assumes "length xs = at"
  shows "gvariable_at (xs @ gvariable_bytes v @ ys) at = Ok v"
proof -
  have "slice_at (xs @ gvariable_bytes v @ ys) (at + 1) 8 = Some (tl (gvariable_bytes v))"
    using assms by (cases v) (simp_all add: slice_at_def)
  moreover have "element_at (xs @ gvariable_bytes v @ ys) at = Some (hd (gvariable_bytes v))"
    using assms by (cases v) (simp_all add: nth_append)
  moreover have "u32_try_from (unat (ucast (w :: u32) :: u64)) = Some w" for w
    using unat_u32_to_u64 [of w] unat_u32_less [of w] by (simp add: u32_try_from_Some)
  ultimately show ?thesis by (cases v) (simp_all add: gvariable_at_def)
qed

lemma properties_at_append:
  assumes "length xs = tail"
  shows "properties_at (xs @ (if has_free_variables p then 1 else 0) # u64_to_be_bytes (required_binders p)) tail = Ok p"
  using assms by (cases p) (simp add: properties_at_def nth_append)

definition graph_body :: "bytes gnode \<Rightarrow> properties \<Rightarrow> bytes" where
  "graph_body n p = concat (child_list n) @ gnode_tag n # concat (map gvariable_bytes (gnode_variables n)) @
     (if has_free_variables p then 1 else 0) # u64_to_be_bytes (required_binders p)"

definition addresses_ok :: "bytes gnode \<Rightarrow> bool" where
  "addresses_ok n \<longleftrightarrow> (\<forall>c\<in>set (child_list n). length c = 32)"

lemma strip_graph_domain: "strip_prefix GRAPH_NODE_DOMAIN bs = Some body \<longleftrightarrow> bs = GRAPH_NODE_DOMAIN @ body"
  by (auto simp: strip_prefix_def) (metis append_take_drop_id)

lemma gnode_at_body:
  assumes "addresses_ok n"
  shows "gnode_at (graph_body n p) (length (concat (child_list n))) = Ok n"
proof (cases n)
  case (GEqual a b)
  then show ?thesis
    using gvariable_at_append [of "[0]" 1 a] gvariable_at_append [of "0 # gvariable_bytes a" 10 b]
    by (simp add: gnode_at_def graph_body_def child_list_def gnode_variables_def)
next
  case (GMember a b)
  then show ?thesis
    using gvariable_at_append [of "[1]" 1 a] gvariable_at_append [of "1 # gvariable_bytes a" 10 b]
    by (simp add: gnode_at_def graph_body_def child_list_def gnode_variables_def)
qed (use assms in \<open>simp_all add: gnode_at_def graph_body_def child_list_def gnode_variables_def addresses_ok_def child_at_def slice_at_def nth_append\<close>)

lemma properties_at_body: "properties_at (graph_body n p) (length (graph_body n p) - 9) = Ok p"
  using properties_at_append [of "concat (child_list n) @ gnode_tag n # concat (map gvariable_bytes (gnode_variables n))"]
  by (simp add: graph_body_def)

lemma graph_body_width:
  assumes "addresses_ok n"
  shows "(if length (graph_body n p) = 28 then Ok 0 else if length (graph_body n p) = 42 then Ok 32
     else if length (graph_body n p) = 74 then Ok 64 else Err e) = Ok (length (concat (child_list n)))"
  using assms by (cases n) (simp_all add: graph_body_def child_list_def gnode_variables_def addresses_ok_def)

lemma gnode_at_addresses: "gnode_at body offset = Ok n \<Longrightarrow> addresses_ok n"
  by (auto simp: gnode_at_def addresses_ok_def child_list_def child_at_def slice_at_def split: if_splits)

lemma decode_graph_node_Ok:
  "decode_graph_node bs = Ok (n, p) \<longleftrightarrow> addresses_ok n \<and> bs = graph_node_bytes n p"
proof
  assume "decode_graph_node bs = Ok (n, p)"
  then show "addresses_ok n \<and> bs = graph_node_bytes n p"
    by (auto simp: decode_graph_node_def split: if_splits dest: gnode_at_addresses)
next
  assume a: "addresses_ok n \<and> bs = graph_node_bytes n p"
  then have "bs = GRAPH_NODE_DOMAIN @ graph_body n p" by (simp add: graph_node_bytes_def graph_body_def)
  then have "strip_prefix GRAPH_NODE_DOMAIN bs = Some (graph_body n p)" by (simp add: strip_graph_domain)
  then show "decode_graph_node bs = Ok (n, p)"
    using a gnode_at_body [of n p] by (simp add: decode_graph_node_def graph_body_width properties_at_body del: length_concat)
qed

lemma field_not_Panic: "gvariable_at body at \<noteq> Panic" "child_at body at \<noteq> Panic" "at < length body \<Longrightarrow> properties_at body at \<noteq> Panic"
  by (auto simp: gvariable_at_def child_at_def properties_at_def slice_at_def element_at_def)

lemma gnode_at_not_Panic: "offset < length body \<Longrightarrow> gnode_at body offset \<noteq> Panic"
  by (simp add: gnode_at_def element_at_def field_not_Panic)

lemma decode_graph_node_not_Panic: "decode_graph_node bs \<noteq> Panic"
  by (simp add: decode_graph_node_def gnode_at_not_Panic field_not_Panic)

section \<open>Materialization returns the stored formula\<close>

text \<open>The identifier leads to the nodes of a tree.\<close>

primrec represents :: "('i \<Rightarrow> (program_error, 'i gnode) outcome) \<Rightarrow> 'i \<Rightarrow> node \<Rightarrow> bool" where
  "represents load i (FEqual v w) \<longleftrightarrow> load i = Ok (GEqual (graph_variable v) (graph_variable w))"
| "represents load i (FMember v w) \<longleftrightarrow> load i = Ok (GMember (graph_variable v) (graph_variable w))"
| "represents load i (FNot a) \<longleftrightarrow> (\<exists>j. load i = Ok (GNot j) \<and> represents load j a)"
| "represents load i (FImplies a b) \<longleftrightarrow> (\<exists>j k. load i = Ok (GImplies j k) \<and> represents load j a \<and> represents load k b)"
| "represents load i (FForAll a) \<longleftrightarrow> (\<exists>j. load i = Ok (GForAll j) \<and> represents load j a)"

lemma tree_variable_bytes_eq: "tree_variable_bytes (graph_variable v) = Some (wire_variable v)"
proof (cases v)
  case (Bound i)
  have "u32_try_from (unat (ucast i :: u64)) = Some i"
    using unat_u32_to_u64 [of i] unat_u32_less [of i] by (simp add: u32_try_from_Some)
  with Bound show ?thesis by simp
qed simp

text \<open>A stack of identifiers with their depths, beside the trees that they lead to.\<close>

abbreviation pending_of :: "('i \<times> nat \<times> node) list \<Rightarrow> ('i \<times> nat) list" where
  "pending_of xs \<equiv> map (\<lambda>(i, d, a). (i, d)) xs"

definition fits :: "nat \<Rightarrow> bytes \<Rightarrow> ('i \<times> nat \<times> node) list \<Rightarrow> bool" where
  "fits allowed bs xs \<longleftrightarrow> (\<Sum>(i, d, a)\<leftarrow>xs. node_count a) \<le> allowed \<and> (\<forall>(i, d, a)\<in>set xs. d + node_depth a \<le> 257) \<and>
     length bs + (\<Sum>(i, d, a)\<leftarrow>xs. length (wire a)) \<le> FORMULA_MAX_BYTES"

definition written :: "bytes \<Rightarrow> ('i \<times> nat \<times> node) list \<Rightarrow> bytes" where
  "written bs xs = bs @ concat (map (\<lambda>(i, d, a). wire a) xs)"

lemma fits_Nil [simp]: "fits k bs [] \<longleftrightarrow> length bs \<le> FORMULA_MAX_BYTES"
  by (simp add: fits_def)

lemma fits_zero: "\<not> fits 0 bs (x # xs)"
  by (cases x) (simp add: fits_def)

text \<open>One round replaces the top of the stack by its children.\<close>

lemma represents_round:
  assumes "represents load i a"
  obtains n vs cs where "load i = Ok n" "all_variable_bytes (gnode_variables n) = Some vs" "child_list n = map (\<lambda>(j, d, b). j) cs"
    "\<forall>(j, e, b)\<in>set cs. represents load j b \<and> e = d + 1"
    "\<And>k bs xs. fits (Suc k) bs ((i, d, a) # xs) \<longleftrightarrow> d \<le> 256 \<and> fits k (bs @ gnode_tag n # vs) (cs @ xs)"
    "\<And>bs xs. written bs ((i, d, a) # xs) = written (bs @ gnode_tag n # vs) (cs @ xs)"
proof (cases a)
  case (FEqual v w)
  show ?thesis
    by (rule that [of "GEqual (graph_variable v) (graph_variable w)" "wire_variable v @ wire_variable w" "[]"])
      (use assms in \<open>auto simp: FEqual tree_variable_bytes_eq gnode_variables_def child_list_def fits_def written_def\<close>)
next
  case (FMember v w)
  show ?thesis
    by (rule that [of "GMember (graph_variable v) (graph_variable w)" "wire_variable v @ wire_variable w" "[]"])
      (use assms in \<open>auto simp: FMember tree_variable_bytes_eq gnode_variables_def child_list_def fits_def written_def\<close>)
next
  case (FNot b)
  then obtain j where "load i = Ok (GNot j)" "represents load j b" using assms by auto
  then show ?thesis
    by (intro that [of "GNot j" "[]" "[(j, d + 1, b)]"]) (auto simp: FNot gnode_variables_def child_list_def fits_def written_def)
next
  case (FForAll b)
  then obtain j where "load i = Ok (GForAll j)" "represents load j b" using assms by auto
  then show ?thesis
    by (intro that [of "GForAll j" "[]" "[(j, d + 1, b)]"]) (auto simp: FForAll gnode_variables_def child_list_def fits_def written_def)
next
  case (FImplies b c)
  then obtain j k where "load i = Ok (GImplies j k)" "represents load j b" "represents load k c" using assms by auto
  then show ?thesis
    by (intro that [of "GImplies j k" "[]" "[(j, d + 1, b), (k, d + 1, c)]"]) (auto simp: FImplies gnode_variables_def child_list_def fits_def written_def)
qed

lemma bounded_loop_eq:
  assumes "\<forall>(i, d, a)\<in>set xs. represents load i a" "length bs \<le> FORMULA_MAX_BYTES"
  shows "bounded_loop k load (pending_of xs) bs = Ok (if fits k bs xs then Some (written bs xs) else None)"
  using assms
proof (induction k arbitrary: xs bs)
  case 0
  then show ?case by (cases xs) (auto simp: fits_zero written_def split: prod.split)
next
  case (Suc k)
  show ?case
  proof (cases xs)
    case (Cons x ys)
    obtain i d a where x: "x = (i, d, a)" by (cases x)
    with Cons Suc.prems(1) have "represents load i a" by simp
    then obtain n vs cs where n: "load i = Ok n" "all_variable_bytes (gnode_variables n) = Some vs" "child_list n = map (\<lambda>(j, d, b). j) cs"
      "\<forall>(j, e, b)\<in>set cs. represents load j b \<and> e = d + 1"
      "\<And>k bs xs. fits (Suc k) bs ((i, d, a) # xs) \<longleftrightarrow> d \<le> 256 \<and> fits k (bs @ gnode_tag n # vs) (cs @ xs)"
      "\<And>bs xs. written bs ((i, d, a) # xs) = written (bs @ gnode_tag n # vs) (cs @ xs)"
      by (rule represents_round [where d = d]) blast
    have stack: "map (\<lambda>c. (c, d + 1)) (child_list n) @ pending_of ys = pending_of (cs @ ys)"
      using n(3,4) by (auto simp: comp_def)
    have long: "\<not> fits k bs' zs" if "FORMULA_MAX_BYTES < length bs'" for bs' and zs :: "('a \<times> nat \<times> node) list"
      using that by (simp add: fits_def)
    have "\<forall>(i, d, a)\<in>set (cs @ ys). represents load i a" using n(4) Suc.prems(1) Cons by auto
    from Suc.IH [OF this, of "bs @ gnode_tag n # vs"] show ?thesis
      by (auto simp: Cons x n(1,2,5,6) stack [simplified] long FORMULA_MAX_DEPTH_def Let_def)
  qed (use Suc.prems in \<open>simp add: written_def\<close>)
qed

section \<open>Properties\<close>

text \<open>The address of a formula, node by node.\<close>

primrec address :: "hash \<Rightarrow> node \<Rightarrow> bytes" where
  "address h (FEqual v w) = graph_node_hash h (GEqual (graph_variable v) (graph_variable w)) (properties_of (FEqual v w))"
| "address h (FMember v w) = graph_node_hash h (GMember (graph_variable v) (graph_variable w)) (properties_of (FMember v w))"
| "address h (FNot a) = graph_node_hash h (GNot (address h a)) (properties_of (FNot a))"
| "address h (FImplies a b) = graph_node_hash h (GImplies (address h a) (address h b)) (properties_of (FImplies a b))"
| "address h (FForAll a) = graph_node_hash h (GForAll (address h a)) (properties_of (FForAll a))"

lemma fold_addresses: "fold_graph (hash_node h) a () = Ok ((address h a, properties_of a), ())"
proof (induction a)
  case (FImplies a b)
  have "node_properties (GImplies x y) (Some (properties_of a), Some (properties_of b)) = Some (properties_of (FImplies a b))" for x y :: "bytes \<times> properties"
    by (simp add: combine_properties)
  with FImplies show ?case by (simp add: hash_node_def)
next
  case (FForAll a)
  have "node_properties (GForAll x) (Some (properties_of a), None) = Some (properties_of (FForAll a))" for x :: "bytes \<times> properties"
    using fold_properties [of "FForAll a"] by (auto simp: property_fold_def fold_properties)
  with FForAll show ?case by (simp add: hash_node_def del: node_properties.simps)
next
  case (FNot a)
  then show ?case by (simp add: hash_node_def properties_of_def)
qed (simp_all add: hash_node_def combine_variables_eq properties_of_def)

lemma formula_hash_eq: "formula_hash h a = Some (address h a)"
  by (simp add: formula_hash_def fold_addresses)

primrec subformulas :: "node \<Rightarrow> node set" where
  "subformulas (FEqual v w) = {FEqual v w}"
| "subformulas (FMember v w) = {FMember v w}"
| "subformulas (FNot a) = insert (FNot a) (subformulas a)"
| "subformulas (FImplies a b) = insert (FImplies a b) (subformulas a \<union> subformulas b)"
| "subformulas (FForAll a) = insert (FForAll a) (subformulas a)"

lemma subformulas_refl [simp]: "a \<in> subformulas a"
  by (cases a) simp_all

text \<open>A store that holds every node of a formula under its address, and reading from it.\<close>

definition stored :: "hash \<Rightarrow> (bytes \<rightharpoonup> bytes) \<Rightarrow> node \<Rightarrow> bool" where
  "stored h store a \<longleftrightarrow> (\<forall>b\<in>subformulas a. \<exists>root n. formula_hash h b = Some root \<and>
     n = gmap (\<lambda>c. the (formula_hash h c)) (graph_node b) \<and> store root = Some (graph_node_bytes n (properties_of b)))"

definition read_node :: "(bytes \<rightharpoonup> bytes) \<Rightarrow> bytes \<Rightarrow> (program_error, bytes gnode) outcome" where
  "read_node store root = and_then (ok_or (PText ''formula node missing'') (store root)) (\<lambda>bs. map_ok fst (decode_graph_node bs))"

lemma length_address [simp]: "digest_ok h \<Longrightarrow> length (address h a) = 32"
  by (cases a) (simp_all add: graph_node_hash_def digest_ok_def)

lemma read_stored:
  assumes "digest_ok h" "stored h store a" "b \<in> subformulas a"
  shows "read_node store (address h b) = Ok (gmap (address h) (graph_node b))"
proof -
  have "store (address h b) = Some (graph_node_bytes (gmap (address h) (graph_node b)) (properties_of b))"
    using assms(2,3) by (auto simp: stored_def formula_hash_eq)
  moreover have "addresses_ok (gmap (address h) (graph_node b))"
    using assms(1) by (cases b) (simp_all add: addresses_ok_def child_list_def)
  then have "decode_graph_node (graph_node_bytes (gmap (address h) (graph_node b)) (properties_of b)) = Ok (gmap (address h) (graph_node b), properties_of b)"
    by (simp add: decode_graph_node_Ok)
  ultimately show ?thesis by (simp add: read_node_def)
qed

lemma subformulas_trans: "b \<in> subformulas a \<Longrightarrow> subformulas b \<subseteq> subformulas a"
  by (induction a) auto

lemma stored_represents:
  assumes "digest_ok h" "stored h store a" "b \<in> subformulas a"
  shows "represents (read_node store) (address h b) b"
  using assms(3)
proof (induction b)
  case (FImplies b c)
  then have "b \<in> subformulas a" "c \<in> subformulas a" using subformulas_trans by fastforce+
  with FImplies read_stored [OF assms(1,2), of "FImplies b c"] show ?case by simp
next
  case (FNot b)
  then have "b \<in> subformulas a" using subformulas_trans by fastforce
  with FNot read_stored [OF assms(1,2), of "FNot b"] show ?case by simp
next
  case (FForAll b)
  then have "b \<in> subformulas a" using subformulas_trans by fastforce
  with FForAll read_stored [OF assms(1,2), of "FForAll b"] show ?case by simp
qed (use read_stored [OF assms(1,2)] in \<open>fastforce simp del: address.simps\<close>)+

lemma bounded_formula_eq:
  assumes "represents load i a"
  shows "bounded_formula i load =
    (if node_count a \<le> FORMULA_MAX_NODES \<and> node_depth a \<le> 257 then map_err PCodec (map_ok Some (decode_canonical (wire a))) else Ok None)"
proof -
  have "fits FORMULA_MAX_NODES [] [(i, 0, a)] \<longleftrightarrow> node_count a \<le> FORMULA_MAX_NODES \<and> node_depth a \<le> 257"
    using length_wire_limit [of a] by (auto simp: fits_def)
  moreover have "written [] [(i, 0 :: nat, a)] = wire a" by (simp add: written_def)
  ultimately show ?thesis using bounded_loop_eq [of "[(i, 0, a)]" load "[]" FORMULA_MAX_NODES] assms by (simp add: bounded_formula_def)
qed

text \<open>C39. A node decodes from exactly its canonical bytes: the decoder never panics, and it returns a node with its
  properties exactly when the children are addresses of 32 bytes and the input is the encoding of that
  node.\<close>

theorem graph_node_round_trip:
  "decode_graph_node bs \<noteq> Panic \<and>
   (decode_graph_node bs = Ok (n, p) \<longleftrightarrow> (\<forall>c\<in>set (child_list n). length c = 32) \<and> bs = graph_node_bytes n p)"
  by (simp add: decode_graph_node_not_Panic decode_graph_node_Ok addresses_ok_def)

theorem graph_node_round_trip_witness:
  "decode_graph_node (graph_node_bytes (GNot (replicate 32 0)) \<lparr>has_free_variables = False, required_binders = 0\<rparr>) =
     Ok (GNot (replicate 32 0), \<lparr>has_free_variables = False, required_binders = 0\<rparr>)"
  using graph_node_round_trip [of "graph_node_bytes (GNot (replicate 32 0)) \<lparr>has_free_variables = False, required_binders = 0\<rparr>"
      "GNot (replicate 32 0)" "\<lparr>has_free_variables = False, required_binders = 0\<rparr>"] by (simp add: child_list_def)

text \<open>C40. Storing a formula node by node and materializing it again gives the formula back whenever the tree codec
  admits it: the address is computed without a panic, and from a store that holds every node under its address the
  result is the formula, or nothing where the formula has too many nodes or is deeper than the codec
  admits. The exception is a depth of exactly one more than the codec's limit, where the walk goes on and the codec's
  error is returned instead of nothing.\<close>

theorem stored_formulas_materialize:
  assumes "digest_ok h" "well_formed a" "stored h store a"
  shows "\<exists>root. formula_hash h a = Some root \<and>
    (wire_admitted FORMULA_MAX_NODES a \<longrightarrow> bounded_formula root (read_node store) = Ok (Some a)) \<and>
    (\<not> wire_admitted FORMULA_MAX_NODES a \<and> \<not> (node_count a \<le> FORMULA_MAX_NODES \<and> node_depth a = FORMULA_MAX_DEPTH + 1) \<longrightarrow>
       bounded_formula root (read_node store) = Ok None) \<and>
    (node_count a \<le> FORMULA_MAX_NODES \<and> node_depth a = FORMULA_MAX_DEPTH + 1 \<longrightarrow>
       (\<exists>e. bounded_formula root (read_node store) = Err (PCodec e)))"
proof -
  note run = bounded_formula_eq [OF stored_represents [OF assms(1,3) subformulas_refl]]
  have "decode_canonical (wire a) = Ok a" if "wire_admitted FORMULA_MAX_NODES a"
    using that assms(2) by (simp add: decode_canonical_Ok)
  moreover have "\<exists>e. decode_canonical (wire a) = Err e" if "node_depth a = 257"
  proof (cases "decode_canonical (wire a)")
    case (Ok b)
    then have "well_formed b" "wire_admitted FORMULA_MAX_NODES b" "wire a = wire b" by (auto simp: decode_canonical_Ok)
    then have "a = b" by simp
    with that \<open>wire_admitted FORMULA_MAX_NODES b\<close> show ?thesis by (simp add: wire_admitted_def)
  qed simp_all
  ultimately show ?thesis
    by (intro exI [of _ "address h a"]) (auto simp: formula_hash_eq run wire_admitted_def FORMULA_MAX_DEPTH_def)
qed

theorem stored_formulas_materialize_witness:
  "\<exists>root. formula_hash (\<lambda>_. replicate 32 0) (FEqual (Free 7) (Free 9)) = Some root \<and>
     bounded_formula root (read_node (\<lambda>_. Some (graph_node_bytes (GEqual (GFree 7) (GFree 9)) (properties_of (FEqual (Free 7) (Free 9)))))) =
       Ok (Some (FEqual (Free 7) (Free 9)))"
  using stored_formulas_materialize [of "\<lambda>_. replicate 32 0" "FEqual (Free 7) (Free 9)"
      "\<lambda>_. Some (graph_node_bytes (GEqual (GFree 7) (GFree 9)) (properties_of (FEqual (Free 7) (Free 9))))"]
  by (simp add: digest_ok_def well_formed_def stored_def formula_hash_eq wire_admitted_def FORMULA_MAX_NODES_def)

text \<open>The exception is met: 256 negations of an equality. The comment of \<open>bounded_formula\<close> promises \<open>None\<close> for a formula
  that exceeds the tree representation.\<close>

lemma represents_itself: "represents (\<lambda>a. Ok (graph_node a)) a a"
  by (induction a) simp_all

lemma one_past_the_depth_limit:
  assumes "a = (FNot ^^ 256) (FEqual (Free 0) (Free 0))"
  shows "well_formed a" "\<not> wire_admitted FORMULA_MAX_NODES a" "\<exists>e. bounded_formula a (\<lambda>a. Ok (graph_node a)) = Err (PCodec e)"
proof -
  have size: "node_count ((FNot ^^ n) (FEqual v w)) = n + 1" "node_depth ((FNot ^^ n) (FEqual v w)) = n + 1" for n v w
    by (induction n) simp_all
  have "closed_at 0 ((FNot ^^ n) (FEqual (Free 0) (Free 0)))" for n by (induction n) simp_all
  then show "well_formed a" by (simp add: assms well_formed_def)
  show none: "\<not> wire_admitted FORMULA_MAX_NODES a" by (simp add: assms wire_admitted_def size)
  have "decode_canonical (wire a) \<noteq> Ok b" for b using none by (auto simp: decode_canonical_Ok)
  then obtain e where "decode_canonical (wire a) = Err e" by (cases "decode_canonical (wire a)") auto
  then show "\<exists>e. bounded_formula a (\<lambda>a. Ok (graph_node a)) = Err (PCodec e)"
    using bounded_formula_eq [OF represents_itself, of a] by (simp add: assms size FORMULA_MAX_NODES_def)
qed

end
