(* ===== verification/Program_Stream.thy ===== *)
theory Program_Stream
  imports Program_Graph Zfc "HOL-Library.Sublist"
begin

text \<open>
  Proof programs as authenticated streams of commands, \<open>naome-proof/src/program.rs\<close> and \<open>program/stream.rs\<close>: the command
  language, the manifest, the forward hash of a prefix and the reverse commitment of a suffix, the reader that cuts a
  stored program into chunks, and the receiver that checks a chunk before any of it is stored. The JSON library
  that turns a command or a manifest into bytes and back is not part of the repository and is a parameter
  (\<open>to_vec\<close>, \<open>from_slice\<close>), and so is the database that returns stored rows. The receiver is shown to accept only the program of the
  manifest, and to accept whatever the reader cuts from it. A plain addition of \<open>u64\<close> values that would overflow is a panic.
\<close>

section \<open>Commands and manifests\<close>

datatype program_axiom =
  AxExtensionality | AxPairing | AxUnion | AxPowerSet | AxInfinity | AxFoundation | AxChoice

primrec program_zfc_axiom :: "program_axiom \<Rightarrow> zfc_axiom" where
  "program_zfc_axiom AxExtensionality = Extensionality"
| "program_zfc_axiom AxPairing = Pairing"
| "program_zfc_axiom AxUnion = Union"
| "program_zfc_axiom AxPowerSet = PowerSet"
| "program_zfc_axiom AxInfinity = Infinity"
| "program_zfc_axiom AxFoundation = Foundation"
| "program_zfc_axiom AxChoice = Choice"

datatype command =
    CmdDefinedRelation bytes "u32 list"
  | CmdEqual u32 u32
  | CmdMember u32 u32
  | CmdNot u64
  | CmdImplies u64 u64
  | CmdForAll u32 u64
  | CmdSubstitute u32 u32 u64
  | CmdSimplification u64 u64
  | CmdFrege u64 u64 u64
  | CmdContraposition u64 u64
  | CmdDistribution u32 u64 u64
  | CmdVacuous u64
  | CmdInstantiation u32 u32 u64
  | CmdReflexivity u32
  | CmdSubstitution u32 u32 u64
  | CmdAxiom program_axiom
  | CmdProofReference bytes
  | CmdSeparation u64 u32 u32 u32
  | CmdReplacement u64 u32 u32 u32 u32 u32
  | CmdModusPonens u64 u64
  | CmdGeneralization u64 u32
  | CmdAlias u64
  | CmdSeal u64

definition PROGRAM_FORMAT :: bytes where "PROGRAM_FORMAT = ascii ''naome:proof-program''"
definition RECORD_BYTES :: nat where "RECORD_BYTES = 4096"
definition CHUNK_RECORDS :: nat where "CHUNK_RECORDS = 1024"
definition CHUNK_BYTES :: nat where "CHUNK_BYTES = 32 * 1024"
definition MANIFEST_BYTES :: nat where "MANIFEST_BYTES = 2048"

record chunk =
  ck_start :: u64
  ck_previous :: bytes
  ck_next :: bytes
  ck_records :: "command list"

record manifest =
  mf_commands :: u64
  mf_input_bytes :: u64
  mf_program_hash :: bytes
  mf_stream_root :: bytes
  mf_conclusion :: bytes
  mf_statement :: bytes

definition manifest_address :: "hash \<Rightarrow> manifest \<Rightarrow> bytes \<Rightarrow> bytes" where
  "manifest_address sha256 m domain =
     sha256 (domain @ FOUNDATION_ID @ u64_to_be_bytes (mf_commands m) @ u64_to_be_bytes (mf_input_bytes m) @ mf_program_hash m @
       mf_stream_root m @ mf_conclusion m @ mf_statement m)"

definition program_proof_id :: "hash \<Rightarrow> manifest \<Rightarrow> bytes" where
  "program_proof_id sha256 m = manifest_address sha256 m (ascii ''naome:program-proof'' @ [0])"

definition program_derivation_id :: "hash \<Rightarrow> manifest \<Rightarrow> bytes" where
  "program_derivation_id sha256 m = manifest_address sha256 m (ascii ''naome:program-derivation'' @ [0])"

definition program_statement_id :: "manifest \<Rightarrow> bytes" where
  "program_statement_id m = mf_statement m"

definition program_artifact_id :: "hash \<Rightarrow> manifest \<Rightarrow> artifact_id" where
  "program_artifact_id sha256 m = from_proof_id sha256 (program_proof_id sha256 m)"

definition command_hash :: "hash \<Rightarrow> bytes \<Rightarrow> bytes \<Rightarrow> bytes" where
  "command_hash sha256 previous bs = sha256 (PROGRAM_FORMAT @ previous @ u64_to_be_bytes (of_nat (length bs)) @ bs)"

definition stream_hash :: "hash \<Rightarrow> bytes \<Rightarrow> bytes \<Rightarrow> bytes" where
  "stream_hash sha256 bs next_hash =
     sha256 (ascii ''naome:program-stream'' @ [0] @ u64_to_be_bytes (of_nat (length bs)) @ bs @ next_hash)"

type_synonym 'a to_vec = "'a \<Rightarrow> (program_error, bytes) outcome"
type_synonym 'a from_slice = "bytes \<Rightarrow> (program_error, 'a) outcome"

definition encode_command :: "command to_vec \<Rightarrow> command \<Rightarrow> (program_error, bytes) outcome" where
  "encode_command to_vec c =
     and_then (to_vec c) (\<lambda>bs. if RECORD_BYTES < length bs then Err (PText ''program command byte capacity'') else Ok bs)"

definition decode_command :: "command to_vec \<Rightarrow> command from_slice \<Rightarrow> bytes \<Rightarrow> (program_error, command) outcome" where
  "decode_command to_vec from_slice bs =
     (if RECORD_BYTES < length bs then Err (PText ''program command byte capacity'')
      else and_then (from_slice bs) (\<lambda>c.
        and_then (encode_command to_vec c) (\<lambda>encoded.
          if encoded \<noteq> bs then Err (PText ''noncanonical program command'') else Ok c)))"

definition manifest_canonical_bytes :: "manifest to_vec \<Rightarrow> manifest \<Rightarrow> (program_error, bytes) outcome" where
  "manifest_canonical_bytes to_vec m =
     (if mf_commands m = 0 \<or> mf_input_bytes m = 0 then Err (PText ''invalid program manifest'')
      else and_then (to_vec m) (\<lambda>bs.
        if MANIFEST_BYTES < length bs then Err (PText ''program manifest byte capacity'') else Ok bs))"

definition manifest_from_canonical_bytes :: "manifest to_vec \<Rightarrow> manifest from_slice \<Rightarrow> bytes \<Rightarrow> (program_error, manifest) outcome" where
  "manifest_from_canonical_bytes to_vec from_slice bs =
     (if MANIFEST_BYTES < length bs then Err (PText ''program manifest byte capacity'')
      else and_then (from_slice bs) (\<lambda>m.
        and_then (manifest_canonical_bytes to_vec m) (\<lambda>encoded.
          if encoded \<noteq> bs then Err (PText ''noncanonical program manifest'') else Ok m)))"

section \<open>The prefix\<close>

record prefix_commitment =
  px_commands :: u64
  px_input_bytes :: u64
  px_hash :: bytes

definition prefix_append :: "hash \<Rightarrow> prefix_commitment \<Rightarrow> bytes \<Rightarrow> (program_error, prefix_commitment) outcome" where
  "prefix_append sha256 p bs =
     (if RECORD_BYTES < length bs then Err (PText ''program command byte capacity'')
      else and_then (ok_or (PText ''program address exhausted'') (checked_add (px_commands p) 1)) (\<lambda>commands.
        and_then (ok_or (PText ''program byte width'') (checked_add (px_input_bytes p) (of_nat (length bs)))) (\<lambda>input_bytes.
          Ok \<lparr>px_commands = commands, px_input_bytes = input_bytes, px_hash = command_hash sha256 (px_hash p) bs\<rparr>)))"

section \<open>The reader of a stored program\<close>

abbreviation zero_hash :: bytes where "zero_hash \<equiv> replicate 32 0"

record chunk_reader =
  cr_chunk :: chunk
  cr_records :: nat
  cr_maximum :: nat
  cr_bytes :: nat
  cr_hash :: bytes

definition reader_new :: "u64 \<Rightarrow> bytes \<Rightarrow> nat \<Rightarrow> nat \<Rightarrow> (program_error, chunk_reader) outcome" where
  "reader_new start previous records maximum =
     (if records = 0 \<or> CHUNK_RECORDS < records \<or> maximum = 0 \<or> CHUNK_BYTES < maximum
      then Err (PText ''program chunk request capacity'')
      else Ok \<lparr>cr_chunk = \<lparr>ck_start = start, ck_previous = previous, ck_next = zero_hash, ck_records = []\<rparr>,
               cr_records = records, cr_maximum = maximum, cr_bytes = 0, cr_hash = previous\<rparr>)"

definition reader_end :: "chunk_reader \<Rightarrow> u64 option" where
  "reader_end r = checked_add (ck_start (cr_chunk r)) (of_nat (length (ck_records (cr_chunk r))))"

definition reader_push ::
  "hash \<Rightarrow> command to_vec \<Rightarrow> command from_slice \<Rightarrow> u64 \<Rightarrow> bytes \<Rightarrow> bytes \<Rightarrow> chunk_reader \<Rightarrow> (program_error, bool \<times> chunk_reader) outcome" where
  "reader_push sha256 to_vec from_slice position bs stored_hash r =
     and_then (expect (reader_end r)) (\<lambda>stop.
       if position \<noteq> stop \<or> RECORD_BYTES < length bs then Err (PText ''program record order or width differs'')
       else if length (ck_records (cr_chunk r)) = cr_records r \<or> cr_maximum r - cr_bytes r < length bs then
         (if ck_records (cr_chunk r) = [] then Err (PText ''program record exceeds chunk budget'') else Ok (False, r))
       else and_then (decode_command to_vec from_slice bs) (\<lambda>command.
         let hash = command_hash sha256 (cr_hash r) bs
         in if stored_hash \<noteq> hash then Err (PText ''program input hash mismatch'')
            else and_then (ok_or (PText ''program address exhausted'') (checked_add position 1)) (\<lambda>_.
              Ok (True, r\<lparr>cr_bytes := cr_bytes r + length bs, cr_hash := hash,
                cr_chunk := (cr_chunk r)\<lparr>ck_records := ck_records (cr_chunk r) @ [command]\<rparr>\<rparr>))))"

definition reader_finish :: "u64 \<Rightarrow> bytes \<Rightarrow> chunk_reader \<Rightarrow> (program_error, chunk) outcome" where
  "reader_finish available next_hash r =
     (if available < ck_start (cr_chunk r) then Err (PText ''program input prefix missing'')
      else and_then (expect (reader_end r)) (\<lambda>stop.
        if available < stop \<or> (ck_start (cr_chunk r) < available \<and> ck_records (cr_chunk r) = [])
        then Err (PText ''program input prefix missing'')
        else Ok ((cr_chunk r)\<lparr>ck_next := next_hash\<rparr>)))"

section \<open>The receiver\<close>

record progress =
  pg_commands :: u64
  pg_input_bytes :: u64
  pg_hash :: bytes
  pg_remaining :: bytes

record prepared_record =
  pr_position :: u64
  pr_bytes :: bytes
  pr_hash :: bytes
  pr_suffix :: bytes

definition require_complete :: "progress \<Rightarrow> manifest \<Rightarrow> (program_error, unit) outcome" where
  "require_complete pg m =
     (if pg_commands pg \<noteq> mf_commands m \<or> pg_input_bytes pg \<noteq> mf_input_bytes m \<or> pg_hash pg \<noteq> mf_program_hash m \<or>
         pg_remaining pg \<noteq> zero_hash
      then Err (PText ''program input is incomplete or differs from manifest'') else Ok ())"

text \<open>The three loops of \<open>prepare_append\<close>: the bytes of the records, the commitments from the last record back to the
  first, and the positions and forward hashes.\<close>

primrec encode_records :: "command to_vec \<Rightarrow> nat \<Rightarrow> command list \<Rightarrow> (program_error, bytes list) outcome" where
  "encode_records to_vec size_so_far [] = Ok []"
| "encode_records to_vec size_so_far (c # cs) =
     and_then (encode_command to_vec c) (\<lambda>bs.
     let size_so_far = size_so_far + length bs
     in if CHUNK_BYTES < size_so_far then Err (PText ''program chunk byte capacity'')
        else map_ok (Cons bs) (encode_records to_vec size_so_far cs))"

primrec stream_suffixes :: "hash \<Rightarrow> bytes \<Rightarrow> bytes list \<Rightarrow> bytes \<times> bytes list" where
  "stream_suffixes sha256 next_hash [] = (next_hash, [])"
| "stream_suffixes sha256 next_hash (bs # bss) =
     (case stream_suffixes sha256 next_hash bss of (next_hash, hashes) \<Rightarrow>
        let next_hash = stream_hash sha256 bs next_hash in (next_hash, next_hash # hashes))"

fun is_seal :: "command \<Rightarrow> bool" where
  "is_seal (CmdSeal i) = True"
| "is_seal _ = False"

primrec append_records ::
  "hash \<Rightarrow> manifest \<Rightarrow> prefix_commitment \<Rightarrow> (command \<times> bytes \<times> bytes) list \<Rightarrow> (program_error, prefix_commitment \<times> prepared_record list) outcome" where
  "append_records sha256 m p [] = Ok (p, [])"
| "append_records sha256 m p (r # rs) =
     (case r of (command, bs, next_hash) \<Rightarrow>
        and_then (if is_seal command then map_ok (\<lambda>n. n \<noteq> mf_commands m) (expect (checked_add (px_commands p) 1)) else Ok False) (\<lambda>early.
        if early then Err (PText ''program seal precedes declared end'')
        else and_then (prefix_append sha256 p bs) (\<lambda>p'.
          map_ok (\<lambda>(q, out). (q, \<lparr>pr_position = px_commands p, pr_bytes = bs, pr_hash = px_hash p', pr_suffix = next_hash\<rparr> # out))
            (append_records sha256 m p' rs))))"

text \<open>The end of \<open>prepare_append\<close>: the progress does not pass the manifest, and meets it where the program ends.\<close>

definition check_progress :: "manifest \<Rightarrow> progress \<Rightarrow> (program_error, unit) outcome" where
  "check_progress m pg =
     (if mf_commands m < pg_commands pg \<or> mf_input_bytes m < pg_input_bytes pg then Err (PText ''program prefix exceeds manifest'')
      else if pg_commands pg = mf_commands m then require_complete pg m
      else Ok ())"

text \<open>A chunk continues the received prefix, hashes to the commitment, and ends no later than the program.\<close>

definition authenticate_chunk :: "manifest \<Rightarrow> chunk \<Rightarrow> progress \<Rightarrow> bytes \<Rightarrow> nat \<Rightarrow> (program_error, unit) outcome" where
  "authenticate_chunk m ck pg next_hash count =
     (if pg_commands pg \<noteq> ck_start ck \<or> pg_hash pg \<noteq> ck_previous ck \<or> pg_remaining pg \<noteq> next_hash
      then Err (PText ''program chunk authentication or prefix mismatch'')
      else and_then (ok_or (PText ''program chunk cursor width'') (checked_add (pg_commands pg) (of_nat count))) (\<lambda>stop.
        if mf_commands m < stop \<or> (stop = mf_commands m \<and> ck_next ck \<noteq> zero_hash)
        then Err (PText ''program chunk end mismatch'') else Ok ()))"

definition prepare_append ::
  "hash \<Rightarrow> command to_vec \<Rightarrow> manifest \<Rightarrow> chunk \<Rightarrow> progress \<Rightarrow> (program_error, progress \<times> prepared_record list) outcome" where
  "prepare_append sha256 to_vec m ck pg =
     (if ck_records ck = [] \<or> CHUNK_RECORDS < length (ck_records ck) then Err (PText ''program chunk record capacity'')
      else and_then (encode_records to_vec 0 (ck_records ck)) (\<lambda>bss.
        case stream_suffixes sha256 (ck_next ck) bss of (next_hash, hashes) \<Rightarrow>
          and_then (authenticate_chunk m ck pg next_hash (length bss)) (\<lambda>_.
          and_then (append_records sha256 m \<lparr>px_commands = pg_commands pg, px_input_bytes = pg_input_bytes pg, px_hash = pg_hash pg\<rparr>
              (zip (ck_records ck) (zip bss hashes))) (\<lambda>(p, records).
            let pg' = \<lparr>pg_commands = px_commands p, pg_input_bytes = px_input_bytes p, pg_hash = px_hash p, pg_remaining = ck_next ck\<rparr>
            in map_ok (\<lambda>_. (pg', records)) (check_progress m pg')))))"

section \<open>What the commitments determine\<close>

abbreviation forward :: "hash \<Rightarrow> bytes \<Rightarrow> bytes list \<Rightarrow> bytes" where "forward h x bss \<equiv> foldl (command_hash h) x bss"
abbreviation backward :: "hash \<Rightarrow> bytes list \<Rightarrow> bytes \<Rightarrow> bytes" where "backward h bss x \<equiv> foldr (stream_hash h) bss x"
abbreviation sizes :: "bytes list \<Rightarrow> nat" where "sizes bss \<equiv> sum_list (map length bss)"

text \<open>The bytes that \<open>stream_hash\<close> feeds to SHA-256, one frame per record.\<close>

definition stream_frame :: "bytes \<Rightarrow> bytes \<Rightarrow> bytes" where
  "stream_frame bs next_hash = ascii ''naome:program-stream'' @ [0] @ u64_to_be_bytes (of_nat (length bs)) @ bs @ next_hash"

primrec stream_frames :: "hash \<Rightarrow> bytes list \<Rightarrow> bytes \<Rightarrow> bytes list" where
  "stream_frames h [] x = []"
| "stream_frames h (b # bss) x = stream_frame b (backward h bss x) # stream_frames h bss x"

primrec forwards :: "hash \<Rightarrow> bytes \<Rightarrow> bytes list \<Rightarrow> bytes list" where
  "forwards h x [] = []"
| "forwards h x (b # bss) = command_hash h x b # forwards h (command_hash h x b) bss"

primrec backwards :: "hash \<Rightarrow> bytes list \<Rightarrow> bytes \<Rightarrow> bytes list" where
  "backwards h [] x = []"
| "backwards h (b # bss) x = backward h (b # bss) x # backwards h bss x"

lemma forwards_append [simp]: "forwards h x (xs @ ys) = forwards h x xs @ forwards h (forward h x xs) ys"
  by (induction xs arbitrary: x) simp_all

lemma backwards_append [simp]: "backwards h (xs @ ys) x = backwards h xs (backward h ys x) @ backwards h ys x"
  by (induction xs) simp_all

lemma length_backwards [simp]: "length (backwards h bss x) = length bss"
  by (induction bss) simp_all

lemma u64_unat_of_nat: "n < 2 ^ 64 \<Longrightarrow> unat (of_nat n :: u64) = n"
  by (simp add: unat_of_nat)

lemma unat_u64_less: "unat (w :: u64) < 2 ^ 64"
  using unsigned_less [of w] by simp

lemma framed_u64_inj:
  assumes "u64_to_be_bytes (of_nat (length x)) @ x @ s = u64_to_be_bytes (of_nat (length y)) @ y @ t" "length x < 2 ^ 64" "length y < 2 ^ 64"
  shows "x = y \<and> s = t"
proof -
  have "(of_nat (length x) :: u64) = of_nat (length y)" and r: "x @ s = y @ t"
    using assms(1) by (simp_all add: u64_to_be_bytes_inj)
  then have "length x = length y" using assms(2,3) by (metis u64_unat_of_nat)
  with r show ?thesis by simp
qed

lemma stream_hash_inj:
  assumes "stream_hash h x s = stream_hash h y t" "length x < 2 ^ 64" "length y < 2 ^ 64"
  shows "x = y \<and> s = t \<or> collision h [stream_frame x s, stream_frame y t]"
proof (cases "stream_frame x s = stream_frame y t")
  case True
  then have "u64_to_be_bytes (of_nat (length x)) @ x @ s = u64_to_be_bytes (of_nat (length y)) @ y @ t" by (simp add: stream_frame_def)
  with framed_u64_inj assms(2,3) show ?thesis by blast
next
  case False
  moreover have "h (stream_frame x s) = h (stream_frame y t)" using assms(1) by (simp add: stream_hash_def stream_frame_def)
  ultimately show ?thesis by (auto simp: collision_def)
qed

lemma backward_prefix:
  assumes "backward h xs u = backward h ys v" "\<forall>b\<in>set xs \<union> set ys. length b < 2 ^ 64"
  shows "prefix xs ys \<or> prefix ys xs \<or> collision h (stream_frames h xs u @ stream_frames h ys v)"
  using assms
proof (induction xs arbitrary: ys)
  case (Cons x xs)
  show ?case
  proof (cases ys)
    case (Cons y zs)
    with Cons.prems have "x = y \<and> backward h xs u = backward h zs v \<or>
        collision h [stream_frame x (backward h xs u), stream_frame y (backward h zs v)]" by (intro stream_hash_inj) auto
    then show ?thesis
    proof
      assume same: "x = y \<and> backward h xs u = backward h zs v"
      then have "prefix xs zs \<or> prefix zs xs \<or> collision h (stream_frames h xs u @ stream_frames h zs v)"
        using Cons.IH [of zs] Cons.prems(2) Cons by simp
      moreover have "set (stream_frames h xs u @ stream_frames h zs v) \<subseteq> set (stream_frames h (x # xs) u @ stream_frames h ys v)"
        using Cons by auto
      ultimately show ?thesis using same Cons collision_mono by (metis Cons_prefix_Cons)
    next
      assume "collision h [stream_frame x (backward h xs u), stream_frame y (backward h zs v)]"
      then have "collision h (stream_frames h (x # xs) u @ stream_frames h ys v)" by (rule collision_mono) (simp add: Cons)
      then show ?thesis by blast
    qed
  qed simp
qed simp

lemma stream_suffixes_eq: "stream_suffixes h x bss = (backward h bss x, backwards h bss x)"
  by (induction bss) (simp_all add: Let_def)

lemma encode_records_Ok:
  "k \<le> CHUNK_BYTES \<Longrightarrow> encode_records to_vec k cs = Ok bss \<longleftrightarrow>
     list_all2 (\<lambda>c b. encode_command to_vec c = Ok b) cs bss \<and> k + sizes bss \<le> CHUNK_BYTES"
proof (induction cs arbitrary: k bss)
  case (Cons c cs)
  show ?case
  proof (cases bss)
    case (Cons b bss')
    show ?thesis
    proof (cases "k + length b \<le> CHUNK_BYTES")
      case True
      from Cons.IH [OF True, of bss'] True show ?thesis by (auto simp: Cons Let_def add.assoc not_less)
    qed (auto simp: Cons Let_def)
  qed (auto simp: Let_def)
qed auto

lemma encode_command_length: "encode_command to_vec c = Ok b \<Longrightarrow> length b \<le> RECORD_BYTES"
  by (auto simp: encode_command_def split: if_splits)

section \<open>What the receiver accepts\<close>

definition px_of :: "nat \<Rightarrow> nat \<Rightarrow> bytes \<Rightarrow> prefix_commitment" where
  "px_of c i x = \<lparr>px_commands = of_nat c, px_input_bytes = of_nat i, px_hash = x\<rparr>"

lemma u64_checked_add: "c < 2 ^ 64 \<Longrightarrow> d < 2 ^ 64 \<Longrightarrow> checked_add (of_nat c :: u64) (of_nat d) = (if c + d < 2 ^ 64 then Some (of_nat (c + d)) else None)"
  using checked_add_Some [of "of_nat c :: u64" "of_nat d" "of_nat (c + d)"] checked_add_Some [of "of_nat c :: u64" "of_nat d"]
  by (cases "checked_add (of_nat c :: u64) (of_nat d)") (auto simp: u64_unat_of_nat)

lemma u64_checked_Suc: "c < 2 ^ 64 \<Longrightarrow> checked_add (of_nat c :: u64) 1 = (if c + 1 < 2 ^ 64 then Some (of_nat (c + 1)) else None)"
  using u64_checked_add [of c 1] by simp

lemma prefix_append_of:
  assumes "c < 2 ^ 64" "i < 2 ^ 64"
  shows "prefix_append h (px_of c i x) b = Ok q \<longleftrightarrow>
    length b \<le> RECORD_BYTES \<and> c + 1 < 2 ^ 64 \<and> i + length b < 2 ^ 64 \<and> q = px_of (c + 1) (i + length b) (command_hash h x b)"
proof (cases "length b \<le> RECORD_BYTES")
  case True
  then have "length b < 2 ^ 64" by (simp add: RECORD_BYTES_def)
  with True assms show ?thesis
    by (auto simp: prefix_append_def px_of_def u64_checked_add u64_checked_Suc not_less simp del: of_nat_add One_nat_def split: if_splits)
qed (simp add: prefix_append_def)

primrec prepared :: "hash \<Rightarrow> nat \<Rightarrow> bytes \<Rightarrow> (command \<times> bytes \<times> bytes) list \<Rightarrow> prepared_record list" where
  "prepared h c x [] = []"
| "prepared h c x (r # rs) =
     (case r of (command, b, s) \<Rightarrow>
        \<lparr>pr_position = of_nat c, pr_bytes = b, pr_hash = command_hash h x b, pr_suffix = s\<rparr> # prepared h (c + 1) (command_hash h x b) rs)"

definition seals_last :: "manifest \<Rightarrow> nat \<Rightarrow> command list \<Rightarrow> bool" where
  "seals_last m c cs \<longleftrightarrow> (\<forall>k < length cs. is_seal (cs ! k) \<longrightarrow> c + k + 1 = unat (mf_commands m))"

lemma seals_last_Cons: "seals_last m c (a # cs) \<longleftrightarrow> (is_seal a \<longrightarrow> c + 1 = unat (mf_commands m)) \<and> seals_last m (c + 1) cs"
  by (auto simp: seals_last_def less_Suc_eq_0_disj)

lemma append_records_of:
  assumes "c < 2 ^ 64" "i < 2 ^ 64"
  shows "append_records h m (px_of c i x) rs = Ok (q, out) \<longleftrightarrow>
    (\<forall>b\<in>set (map (\<lambda>r. fst (snd r)) rs). length b \<le> RECORD_BYTES) \<and> c + length rs < 2 ^ 64 \<and> i + sizes (map (\<lambda>r. fst (snd r)) rs) < 2 ^ 64 \<and>
    seals_last m c (map fst rs) \<and> q = px_of (c + length rs) (i + sizes (map (\<lambda>r. fst (snd r)) rs)) (forward h x (map (\<lambda>r. fst (snd r)) rs)) \<and>
    out = prepared h c x rs"
  using assms
proof (induction rs arbitrary: c i x out)
  case Nil
  then show ?case by (auto simp: seals_last_def)
next
  case (Cons r rs)
  obtain command b s where r: "r = (command, b, s)" by (cases r)
  have seal: "(if is_seal command then map_ok (\<lambda>n. n \<noteq> mf_commands m) (expect (checked_add (px_commands (px_of c i x)) 1)) else Ok False) = Ok False \<longleftrightarrow>
      (is_seal command \<longrightarrow> c + 1 = unat (mf_commands m))" if "c + 1 < 2 ^ 64"
    using that Cons.prems u64_unat_of_nat [OF that] by (auto simp: px_of_def u64_checked_Suc simp del: of_nat_add One_nat_def)
  show ?case
  proof (cases "length b \<le> RECORD_BYTES \<and> c + 1 < 2 ^ 64 \<and> i + length b < 2 ^ 64")
    case True
    then have "prefix_append h (px_of c i x) b = Ok (px_of (c + 1) (i + length b) (command_hash h x b))"
      using Cons.prems by (simp add: prefix_append_of)
    then have step: "append_records h m (px_of c i x) (r # rs) = Ok (q, out) \<longleftrightarrow> (is_seal command \<longrightarrow> c + 1 = unat (mf_commands m)) \<and>
        (\<exists>out'. append_records h m (px_of (c + 1) (i + length b) (command_hash h x b)) rs = Ok (q, out') \<and>
          out = \<lparr>pr_position = of_nat c, pr_bytes = b, pr_hash = command_hash h x b, pr_suffix = s\<rparr> # out')"
      unfolding r append_records.simps prod.case and_then_Ok ex_bool_eq if_True if_False seal [OF conjunct1 [OF conjunct2 [OF True]]]
      by (auto simp: px_of_def)
    have "c + 1 < 2 ^ 64" "i + length b < 2 ^ 64" using True by simp_all
    note rest = Cons.IH [OF this, of "command_hash h x b"]
    show ?thesis unfolding step rest using True by (auto simp: r seals_last_Cons add.assoc)
  next
    case False
    then have "prefix_append h (px_of c i x) b \<noteq> Ok p" for p using Cons.prems by (simp only: prefix_append_of) blast
    then have "append_records h m (px_of c i x) (r # rs) \<noteq> Ok (q, out)"
      unfolding r append_records.simps prod.case and_then_Ok ex_bool_eq if_True if_False by auto
    moreover have "\<not> (\<forall>b\<in>set (map (\<lambda>r. fst (snd r)) (r # rs)). length b \<le> RECORD_BYTES) \<or> \<not> c + length (r # rs) < 2 ^ 64 \<or>
        \<not> i + sizes (map (\<lambda>r. fst (snd r)) (r # rs)) < 2 ^ 64"
      using False by (simp add: r) linarith
    ultimately show ?thesis by blast
  qed
qed

definition pg_of :: "nat \<Rightarrow> nat \<Rightarrow> bytes \<Rightarrow> bytes \<Rightarrow> progress" where
  "pg_of c i x s = \<lparr>pg_commands = of_nat c, pg_input_bytes = of_nat i, pg_hash = x, pg_remaining = s\<rparr>"

lemma check_progress_Ok:
  "check_progress m pg = Ok u \<longleftrightarrow> pg_commands pg \<le> mf_commands m \<and> pg_input_bytes pg \<le> mf_input_bytes m \<and>
     (pg_commands pg = mf_commands m \<longrightarrow>
        pg_input_bytes pg = mf_input_bytes m \<and> pg_hash pg = mf_program_hash m \<and> pg_remaining pg = zero_hash)"
  by (auto simp: check_progress_def require_complete_def not_less)

definition chunk_accepted :: "hash \<Rightarrow> command to_vec \<Rightarrow> manifest \<Rightarrow> chunk \<Rightarrow> nat \<Rightarrow> nat \<Rightarrow> bytes \<Rightarrow> bytes \<Rightarrow> bytes list \<Rightarrow> bool" where
  "chunk_accepted h to_vec m ck c i x s bss \<longleftrightarrow>
     ck_records ck \<noteq> [] \<and> length (ck_records ck) \<le> CHUNK_RECORDS \<and> list_all2 (\<lambda>c b. encode_command to_vec c = Ok b) (ck_records ck) bss \<and>
     sizes bss \<le> CHUNK_BYTES \<and> ck_start ck = of_nat c \<and> ck_previous ck = x \<and> s = backward h bss (ck_next ck) \<and>
     c + length bss \<le> unat (mf_commands m) \<and> i + sizes bss \<le> unat (mf_input_bytes m) \<and> seals_last m c (ck_records ck) \<and>
     (c + length bss = unat (mf_commands m) \<longrightarrow>
        ck_next ck = zero_hash \<and> i + sizes bss = unat (mf_input_bytes m) \<and> forward h x bss = mf_program_hash m)"

lemma of_nat_u64_eq: "n < 2 ^ 64 \<Longrightarrow> (of_nat n = (w :: u64)) \<longleftrightarrow> n = unat w"
  using u64_unat_of_nat [of n] by auto

lemma less_of_nat_u64: "n < 2 ^ 64 \<Longrightarrow> ((w :: u64) < of_nat n) \<longleftrightarrow> unat w < n"
  by (simp add: word_less_nat_alt u64_unat_of_nat)

lemma authenticate_chunk_of:
  assumes "c < 2 ^ 64" "n < 2 ^ 64"
  shows "authenticate_chunk m ck (pg_of c i x s) y n = Ok u \<longleftrightarrow> ck_start ck = of_nat c \<and> ck_previous ck = x \<and> s = y \<and>
    c + n \<le> unat (mf_commands m) \<and> (c + n = unat (mf_commands m) \<longrightarrow> ck_next ck = zero_hash)"
proof (cases "c + n < 2 ^ 64")
  case True
  then have "checked_add (of_nat c :: u64) (of_nat n) = Some (of_nat (c + n))" using assms by (simp add: u64_checked_add del: of_nat_add)
  then have "authenticate_chunk m ck (pg_of c i x s) y n = Ok u \<longleftrightarrow> ck_start ck = of_nat c \<and> ck_previous ck = x \<and> s = y \<and>
      \<not> mf_commands m < of_nat (c + n) \<and> (of_nat (c + n) = mf_commands m \<longrightarrow> ck_next ck = zero_hash)"
    by (cases "ck_start ck = of_nat c") (auto simp: authenticate_chunk_def pg_of_def simp del: of_nat_add split: if_splits)
  then show ?thesis by (simp add: less_of_nat_u64 [OF True] of_nat_u64_eq [OF True] not_less del: of_nat_add)
next
  case False
  then have "checked_add (of_nat c :: u64) (of_nat n) = None" using assms by (simp add: u64_checked_add)
  then have "authenticate_chunk m ck (pg_of c i x s) y n \<noteq> Ok u"
    by (cases "ck_start ck = of_nat c") (auto simp: authenticate_chunk_def pg_of_def)
  then show ?thesis using False unat_u64_less [of "mf_commands m"] by auto
qed

lemma check_progress_of:
  assumes "c < 2 ^ 64" "i < 2 ^ 64"
  shows "check_progress m (pg_of c i x s) = Ok u \<longleftrightarrow> c \<le> unat (mf_commands m) \<and> i \<le> unat (mf_input_bytes m) \<and>
    (c = unat (mf_commands m) \<longrightarrow> i = unat (mf_input_bytes m) \<and> x = mf_program_hash m \<and> s = zero_hash)"
  using assms by (simp add: check_progress_Ok pg_of_def of_nat_u64_eq word_le_nat_alt u64_unat_of_nat)

lemma prepare_append_of:
  assumes "c < 2 ^ 64" "i < 2 ^ 64"
  shows "prepare_append h to_vec m ck (pg_of c i x s) = Ok (pg', rs) \<longleftrightarrow>
    (\<exists>bss. chunk_accepted h to_vec m ck c i x s bss \<and> pg' = pg_of (c + length bss) (i + sizes bss) (forward h x bss) (ck_next ck) \<and>
      rs = prepared h c x (zip (ck_records ck) (zip bss (snd (stream_suffixes h (ck_next ck) bss)))))"
    (is "?run = _ \<longleftrightarrow> (\<exists>bss. ?accept bss)")
proof (cases "ck_records ck = [] \<or> CHUNK_RECORDS < length (ck_records ck)")
  case False
  have "?run = Ok (pg', rs) \<longleftrightarrow> ?accept bss" if bss: "encode_records to_vec 0 (ck_records ck) = Ok bss" for bss
  proof -
    have enc: "list_all2 (\<lambda>c b. encode_command to_vec c = Ok b) (ck_records ck) bss" "sizes bss \<le> CHUNK_BYTES"
      using bss by (simp_all add: encode_records_Ok)
    then have len: "length bss = length (ck_records ck)" by (simp add: list_all2_lengthD)
    then have small: "length bss < 2 ^ 64" using False by (simp add: CHUNK_RECORDS_def)
    let ?rs = "zip (ck_records ck) (zip bss (snd (stream_suffixes h (ck_next ck) bss)))"
    let ?stop = "pg_of (c + length bss) (i + sizes bss) (forward h x bss) (ck_next ck)"
    have "map (\<lambda>r. fst (snd r)) ?rs = map fst (map snd ?rs)" by simp
    then have rs: "map fst ?rs = ck_records ck" "map (\<lambda>r. fst (snd r)) ?rs = bss" "length ?rs = length bss"
      using len by (simp_all only: stream_suffixes_eq map_fst_zip map_snd_zip length_zip length_map snd_conv length_backwards)
    have wide: "\<forall>b\<in>set bss. length b \<le> RECORD_BYTES"
      using enc(1) encode_command_length by (fastforce simp: list_all2_conv_all_nth in_set_conv_nth)
    note append = append_records_of [OF assms, where rs = ?rs, unfolded rs]
    have head: "\<lparr>px_commands = pg_commands (pg_of c i x s), px_input_bytes = pg_input_bytes (pg_of c i x s), px_hash = pg_hash (pg_of c i x s)\<rparr> = px_of c i x"
      by (simp add: pg_of_def px_of_def)
    have "?run = Ok (pg', rs) \<longleftrightarrow> authenticate_chunk m ck (pg_of c i x s) (backward h bss (ck_next ck)) (length bss) = Ok () \<and>
        (\<exists>p. append_records h m (px_of c i x) ?rs = Ok (p, rs) \<and>
          pg' = \<lparr>pg_commands = px_commands p, pg_input_bytes = px_input_bytes p, pg_hash = px_hash p, pg_remaining = ck_next ck\<rparr> \<and> check_progress m pg' = Ok ())"
      using False unfolding prepare_append_def bss and_then.simps head stream_suffixes_eq prod.case Let_def snd_conv by auto
    also have "\<dots> \<longleftrightarrow> authenticate_chunk m ck (pg_of c i x s) (backward h bss (ck_next ck)) (length bss) = Ok () \<and>
        c + length bss < 2 ^ 64 \<and> i + sizes bss < 2 ^ 64 \<and> seals_last m c (ck_records ck) \<and> pg' = ?stop \<and> check_progress m pg' = Ok () \<and> rs = prepared h c x ?rs"
      unfolding append using wide by (auto simp: px_of_def pg_of_def)
    also have "\<dots> \<longleftrightarrow> ?accept bss"
      using False enc unat_u64_less [of "mf_commands m"] unat_u64_less [of "mf_input_bytes m"]
      unfolding authenticate_chunk_of [OF assms(1) small] chunk_accepted_def
      by (auto simp: check_progress_of not_less simp del: replicate.simps)
    finally show ?thesis .
  qed
  moreover have "?accept bss \<Longrightarrow> encode_records to_vec 0 (ck_records ck) = Ok bss" for bss
    by (auto simp: chunk_accepted_def encode_records_Ok)
  moreover have "?run = Ok (pg', rs) \<Longrightarrow> \<exists>bss. encode_records to_vec 0 (ck_records ck) = Ok bss"
    using False by (auto simp: prepare_append_def)
  ultimately show ?thesis by blast
qed (auto simp: prepare_append_def chunk_accepted_def)

section \<open>Receiving a program\<close>

text \<open>Chunks that are accepted one after another, with all the records they prepare.\<close>

inductive receives :: "hash \<Rightarrow> command to_vec \<Rightarrow> manifest \<Rightarrow> progress \<Rightarrow> prepared_record list \<Rightarrow> progress \<Rightarrow> bool" for h to_vec m where
  receives_nothing: "receives h to_vec m pg [] pg"
| receives_chunk: "prepare_append h to_vec m ck pg = Ok (pg', rs) \<Longrightarrow> receives h to_vec m pg' out pg'' \<Longrightarrow> receives h to_vec m pg (rs @ out) pg''"

definition progress_start :: "manifest \<Rightarrow> progress" where
  "progress_start m = \<lparr>pg_commands = 0, pg_input_bytes = 0, pg_hash = zero_hash, pg_remaining = mf_stream_root m\<rparr>"

lemma progress_exhaust: obtains c i x s where "pg = pg_of c i x s" "c < 2 ^ 64" "i < 2 ^ 64"
  using that [of "unat (pg_commands pg)" "unat (pg_input_bytes pg)" "pg_hash pg" "pg_remaining pg"] unat_u64_less by (simp add: pg_of_def)

lemma prepared_bytes: "map pr_bytes (prepared h c x rs) = map (\<lambda>r. fst (snd r)) rs"
  by (induction rs arbitrary: c x) (auto split: prod.split)

lemma prepared_hashes: "map pr_hash (prepared h c x rs) = forwards h x (map (\<lambda>r. fst (snd r)) rs)"
  by (induction rs arbitrary: c x) (auto split: prod.split)

lemma prepared_suffixes: "map pr_suffix (prepared h c x rs) = map (\<lambda>r. snd (snd r)) rs"
  by (induction rs arbitrary: c x) (auto split: prod.split)

lemma prepared_positions: "map pr_position (prepared h c x rs) = map of_nat [c..<c + length rs]"
proof (induction rs arbitrary: c x)
  case (Cons r rs)
  then show ?case by (simp add: upt_conv_Cons split: prod.split del: upt_Suc)
qed simp

text \<open>What one accepted chunk and a whole reception do to the progress.\<close>

definition advances :: "hash \<Rightarrow> manifest \<Rightarrow> progress \<Rightarrow> prepared_record list \<Rightarrow> progress \<Rightarrow> bool" where
  "advances h m pg rs pg' \<longleftrightarrow>
     pg_remaining pg = backward h (map pr_bytes rs) (pg_remaining pg') \<and> pg_hash pg' = forward h (pg_hash pg) (map pr_bytes rs) \<and>
     unat (pg_commands pg') = unat (pg_commands pg) + length rs \<and> unat (pg_input_bytes pg') = unat (pg_input_bytes pg) + sizes (map pr_bytes rs) \<and>
     map pr_position rs = map of_nat [unat (pg_commands pg)..<unat (pg_commands pg) + length rs] \<and>
     map pr_hash rs = forwards h (pg_hash pg) (map pr_bytes rs) \<and> map pr_suffix rs = backwards h (map pr_bytes rs) (pg_remaining pg') \<and>
     (\<forall>r\<in>set rs. length (pr_bytes r) \<le> RECORD_BYTES)"

lemma zip3_projections:
  assumes "length xs = length ys" "length zs = length ys"
  shows "map (\<lambda>r. fst (snd r)) (zip xs (zip ys zs)) = ys" "map (\<lambda>r. snd (snd r)) (zip xs (zip ys zs)) = zs" "length (zip xs (zip ys zs)) = length ys"
proof -
  have "map (\<lambda>r. fst (snd r)) (zip xs (zip ys zs)) = map fst (map snd (zip xs (zip ys zs)))"
    "map (\<lambda>r. snd (snd r)) (zip xs (zip ys zs)) = map snd (map snd (zip xs (zip ys zs)))" by simp_all
  with assms show "map (\<lambda>r. fst (snd r)) (zip xs (zip ys zs)) = ys" "map (\<lambda>r. snd (snd r)) (zip xs (zip ys zs)) = zs"
    by (simp_all only: map_fst_zip map_snd_zip length_zip min.idem)
qed (use assms in simp)

lemma chunk_advances:
  assumes "prepare_append h to_vec m ck pg = Ok (pg', rs)"
  shows "advances h m pg rs pg'"
proof -
  obtain c i x s where pg: "pg = pg_of c i x s" "c < 2 ^ 64" "i < 2 ^ 64" by (rule progress_exhaust)
  obtain bss where bss: "chunk_accepted h to_vec m ck c i x s bss" "pg' = pg_of (c + length bss) (i + sizes bss) (forward h x bss) (ck_next ck)"
    "rs = prepared h c x (zip (ck_records ck) (zip bss (backwards h bss (ck_next ck))))"
    using assms unfolding pg(1) prepare_append_of [OF pg(2,3)] stream_suffixes_eq snd_conv by blast
  have len: "length (ck_records ck) = length bss" using bss(1) by (auto simp: chunk_accepted_def dest: list_all2_lengthD)
  note zips = zip3_projections [OF len length_backwards]
  have bytes: "map pr_bytes rs = bss" unfolding bss(3) prepared_bytes zips by (rule refl)
  then have n: "length rs = length bss" by (metis length_map)
  have small: "c + length bss < 2 ^ 64" "i + sizes bss < 2 ^ 64"
    using bss(1) unat_u64_less [of "mf_commands m"] unat_u64_less [of "mf_input_bytes m"] by (auto simp: chunk_accepted_def)
  have wide: "length b \<le> RECORD_BYTES" if "b \<in> set bss" for b
    using that bss(1) encode_command_length by (fastforce simp: chunk_accepted_def list_all2_conv_all_nth in_set_conv_nth)
  have "pr_bytes r \<in> set bss" if "r \<in> set rs" for r using that bytes by (metis image_eqI set_map)
  with wide have "\<forall>r\<in>set rs. length (pr_bytes r) \<le> RECORD_BYTES" by blast
  moreover have "map pr_position rs = map of_nat [c..<c + length bss]" unfolding bss(3) prepared_positions zips by (rule refl)
  moreover have "map pr_hash rs = forwards h x bss" unfolding bss(3) prepared_hashes zips by (rule refl)
  moreover have "map pr_suffix rs = backwards h bss (ck_next ck)" unfolding bss(3) prepared_suffixes zips by (rule refl)
  moreover have "s = backward h bss (ck_next ck)" using bss(1) by (simp add: chunk_accepted_def)
  moreover have "unat (pg_commands pg) = c" "unat (pg_input_bytes pg) = i" "pg_hash pg = x" "pg_remaining pg = s"
    "unat (pg_commands pg') = c + length bss" "unat (pg_input_bytes pg') = i + sizes bss" "pg_hash pg' = forward h x bss" "pg_remaining pg' = ck_next ck"
    unfolding pg(1) bss(2) pg_of_def by (simp_all only: progress.simps u64_unat_of_nat pg(2,3) small)
  ultimately show ?thesis unfolding advances_def bytes n by (simp only: simp_thms)
qed

lemma advances_append:
  assumes "advances h m pg rs pg'" "advances h m pg' out pg''"
  shows "advances h m pg (rs @ out) pg''"
proof -
  have "[unat (pg_commands pg)..<unat (pg_commands pg) + length (rs @ out)] =
      [unat (pg_commands pg)..<unat (pg_commands pg) + length rs] @ [unat (pg_commands pg')..<unat (pg_commands pg') + length out]"
    using assms(1) upt_add_eq_append [of "unat (pg_commands pg)" "unat (pg_commands pg) + length rs" "length out"]
    by (simp add: advances_def add.assoc)
  with assms show ?thesis unfolding advances_def by (auto simp only: map_append foldr_append foldl_append forwards_append backwards_append
    o_apply length_append sum_list_append set_append Un_iff add.assoc)
qed

lemma receives_advances: "receives h to_vec m pg rs pg' \<Longrightarrow> advances h m pg rs pg'"
proof (induction rule: receives.induct)
  case (receives_chunk ck pg pg' rs out pg'')
  then show ?case by (blast intro: advances_append chunk_advances)
qed (simp add: advances_def)

lemma receives_checks_progress:
  "receives h to_vec m pg rs pg' \<Longrightarrow> check_progress m pg = Ok () \<Longrightarrow> check_progress m pg' = Ok ()"
proof (induction rule: receives.induct)
  case (receives_chunk ck pg pg' rs out pg'')
  have "check_progress m pg' = Ok ()" using receives_chunk(1)
    by (auto simp: prepare_append_def Let_def stream_suffixes_eq split: if_splits)
  with receives_chunk.IH show ?case by blast
qed

text \<open>The rows and the progress of an honest transfer of the records \<open>bss\<close>.\<close>

definition program_row :: "hash \<Rightarrow> bytes list \<Rightarrow> nat \<Rightarrow> prepared_record" where
  "program_row h bss k = \<lparr>pr_position = of_nat k, pr_bytes = bss ! k, pr_hash = forward h zero_hash (take (Suc k) bss),
     pr_suffix = backward h (drop k bss) zero_hash\<rparr>"

definition program_rows :: "hash \<Rightarrow> bytes list \<Rightarrow> prepared_record list" where
  "program_rows h bss = map (program_row h bss) [0..<length bss]"

definition progress_at :: "hash \<Rightarrow> bytes list \<Rightarrow> nat \<Rightarrow> progress" where
  "progress_at h bss k = pg_of k (sizes (take k bss)) (forward h zero_hash (take k bss)) (backward h (drop k bss) zero_hash)"

lemma forwards_nth: "k < length bss \<Longrightarrow> forwards h x bss ! k = forward h x (take (Suc k) bss)"
proof (induction bss arbitrary: x k)
  case (Cons b bss)
  then show ?case by (cases k) simp_all
qed simp

lemma backwards_nth: "k < length bss \<Longrightarrow> backwards h bss x ! k = backward h (drop k bss) x"
proof (induction bss arbitrary: k)
  case (Cons b bss)
  then show ?case by (cases k) simp_all
qed simp

lemma backward_cancel:
  assumes "backward h xs u = backward h (xs @ zs) v" "\<forall>b\<in>set xs. length b < 2 ^ 64"
  shows "u = backward h zs v \<or> collision h (stream_frames h xs u @ stream_frames h (xs @ zs) v)"
  using assms
proof (induction xs)
  case (Cons x xs)
  let ?all = "stream_frames h (x # xs) u @ stream_frames h ((x # xs) @ zs) v"
  have "backward h xs u = backward h (xs @ zs) v \<or> collision h [stream_frame x (backward h xs u), stream_frame x (backward h (xs @ zs) v)]"
    using stream_hash_inj [of h x "backward h xs u" x "backward h (xs @ zs) v"] Cons.prems by simp
  moreover have "collision h ?all" if "collision h [stream_frame x (backward h xs u), stream_frame x (backward h (xs @ zs) v)]"
    using that by (rule collision_mono) simp
  moreover have "collision h ?all" if "collision h (stream_frames h xs u @ stream_frames h (xs @ zs) v)"
    using that by (rule collision_mono) auto
  ultimately show ?case using Cons.IH Cons.prems(2) by (metis list.set_intros(2))
qed simp

lemma sizes_take_le: "sizes (take k bss) \<le> sizes bss"
  by (metis append_take_drop_id le_add1 map_append sum_list_append)

lemma advances_rows:
  assumes rs: "advances h m (progress_at h bss start) rs pg'" and bytes: "bss = take start bss @ map pr_bytes rs @ zs" "start \<le> length bss"
    and rest: "pg_remaining pg' = backward h zs zero_hash" and small: "length bss < 2 ^ 64" "sizes bss < 2 ^ 64"
  shows "rs = take (length rs) (drop start (program_rows h bss)) \<and> pg' = progress_at h bss (start + length rs)"
proof
  have "length bss = start + (length rs + length zs)" using arg_cong [OF bytes(1), of length] bytes(2) by simp
  then have le: "start + length rs \<le> length bss" by simp
  have at: "pg_hash (progress_at h bss start) = forward h zero_hash (take start bss)" "unat (pg_commands (progress_at h bss start)) = start"
    "unat (pg_input_bytes (progress_at h bss start)) = sizes (take start bss)"
    unfolding progress_at_def pg_of_def using small bytes(2) sizes_take_le [of start bss] by (simp_all only: progress.simps) (intro u64_unat_of_nat; linarith)+
  have drops: "drop start bss = map pr_bytes rs @ zs"
    using arg_cong [OF bytes(1), of "drop start"] bytes(2) by simp
  have split: "take (start + k) bss = take start bss @ take k (map pr_bytes rs)" if "k \<le> length rs" for k
    using that by (simp add: take_add drops)
  have "rs ! k = program_row h bss (start + k)" if k: "k < length rs" for k
  proof -
    have "pr_position (rs ! k) = map pr_position rs ! k" "pr_bytes (rs ! k) = map pr_bytes rs ! k" "pr_hash (rs ! k) = map pr_hash rs ! k"
      "pr_suffix (rs ! k) = map pr_suffix rs ! k" using k by simp_all
    moreover have "map pr_position rs ! k = of_nat (start + k)" using rs k unfolding advances_def at by (simp del: of_nat_add)
    moreover have "map pr_bytes rs ! k = drop start bss ! k" unfolding drops using k by (simp add: nth_append)
    moreover have "drop start bss ! k = bss ! (start + k)" using bytes(2) by simp
    moreover have "forwards h (forward h zero_hash (take start bss)) (map pr_bytes rs) ! k = forward h zero_hash (take (start + Suc k) bss)"
      unfolding split [OF Suc_leI [OF k]] using k by (simp add: forwards_nth)
    then have "map pr_hash rs ! k = forward h zero_hash (take (Suc (start + k)) bss)" using rs unfolding advances_def at by simp
    moreover have "drop (start + k) bss = drop k (map pr_bytes rs) @ zs"
      using arg_cong [OF drops, of "drop k"] k by (simp add: add.commute)
    then have "map pr_suffix rs ! k = backward h (drop (start + k) bss) zero_hash"
      using rs k rest by (simp add: advances_def backwards_nth)
    ultimately show ?thesis unfolding program_row_def by (cases "rs ! k") simp
  qed
  then show "rs = take (length rs) (drop start (program_rows h bss))"
    using le by (intro nth_equalityI) (simp_all add: program_rows_def)
  have n: "unat (pg_commands pg') = start + length rs" "unat (pg_input_bytes pg') = sizes (take (start + length rs) bss)"
    using rs unfolding advances_def at split [OF order_refl] by simp_all
  have "pg_commands pg' = of_nat (start + length rs)" unfolding n(1) [symmetric] by simp
  moreover have "pg_input_bytes pg' = of_nat (sizes (take (start + length rs) bss))" unfolding n(2) [symmetric] by simp
  moreover have "pg_hash pg' = forward h zero_hash (take (start + length rs) bss)" using rs unfolding advances_def at split [OF order_refl] by simp
  moreover have "drop (start + length rs) bss = zs" using arg_cong [OF drops, of "drop (length rs)"] by (simp add: add.commute)
  ultimately show "pg' = progress_at h bss (start + length rs)" using rest unfolding progress_at_def pg_of_def by (cases pg') simp
qed

section \<open>Serving a stored program\<close>

text \<open>
  \<open>program_chunk\<close> of the node's store. The rows of the program in the table \<open>program_input\<close>, in the order of their
  positions, and its progress in the table \<open>programs\<close> are what the database holds, and \<open>no_rows\<close> is the database's error for a
  query that finds no row. The schema of the table keeps positions from being negative.
\<close>

definition program_ordinal :: "u64 \<Rightarrow> (program_error, u64) outcome" where
  "program_ordinal v = (if unat v < 2 ^ 63 then Ok v else Err (PText ''physical program address exhausted''))"

definition catalog_key :: "bytes \<Rightarrow> (program_error, bytes) outcome" where
  "catalog_key bs = (if length bs = 32 then Ok bs else Err (PText ''catalog identity width''))"

definition query_row :: "program_error \<Rightarrow> prepared_record list \<Rightarrow> u64 \<Rightarrow> (program_error, prepared_record) outcome" where
  "query_row no_rows rows position =
     and_then (program_ordinal position) (\<lambda>position. ok_or no_rows (find (\<lambda>row. pr_position row = position) rows))"

primrec read_rows :: "hash \<Rightarrow> command to_vec \<Rightarrow> command from_slice \<Rightarrow> chunk_reader \<Rightarrow> prepared_record list \<Rightarrow> (program_error, chunk_reader) outcome" where
  "read_rows sha256 to_vec from_slice r [] = Ok r"
| "read_rows sha256 to_vec from_slice r (row # rows) =
     and_then (catalog_key (take 33 (pr_hash row))) (\<lambda>stored.
     and_then (reader_push sha256 to_vec from_slice (pr_position row) (take 4097 (pr_bytes row)) stored r) (\<lambda>(more, r').
       if more then read_rows sha256 to_vec from_slice r' rows else Ok r'))"

definition program_chunk ::
  "hash \<Rightarrow> command to_vec \<Rightarrow> command from_slice \<Rightarrow> program_error \<Rightarrow> prepared_record list \<Rightarrow> progress \<Rightarrow> u64 \<Rightarrow> nat \<Rightarrow> nat \<Rightarrow>
     (program_error, chunk) outcome" where
  "program_chunk sha256 to_vec from_slice no_rows rows value start records maximum =
     (if pg_commands value < start then Err (PText ''program cursor exceeds received prefix'')
      else and_then (if start = 0 then Ok zero_hash
          else and_then (query_row no_rows rows (start - 1)) (\<lambda>row. catalog_key (take 33 (pr_hash row)))) (\<lambda>previous.
        and_then (program_ordinal start) (\<lambda>from_position.
        and_then (reader_new start previous records maximum) (\<lambda>reader.
        and_then (read_rows sha256 to_vec from_slice reader
            (take records (filter (\<lambda>row. from_position \<le> pr_position row) rows))) (\<lambda>reader.
        and_then (expect (reader_end reader)) (\<lambda>stop.
        and_then (if stop = pg_commands value then Ok (pg_remaining value)
          else and_then (query_row no_rows rows stop) (\<lambda>row. catalog_key (take 33 (pr_suffix row)))) (\<lambda>next_hash.
          reader_finish (pg_commands value) next_hash reader)))))))"

text \<open>The reader after \<open>j\<close> rows of an honestly stored program.\<close>

definition reader_at :: "hash \<Rightarrow> command list \<Rightarrow> bytes list \<Rightarrow> nat \<Rightarrow> nat \<Rightarrow> nat \<Rightarrow> nat \<Rightarrow> chunk_reader" where
  "reader_at h cs bss start records maximum j =
     \<lparr>cr_chunk = \<lparr>ck_start = of_nat start, ck_previous = forward h zero_hash (take start bss), ck_next = zero_hash, ck_records = take j (drop start cs)\<rparr>,
      cr_records = records, cr_maximum = maximum, cr_bytes = sizes (take j (drop start bss)), cr_hash = forward h zero_hash (take (start + j) bss)\<rparr>"

lemma reader_end_at:
  assumes "start + j \<le> length cs" "length cs < 2 ^ 64"
  shows "reader_end (reader_at h cs bss start records maximum j) = Some (of_nat (start + j))"
proof -
  have "length (take j (drop start cs)) = j" using assms(1) by simp
  then show ?thesis using assms u64_checked_add [of start j] by (simp only: reader_end_def reader_at_def chunk_reader.simps chunk.simps) simp
qed

lemma decode_encoded:
  assumes "encode_command to_vec c = Ok b" "\<forall>c b. to_vec c = Ok b \<longrightarrow> from_slice b = Ok c"
  shows "decode_command to_vec from_slice b = Ok c"
proof -
  have "to_vec c = Ok b" "length b \<le> RECORD_BYTES" using assms(1) by (auto simp: encode_command_def split: if_splits)
  with assms show ?thesis by (simp add: decode_command_def)
qed

lemma reader_push_at:
  assumes enc: "list_all2 (\<lambda>c b. encode_command to_vec c = Ok b) cs bss" and json: "\<forall>c b. to_vec c = Ok b \<longrightarrow> from_slice b = Ok c"
    and k: "start + j < length bss" and small: "length bss < 2 ^ 64" and row: "row = program_row h bss (start + j)"
  shows "reader_push h to_vec from_slice (pr_position row) (pr_bytes row) (pr_hash row) (reader_at h cs bss start records maximum j) =
    (if j = records \<or> maximum - sizes (take j (drop start bss)) < length (bss ! (start + j))
     then if j = 0 then Err (PText ''program record exceeds chunk budget'') else Ok (False, reader_at h cs bss start records maximum j)
     else Ok (True, reader_at h cs bss start records maximum (Suc j)))"
proof -
  let ?r = "reader_at h cs bss start records maximum j"
  have len: "length cs = length bss" using enc by (rule list_all2_lengthD)
  have e: "encode_command to_vec (cs ! (start + j)) = Ok (bss ! (start + j))" using enc k by (simp add: list_all2_conv_all_nth)
  have stop: "reader_end ?r = Some (of_nat (start + j))" using k small len by (intro reader_end_at) simp_all
  have next_position: "checked_add (of_nat (start + j) :: u64) 1 = Some (of_nat (start + j + 1))"
    using k small u64_checked_Suc [of "start + j"] by (simp del: of_nat_add)
  have hash: "command_hash h (forward h zero_hash (take (start + j) bss)) (bss ! (start + j)) = forward h zero_hash (take (Suc (start + j)) bss)"
    using k by (simp add: take_Suc_conv_app_nth)
  have records: "take (Suc j) (drop start cs) = take j (drop start cs) @ [cs ! (start + j)]"
    "take (Suc j) (drop start bss) = take j (drop start bss) @ [bss ! (start + j)]"
    using k len by (simp_all add: take_Suc_conv_app_nth)
  have n: "length (take j (drop start cs)) = j" "(take j (drop start cs) = []) = (j = 0)" using k len by auto
  show ?thesis
    unfolding reader_push_def stop row program_row_def
    using encode_command_length [OF e] k len
    by (simp add: decode_encoded [OF e json] next_position n Let_def not_less reader_at_def hash records del: of_nat_add take_Suc replicate.simps)
qed

lemma forward_key: "digest_ok h \<Longrightarrow> length (forward h zero_hash bss) = 32"
  by (cases bss rule: rev_cases) (simp_all add: command_hash_def digest_ok_def)

lemma backward_key: "digest_ok h \<Longrightarrow> length (backward h bss zero_hash) = 32"
  by (cases bss) (simp_all add: stream_hash_def digest_ok_def)

lemma catalog_key_take [simp]: "length bs = 32 \<Longrightarrow> catalog_key (take 33 bs) = Ok bs"
  by (simp add: catalog_key_def)

text \<open>One row of an honestly stored program, and then all of them: either the first record is larger than the budget, or the
  reader takes as many records as the two budgets allow, and at least one.\<close>

lemma read_rows_step:
  assumes enc: "list_all2 (\<lambda>c b. encode_command to_vec c = Ok b) cs bss" and json: "\<forall>c b. to_vec c = Ok b \<longrightarrow> from_slice b = Ok c"
    and small: "length bss < 2 ^ 64" and h: "digest_ok h" and k: "start + j < length bss"
  shows "read_rows h to_vec from_slice (reader_at h cs bss start records maximum j) (map (program_row h bss) [start + j..<start + j + Suc d]) =
    (if j = records \<or> maximum - sizes (take j (drop start bss)) < length (bss ! (start + j))
     then if j = 0 then Err (PText ''program record exceeds chunk budget'') else Ok (reader_at h cs bss start records maximum j)
     else read_rows h to_vec from_slice (reader_at h cs bss start records maximum (Suc j)) (map (program_row h bss) [start + Suc j..<start + Suc j + d]))"
proof -
  let ?row = "program_row h bss (start + j)"
  have short: "length (bss ! (start + j)) \<le> RECORD_BYTES"
    using enc k encode_command_length by (fastforce simp: list_all2_conv_all_nth)
  have fields: "take 4097 (pr_bytes ?row) = pr_bytes ?row" "catalog_key (take 33 (pr_hash ?row)) = Ok (pr_hash ?row)"
    using short by (simp_all add: program_row_def RECORD_BYTES_def forward_key [OF h] catalog_key_def)
  have rows: "map (program_row h bss) [start + j..<start + j + Suc d] =
      ?row # map (program_row h bss) [start + Suc j..<start + Suc j + d]"
    by (simp add: upt_conv_Cons del: upt_Suc)
  show ?thesis
    unfolding rows read_rows.simps fields
    using reader_push_at [OF enc json k small refl, where h = h and records = records and maximum = maximum]
    by (simp del: upt_Suc)
qed

lemma read_rows_at:
  assumes enc: "list_all2 (\<lambda>c b. encode_command to_vec c = Ok b) cs bss" and json: "\<forall>c b. to_vec c = Ok b \<longrightarrow> from_slice b = Ok c"
    and small: "length bss < 2 ^ 64" and h: "digest_ok h" and budget: "0 < records" "length (bss ! start) \<le> maximum"
  shows "start + j + d \<le> length bss \<Longrightarrow> sizes (take j (drop start bss)) \<le> maximum \<Longrightarrow> j \<le> records \<Longrightarrow>
    \<exists>n. j \<le> n \<and> n \<le> j + d \<and> n \<le> records \<and> (0 < d \<longrightarrow> 0 < n) \<and> sizes (take n (drop start bss)) \<le> maximum \<and>
      read_rows h to_vec from_slice (reader_at h cs bss start records maximum j) (map (program_row h bss) [start + j..<start + j + d]) =
        Ok (reader_at h cs bss start records maximum n)"
proof (induction d arbitrary: j)
  case (Suc d)
  have k: "start + j < length bss" using Suc.prems by simp
  note step = read_rows_step [OF enc json small h k, where records = records and maximum = maximum and d = d]
  show ?case
  proof (cases "j = records \<or> maximum - sizes (take j (drop start bss)) < length (bss ! (start + j))")
    case True
    then have "j \<noteq> 0" using budget by (cases j) auto
    then show ?thesis unfolding step using True Suc.prems by (intro exI [of _ j]) (simp del: upt_Suc)
  next
    case False
    have "take (Suc j) (drop start bss) = take j (drop start bss) @ [bss ! (start + j)]" using k by (simp add: take_Suc_conv_app_nth)
    then have "sizes (take (Suc j) (drop start bss)) = sizes (take j (drop start bss)) + length (bss ! (start + j))" by simp
    then have "sizes (take (Suc j) (drop start bss)) \<le> maximum" using False Suc.prems(2) by linarith
    then obtain n where "Suc j \<le> n" "n \<le> Suc j + d" "n \<le> records" "sizes (take n (drop start bss)) \<le> maximum"
        "read_rows h to_vec from_slice (reader_at h cs bss start records maximum (Suc j)) (map (program_row h bss) [start + Suc j..<start + Suc j + d]) =
          Ok (reader_at h cs bss start records maximum n)"
      using Suc.IH [of "Suc j"] Suc.prems False by auto
    then show ?thesis unfolding step using False by (intro exI [of _ n]) (simp del: upt_Suc)
  qed
qed auto

text \<open>What the queries find in the rows of a received prefix.\<close>

lemma held_rows: "held \<le> length bss \<Longrightarrow> take held (program_rows h bss) = map (program_row h bss) [0..<held]"
  by (simp add: program_rows_def take_map)

lemma find_program_row:
  assumes "k < held" "held < 2 ^ 63"
  shows "query_row no_rows (map (program_row h bss) [0..<held]) (of_nat k) = Ok (program_row h bss k)"
proof -
  have pos: "pr_position (program_row h bss i) = of_nat k \<longleftrightarrow> i = k" if "i < held" for i
  proof -
    have "unat (of_nat i :: u64) = i" "unat (of_nat k :: u64) = k" using assms that by (intro u64_unat_of_nat; simp)+
    then show ?thesis unfolding program_row_def prepared_record.simps by metis
  qed
  have "find (\<lambda>row. pr_position row = of_nat k) (map (program_row h bss) [0..<held]) = Some (program_row h bss k)"
    unfolding find_Some_iff using assms(1) pos by (intro exI [of _ k]) auto
  moreover have "unat (of_nat k :: u64) = k" using assms by (intro u64_unat_of_nat) simp
  ultimately show ?thesis using assms by (simp add: query_row_def program_ordinal_def)
qed

lemma rows_from:
  assumes "start \<le> held" "held < 2 ^ 63"
  shows "filter (\<lambda>row. of_nat start \<le> pr_position row) (map (program_row h bss) [0..<held]) = map (program_row h bss) [start..<held]"
proof -
  have pos: "of_nat start \<le> pr_position (program_row h bss i) \<longleftrightarrow> start \<le> i" if "i < held" for i
  proof -
    have "unat (of_nat i :: u64) = i" "unat (of_nat start :: u64) = start" using assms that by (intro u64_unat_of_nat; simp)+
    then show ?thesis unfolding program_row_def prepared_record.simps word_le_nat_alt by simp
  qed
  have "[0..<held] = [0..<start] @ [start..<held]" using assms(1) upt_add_eq_append [of 0 start "held - start"] by simp
  moreover have "filter ((\<lambda>row. of_nat start \<le> pr_position row) \<circ> program_row h bss) [0..<start] = []"
    using assms pos by (auto simp: filter_empty_conv)
  moreover have "filter ((\<lambda>row. of_nat start \<le> pr_position row) \<circ> program_row h bss) [start..<held] = [start..<held]"
    using pos by (auto simp: filter_id_conv)
  ultimately show ?thesis by (simp add: filter_map)
qed

text \<open>A program with its commands, their canonical bytes, and the manifest that describes it: the only seal is the last command.\<close>

definition program_of :: "hash \<Rightarrow> command to_vec \<Rightarrow> manifest \<Rightarrow> command list \<Rightarrow> bytes list \<Rightarrow> bool" where
  "program_of h to_vec m cs bss \<longleftrightarrow>
     list_all2 (\<lambda>c b. encode_command to_vec c = Ok b) cs bss \<and> length cs = unat (mf_commands m) \<and> sizes bss = unat (mf_input_bytes m) \<and>
     mf_program_hash m = forward h zero_hash bss \<and> mf_stream_root m = backward h bss zero_hash \<and>
     seals_last m 0 cs"

lemma chunk_accepted_at:
  assumes p: "program_of h to_vec m cs bss" and n: "0 < n" "start + n \<le> length bss" "n \<le> CHUNK_RECORDS" "sizes (take n (drop start bss)) \<le> CHUNK_BYTES"
    and ck: "ck = \<lparr>ck_start = of_nat start, ck_previous = forward h zero_hash (take start bss), ck_next = backward h (drop (start + n) bss) zero_hash,
      ck_records = take n (drop start cs)\<rparr>"
  shows "chunk_accepted h to_vec m ck start (sizes (take start bss)) (forward h zero_hash (take start bss))
    (backward h (drop start bss) zero_hash) (take n (drop start bss))"
proof -
  have enc: "list_all2 (\<lambda>c b. encode_command to_vec c = Ok b) cs bss" and len: "length bss = unat (mf_commands m)" "length cs = unat (mf_commands m)"
    and sz: "sizes bss = unat (mf_input_bytes m)" and hash: "mf_program_hash m = forward h zero_hash bss" and seal: "seals_last m 0 cs"
    using p list_all2_lengthD [of _ cs bss] by (auto simp: program_of_def)
  let ?bss = "take n (drop start bss)"
  have split: "take (start + n) bss = take start bss @ ?bss" by (simp add: take_add)
  have drops: "drop start bss = ?bss @ drop (start + n) bss" by (metis add.commute append_take_drop_id drop_drop)
  from arg_cong [OF this, of "\<lambda>bss. backward h bss zero_hash"]
  have suffix: "backward h (drop start bss) zero_hash = backward h ?bss (backward h (drop (start + n) bss) zero_hash)" unfolding foldr_append o_apply .
  have total: "sizes (take start bss) + sizes ?bss = sizes (take (start + n) bss)" unfolding split by simp
  have forwards: "forward h (forward h zero_hash (take start bss)) ?bss = forward h zero_hash (take (start + n) bss)" unfolding split by simp
  have seals: "seals_last m start (take n (drop start cs))"
    using seal n(2) len by (auto simp: seals_last_def)
  have pairs: "list_all2 (\<lambda>c b. encode_command to_vec c = Ok b) (take n (drop start cs)) ?bss" using enc by (simp add: list_all2_takeI list_all2_dropI)
  have lcs: "take n (drop start cs) \<noteq> []" "length (take n (drop start cs)) = n" "length ?bss = n" using n len by auto
  have last: "backward h (drop (start + n) bss) zero_hash = zero_hash \<and> sizes (take (start + n) bss) = sizes bss \<and>
      forward h zero_hash (take (start + n) bss) = forward h zero_hash bss" if "start + n = length bss" using that by simp
  show ?thesis unfolding chunk_accepted_def ck chunk.simps suffix total forwards lcs(2,3)
    using n(2,3,4) lcs(1) len sz hash seals pairs last sizes_take_le [of "start + n" bss] by metis
qed

lemma prepare_append_at:
  assumes p: "program_of h to_vec m cs bss" and n: "0 < n" "start + n \<le> length bss" "n \<le> CHUNK_RECORDS" "sizes (take n (drop start bss)) \<le> CHUNK_BYTES"
    and ck: "ck = \<lparr>ck_start = of_nat start, ck_previous = forward h zero_hash (take start bss), ck_next = backward h (drop (start + n) bss) zero_hash,
      ck_records = take n (drop start cs)\<rparr>"
  shows "prepare_append h to_vec m ck (progress_at h bss start) = Ok (progress_at h bss (start + n), take n (drop start (program_rows h bss)))"
proof -
  let ?bss = "take n (drop start bss)"
  let ?rs = "prepared h start (forward h zero_hash (take start bss)) (zip (ck_records ck) (zip ?bss (backwards h ?bss (ck_next ck))))"
  have len: "length bss < 2 ^ 64" "length cs = length bss" "sizes bss < 2 ^ 64"
    using p list_all2_lengthD [of _ cs bss] unat_u64_less [of "mf_commands m"] unat_u64_less [of "mf_input_bytes m"] by (auto simp: program_of_def)
  have lcs: "length (ck_records ck) = length ?bss" "length ?bss = n" using n(2) len(2) ck by simp_all
  have start: "start < 2 ^ 64" "sizes (take start bss) < 2 ^ 64" using n(2) len sizes_take_le [of start bss] by linarith+
  have split: "take (start + n) bss = take start bss @ ?bss" by (simp add: take_add)
  have "progress_at h bss (start + n) = pg_of (start + length ?bss) (sizes (take start bss) + sizes ?bss)
      (forward h (forward h zero_hash (take start bss)) ?bss) (ck_next ck)"
    unfolding progress_at_def ck split lcs(2) by simp
  with chunk_accepted_at [OF assms]
  have run: "prepare_append h to_vec m ck (progress_at h bss start) = Ok (progress_at h bss (start + n), ?rs)"
    unfolding progress_at_def [of h bss start] prepare_append_of [OF start] stream_suffixes_eq snd_conv by blast
  have bytes: "map pr_bytes ?rs = ?bss" unfolding prepared_bytes by (rule zip3_projections [OF lcs(1) length_backwards])
  then have count: "length ?rs = n" using lcs(2) by (metis length_map)
  have "bss = take start bss @ map pr_bytes ?rs @ drop (start + n) bss" unfolding bytes by (metis add.commute append_take_drop_id drop_drop)
  moreover have "pg_remaining (progress_at h bss (start + n)) = backward h (drop (start + n) bss) zero_hash" by (simp add: progress_at_def pg_of_def)
  moreover have "start \<le> length bss" using n(2) by simp
  ultimately have "?rs = take n (drop start (program_rows h bss))" using advances_rows [OF chunk_advances [OF run] _ _ _ len(1,3)] count by metis
  with run show ?thesis by simp
qed

text \<open>Serving a chunk from a received prefix, up to the loop over the rows and then after it.\<close>

lemma program_chunk_at:
  assumes h: "digest_ok h" and le: "start \<le> held" "held \<le> length bss" "length bss < 2 ^ 63"
    and budget: "0 < records" "records \<le> CHUNK_RECORDS" "0 < maximum" "maximum \<le> CHUNK_BYTES"
  shows "program_chunk h to_vec from_slice no_rows (take held (program_rows h bss)) (progress_at h bss held) (of_nat start) records maximum =
    and_then (read_rows h to_vec from_slice (reader_at h cs bss start records maximum 0)
        (map (program_row h bss) [start..<start + min records (held - start)])) (\<lambda>reader.
      and_then (expect (reader_end reader)) (\<lambda>stop.
      and_then (if stop = of_nat held then Ok (backward h (drop held bss) zero_hash)
        else and_then (query_row no_rows (map (program_row h bss) [0..<held]) stop) (\<lambda>row. catalog_key (take 33 (pr_suffix row)))) (\<lambda>next_hash.
        reader_finish (of_nat held) next_hash reader)))"
proof -
  have w: "unat (of_nat start :: u64) = start" "unat (of_nat held :: u64) = held" using le by (simp_all add: u64_unat_of_nat)
  have order: "\<not> (of_nat held :: u64) < of_nat start" unfolding word_less_nat_alt w using le(1) by simp
  have previous: "(if (of_nat start :: u64) = 0 then Ok zero_hash
      else and_then (query_row no_rows (map (program_row h bss) [0..<held]) (of_nat start - 1)) (\<lambda>row. catalog_key (take 33 (pr_hash row)))) =
      Ok (forward h zero_hash (take start bss))"
  proof (cases start)
    case (Suc k)
    have "(of_nat start :: u64) \<noteq> 0" using w(1) Suc by (metis nat.distinct(1) unat_0)
    moreover have "(of_nat start :: u64) - 1 = of_nat k" by (simp add: Suc)
    moreover have "query_row no_rows (map (program_row h bss) [0..<held]) (of_nat k) = Ok (program_row h bss k)"
      using Suc le by (intro find_program_row) simp_all
    ultimately show ?thesis using Suc by (simp add: program_row_def forward_key [OF h] catalog_key_def del: of_nat_Suc)
  qed simp
  have rows: "take records (map (program_row h bss) [start..<held]) = map (program_row h bss) [start..<start + min records (held - start)]"
    using le by (simp add: take_map min_def)
  have reader: "reader_new (of_nat start) (forward h zero_hash (take start bss)) records maximum = Ok (reader_at h cs bss start records maximum 0)"
    using budget by (simp add: reader_new_def reader_at_def)
  have ordinal: "program_ordinal (of_nat start) = Ok (of_nat start)" using w(1) le by (simp add: program_ordinal_def)
  have commands: "pg_commands (progress_at h bss held) = of_nat held" "pg_remaining (progress_at h bss held) = backward h (drop held bss) zero_hash"
    by (simp_all add: progress_at_def pg_of_def)
  have from_start: "filter (\<lambda>row. of_nat start \<le> pr_position row) (map (program_row h bss) [0..<held]) = map (program_row h bss) [start..<held]"
    using le by (intro rows_from) simp_all
  show ?thesis
    unfolding program_chunk_def held_rows [OF le(2)] commands previous if_not_P [OF order]
    unfolding and_then.simps ordinal reader from_start rows ..
qed

lemma chunk_tail_at:
  assumes h: "digest_ok h" and le: "start + n \<le> held" "held \<le> length bss" "length bss < 2 ^ 63" "length cs = length bss" and n: "0 < n \<or> start = held"
  shows "and_then (expect (reader_end (reader_at h cs bss start records maximum n))) (\<lambda>stop.
      and_then (if stop = of_nat held then Ok (backward h (drop held bss) zero_hash)
        else and_then (query_row no_rows (map (program_row h bss) [0..<held]) stop) (\<lambda>row. catalog_key (take 33 (pr_suffix row)))) (\<lambda>next_hash.
        reader_finish (of_nat held) next_hash (reader_at h cs bss start records maximum n))) =
    Ok \<lparr>ck_start = of_nat start, ck_previous = forward h zero_hash (take start bss), ck_next = backward h (drop (start + n) bss) zero_hash,
      ck_records = take n (drop start cs)\<rparr>"
proof -
  have w: "unat (of_nat start :: u64) = start" "unat (of_nat held :: u64) = held" "unat (of_nat (start + n) :: u64) = start + n"
    using le by (simp_all add: u64_unat_of_nat del: of_nat_add)
  have stop: "reader_end (reader_at h cs bss start records maximum n) = Some (of_nat (start + n))"
    using le by (intro reader_end_at) simp_all
  have eq: "(of_nat (start + n) :: u64) = of_nat held \<longleftrightarrow> start + n = held" using w by metis
  have suffix: "(if (of_nat (start + n) :: u64) = of_nat held then Ok (backward h (drop held bss) zero_hash)
      else and_then (query_row no_rows (map (program_row h bss) [0..<held]) (of_nat (start + n))) (\<lambda>row. catalog_key (take 33 (pr_suffix row)))) =
      Ok (backward h (drop (start + n) bss) zero_hash)"
  proof (cases "start + n = held")
    case False
    have "query_row no_rows (map (program_row h bss) [0..<held]) (of_nat (start + n)) = Ok (program_row h bss (start + n))"
      using False le by (intro find_program_row) simp_all
    then show ?thesis
      unfolding eq if_not_P [OF False] by (simp add: program_row_def backward_key [OF h] catalog_key_def del: of_nat_add)
  qed simp
  have order: "\<not> (of_nat held :: u64) < of_nat start" "\<not> (of_nat held :: u64) < of_nat (start + n)" "(of_nat start :: u64) < of_nat held \<longleftrightarrow> start < held"
    unfolding word_less_nat_alt w using le(1) by simp_all
  have "start < held \<longrightarrow> take n (drop start cs) \<noteq> []" using n le by auto
  then have "reader_finish (of_nat held) (backward h (drop (start + n) bss) zero_hash) (reader_at h cs bss start records maximum n) =
    Ok \<lparr>ck_start = of_nat start, ck_previous = forward h zero_hash (take start bss), ck_next = backward h (drop (start + n) bss) zero_hash,
      ck_records = take n (drop start cs)\<rparr>"
    unfolding reader_finish_def stop using order by (auto simp: reader_at_def simp del: of_nat_add)
  then show ?thesis unfolding stop expect.simps option.case and_then.simps suffix .
qed

text \<open>A program of two commands, with an encoding and an injective function in the place of the JSON library and SHA-256.\<close>

definition example_encoder :: "command to_vec" where
  "example_encoder c = (if c = CmdReflexivity 7 then Ok [1] else if c = CmdSeal 0 then Ok [2] else Err (PText ''command''))"

definition example_decoder :: "command from_slice" where
  "example_decoder bs = (if bs = [1] then Ok (CmdReflexivity 7) else if bs = [2] then Ok (CmdSeal 0) else Err (PText ''bytes''))"

definition example_hash :: hash where
  "example_hash bs = bs"

definition example_commands :: "command list" where
  "example_commands = [CmdReflexivity 7, CmdSeal 0]"

definition example_records :: "bytes list" where
  "example_records = [[1], [2]]"

definition example_manifest_of :: "hash \<Rightarrow> manifest" where
  "example_manifest_of h = \<lparr>mf_commands = 2, mf_input_bytes = 2, mf_program_hash = forward h zero_hash example_records,
     mf_stream_root = backward h example_records zero_hash, mf_conclusion = zero_hash, mf_statement = zero_hash\<rparr>"

definition example_manifest :: manifest where
  "example_manifest = example_manifest_of example_hash"

lemma example_program_of: "program_of h example_encoder (example_manifest_of h) example_commands example_records"
  unfolding program_of_def seals_last_Cons example_commands_def
  by (simp add: example_records_def example_manifest_of_def encode_command_def example_encoder_def RECORD_BYTES_def seals_last_def)

lemma example_program: "program_of example_hash example_encoder example_manifest example_commands example_records"
  unfolding example_manifest_def by (rule example_program_of)

lemma example_received:
  "receives example_hash example_encoder example_manifest (progress_start example_manifest) (program_rows example_hash example_records)
     (progress_at example_hash example_records 2)"
proof -
  have small: "0 < (2 :: nat)" "0 + 2 \<le> length example_records" "2 \<le> CHUNK_RECORDS" "sizes (take 2 (drop 0 example_records)) \<le> CHUNK_BYTES"
    by (simp_all add: example_records_def CHUNK_RECORDS_def CHUNK_BYTES_def)
  have start: "progress_start example_manifest = progress_at example_hash example_records 0"
    by (simp add: progress_start_def progress_at_def pg_of_def example_manifest_def example_manifest_of_def)
  have rows: "take 2 (drop 0 (program_rows example_hash example_records)) @ [] = program_rows example_hash example_records"
    by (simp add: program_rows_def example_records_def)
  show ?thesis
    using receives.receives_chunk [OF prepare_append_at [OF example_program small refl] receives.receives_nothing] unfolding start rows add_0 .
qed

text \<open>C17. A program cannot be forged in transit. Whatever chunks a peer sends, the records accepted against the manifest of a
  program are the rows of exactly that program from its start, with its positions, running hashes and suffix commitments,
  and the progress is the one of that prefix; once the declared number of commands has arrived the transfer is the
  whole program and complete. The only alternative is a pair of distinct inputs with the same SHA-256 hash
  among the frames the two sides hashed.\<close>

theorem transfer_is_authentic:
  assumes "length bss = unat (mf_commands m)" "mf_commands m \<noteq> 0" "sizes bss = unat (mf_input_bytes m)" "mf_stream_root m = backward h bss zero_hash"
    "\<forall>b\<in>set bss. length b \<le> RECORD_BYTES" "receives h to_vec m (progress_start m) rs pg"
  shows "rs = take (length rs) (program_rows h bss) \<and> pg = progress_at h bss (length rs) \<and>
      (pg_commands pg = mf_commands m \<longrightarrow> rs = program_rows h bss \<and> require_complete pg m = Ok ()) \<or>
    collision h (stream_frames h (map pr_bytes rs) (pg_remaining pg) @ stream_frames h bss zero_hash)" (is "_ \<or> collision h ?frames")
proof -
  have small: "length bss < 2 ^ 64" "sizes bss < 2 ^ 64" using assms(1,3) unat_u64_less by metis+
  have start: "progress_start m = progress_at h bss 0" by (simp add: progress_start_def progress_at_def pg_of_def assms(4))
  have adv: "advances h m (progress_at h bss 0) rs pg" using receives_advances [OF assms(6)] unfolding start .
  have "check_progress m (progress_start m) = Ok ()" using assms(2) by (simp add: check_progress_Ok progress_start_def)
  then have checked: "check_progress m pg = Ok ()" by (rule receives_checks_progress [OF assms(6)])
  have count: "unat (pg_commands pg) = length rs" using adv by (simp add: advances_def progress_at_def pg_of_def)
  have le: "length rs \<le> length bss" using checked count assms(1) by (simp add: check_progress_Ok word_le_nat_alt)
  have root: "backward h (map pr_bytes rs) (pg_remaining pg) = backward h bss zero_hash" using adv by (simp add: advances_def progress_at_def pg_of_def)
  have short: "\<forall>b\<in>set (map pr_bytes rs) \<union> set bss. length b < 2 ^ 64"
    using adv assms(5) by (fastforce simp: advances_def RECORD_BYTES_def)
  have "prefix (map pr_bytes rs) bss \<or> collision h ?frames"
    using backward_prefix [OF root short]
  proof (elim disjE)
    assume "prefix bss (map pr_bytes rs)"
    then obtain zs where "map pr_bytes rs = bss @ zs" by (auto simp: prefix_def)
    moreover from this have "zs = []" using le by (metis add_le_same_cancel1 le_zero_eq length_0_conv length_append length_map)
    ultimately show ?thesis by simp
  qed simp_all
  then show ?thesis
  proof
    assume "prefix (map pr_bytes rs) bss"
    then obtain zs where zs: "bss = map pr_bytes rs @ zs" by (auto simp: prefix_def)
    then have "pg_remaining pg = backward h zs zero_hash \<or> collision h ?frames"
      using backward_cancel [of h "map pr_bytes rs" "pg_remaining pg" zs zero_hash] root short by simp
    moreover have "require_complete pg m = Ok ()" "length rs = length (program_rows h bss)" if "pg_commands pg = mf_commands m"
      using that checked count assms(1) by (simp_all add: check_progress_Ok require_complete_def program_rows_def)
    moreover have "bss = take 0 bss @ map pr_bytes rs @ zs" using zs by simp
    note advances_rows [OF adv this le0 _ small]
    ultimately show ?thesis unfolding drop_0 add_0 by (metis order_refl take_all)
  qed blast
qed

theorem transfer_is_authentic_witness:
  "receives example_hash example_encoder example_manifest (progress_start example_manifest) (program_rows example_hash example_records)
     (progress_at example_hash example_records 2) \<and>
   require_complete (progress_at example_hash example_records 2) example_manifest = Ok ()"
proof -
  have program: "length example_records = unat (mf_commands example_manifest)" "mf_commands example_manifest \<noteq> 0"
    "sizes example_records = unat (mf_input_bytes example_manifest)" "mf_stream_root example_manifest = backward example_hash example_records zero_hash"
    "\<forall>b\<in>set example_records. length b \<le> RECORD_BYTES"
    by (simp_all add: example_records_def example_manifest_def example_manifest_of_def RECORD_BYTES_def)
  have "\<not> collision example_hash frames" for frames by (simp add: collision_def example_hash_def)
  moreover have "pg_commands (progress_at example_hash example_records 2) = mf_commands example_manifest"
    by (simp add: progress_at_def pg_of_def example_manifest_def example_manifest_of_def)
  ultimately show ?thesis using transfer_is_authentic [OF program example_received] example_received by blast
qed

text \<open>C18. What a node serves from a received prefix of a program that its manifest describes, for every position and every budget
  the reader allows, with a database that stores the rows it is given (and less than \<open>2 ^ 63\<close> of them, as it refuses more) and a JSON library
  that reads back what it writes. At a position it holds, a chunk that is not empty where the record at that position fits the byte budget:
  a receiver that stands there accepts it, stores exactly the rows of the sender and moves past them. Where that record is larger than the
  budget, the error that says so and no chunk (a budget below \<open>RECORD_BYTES\<close> is possible: the network serves with
  half of the proof limit, between 256 and \<open>CHUNK_BYTES\<close>). At the end of the prefix an empty chunk, and past it an error.\<close>

theorem stored_chunks_are_accepted:
  assumes "program_of h to_vec m cs bss" "\<forall>c b. to_vec c = Ok b \<longrightarrow> from_slice b = Ok c" "digest_ok h" "held \<le> length bss" "length bss < 2 ^ 63"
    "0 < records" "records \<le> CHUNK_RECORDS" "0 < maximum" "maximum \<le> CHUNK_BYTES" "start < 2 ^ 64"
    "served = program_chunk h to_vec from_slice no_rows (take held (program_rows h bss)) (progress_at h bss held) (of_nat start) records maximum"
  shows "(start < held \<and> length (bss ! start) \<le> maximum \<longrightarrow>
      (\<exists>n ck. 0 < n \<and> n \<le> records \<and> start + n \<le> held \<and> served = Ok ck \<and>
        prepare_append h to_vec m ck (progress_at h bss start) = Ok (progress_at h bss (start + n), take n (drop start (program_rows h bss))))) \<and>
    (start < held \<and> maximum < length (bss ! start) \<longrightarrow> served = Err (PText ''program record exceeds chunk budget'')) \<and>
    (start = held \<longrightarrow> (\<exists>ck. served = Ok ck \<and> ck_records ck = [])) \<and>
    (held < start \<longrightarrow> served = Err (PText ''program cursor exceeds received prefix''))"
proof -
  have enc: "list_all2 (\<lambda>c b. encode_command to_vec c = Ok b) cs bss" and len: "length bss < 2 ^ 64" "length cs = length bss"
    using assms(1,5) list_all2_lengthD [of _ cs bss] by (auto simp: program_of_def)
  let ?d = "min records (held - start)"
  note at = program_chunk_at [OF assms(3) _ assms(4-9), where cs = cs]
  note tail = chunk_tail_at [OF assms(3) _ assms(4,5) len(2)]
  show ?thesis
  proof (intro conjI impI; (elim conjE)?)
    assume fit: "start < held" "length (bss ! start) \<le> maximum"
    have fits: "start + 0 + ?d \<le> length bss" "sizes (take 0 (drop start bss)) \<le> maximum" "0 \<le> records" using fit assms(4) by simp_all
    from read_rows_at [OF enc assms(2) len(1) assms(3,6) fit(2) fits]
    obtain n where n: "n \<le> ?d" "0 < n" "sizes (take n (drop start bss)) \<le> maximum"
      "read_rows h to_vec from_slice (reader_at h cs bss start records maximum 0) (map (program_row h bss) [start..<start + ?d]) =
        Ok (reader_at h cs bss start records maximum n)" using fit(1) assms(6) by auto
    have le: "start + n \<le> held" "n \<le> records" using n(1) fit(1) by linarith+
    let ?ck = "\<lparr>ck_start = of_nat start, ck_previous = forward h zero_hash (take start bss), ck_next = backward h (drop (start + n) bss) zero_hash,
      ck_records = take n (drop start cs)\<rparr> :: chunk"
    have "served = Ok ?ck" unfolding assms(11) at [OF less_imp_le [OF fit(1)]] n(4) and_then.simps using n(2) by (intro tail [OF le(1)]) simp
    moreover have "prepare_append h to_vec m ?ck (progress_at h bss start) = Ok (progress_at h bss (start + n), take n (drop start (program_rows h bss)))"
      using n le assms by (intro prepare_append_at) simp_all
    ultimately show "\<exists>n ck. 0 < n \<and> n \<le> records \<and> start + n \<le> held \<and> served = Ok ck \<and>
        prepare_append h to_vec m ck (progress_at h bss start) = Ok (progress_at h bss (start + n), take n (drop start (program_rows h bss)))"
      using n(2) le by blast
  next
    assume large: "start < held" "maximum < length (bss ! start)"
    then obtain d where d: "?d = Suc d" using assms(6) by (cases ?d) auto
    have "start + 0 < length bss" using large(1) assms(4) by simp
    from read_rows_step [OF enc assms(2) len(1) assms(3) this, of records maximum d] large(2)
    show "served = Err (PText ''program record exceeds chunk budget'')"
      unfolding assms(11) at [OF less_imp_le [OF large(1)]] d by (simp del: upt_Suc)
  next
    assume stop: "start = held"
    then have none: "[start..<start + ?d] = []" by simp
    have "served = Ok \<lparr>ck_start = of_nat start, ck_previous = forward h zero_hash (take start bss),
        ck_next = backward h (drop (start + 0) bss) zero_hash, ck_records = take 0 (drop start cs)\<rparr>"
      unfolding assms(11) at [OF eq_imp_le [OF stop]] none list.map read_rows.simps and_then.simps
      using stop by (intro tail) simp_all
    then show "\<exists>ck. served = Ok ck \<and> ck_records ck = []" by simp
  next
    assume "held < start"
    moreover have "unat (of_nat start :: u64) = start" "unat (of_nat held :: u64) = held" using assms(4,10) len by (intro u64_unat_of_nat; linarith)+
    ultimately have "(of_nat held :: u64) < of_nat start" unfolding word_less_nat_alt by simp
    then show "served = Err (PText ''program cursor exceeds received prefix'')"
      unfolding assms(11) program_chunk_def by (simp add: progress_at_def pg_of_def)
  qed
qed

theorem stored_chunks_are_accepted_witness:
  "(\<exists>n ck. 0 < n \<and> n \<le> 1 \<and>
    program_chunk tail_digest example_encoder example_decoder (PText ''no rows'') (take 2 (program_rows tail_digest example_records))
      (progress_at tail_digest example_records 2) (of_nat 1) 1 256 = Ok ck \<and>
    prepare_append tail_digest example_encoder (example_manifest_of tail_digest) ck (progress_at tail_digest example_records 1) =
      Ok (progress_at tail_digest example_records (1 + n), take n (drop 1 (program_rows tail_digest example_records)))) \<and>
   program_chunk tail_digest example_encoder example_decoder (PText ''no rows'') (take 2 (program_rows tail_digest example_records))
      (progress_at tail_digest example_records 2) (of_nat 3) 1 256 = Err (PText ''program cursor exceeds received prefix'')"
proof -
  have json: "\<forall>c b. example_encoder c = Ok b \<longrightarrow> example_decoder b = Ok c" by (simp add: example_encoder_def example_decoder_def)
  have "length example_records = 2" by (simp add: example_records_def)
  then have small: "2 \<le> length example_records" "length example_records < 2 ^ 63" "0 < (1 :: nat)" "1 \<le> CHUNK_RECORDS" "0 < (256 :: nat)" "256 \<le> CHUNK_BYTES"
    by (simp_all add: CHUNK_RECORDS_def CHUNK_BYTES_def)
  note served = stored_chunks_are_accepted [OF example_program_of json tail_digest_ok small]
  have "length (example_records ! 1) \<le> 256" by (simp add: example_records_def)
  with served [of 1, OF _ refl] served [of 3, OF _ refl] show ?thesis by simp
qed

end
