(* ===== verification/Spec2Isabelle.thy ===== *)
theory Spec2Isabelle
  imports Calculus Certificate_Codec Set_Fingerprint Artifact_Payload Formula_Graph Question_Round_Trip Nao_Correctness Program_Stream
begin

text \<open>
  NAOME keeps a growing set of machine-checked theorems of Zermelo-Fraenkel set theory with choice. A participant
  writes a proof, a small kernel checks it, and the checked conclusion is registered under content
  identities; nodes exchange and replicate what they registered. This development models the part of the
  program on which the trust in a registered statement rests, from the formula trees to the registered state.

  \<^bold>\<open>The parts of the program and how they interact.\<close>

  \<^item> \<open>naome-foundation\<close> holds the formulas, their canonical bytes, the primitive calculus and the ZFC axioms.
  \<^item> \<open>naome-proof\<close> holds the certificates: steps that name rules of the calculus, cite registered proofs and use
    registered definitions, with their codec, their normal form and their content identities.
  \<^item> \<open>naome-checker\<close> reconstructs the conclusion of a certificate in a context of checked artifacts and
    registers it there; the context keeps a structural index of what it knows.
  \<^item> \<open>naome-authoring\<close> compiles the text of a proof to a certificate, \<open>naome-storage\<close> and \<open>naome-knowledge\<close> store,
    exchange and schedule artifacts around the kernel.

  \<^bold>\<open>Conventions.\<close> A Rust function that returns a \<open>Result\<close> is a function to \<open>outcome\<close>, whose \<open>Panic\<close> is a failed
  \<open>expect\<close>, index or assertion; a function without a \<open>Result\<close> that may panic returns an \<open>option\<close>. Integers of a
  fixed width are words; a \<open>usize\<close> that counts bytes, nodes or positions is a natural number. SHA-256 is the
  parameter \<open>h\<close> and the hypothesis \<open>digest_ok\<close> says that a digest has 32 bytes; no theorem assumes that digests
  do not collide. Recursion of the source is structural recursion here; the only loops without a structural
  measure are the stack machine of normalization, which runs in \<open>option\<close> and is proved to return, the
  decoders, which carry the depth limit of the source, and the parsers. The formula grammar carries
  \<open>FORMULA_MAX_DEPTH + 1\<close> as fuel, which suffices because the code checks every descent against that limit, the
  nesting of function terms carries \<open>FORMULA_MAX_DEPTH\<close>, because a nested call adds to a depth that is checked too, the
  loops over declarations, bindings and schema parameters carry the length of the source, of which every round consumes a
  byte, and the loops over proof steps and definition parameters stop at the limit that the code
  tests; running out is \<open>Panic\<close> and is proved not to happen.

  \<^bold>\<open>Theories.\<close>

  \<^item> \<open>Naome_Prelude\<close>: \<open>outcome\<close>, checked arithmetic, big-endian integers, the byte cursor of every decoder.
  \<^item> \<open>Formula\<close>, \<open>Semantics\<close> (\<open>formula.rs\<close>): locally nameless trees and every constructor, with the invariant
    \<open>well_formed\<close> that the private type protects, and their truth in an arbitrary structure. Each constructor is proved to
    mean its connective or quantifier.
  \<^item> \<open>Logic\<close>, \<open>Zfc\<close>, \<open>Calculus\<close> (\<open>construction.rs\<close>, \<open>logic.rs\<close>, \<open>zfc.rs\<close>): expression templates and their evaluation;
    the axioms are shown to be the textbook axioms, the schemas to state separation and replacement, and
    the calculus to be sound.
  \<^item> \<open>Formula_Codec\<close> (\<open>formula/canonical.rs\<close>): encoder, decoder, node and depth limits, the form with
    renumbered free variables, and the ranges of an implication spine.
  \<^item> \<open>Defined_Formula\<close>, \<open>Defined_Codec\<close>, \<open>Defined_Expansion\<close>, \<open>Proof_Formula\<close> (\<open>defined_formula.rs\<close>,
    \<open>proof_formula.rs\<close>): formulas with applied definitions, their codec, and the bounded elimination of
    definitions, which keeps the meaning.
  \<^item> \<open>Proof_Certificate\<close>, \<open>Certificate_Codec\<close>, \<open>Definition_Certificate\<close>, \<open>Identity\<close>, \<open>Artifact_Payload\<close>
    (\<open>lib.rs\<close>, \<open>codec.rs\<close>, \<open>definition.rs\<close>, \<open>identity.rs\<close>, \<open>artifact.rs\<close> of \<open>naome-proof\<close>): structural validation, codecs
    with their byte sinks, and content identities.
  \<^item> \<open>Normal_Form\<close>, \<open>Normalization\<close> (\<open>normal_form.rs\<close>): the traversal, that it returns, and that its
    result is the part of the certificate that the conclusion needs, up to renaming.
  \<^item> \<open>Persistent_Map\<close>, \<open>Set_Fingerprint\<close> (\<open>state/persistent_map.rs\<close>, \<open>context/fingerprint.rs\<close>): the Patricia map
    as a finite map, and the fingerprint of its key set, resident and streamed.
  \<^item> \<open>Checked_Context\<close>, \<open>Checker\<close>, \<open>Checker_Soundness\<close>, \<open>Checked_Artifacts\<close> (\<open>context.rs\<close> and \<open>lib.rs\<close> of
    \<open>naome-checker\<close>): the interface to a context as a record, the checker, and its soundness inside the locale
    \<open>sound_context\<close> that states what a context promises.
  \<^item> \<open>Knowledge_Index\<close>, \<open>Artifact_State\<close>, \<open>Artifact_Soundness\<close>, \<open>Reachable_State\<close>, \<open>Checker_Properties\<close>
    (\<open>question/index.rs\<close>, \<open>question/instantiation.rs\<close>, \<open>state.rs\<close>, \<open>state/registration.rs\<close>): the resident
    context, its invariant, the states that registration reaches, and the end-to-end theorems.
  \<^item> \<open>Formula_Source\<close>, \<open>Formula_Graph\<close> (\<open>formula/source.rs\<close>, \<open>formula/comparison.rs\<close>, \<open>formula/graph.rs\<close>): the text of a
    formula through its two writers, the first mismatch of two formulas, and one-level nodes with the
    properties a store folds over them.
  \<^item> \<open>Source_Syntax\<close> (\<open>syntax.rs\<close> and \<open>syntax/formula.rs\<close> of \<open>naome-authoring\<close>): words, names, binder lists and the
    grammar of formulas over an abstract builder; the locale \<open>builder_safe\<close> states what a builder promises.
  \<^item> \<open>Question_Target\<close>, \<open>Question_Parser\<close>, \<open>Question_Properties\<close>, \<open>Question_Round_Trip\<close> (\<open>question.rs\<close> of \<open>naome-proof\<close> and
    of \<open>naome-authoring\<close>): question targets and their identities, the question language, that its
    compiler returns, that written questions compile back, and that a checked proof settles a question soundly.
  \<^item> \<open>Nao_Parser\<close>, \<open>Nao_Compiler\<close> (\<open>parser/*.rs\<close>, \<open>lib.rs\<close> and \<open>output.rs\<close> of \<open>naome-authoring\<close>): the \<open>.nao\<close> language,
    from tokens, budgets and the relational form of function terms to declarations, proof steps, definitions and
    the entry points, with the modelled checker behind them.
  \<^item> \<open>Nao_Properties\<close>, \<open>Nao_Soundness\<close>, \<open>Nao_Example\<close>, \<open>Nao_Correctness\<close>: the invariant of the parser, kept by every
    token, term and formula (an interpretation of \<open>builder_safe\<close>), declaration, step and definition; one source
    compiled in full; and that compilation returns and accepts only what the checker accepted and the source says.

  \<^item> \<open>Program_Graph\<close>, \<open>Program_Stream\<close> (\<open>program.rs\<close>, \<open>program/stream.rs\<close> of \<open>naome-proof\<close>): formula nodes in a content-addressed store,
    with their round trip and the materialization of a stored formula; and proof programs as streams of commands
    under a manifest. A receiver stores only the rows of the program that the manifest commits to, or two hashed frames
    collide, and it accepts every chunk that the reader cuts from a stored program.

  \<^bold>\<open>Not modelled.\<close> The disk-backed contexts and the program engine are SQL programs over SQLite, and
  the node (network, discovery, jobs, resource control, replication, training) is asynchronous I/O over libp2p and the operating
  system. The diagnostics attached to errors, and the inspection of a failed source that returns a part of
  them, have no influence on acceptance; of the report on a rejected \<open>.nao\<close> proof, only the encodings and look-ups
  that it expects to succeed are kept. The read cache of a check
  returns what the view it wraps returns. \<open>Drop\<close> implementations that only avoid deep recursion have no
  counterpart in a pure model.
\<close>

end
